(* ===== verification/Smg_Prelude.thy ===== *)
theory Smg_Prelude
  imports
    Main
    "HOL-Library.Word"
    "HOL-Library.AList"
    "HOL-Library.Product_Lexorder"
    "HOL-Library.List_Lexorder"
    "HOL-Library.Char_ord"
    "HOL-Library.Multiset"
begin

text \<open>
  Shared vocabulary of the development.

  Machine integers are words at their Rust width; \<open>usize\<close> counters that only index
  or measure memory are \<open>nat\<close>.  A \<open>HashMap\<close> or \<open>DashMap\<close> is an association list with
  distinct keys (the list is one iteration order of the map), read by \<open>map_of\<close> and
  written by \<open>AList.update\<close> and \<open>AList.delete\<close>.  The iterator methods
  \<open>max_by_key\<close> (last maximum) and \<open>min_by_key\<close> (first minimum) are written out
  because the code depends on which of several extremal elements they return.
\<close>

section \<open>Machine integers and bytes\<close>

type_synonym u8 = "8 word"
type_synonym u16 = "16 word"
type_synonym u32 = "32 word"
type_synonym u64 = "64 word"
type_synonym u128 = "128 word"
type_synonym bytes = "u8 list"

definition u64_max :: u64 where
  "u64_max = - 1"

definition saturating_add :: "'a::len word \<Rightarrow> 'a word \<Rightarrow> 'a word" where
  "saturating_add a b = (if unat a + unat b < 2 ^ LENGTH('a) then a + b else - 1)"

definition saturating_sub :: "'a::len word \<Rightarrow> 'a word \<Rightarrow> 'a word" where
  "saturating_sub a b = (if b \<le> a then a - b else 0)"

text \<open>\<open>u64::from_le_bytes\<close>.\<close>

definition u64_from_le_bytes :: "bytes \<Rightarrow> u64" where
  "u64_from_le_bytes bs = foldr (\<lambda>b acc. Bit_Operations.or (push_bit 8 acc) (ucast b)) bs 0"

named_theorems dmap_simps
named_theorems word_facts

lemma u64_max_ge [simp]: "x \<le> u64_max"
  by (simp add: u64_max_def)

lemma unat_below: "unat (x :: 'a::len word) < 2 ^ LENGTH('a)"
  by (rule unsigned_less)

lemma unat_all_ones: "unat (- 1 :: 'a::len word) = 2 ^ LENGTH('a) - 1"
  by (simp add: unsigned_minus_1_eq_mask mask_eq_exp_minus_1)

lemma unat_saturating_add [word_facts]:
  "unat (saturating_add a b) = min (unat a + unat b) (2 ^ LENGTH('a) - 1)"
  for a b :: "'a::len word"
proof (cases "unat a + unat b < 2 ^ LENGTH('a)")
  case True
  then show ?thesis
    by (simp add: saturating_add_def unat_word_ariths)
next
  case False
  have "unat (- 1 :: 'a word) = 2 ^ LENGTH('a) - 1"
    by (simp add: unat_all_ones)
  with False show ?thesis
    by (simp add: saturating_add_def)
qed

lemma unat_saturating_sub [word_facts]: "unat (saturating_sub a b) = unat a - unat b"
  for a b :: "'a::len word"
  by (auto simp: saturating_sub_def unat_sub word_le_nat_alt)

lemma saturating_add_ge: "a \<le> saturating_add a b"
  for a b :: "'a::len word"
proof -
  have "unat a < 2 ^ LENGTH('a)" by simp
  then show ?thesis
    unfolding word_le_nat_alt unat_saturating_add by linarith
qed

lemma saturating_add_mono: "a \<le> b \<Longrightarrow> saturating_add a c \<le> saturating_add b c"
  for a b c :: "'a::len word"
  by (simp add: word_le_nat_alt unat_saturating_add)

lemma saturating_add_one_less:
  fixes a :: u64
  assumes "a \<noteq> u64_max"
  shows "a < saturating_add a 1"
proof -
  have "unat a \<noteq> unat (- 1 :: u64)"
    using assms by (metis u64_max_def word_unat_eq_iff)
  moreover have "unat a < 2 ^ 64"
    using unsigned_less [of a] by simp
  moreover have "unat (- 1 :: u64) = 2 ^ 64 - 1"
    by (simp add: unat_all_ones)
  ultimately have "unat a + 1 < 2 ^ 64"
    by linarith
  then show ?thesis
    unfolding word_less_nat_alt unat_saturating_add by simp
qed

lemma saturating_add_u64_max [simp]: "saturating_add u64_max 1 = u64_max"
proof -
  have "unat (- 1 :: u64) = 2 ^ 64 - 1"
    by (simp add: unat_all_ones)
  then show ?thesis
    by (simp add: saturating_add_def u64_max_def)
qed

section \<open>Iterator extrema\<close>

text \<open>\<open>Iterator::max_by_key\<close>: the last element of maximal key.\<close>

fun max_by_key :: "('a \<Rightarrow> 'b::linorder) \<Rightarrow> 'a list \<Rightarrow> 'a option" where
  "max_by_key f [] = None"
| "max_by_key f (x # xs) =
     (case max_by_key f xs of
        None \<Rightarrow> Some x
      | Some y \<Rightarrow> if f y < f x then Some x else Some y)"

text \<open>\<open>Iterator::min_by_key\<close>: the first element of minimal key.\<close>

fun min_by_key :: "('a \<Rightarrow> 'b::linorder) \<Rightarrow> 'a list \<Rightarrow> 'a option" where
  "min_by_key f [] = None"
| "min_by_key f (x # xs) =
     (case min_by_key f xs of
        None \<Rightarrow> Some x
      | Some y \<Rightarrow> if f y < f x then Some y else Some x)"

lemma max_by_key_None [simp]: "max_by_key f xs = None \<longleftrightarrow> xs = []"
  by (cases xs) (auto split: option.splits)

lemma min_by_key_None [simp]: "min_by_key f xs = None \<longleftrightarrow> xs = []"
  by (cases xs) (auto split: option.splits)

lemma max_by_key_snoc:
  "max_by_key f (xs @ [y]) =
     (case max_by_key f xs of None \<Rightarrow> Some y | Some x \<Rightarrow> if f y < f x then Some x else Some y)"
  by (induction xs) (auto split: option.splits)

lemma max_by_key_in: "max_by_key f xs = Some m \<Longrightarrow> m \<in> set xs"
  by (induction xs arbitrary: m) (auto split: option.splits if_splits)

lemma min_by_key_in: "min_by_key f xs = Some m \<Longrightarrow> m \<in> set xs"
  by (induction xs arbitrary: m) (auto split: option.splits if_splits)

lemma max_by_key_ge: "max_by_key f xs = Some m \<Longrightarrow> x \<in> set xs \<Longrightarrow> f x \<le> f m"
proof (induction xs arbitrary: m x)
  case Nil
  then show ?case by simp
next
  case (Cons a xs)
  show ?case
  proof (cases "max_by_key f xs")
    case None
    with Cons.prems show ?thesis by simp
  next
    case (Some y)
    with Cons.IH have "\<And>z. z \<in> set xs \<Longrightarrow> f z \<le> f y" by blast
    with Some Cons.prems show ?thesis
      by (auto split: if_splits) (meson less_imp_le order.trans)
  qed
qed

lemma min_by_key_le: "min_by_key f xs = Some m \<Longrightarrow> x \<in> set xs \<Longrightarrow> f m \<le> f x"
proof (induction xs arbitrary: m x)
  case Nil
  then show ?case by simp
next
  case (Cons a xs)
  show ?case
  proof (cases "min_by_key f xs")
    case None
    with Cons.prems show ?thesis by simp
  next
    case (Some y)
    with Cons.IH have "\<And>z. z \<in> set xs \<Longrightarrow> f y \<le> f z" by blast
    with Some Cons.prems show ?thesis
      by (auto split: if_splits) (meson not_less order.trans)
  qed
qed

lemma max_by_key_eqI:
  assumes "m \<in> set xs" and "\<And>x. x \<in> set xs \<Longrightarrow> f x \<le> f m"
    and "\<And>x. x \<in> set xs \<Longrightarrow> f x = f m \<Longrightarrow> x = m"
  shows "max_by_key f xs = Some m"
proof (cases "max_by_key f xs")
  case None
  with assms(1) show ?thesis by simp
next
  case (Some y)
  have "f y = f m"
    using assms(2) [OF max_by_key_in [OF Some]] max_by_key_ge [OF Some assms(1)] by simp
  with assms(3) [OF max_by_key_in [OF Some]] Some show ?thesis by simp
qed

lemma max_by_key_cong_set:
  assumes "set xs = set ys" and "inj_on f (set xs)"
  shows "max_by_key f xs = max_by_key f ys"
proof (cases "max_by_key f ys")
  case None
  with assms(1) show ?thesis by simp
next
  case (Some m)
  have "max_by_key f xs = Some m"
  proof (rule max_by_key_eqI)
    show "m \<in> set xs"
      using max_by_key_in [OF Some] assms(1) by simp
    show "f x \<le> f m" if "x \<in> set xs" for x
      using max_by_key_ge [OF Some] that assms(1) by simp
    show "x = m" if "x \<in> set xs" "f x = f m" for x
      using assms that max_by_key_in [OF Some] by (auto simp: inj_on_def)
  qed
  with Some show ?thesis by simp
qed

section \<open>Maps as association lists\<close>

lemma map_of_dm_update [simp, dmap_simps]:
  "map_of (AList.update k v m) k' = (if k' = k then Some v else map_of m k')"
  by (simp add: update_conv')

lemma map_of_dm_delete [simp, dmap_simps]:
  "map_of (AList.delete k m) k' = (if k' = k then None else map_of m k')"
  by (simp add: delete_conv')

lemma dom_update_keys [dmap_simps]:
  "fst ` set (AList.update k v m) = insert k (fst ` set m)"
  by (simp add: dom_update)

lemma length_update_le: "length (AList.update k v m) \<le> Suc (length m)"
  by (induction m) auto

lemma length_update_new:
  "k \<notin> fst ` set m \<Longrightarrow> length (AList.update k v m) = Suc (length m)"
  by (induction m) auto

lemma length_update_old:
  "k \<in> fst ` set m \<Longrightarrow> length (AList.update k v m) = length m"
  by (induction m) auto

lemma map_of_filter_key:
  "map_of (filter (\<lambda>(k, v). P k) m) k = (if P k then map_of m k else None)"
  by (induction m) auto

lemma map_of_filter_entry:
  "distinct (map fst m) \<Longrightarrow>
   map_of (filter (\<lambda>(k, v). P k v) m) k
     = (case map_of m k of None \<Rightarrow> None | Some v \<Rightarrow> if P k v then Some v else None)"
proof (induction m)
  case Nil
  then show ?case by simp
next
  case (Cons a m)
  have "map_of m k = None" if "fst a = k"
    using Cons.prems that by (auto simp: map_of_eq_None_iff)
  with Cons show ?case
    by (cases a) (auto split: option.splits)
qed

lemma distinct_fst_filter: "distinct (map fst m) \<Longrightarrow> distinct (map fst (filter P m))"
  by (induction m) auto

section \<open>Lists\<close>

lemma set_takeWhile_dropWhile: "set (takeWhile P xs) \<union> set (dropWhile P xs) = set xs"
  by (metis set_append takeWhile_dropWhile_id)

lemma sort_key_mset [simp]: "mset (sort_key f xs) = mset xs"
  by simp

lemma sum_list_replicate_nat: "sum_list (replicate n (c::nat)) = n * c"
  by (induction n) auto

end
