(* ===== verification/Crdt_Operation.thy ===== *)
theory Crdt_Operation
  imports Smg_Prelude
begin

text \<open>
  The replicated key-value store's shared parts: replica identities and the Lamport clock
  (\<open>crdt_kv/replica.rs\<close>), operations and the operation log (\<open>crdt_kv/operation.rs\<close>), the
  live-byte store (\<open>crdt_kv/kv_store.rs\<close>) and the log keeper with the change report both
  engines use (\<open>crdt_kv/engine/op_log.rs\<close>).  The lemmas show that a clock tick is strictly
  newer than everything the clock has observed unless it is saturated, that compaction
  keeps exactly one folded operation per key in version order and does not depend on the
  order an unstable sort leaves equal keys in, and that the change report lists exactly
  the keys of a batch whose observable value changed.
\<close>

section \<open>Replica identity and Lamport clock\<close>

text \<open>A replica id is a UUID, ordered as its sixteen bytes: a 128-bit number.\<close>

type_synonym replica_id = u128
type_synonym version = "u64 \<times> replica_id"
type_synonym instant = nat

definition replica_id_MAX :: replica_id where
  "replica_id_MAX = - 1"

definition lamport_new :: u64 where
  "lamport_new = 0"

definition lamport_tick :: "u64 \<Rightarrow> u64" where
  "lamport_tick c = saturating_add c 1"

definition lamport_update :: "u64 \<Rightarrow> u64 \<Rightarrow> u64" where
  "lamport_update c remote_timestamp = saturating_add (max c remote_timestamp) 1"

lemma lamport_tick_gt: "c \<noteq> u64_max \<Longrightarrow> c < lamport_tick c"
  by (simp add: lamport_tick_def saturating_add_one_less)

lemma lamport_tick_ge [simp]: "c \<le> lamport_tick c"
  by (simp add: lamport_tick_def saturating_add_ge)

lemma lamport_tick_saturated [simp]: "lamport_tick u64_max = u64_max"
  by (simp add: lamport_tick_def)

lemma lamport_update_ge: "c \<le> lamport_update c r" "r \<le> lamport_update c r"
proof -
  have "max c r \<le> lamport_update c r"
    by (simp add: lamport_update_def saturating_add_ge)
  then show "c \<le> lamport_update c r" "r \<le> lamport_update c r"
    by simp_all
qed

section \<open>Operations\<close>

datatype operation =
    Insert string bytes u64 replica_id
  | Remove string u64 replica_id

fun op_key :: "operation \<Rightarrow> string" where
  "op_key (Insert key _ _ _) = key"
| "op_key (Remove key _ _) = key"

fun op_timestamp :: "operation \<Rightarrow> u64" where
  "op_timestamp (Insert _ _ timestamp _) = timestamp"
| "op_timestamp (Remove _ timestamp _) = timestamp"

fun op_replica_id :: "operation \<Rightarrow> replica_id" where
  "op_replica_id (Insert _ _ _ replica_id) = replica_id"
| "op_replica_id (Remove _ _ replica_id) = replica_id"

text \<open>The ordering key \<open>(timestamp, replica_id)\<close> the engines compare by.\<close>

definition op_version :: "operation \<Rightarrow> version" where
  "op_version op = (op_timestamp op, op_replica_id op)"

fun op_is_remove :: "operation \<Rightarrow> bool" where
  "op_is_remove (Insert _ _ _ _) = False"
| "op_is_remove (Remove _ _ _) = True"

text \<open>The bytes an operation leaves observable when it wins its key.\<close>

fun op_live :: "operation \<Rightarrow> bytes option" where
  "op_live (Insert _ value _ _) = Some value"
| "op_live (Remove _ _ _) = None"

record crdt_change =
  change_key :: string
  change_value :: "bytes option"

text \<open>Operation ids identify operations: what the shared per-node clock is for.\<close>

definition op_ids_unique :: "operation set \<Rightarrow> bool" where
  "op_ids_unique H \<longleftrightarrow> (\<forall>a \<in> H. \<forall>b \<in> H. op_version a = op_version b \<longrightarrow> a = b)"

lemma op_ids_uniqueD:
  "op_ids_unique H \<Longrightarrow> a \<in> H \<Longrightarrow> b \<in> H \<Longrightarrow> op_version a = op_version b \<Longrightarrow> a = b"
  by (auto simp: op_ids_unique_def)

lemma op_ids_unique_subset: "op_ids_unique H \<Longrightarrow> G \<subseteq> H \<Longrightarrow> op_ids_unique G"
  by (auto simp: op_ids_unique_def)

lemma op_ids_unique_in:
  assumes "op_ids_unique U" "A \<subseteq> U" "op \<in> U" "op_version op \<in> op_version ` A"
  shows "op \<in> A"
proof -
  from assms(4) obtain a where "a \<in> A" "op_version op = op_version a" by blast
  with op_ids_uniqueD [OF assms(1,3), of a] assms(2) show ?thesis by blast
qed

lemma op_ids_unique_inj_on: "op_ids_unique H \<longleftrightarrow> inj_on op_version H"
  by (auto simp: op_ids_unique_def inj_on_def)

lemma op_ids_unique_insert:
  "op_version op \<notin> op_version ` H \<Longrightarrow> op_ids_unique (insert op H) = op_ids_unique H"
  unfolding op_ids_unique_inj_on by (simp add: inj_on_insert) blast

section \<open>The operation log\<close>

definition AUTO_COMPACT_THRESHOLD :: nat where
  "AUTO_COMPACT_THRESHOLD = 10000"

definition truncate_oldest_over_threshold :: "operation list \<Rightarrow> operation list \<times> nat" where
  "truncate_oldest_over_threshold ops =
     (if length ops \<le> AUTO_COMPACT_THRESHOLD then (ops, 0)
      else let keep = AUTO_COMPACT_THRESHOLD * 3 div 4;
               drain_count = length ops - keep
           in (drop drain_count ops, drain_count))"

text \<open>
  The scan of \<open>compact_by_key\<close>: contiguous runs of one key, each replaced by its fold (or
  dropped when the fold has no winner).
\<close>

function fold_runs :: "(operation list \<Rightarrow> operation option) \<Rightarrow> operation list \<Rightarrow> operation list"
  where
  "fold_runs fold_ops [] = []"
| "fold_runs fold_ops (op # ops) =
     (let run = op # takeWhile (\<lambda>o'. op_key o' = op_key op) ops;
          rest = dropWhile (\<lambda>o'. op_key o' = op_key op) ops
      in (case fold_ops run of
            Some winner \<Rightarrow> winner # fold_runs fold_ops rest
          | None \<Rightarrow> fold_runs fold_ops rest))"
  by pat_completeness auto
termination
  by (relation "measure (\<lambda>(f, ops). length ops)") (auto simp: length_dropWhile_le le_imp_less_Suc)

definition compact_by_key ::
    "(operation list \<Rightarrow> operation option) \<Rightarrow> operation list \<Rightarrow> operation list" where
  "compact_by_key fold_ops ops =
     sort_key op_version (fold_runs fold_ops (sort_key op_key ops))"

section \<open>The live-byte store\<close>

record kv_store =
  kv_map :: "(string \<times> bytes) list"
  kv_generation :: u64

definition kv_new :: kv_store where
  "kv_new = \<lparr>kv_map = [], kv_generation = 0\<rparr>"

definition kv_insert :: "string \<Rightarrow> bytes \<Rightarrow> kv_store \<Rightarrow> kv_store \<times> bytes option" where
  "kv_insert key value s =
     (s\<lparr>kv_map := AList.update key value (kv_map s), kv_generation := kv_generation s + 1\<rparr>,
      map_of (kv_map s) key)"

definition kv_get :: "kv_store \<Rightarrow> string \<Rightarrow> bytes option" where
  "kv_get s key = map_of (kv_map s) key"

definition kv_remove :: "string \<Rightarrow> kv_store \<Rightarrow> kv_store \<times> bytes option" where
  "kv_remove key s =
     (s\<lparr>kv_map := AList.delete key (kv_map s), kv_generation := kv_generation s + 1\<rparr>,
      map_of (kv_map s) key)"

definition kv_contains_key :: "kv_store \<Rightarrow> string \<Rightarrow> bool" where
  "kv_contains_key s key \<longleftrightarrow> key \<in> set (map fst (kv_map s))"

definition kv_len :: "kv_store \<Rightarrow> nat" where
  "kv_len s = length (kv_map s)"

definition kv_keys :: "kv_store \<Rightarrow> string list" where
  "kv_keys s = map fst (kv_map s)"

definition kv_wf :: "kv_store \<Rightarrow> bool" where
  "kv_wf s \<longleftrightarrow> distinct (map fst (kv_map s))"

lemma kv_get_new [simp]: "kv_get kv_new k = None" and kv_wf_new [simp]: "kv_wf kv_new"
  by (simp_all add: kv_get_def kv_wf_def kv_new_def)

lemma kv_contains_key_get: "kv_contains_key s k \<longleftrightarrow> kv_get s k \<noteq> None"
  by (auto simp: kv_contains_key_def kv_get_def map_of_eq_None_iff)

lemma kv_get_insert [simp]: "kv_get (fst (kv_insert k v s)) = (kv_get s)(k \<mapsto> v)"
  by (auto simp: kv_get_def kv_insert_def)

lemma kv_get_remove [simp]: "kv_get (fst (kv_remove k s)) = (kv_get s)(k := None)"
  by (auto simp: kv_get_def kv_remove_def)

lemma snd_kv_remove [simp]: "snd (kv_remove k s) = kv_get s k"
  by (simp add: kv_get_def kv_remove_def)

lemma kv_wf_insert [simp]: "kv_wf s \<Longrightarrow> kv_wf (fst (kv_insert k v s))"
  by (simp add: kv_wf_def kv_insert_def distinct_update)

lemma kv_wf_remove [simp]: "kv_wf s \<Longrightarrow> kv_wf (fst (kv_remove k s))"
  by (simp add: kv_wf_def kv_remove_def distinct_delete)

lemma set_kv_keys: "set (kv_keys s) = {k. kv_contains_key s k}"
  by (auto simp: kv_keys_def kv_contains_key_def)

section \<open>The log keeper\<close>

record op_log_keeper =
  keeper_ops :: "operation list"
  keeper_generation :: u64

definition keeper_new :: op_log_keeper where
  "keeper_new = \<lparr>keeper_ops = [], keeper_generation = 0\<rparr>"

definition compact_trigger :: "nat \<Rightarrow> nat" where
  "compact_trigger tracked_keys = max (tracked_keys * 2) 64"

definition keeper_append ::
    "operation \<Rightarrow> nat \<Rightarrow> (operation list \<Rightarrow> operation option) \<Rightarrow> op_log_keeper \<Rightarrow> op_log_keeper"
  where
  "keeper_append op tracked_keys fold_ops k =
     (let ops = keeper_ops k @ [op];
          generation = keeper_generation k + 1
      in if 64 < length ops \<and> compact_trigger tracked_keys < length ops
         then k\<lparr>keeper_ops := fst (truncate_oldest_over_threshold (compact_by_key fold_ops ops)),
                keeper_generation := generation\<rparr>
         else k\<lparr>keeper_ops := ops, keeper_generation := generation\<rparr>)"

definition keeper_merge_batch ::
    "operation list \<Rightarrow> (operation list \<Rightarrow> operation option) \<Rightarrow> op_log_keeper \<Rightarrow> op_log_keeper"
  where
  "keeper_merge_batch ops fold_ops k =
     k\<lparr>keeper_ops := compact_by_key fold_ops (keeper_ops k @ ops),
       keeper_generation := keeper_generation k + 1\<rparr>"

definition keeper_retain :: "(operation \<Rightarrow> bool) \<Rightarrow> op_log_keeper \<Rightarrow> op_log_keeper" where
  "keeper_retain keep k =
     k\<lparr>keeper_ops := filter keep (keeper_ops k),
       keeper_generation := keeper_generation k + 1\<rparr>"

definition keeper_export :: "op_log_keeper \<Rightarrow> operation list" where
  "keeper_export k = keeper_ops k"

lemma keeper_append_generation:
  "keeper_generation (keeper_append op n f l) = keeper_generation l + 1"
  by (simp add: keeper_append_def Let_def)

lemma keeper_merge_batch_generation:
  "keeper_generation (keeper_merge_batch ops f l) = keeper_generation l + 1"
  by (simp add: keeper_merge_batch_def)

section \<open>Change reports\<close>

fun values_before_from ::
    "(string \<Rightarrow> bytes option) \<Rightarrow> operation list \<Rightarrow> (string \<times> bytes option) list
       \<Rightarrow> (string \<times> bytes option) list" where
  "values_before_from current [] before = before"
| "values_before_from current (op # ops) before =
     values_before_from current ops
       (if op_key op \<in> set (map fst before) then before
        else AList.update (op_key op) (current (op_key op)) before)"

definition values_before ::
    "operation list \<Rightarrow> (string \<Rightarrow> bytes option) \<Rightarrow> (string \<times> bytes option) list" where
  "values_before ops current = values_before_from current ops []"

definition changes ::
    "(string \<times> bytes option) list \<Rightarrow> (string \<Rightarrow> bytes option) \<Rightarrow> crdt_change list" where
  "changes before current =
     map (\<lambda>(key, prior). \<lparr>change_key = key, change_value = current key\<rparr>)
       (filter (\<lambda>(key, prior). current key \<noteq> prior) before)"

section \<open>Lemmas on compaction\<close>

declare fold_runs.simps(2) [simp del]

definition ops_for :: "string \<Rightarrow> operation list \<Rightarrow> operation list" where
  "ops_for key ops = filter (\<lambda>op. op_key op = key) ops"

lemma ops_for_simps [simp]:
  "ops_for k [] = []"
  "ops_for k (x # xs) = (if op_key x = k then x # ops_for k xs else ops_for k xs)"
  "ops_for k (xs @ ys) = ops_for k xs @ ops_for k ys"
  by (simp_all add: ops_for_def)

lemma set_ops_for [simp]: "set (ops_for k ops) = {op \<in> set ops. op_key op = k}"
  by (auto simp: ops_for_def)

lemma ops_for_Nil_iff: "ops_for k ops = [] \<longleftrightarrow> k \<notin> op_key ` set ops"
  by (auto simp: ops_for_def filter_empty_conv)

text \<open>On a list sorted by key, the run of the head key is all of its operations.\<close>

lemma sorted_key_run:
  assumes "sorted (map op_key (op # ops))"
  shows "op # takeWhile (\<lambda>o'. op_key o' = op_key op) ops = ops_for (op_key op) (op # ops)"
    and "k \<noteq> op_key op \<Longrightarrow>
         ops_for k (dropWhile (\<lambda>o'. op_key o' = op_key op) ops) = ops_for k (op # ops)"
    and "op_key op \<notin> op_key ` set (dropWhile (\<lambda>o'. op_key o' = op_key op) ops)"
    and "sorted (map op_key (dropWhile (\<lambda>o'. op_key o' = op_key op) ops))"
proof -
  let ?P = "\<lambda>o'. op_key o' = op_key op"
  have drop_gt: "op_key op < op_key x" if "x \<in> set (dropWhile ?P ops)" for x
    using assms that
  proof (induction ops)
    case Nil
    then show ?case by simp
  next
    case (Cons a ops)
    show ?case
    proof (cases "?P a")
      case True
      with Cons show ?thesis by auto
    next
      case False
      with Cons.prems have "op_key op < op_key a"
        by (simp add: order.strict_iff_order)
      moreover have "op_key a \<le> op_key x"
        using Cons.prems False by auto
      ultimately show ?thesis by simp
    qed
  qed
  then have none: "ops_for (op_key op) (dropWhile ?P ops) = []"
    unfolding ops_for_Nil_iff by (metis imageE order.strict_iff_not)
  have split: "ops_for k ops = ops_for k (takeWhile ?P ops) @ ops_for k (dropWhile ?P ops)" for k
    by (metis ops_for_simps(3) takeWhile_dropWhile_id)
  have "ops_for (op_key op) (takeWhile ?P ops) = takeWhile ?P ops"
    unfolding ops_for_def by (rule filter_True) (auto dest: set_takeWhileD)
  with split none show "op # takeWhile ?P ops = ops_for (op_key op) (op # ops)"
    by simp
  have "k \<noteq> op_key op \<Longrightarrow> ops_for k (takeWhile ?P ops) = []" for k
    by (auto simp: ops_for_Nil_iff dest: set_takeWhileD)
  with split show "k \<noteq> op_key op \<Longrightarrow> ops_for k (dropWhile ?P ops) = ops_for k (op # ops)"
    by simp
  show "op_key op \<notin> op_key ` set (dropWhile ?P ops)"
    using drop_gt by fastforce
  show "sorted (map op_key (dropWhile ?P ops))"
    using assms by (metis list.simps(9) sorted_simps(2) sorted_wrt_append map_append takeWhile_dropWhile_id)
qed

text \<open>
  A fold is key-preserving when the winner of a run carries the run's key; both engines'
  folds are.
\<close>

definition fold_keeps_key :: "(operation list \<Rightarrow> operation option) \<Rightarrow> bool" where
  "fold_keeps_key f \<longleftrightarrow>
     (\<forall>ops w k. f ops = Some w \<longrightarrow> (\<forall>op \<in> set ops. op_key op = k) \<longrightarrow> ops \<noteq> [] \<longrightarrow> op_key w = k)"

lemma fold_runs_Cons:
  "fold_runs f (op # ops) =
     (case f (op # takeWhile (\<lambda>o'. op_key o' = op_key op) ops) of None \<Rightarrow> [] | Some w \<Rightarrow> [w])
       @ fold_runs f (dropWhile (\<lambda>o'. op_key o' = op_key op) ops)"
  by (simp add: fold_runs.simps(2) Let_def split: option.splits)

lemma fold_runs_ops_for:
  assumes "fold_keeps_key f" and "sorted (map op_key ops)"
  shows "ops_for k (fold_runs f ops)
         = (if ops_for k ops = [] then []
            else case f (ops_for k ops) of None \<Rightarrow> [] | Some w \<Rightarrow> [w])"
  using assms(2)
proof (induction ops rule: length_induct)
  case (1 xs)
  show ?case
  proof (cases xs)
    case Nil
    then show ?thesis by simp
  next
    case (Cons op ops)
    let ?rest = "dropWhile (\<lambda>o'. op_key o' = op_key op) ops"
    note run = sorted_key_run [OF "1.prems" [unfolded Cons]]
    have IH: "ops_for k (fold_runs f ?rest)
              = (if ops_for k ?rest = [] then []
                 else case f (ops_for k ?rest) of None \<Rightarrow> [] | Some w \<Rightarrow> [w])"
      using "1.IH" run(4) Cons by (simp add: length_dropWhile_le le_imp_less_Suc)
    have step: "ops_for k (fold_runs f xs)
      = ops_for k (case f (ops_for (op_key op) xs) of None \<Rightarrow> [] | Some w \<Rightarrow> [w])
        @ ops_for k (fold_runs f ?rest)"
      by (simp only: Cons fold_runs_Cons run(1) ops_for_simps(3))
    have ne: "ops_for (op_key op) xs \<noteq> []"
      by (simp add: Cons)
    have same: "\<forall>o' \<in> set (ops_for (op_key op) xs). op_key o' = op_key op"
      by simp
    have wkey: "op_key w = op_key op" if "f (ops_for (op_key op) xs) = Some w" for w
      using assms(1) that ne same unfolding fold_keeps_key_def by blast
    show ?thesis
    proof (cases "k = op_key op")
      case True
      have "ops_for k ?rest = []"
        using run(3) True by (simp add: ops_for_Nil_iff)
      with IH step ne wkey True show ?thesis
        by (auto split: option.splits)
    next
      case False
      have "ops_for k ?rest = ops_for k xs"
        using run(2) False Cons by simp
      with IH step wkey False show ?thesis
        by (auto split: option.splits)
    qed
  qed
qed

lemma sort_key_ops_for: "ops_for k (sort_key f ops) = sort_key f (ops_for k ops)"
  by (simp add: ops_for_def filter_sort)

lemma ops_for_sort_by_key: "ops_for k (sort_key op_key ops) = ops_for k ops"
  by (simp add: ops_for_def sort_key_stable)

text \<open>After compaction each key has at most one operation: the fold of its operations.\<close>

lemma compact_by_key_ops_for:
  assumes "fold_keeps_key f"
  shows "ops_for k (compact_by_key f ops)
         = (if ops_for k ops = [] then []
            else case f (ops_for k ops) of None \<Rightarrow> [] | Some w \<Rightarrow> [w])"
proof -
  have "ops_for k (compact_by_key f ops) =
        sort_key op_version (ops_for k (fold_runs f (sort_key op_key ops)))"
    by (simp add: compact_by_key_def sort_key_ops_for)
  also have "ops_for k (fold_runs f (sort_key op_key ops)) =
             (if ops_for k ops = [] then []
              else case f (ops_for k ops) of None \<Rightarrow> [] | Some w \<Rightarrow> [w])"
    by (simp only: fold_runs_ops_for [OF assms sorted_sort_key] ops_for_sort_by_key)
  finally show ?thesis
    by (simp split: option.splits)
qed

lemma set_compact_by_key:
  assumes "fold_keeps_key f"
  shows "w \<in> set (compact_by_key f ops) \<longleftrightarrow>
         ops_for (op_key w) ops \<noteq> [] \<and> f (ops_for (op_key w) ops) = Some w"
proof -
  have "w \<in> set (compact_by_key f ops) \<longleftrightarrow>
        w \<in> set (ops_for (op_key w) (compact_by_key f ops))"
    by simp
  also have "\<dots> \<longleftrightarrow> ops_for (op_key w) ops \<noteq> [] \<and> f (ops_for (op_key w) ops) = Some w"
    by (auto simp: compact_by_key_ops_for [OF assms] split: option.splits if_splits)
  finally show ?thesis .
qed

lemma compact_by_key_sorted: "sorted (map op_version (compact_by_key f ops))"
  by (simp add: compact_by_key_def)

lemma distinct_keys_of_ops_for:
  "(\<And>k. length (ops_for k ops) \<le> 1) \<Longrightarrow> distinct (map op_key ops)"
proof (induction ops)
  case Nil
  then show ?case by simp
next
  case (Cons op ops)
  have "length (ops_for k ops) \<le> 1" for k
    using Cons.prems [of k] by (auto split: if_splits)
  moreover have "ops_for (op_key op) ops = []"
    using Cons.prems [of "op_key op"] by simp
  ultimately show ?case
    using Cons.IH by (auto simp: ops_for_Nil_iff)
qed

lemma compact_by_key_distinct_keys:
  assumes "fold_keeps_key f"
  shows "distinct (map op_key (compact_by_key f ops))"
  by (rule distinct_keys_of_ops_for) (auto simp: compact_by_key_ops_for [OF assms] split: option.splits)

lemma compact_by_key_keys_subset:
  "fold_keeps_key f \<Longrightarrow> op_key ` set (compact_by_key f ops) \<subseteq> op_key ` set ops"
  by (auto simp: set_compact_by_key ops_for_Nil_iff)

lemma length_compact_by_key:
  assumes "fold_keeps_key f"
  shows "length (compact_by_key f ops) \<le> card (op_key ` set ops)"
proof -
  have "length (compact_by_key f ops) = card (op_key ` set (compact_by_key f ops))"
    using distinct_card [OF compact_by_key_distinct_keys [OF assms, of ops]] by simp
  also have "\<dots> \<le> card (op_key ` set ops)"
    by (rule card_mono) (simp_all add: compact_by_key_keys_subset [OF assms])
  finally show ?thesis .
qed

text \<open>
  The grouping sort is unstable in the code.  Any arrangement of the log sorted by key
  yields the same compacted log when the fold does not look at the order of a run.
\<close>

definition fold_perm_invariant :: "(operation list \<Rightarrow> operation option) \<Rightarrow> operation set \<Rightarrow> bool"
  where
  "fold_perm_invariant f U \<longleftrightarrow>
     (\<forall>xs ys. set xs \<subseteq> U \<longrightarrow> mset xs = mset ys \<longrightarrow> f xs = f ys)"

lemma mset_ops_for: "mset xs = mset ys \<Longrightarrow> mset (ops_for k xs) = mset (ops_for k ys)"
  by (simp add: ops_for_def)

lemma fold_runs_perm:
  assumes "fold_perm_invariant f U" and "set xs \<subseteq> U"
    and "mset xs = mset ys" and "sorted (map op_key xs)" and "sorted (map op_key ys)"
  shows "fold_runs f xs = fold_runs f ys"
  using assms(2-5)
proof (induction xs arbitrary: ys rule: length_induct)
  case (1 xs)
  show ?case
  proof (cases xs)
    case Nil
    with "1.prems" show ?thesis by simp
  next
    case (Cons x xs')
    then obtain y ys' where ys: "ys = y # ys'"
      using "1.prems"(2) by (cases ys) auto
    have "map op_key xs = map op_key ys"
      using "1.prems"(2-4) by (metis mset_map properties_for_sort sorted_sort_id)
    then have key: "op_key y = op_key x"
      by (simp add: Cons ys)
    let ?dx = "dropWhile (\<lambda>o'. op_key o' = op_key x) xs'"
    let ?dy = "dropWhile (\<lambda>o'. op_key o' = op_key x) ys'"
    note rx = sorted_key_run [OF "1.prems"(3) [unfolded Cons]]
    note ry = sorted_key_run [OF "1.prems"(4) [unfolded ys], unfolded key]
    have tx: "xs = ops_for (op_key x) xs @ ?dx"
      using rx(1) Cons by (metis append_Cons takeWhile_dropWhile_id)
    have ty: "ys = ops_for (op_key x) ys @ ?dy"
      using ry(1) ys by (metis append_Cons takeWhile_dropWhile_id)
    have mrun: "mset (ops_for (op_key x) xs) = mset (ops_for (op_key x) ys)"
      using "1.prems"(2) by (rule mset_ops_for)
    have mrest: "mset ?dx = mset ?dy"
      using tx ty mrun "1.prems"(2) by (metis add_left_imp_eq mset_append)
    have frun: "f (ops_for (op_key x) xs) = f (ops_for (op_key x) ys)"
    proof -
      have "set (ops_for (op_key x) xs) \<subseteq> U"
        using "1.prems"(1) by auto
      with assms(1) mrun show ?thesis
        unfolding fold_perm_invariant_def by blast
    qed
    have "set ?dx \<subseteq> U"
      using "1.prems"(1) Cons by (auto dest: set_dropWhileD)
    moreover have "length ?dx < length xs"
      using Cons by (simp add: length_dropWhile_le le_imp_less_Suc)
    ultimately have "fold_runs f ?dx = fold_runs f ?dy"
      using "1.IH" mrest rx(4) ry(4) by blast
    with frun rx(1) ry(1) show ?thesis
      by (simp add: Cons ys fold_runs_Cons key)
  qed
qed

section \<open>Lemmas on the change report\<close>

lemma map_of_values_before_from:
  "map_of (values_before_from current ops before) k =
     (case map_of before k of
        Some v \<Rightarrow> Some v
      | None \<Rightarrow> if k \<in> op_key ` set ops then Some (current k) else None)"
proof (induction ops arbitrary: before)
  case Nil
  then show ?case by (simp split: option.splits)
next
  case (Cons op ops)
  show ?case
  proof (cases "op_key op \<in> set (map fst before)")
    case True
    then have "map_of before (op_key op) \<noteq> None"
      by (simp add: map_of_eq_None_iff)
    with Cons.IH [of before] True show ?thesis
      by (auto split: option.splits)
  next
    case False
    then have "map_of before (op_key op) = None"
      by (simp add: map_of_eq_None_iff)
    with False Cons.IH show ?thesis
      by (auto split: option.splits)
  qed
qed

lemma distinct_values_before_from:
  "distinct (map fst before) \<Longrightarrow> distinct (map fst (values_before_from current ops before))"
  by (induction ops arbitrary: before) (auto simp: distinct_update)

lemma values_before_lookup:
  "map_of (values_before ops current) k = (if k \<in> op_key ` set ops then Some (current k) else None)"
  by (simp add: values_before_def map_of_values_before_from)

lemma values_before_distinct: "distinct (map fst (values_before ops current))"
  by (simp add: values_before_def distinct_values_before_from)

lemma set_changes:
  "set (changes (values_before ops before) after) =
     {\<lparr>change_key = k, change_value = after k\<rparr> | k. k \<in> op_key ` set ops \<and> after k \<noteq> before k}"
  (is "?L = ?R")
proof -
  have mem: "(k, v) \<in> set (values_before ops before) \<longleftrightarrow> k \<in> op_key ` set ops \<and> v = before k" for k v
    using map_of_eq_Some_iff [OF values_before_distinct [of ops before], of k v]
    by (auto simp: values_before_lookup split: if_splits)
  show ?thesis
    unfolding changes_def by (force simp: mem)
qed

lemma changes_distinct_keys:
  "distinct (map change_key (changes (values_before ops before) after))"
proof -
  have "map change_key (changes vb after) = map fst (filter (\<lambda>(k, p). after k \<noteq> p) vb)" for vb
    by (simp add: changes_def case_prod_unfold comp_def)
  then show ?thesis
    by (simp add: distinct_fst_filter values_before_distinct)
qed

end
