(* ===== verification/Crdt_Spec.thy ===== *)
theory Crdt_Spec
  imports Crdt_Operation
begin

text \<open>
  The interfaces of the replicated store.

  \<open>join_semilattice_on\<close> is what a merge strategy promises: a join that is associative,
  commutative and idempotent on the states a replica can hold.  Inside it the fold of a
  history (\<open>joins\<close>) is shown to be the least upper bound of the history's set, hence
  independent of order, duplication and grouping: strong eventual consistency in the form
  both engines use it.

  \<open>namespace_engine\<close> is the contract of the trait \<open>NamespaceCrdtEngine\<close>
  (\<open>crdt_kv/engine/mod.rs\<close>) as its client, the router, relies on it: reads agree with
  each other, writes touch the named key only, a remote merge reports exactly the keys
  whose value changed, garbage collection is invisible to reads, and an operation either
  leaves the exported log alone or moves the log generation by one.
\<close>

section \<open>Joins of a history\<close>

fun join_step :: "('e \<Rightarrow> 'e \<Rightarrow> 'e) \<Rightarrow> 'e option \<Rightarrow> 'e \<Rightarrow> 'e option" where
  "join_step join None x = Some x"
| "join_step join (Some c) x = Some (join c x)"

definition joins :: "('e \<Rightarrow> 'e \<Rightarrow> 'e) \<Rightarrow> 'e list \<Rightarrow> 'e option" where
  "joins join xs = foldl (join_step join) None xs"

lemma joins_Nil [simp]: "joins join [] = None"
  by (simp add: joins_def)

lemma joins_snoc: "joins join (xs @ [x]) = join_step join (joins join xs) x"
  by (simp add: joins_def)

lemma foldl_join_step_Some:
  "foldl (join_step join) (Some c) xs = Some (foldl join c xs)"
  by (induction xs arbitrary: c) auto

lemma joins_Cons: "joins join (x # xs) = Some (foldl join x xs)"
  by (simp add: joins_def foldl_join_step_Some)

lemma joins_eq_None [simp]: "joins join xs = None \<longleftrightarrow> xs = []"
  by (cases xs) (simp_all add: joins_Cons)

locale join_semilattice_on =
  fixes C :: "'e set"
    and join :: "'e \<Rightarrow> 'e \<Rightarrow> 'e"
  assumes join_closed: "a \<in> C \<Longrightarrow> b \<in> C \<Longrightarrow> join a b \<in> C"
    and join_assoc: "a \<in> C \<Longrightarrow> b \<in> C \<Longrightarrow> c \<in> C \<Longrightarrow> join (join a b) c = join a (join b c)"
    and join_comm: "a \<in> C \<Longrightarrow> b \<in> C \<Longrightarrow> join a b = join b a"
    and join_idem: "a \<in> C \<Longrightarrow> join a a = a"
begin

definition below :: "'e \<Rightarrow> 'e \<Rightarrow> bool" where
  "below a b \<longleftrightarrow> join a b = b"

lemma below_refl: "a \<in> C \<Longrightarrow> below a a"
  by (simp add: below_def join_idem)

lemma below_antisym: "a \<in> C \<Longrightarrow> b \<in> C \<Longrightarrow> below a b \<Longrightarrow> below b a \<Longrightarrow> a = b"
  unfolding below_def by (metis join_comm)

lemma below_trans:
  assumes "a \<in> C" "b \<in> C" "c \<in> C" "below a b" "below b c"
  shows "below a c"
  using assms unfolding below_def by (metis join_assoc)

lemma below_join:
  assumes "a \<in> C" "b \<in> C"
  shows "below a (join a b)" and "below b (join a b)"
proof -
  show "below a (join a b)"
    using assms unfolding below_def by (metis join_assoc join_idem)
  then show "below b (join a b)"
    using assms unfolding below_def by (metis join_assoc join_comm join_idem)
qed

lemma join_least:
  assumes "a \<in> C" "b \<in> C" "u \<in> C" "below a u" "below b u"
  shows "below (join a b) u"
  using assms unfolding below_def by (metis join_assoc)

lemma joins_closed:
  "set xs \<subseteq> C \<Longrightarrow> joins join xs = Some j \<Longrightarrow> j \<in> C"
proof (induction xs arbitrary: j rule: rev_induct)
  case Nil
  then show ?case by simp
next
  case (snoc x xs)
  then show ?case
    by (cases "joins join xs") (auto simp: joins_snoc join_closed)
qed

lemma joins_upper:
  "set xs \<subseteq> C \<Longrightarrow> joins join xs = Some j \<Longrightarrow> x \<in> set xs \<Longrightarrow> below x j"
proof (induction xs arbitrary: j rule: rev_induct)
  case Nil
  then show ?case by simp
next
  case (snoc y xs)
  show ?case
  proof (cases "joins join xs")
    case None
    with snoc.prems show ?thesis
      by (auto simp: joins_snoc below_refl)
  next
    case (Some i)
    then have i: "i \<in> C" and j: "j = join i y" and y: "y \<in> C"
      using snoc.prems joins_closed by (auto simp: joins_snoc)
    show ?thesis
    proof (cases "x = y")
      case True
      with i y j show ?thesis by (simp add: below_join)
    next
      case False
      with snoc Some have "below x i" and "x \<in> C" by auto
      with i y j show ?thesis
        by (meson below_join(1) below_trans join_closed)
    qed
  qed
qed

lemma joins_least:
  "set xs \<subseteq> C \<Longrightarrow> joins join xs = Some j \<Longrightarrow> u \<in> C \<Longrightarrow> (\<And>x. x \<in> set xs \<Longrightarrow> below x u)
   \<Longrightarrow> below j u"
proof (induction xs arbitrary: j rule: rev_induct)
  case Nil
  then show ?case by simp
next
  case (snoc y xs)
  show ?case
  proof (cases "joins join xs")
    case None
    with snoc.prems show ?thesis by (auto simp: joins_snoc)
  next
    case (Some i)
    then have i: "i \<in> C" and j: "j = join i y" and y: "y \<in> C"
      using snoc.prems joins_closed by (auto simp: joins_snoc)
    from snoc Some have "below i u" by auto
    with snoc.prems i j y show ?thesis
      by (simp add: join_least)
  qed
qed

lemma joins_eqI:
  assumes "set xs \<subseteq> C" "joins join xs = Some j" "u \<in> C"
    and "\<And>x. x \<in> set xs \<Longrightarrow> below x u"
    and "\<And>v. v \<in> C \<Longrightarrow> (\<And>x. x \<in> set xs \<Longrightarrow> below x v) \<Longrightarrow> below u v"
  shows "j = u"
proof (rule below_antisym)
  show "j \<in> C" using assms(1,2) by (rule joins_closed)
  show "below j u" using assms(1-4) by (rule joins_least)
  show "below u j" using assms joins_closed joins_upper by metis
qed fact

text \<open>Strong eventual consistency: the fold depends on the set of elements only.\<close>

lemma joins_set_eq:
  assumes "set xs \<subseteq> C" and "set xs = set ys"
  shows "joins join xs = joins join ys"
proof (cases "joins join xs")
  case None
  with assms show ?thesis by simp
next
  case (Some i)
  then obtain j where j: "joins join ys = Some j"
    using assms(2) by (cases "joins join ys") auto
  have ys: "set ys \<subseteq> C" using assms by simp
  have "i = j"
    by (rule joins_eqI [OF assms(1) Some joins_closed [OF ys j]])
      (use joins_upper [OF ys j] joins_least [OF ys j] assms(2) in auto)
  with Some j show ?thesis by simp
qed

text \<open>An element already below the fold is absorbed.\<close>

lemma joins_absorb:
  assumes "set xs \<subseteq> C" "joins join xs = Some j" "x \<in> C" "below x j"
  shows "joins join (xs @ [x]) = Some j"
  using assms joins_closed [OF assms(1,2)] by (simp add: joins_snoc) (metis below_def join_comm)

text \<open>Replacing part of a history by its fold (compaction) keeps the fold.\<close>

lemma joins_compact:
  assumes "set xs \<subseteq> C" "set ys \<subseteq> C" "joins join xs = Some c"
  shows "joins join (c # ys) = joins join (xs @ ys)"
proof -
  have cC: "c \<in> C" using assms joins_closed by blast
  obtain i where i: "joins join (c # ys) = Some i" by (simp add: joins_Cons)
  obtain j where j: "joins join (xs @ ys) = Some j"
    using assms(3) by (cases "joins join (xs @ ys)") auto
  have iC: "i \<in> C" using joins_closed [OF _ i] cC assms(2) by simp
  have jC: "j \<in> C" using joins_closed [OF _ j] assms by simp
  have "below c i" and ysi: "\<And>y. y \<in> set ys \<Longrightarrow> below y i"
    using joins_upper [OF _ i] cC assms(2) by auto
  then have "\<And>x. x \<in> set xs \<Longrightarrow> below x i"
    using joins_upper [OF assms(1,3)] below_trans cC iC assms(1) by blast
  with ysi have "below j i"
    using joins_least [OF _ j iC] assms by auto
  moreover have "below c j"
    using joins_least [OF assms(1,3) jC] joins_upper [OF _ j] assms by simp
  then have "below i j"
    using joins_least [OF _ i jC] joins_upper [OF _ j] cC assms by auto
  ultimately have "i = j"
    using below_antisym iC jC by blast
  with i j show ?thesis by simp
qed

end

section \<open>The engine contract\<close>

text \<open>A subscriber's copy of the store after replaying a change report.\<close>

fun replay_changes ::
    "crdt_change list \<Rightarrow> (string \<Rightarrow> bytes option) \<Rightarrow> (string \<Rightarrow> bytes option)" where
  "replay_changes [] view = view"
| "replay_changes (c # cs) view = replay_changes cs (view(change_key c := change_value c))"

lemma replay_changes_lookup:
  "distinct (map change_key cs) \<Longrightarrow>
   replay_changes cs view k =
     (if \<exists>c \<in> set cs. change_key c = k
      then change_value (the (find (\<lambda>c. change_key c = k) cs)) else view k)"
  by (induction cs arbitrary: view) (auto simp: image_iff)

locale namespace_engine =
  fixes inv :: "'s \<Rightarrow> bool"
    and put_local :: "instant \<Rightarrow> string \<Rightarrow> bytes \<Rightarrow> u64 \<times> 's \<Rightarrow> (u64 \<times> 's) \<times> bytes option"
    and delete_local :: "instant \<Rightarrow> string \<Rightarrow> u64 \<times> 's \<Rightarrow> (u64 \<times> 's) \<times> bytes option"
    and apply_remote :: "instant \<Rightarrow> operation list \<Rightarrow> u64 \<times> 's \<Rightarrow> (u64 \<times> 's) \<times> crdt_change list"
    and gc :: "instant \<Rightarrow> nat \<Rightarrow> 's \<Rightarrow> 's \<times> nat"
    and get :: "'s \<Rightarrow> string \<Rightarrow> bytes option"
    and contains_key :: "'s \<Rightarrow> string \<Rightarrow> bool"
    and live_keys :: "'s \<Rightarrow> string list"
    and len :: "'s \<Rightarrow> nat"
    and op_generation :: "'s \<Rightarrow> u64"
    and export_ops :: "'s \<Rightarrow> operation list"
  assumes inv_put: "inv s \<Longrightarrow> put_local now k v (c, s) = ((c', s'), r) \<Longrightarrow> inv s'"
    and inv_delete: "inv s \<Longrightarrow> delete_local now k (c, s) = ((c', s'), r) \<Longrightarrow> inv s'"
    and inv_remote: "inv s \<Longrightarrow> apply_remote now ops (c, s) = ((c', s'), cs) \<Longrightarrow> inv s'"
    and inv_gc: "inv s \<Longrightarrow> gc now grace s = (s', n) \<Longrightarrow> inv s'"
    and get_contains: "inv s \<Longrightarrow> get s k \<noteq> None \<Longrightarrow> contains_key s k"
    and set_live_keys: "inv s \<Longrightarrow> set (live_keys s) = {k. contains_key s k}"
    and distinct_live_keys: "inv s \<Longrightarrow> distinct (live_keys s)"
    and len_live_keys: "inv s \<Longrightarrow> len s = length (live_keys s)"
    and put_frame:
      "inv s \<Longrightarrow> put_local now k v (c, s) = ((c', s'), r) \<Longrightarrow> k' \<noteq> k \<Longrightarrow> get s' k' = get s k'"
    and delete_frame:
      "inv s \<Longrightarrow> delete_local now k (c, s) = ((c', s'), r) \<Longrightarrow> k' \<noteq> k \<Longrightarrow> get s' k' = get s k'"
    and remote_frame:
      "inv s \<Longrightarrow> apply_remote now ops (c, s) = ((c', s'), cs) \<Longrightarrow> k \<notin> op_key ` set ops
       \<Longrightarrow> get s' k = get s k"
    and remote_changes:
      "inv s \<Longrightarrow> apply_remote now ops (c, s) = ((c', s'), cs) \<Longrightarrow>
       distinct (map change_key cs) \<and>
       set cs = {\<lparr>change_key = k, change_value = get s' k\<rparr> | k. get s' k \<noteq> get s k}"
    and gc_get: "inv s \<Longrightarrow> gc now grace s = (s', n) \<Longrightarrow> get s' = get s"
    and put_op_generation:
      "inv s \<Longrightarrow> put_local now k v (c, s) = ((c', s'), r) \<Longrightarrow>
       op_generation s' = op_generation s \<and> export_ops s' = export_ops s \<or>
       op_generation s' = op_generation s + 1"
    and delete_op_generation:
      "inv s \<Longrightarrow> delete_local now k (c, s) = ((c', s'), r) \<Longrightarrow>
       op_generation s' = op_generation s \<and> export_ops s' = export_ops s \<or>
       op_generation s' = op_generation s + 1"
    and remote_op_generation:
      "inv s \<Longrightarrow> apply_remote now ops (c, s) = ((c', s'), cs) \<Longrightarrow>
       op_generation s' = op_generation s \<and> export_ops s' = export_ops s \<or>
       op_generation s' = op_generation s + 1"
    and gc_op_generation:
      "inv s \<Longrightarrow> gc now grace s = (s', n) \<Longrightarrow>
       op_generation s' = op_generation s \<and> export_ops s' = export_ops s \<or>
       op_generation s' = op_generation s + 1"
    and put_contains:
      "inv s \<Longrightarrow> put_local now k v (c, s) = ((c', s'), r) \<Longrightarrow> k' \<noteq> k \<Longrightarrow>
       contains_key s' k' = contains_key s k'"
    and delete_contains:
      "inv s \<Longrightarrow> delete_local now k (c, s) = ((c', s'), r) \<Longrightarrow> k' \<noteq> k \<Longrightarrow>
       contains_key s' k' = contains_key s k'"
    and remote_contains:
      "inv s \<Longrightarrow> apply_remote now ops (c, s) = ((c', s'), cs) \<Longrightarrow> k \<notin> op_key ` set ops
       \<Longrightarrow> contains_key s' k = contains_key s k"
    and gc_contains:
      "inv s \<Longrightarrow> gc now grace s = (s', n) \<Longrightarrow> contains_key s' k = contains_key s k"
begin

text \<open>A subscriber that replays every report of a merge holds the merged store.\<close>

lemma replay_is_get:
  assumes "inv s" and "apply_remote now ops (c, s) = ((c', s'), cs)"
  shows "replay_changes cs (get s) = get s'"
proof
  fix k
  note ch = remote_changes [OF assms]
  show "replay_changes cs (get s) k = get s' k"
  proof (cases "\<exists>c \<in> set cs. change_key c = k")
    case True
    then obtain x where x: "find (\<lambda>c. change_key c = k) cs = Some x"
      by (metis (mono_tags, lifting) find_None_iff not_Some_eq)
    then have "x \<in> set cs" and "change_key x = k"
      by (auto simp: find_Some_iff)
    with ch have "change_value x = get s' k" by auto
    with True x ch show ?thesis
      by (simp add: replay_changes_lookup)
  next
    case False
    have "get s' k = get s k"
    proof (rule ccontr)
      assume "get s' k \<noteq> get s k"
      with ch have "\<lparr>change_key = k, change_value = get s' k\<rparr> \<in> set cs" by auto
      with False show False by force
    qed
    with False show ?thesis
      by (simp add: replay_changes_lookup [OF conjunct1 [OF ch]])
  qed
qed

lemma changed_keys_in_batch:
  assumes "inv s" and "apply_remote now ops (c, s) = ((c', s'), cs)" and "x \<in> set cs"
  shows "change_key x \<in> op_key ` set ops"
  using remote_changes [OF assms(1,2)] remote_frame [OF assms(1,2)] assms(3) by fastforce

lemma no_op_batch_no_change:
  assumes "inv s" and "apply_remote now ops (c, s) = ((c', s'), cs)" and "get s' = get s"
  shows "cs = []"
  using remote_changes [OF assms(1,2)] assms(3) by simp

end

end
