(* ===== verification/Lww_Engine.thy ===== *)
theory Lww_Engine
  imports Crdt_Spec "HOL-Library.Option_ord"
begin

text \<open>
  The last-writer-wins engine (\<open>crdt_kv/engine/lww.rs\<close>): live bytes, per-key version
  metadata, the key-lock table, the operation log, and every method of the engine trait.
  A method runs under the key's lock, so it is one atomic step of the model; the wall
  clock is an argument (\<open>now\<close>), the node's shared Lamport clock is threaded next to the
  engine.  A lock handle is dropped by its only holder before \<open>try_cleanup_key_lock\<close>
  looks at it, so in these steps its reference count and \<open>try_lock\<close> tests succeed.

  The lemmas show that the engine's state is the newest operation of each key among all
  operations it has absorbed, in whatever order and batches they came.
\<close>

section \<open>Definitions\<close>

record value_metadata =
  vm_timestamp :: u64
  vm_replica_id :: replica_id
  vm_is_tombstone :: bool
  vm_created_at :: instant

definition vm_new :: "instant \<Rightarrow> u64 \<Rightarrow> replica_id \<Rightarrow> value_metadata" where
  "vm_new now timestamp replica_id =
     \<lparr>vm_timestamp = timestamp, vm_replica_id = replica_id, vm_is_tombstone = False,
      vm_created_at = now\<rparr>"

definition vm_tombstone :: "instant \<Rightarrow> u64 \<Rightarrow> replica_id \<Rightarrow> value_metadata" where
  "vm_tombstone now timestamp replica_id =
     \<lparr>vm_timestamp = timestamp, vm_replica_id = replica_id, vm_is_tombstone = True,
      vm_created_at = now\<rparr>"

definition version_key :: "value_metadata \<Rightarrow> version" where
  "version_key m = (vm_timestamp m, vm_replica_id m)"

definition matches_version :: "value_metadata \<Rightarrow> u64 \<Rightarrow> replica_id \<Rightarrow> bool" where
  "matches_version m timestamp replica_id \<longleftrightarrow>
     vm_timestamp m = timestamp \<and> vm_replica_id m = replica_id"

definition is_newer_than :: "value_metadata \<Rightarrow> u64 \<Rightarrow> replica_id \<Rightarrow> bool" where
  "is_newer_than m timestamp replica_id \<longleftrightarrow> (timestamp, replica_id) < version_key m"

type_synonym metadata_map = "(string \<times> value_metadata list) list"

record lww_engine =
  lww_store :: kv_store
  lww_metadata :: metadata_map
  lww_key_locks :: "string list"
  lww_log :: op_log_keeper
  lww_replica_id :: replica_id

definition lww_new :: "replica_id \<Rightarrow> lww_engine" where
  "lww_new replica_id =
     \<lparr>lww_store = kv_new, lww_metadata = [], lww_key_locks = [], lww_log = keeper_new,
      lww_replica_id = replica_id\<rparr>"

definition key_lock_for :: "string \<Rightarrow> lww_engine \<Rightarrow> lww_engine" where
  "key_lock_for key e = e\<lparr>lww_key_locks := List.insert key (lww_key_locks e)\<rparr>"

definition winner_tombstoned :: "value_metadata list \<Rightarrow> bool" where
  "winner_tombstoned versions =
     (case max_by_key version_key versions of None \<Rightarrow> True | Some winner \<Rightarrow> vm_is_tombstone winner)"

definition key_is_tombstoned_or_unknown :: "lww_engine \<Rightarrow> string \<Rightarrow> bool" where
  "key_is_tombstoned_or_unknown e key =
     (case map_of (lww_metadata e) key of
        None \<Rightarrow> True
      | Some versions \<Rightarrow> winner_tombstoned versions)"

definition try_cleanup_key_lock :: "string \<Rightarrow> lww_engine \<Rightarrow> lww_engine" where
  "try_cleanup_key_lock key e =
     (if kv_contains_key (lww_store e) key \<or> \<not> key_is_tombstoned_or_unknown e key then e
      else e\<lparr>lww_key_locks := removeAll key (lww_key_locks e)\<rparr>)"

definition compact_key_metadata :: "value_metadata list \<Rightarrow> value_metadata list" where
  "compact_key_metadata versions =
     (if length versions \<le> 1 then versions
      else case max_by_key version_key versions of
             Some winner \<Rightarrow> [winner]
           | None \<Rightarrow> versions)"

definition record_insert_metadata ::
    "instant \<Rightarrow> string \<Rightarrow> u64 \<Rightarrow> replica_id \<Rightarrow> metadata_map \<Rightarrow> metadata_map \<times> bool" where
  "record_insert_metadata now key timestamp replica_id md =
     (let new_metadata = vm_new now timestamp replica_id in
      case map_of md key of
        Some versions \<Rightarrow>
          if \<exists>v \<in> set versions. matches_version v timestamp replica_id
          then (AList.update key (compact_key_metadata versions) md, False)
          else if (case max_by_key version_key versions of
                     None \<Rightarrow> False
                   | Some winner \<Rightarrow> is_newer_than winner timestamp replica_id)
          then (AList.update key (compact_key_metadata versions) md, False)
          else (AList.update key (compact_key_metadata (versions @ [new_metadata])) md, True)
      | None \<Rightarrow> (AList.update key [new_metadata] md, True))"

definition record_remove_metadata ::
    "instant \<Rightarrow> string \<Rightarrow> u64 \<Rightarrow> replica_id \<Rightarrow> metadata_map \<Rightarrow> metadata_map \<times> bool" where
  "record_remove_metadata now key timestamp replica_id md =
     (let tombstone = vm_tombstone now timestamp replica_id in
      case map_of md key of
        Some versions \<Rightarrow>
          if \<exists>v \<in> set versions. vm_is_tombstone v \<and> matches_version v timestamp replica_id
          then (AList.update key (compact_key_metadata versions) md, False)
          else if \<exists>v \<in> set versions. is_newer_than v timestamp replica_id
          then (AList.update key (compact_key_metadata versions) md, False)
          else (AList.update key (compact_key_metadata (versions @ [tombstone])) md, True)
      | None \<Rightarrow> (AList.update key [tombstone] md, True))"

definition apply_insert ::
    "instant \<Rightarrow> string \<Rightarrow> bytes \<Rightarrow> u64 \<Rightarrow> replica_id \<Rightarrow> lww_engine \<Rightarrow> lww_engine" where
  "apply_insert now key value timestamp replica_id e =
     (let e1 = key_lock_for key e;
          (md, accepted) = record_insert_metadata now key timestamp replica_id (lww_metadata e1);
          e2 = e1\<lparr>lww_metadata := md\<rparr>;
          e3 = (if accepted then e2\<lparr>lww_store := fst (kv_insert key value (lww_store e2))\<rparr> else e2)
      in try_cleanup_key_lock key e3)"

definition apply_remove_inner ::
    "instant \<Rightarrow> string \<Rightarrow> u64 \<Rightarrow> replica_id \<Rightarrow> lww_engine \<Rightarrow> lww_engine \<times> bytes option" where
  "apply_remove_inner now key timestamp replica_id e =
     (let e1 = key_lock_for key e;
          (md, accepted) = record_remove_metadata now key timestamp replica_id (lww_metadata e1);
          e2 = e1\<lparr>lww_metadata := md\<rparr>;
          (e3, removed) =
            (if accepted
             then (let (s, r) = kv_remove key (lww_store e2) in (e2\<lparr>lww_store := s\<rparr>, r))
             else (e2, None))
      in (try_cleanup_key_lock key e3, removed))"

definition lww_fold :: "operation list \<Rightarrow> operation option" where
  "lww_fold ops = max_by_key op_version ops"

definition lww_append_op :: "operation \<Rightarrow> lww_engine \<Rightarrow> lww_engine" where
  "lww_append_op op e =
     e\<lparr>lww_log := keeper_append op (length (lww_metadata e)) lww_fold (lww_log e)\<rparr>"

definition lww_put_local ::
    "instant \<Rightarrow> string \<Rightarrow> bytes \<Rightarrow> u64 \<times> lww_engine \<Rightarrow> (u64 \<times> lww_engine) \<times> bytes option" where
  "lww_put_local now key value = (\<lambda>(clock, e).
     let e1 = key_lock_for key e;
         previous = kv_get (lww_store e1) key;
         timestamp = lamport_tick clock;
         (md, accepted) =
           record_insert_metadata now key timestamp (lww_replica_id e1) (lww_metadata e1);
         e2 = e1\<lparr>lww_metadata := md\<rparr>;
         (e3, result) =
           (if accepted
            then (let op = Insert key value timestamp (lww_replica_id e2);
                      e' = e2\<lparr>lww_store := fst (kv_insert key value (lww_store e2))\<rparr>
                  in (lww_append_op op e', previous))
            else (e2, kv_get (lww_store e2) key))
     in ((timestamp, try_cleanup_key_lock key e3), result))"

definition lww_delete_local ::
    "instant \<Rightarrow> string \<Rightarrow> u64 \<times> lww_engine \<Rightarrow> (u64 \<times> lww_engine) \<times> bytes option" where
  "lww_delete_local now key = (\<lambda>(clock, e).
     let e1 = key_lock_for key e;
         timestamp = lamport_tick clock;
         (md, accepted) =
           record_remove_metadata now key timestamp (lww_replica_id e1) (lww_metadata e1);
         e2 = e1\<lparr>lww_metadata := md\<rparr>;
         (e3, removed) =
           (if accepted
            then (let op = Remove key timestamp (lww_replica_id e2);
                      e' = lww_append_op op e2;
                      (s, r) = kv_remove key (lww_store e')
                  in (e'\<lparr>lww_store := s\<rparr>, r))
            else (e2, None))
     in ((timestamp, try_cleanup_key_lock key e3), removed))"

definition lww_get :: "lww_engine \<Rightarrow> string \<Rightarrow> bytes option" where
  "lww_get e key = kv_get (lww_store e) key"

definition lww_contains_key :: "lww_engine \<Rightarrow> string \<Rightarrow> bool" where
  "lww_contains_key e key = kv_contains_key (lww_store e) key"

definition lww_keys :: "lww_engine \<Rightarrow> string list" where
  "lww_keys e = kv_keys (lww_store e)"

definition lww_len :: "lww_engine \<Rightarrow> nat" where
  "lww_len e = kv_len (lww_store e)"

definition lww_generation :: "lww_engine \<Rightarrow> u64" where
  "lww_generation e = kv_generation (lww_store e)"

definition lww_op_generation :: "lww_engine \<Rightarrow> u64" where
  "lww_op_generation e = keeper_generation (lww_log e)"

definition lww_export_ops :: "lww_engine \<Rightarrow> operation list" where
  "lww_export_ops e = keeper_export (lww_log e)"

definition lww_apply_op :: "instant \<Rightarrow> u64 \<times> lww_engine \<Rightarrow> operation \<Rightarrow> u64 \<times> lww_engine" where
  "lww_apply_op now = (\<lambda>(clock, e) op.
     (lamport_update clock (op_timestamp op),
      case op of
        Insert key value timestamp replica_id \<Rightarrow> apply_insert now key value timestamp replica_id e
      | Remove key timestamp replica_id \<Rightarrow> fst (apply_remove_inner now key timestamp replica_id e)))"

definition lww_unseen :: "lww_engine \<Rightarrow> operation list \<Rightarrow> operation list" where
  "lww_unseen e ops =
     (let unseen_ids = filter (\<lambda>i. i \<notin> set (map op_version (keeper_ops (lww_log e))))
                         (remdups (map op_version ops))
      in sort_key op_version (filter (\<lambda>op. op_version op \<in> set unseen_ids) ops))"

definition lww_apply_remote_ops ::
    "instant \<Rightarrow> operation list \<Rightarrow> u64 \<times> lww_engine \<Rightarrow> (u64 \<times> lww_engine) \<times> crdt_change list" where
  "lww_apply_remote_ops now ops = (\<lambda>(clock, e).
     if ops = [] then ((clock, e), [])
     else
       let unseen = lww_unseen e ops in
       if unseen = [] then ((clock, e), [])
       else
         let e1 = e\<lparr>lww_log := keeper_merge_batch unseen lww_fold (lww_log e)\<rparr>;
             before = values_before unseen (kv_get (lww_store e1));
             (clock', e2) = foldl (lww_apply_op now) (clock, e1) unseen
         in ((clock', e2), changes before (kv_get (lww_store e2))))"

definition gc_collectable :: "instant \<Rightarrow> nat \<Rightarrow> value_metadata list \<Rightarrow> bool" where
  "gc_collectable now grace versions =
     (case max_by_key version_key versions of
        None \<Rightarrow> True
      | Some winner \<Rightarrow> vm_is_tombstone winner \<and> grace \<le> now - vm_created_at winner)"

definition gc_key ::
    "instant \<Rightarrow> nat \<Rightarrow> lww_engine \<times> nat \<times> (string \<times> version) list \<Rightarrow> string
       \<Rightarrow> lww_engine \<times> nat \<times> (string \<times> version) list" where
  "gc_key now grace = (\<lambda>(e, removed, purged) key.
     if \<not> key_is_tombstoned_or_unknown e key then (e, removed, purged)
     else
       let e1 = e\<lparr>lww_key_locks := removeAll key (lww_key_locks e)\<rparr> in
       case map_of (lww_metadata e1) key of
         None \<Rightarrow> (e1, removed, purged)
       | Some versions \<Rightarrow>
           if \<not> kv_contains_key (lww_store e1) key \<and> gc_collectable now grace versions
           then (e1\<lparr>lww_metadata := AList.delete key (lww_metadata e1)\<rparr>, removed + 1,
                 case max_by_key version_key versions of
                   Some winner \<Rightarrow> AList.update key (version_key winner) purged
                 | None \<Rightarrow> purged)
           else (e1, removed, purged))"

definition lww_gc_tombstones :: "instant \<Rightarrow> nat \<Rightarrow> lww_engine \<Rightarrow> lww_engine \<times> nat" where
  "lww_gc_tombstones now grace e =
     (let keys_to_check =
            map fst (filter (\<lambda>(key, _). \<not> kv_contains_key (lww_store e) key) (lww_metadata e));
          (e1, removed, purged) = foldl (gc_key now grace) (e, 0, []) keys_to_check
      in (if purged \<noteq> []
          then e1\<lparr>lww_log := keeper_retain (\<lambda>op. case map_of purged (op_key op) of
                                 None \<Rightarrow> True
                               | Some gc_version \<Rightarrow> gc_version < op_version op) (lww_log e1)\<rparr>
          else e1, removed))"

section \<open>The abstract specification\<close>

text \<open>
  A key's abstract state is the newest version seen with the bytes it left (\<open>None\<close> for a
  removal).  Two states of one version only differ when operation ids were reused; a
  removal then wins, as in \<open>record_remove_metadata\<close>.
\<close>

type_synonym lww_elem = "version \<times> bytes option"

definition lww_elem :: "operation \<Rightarrow> lww_elem" where
  "lww_elem op = (op_version op, op_live op)"

definition lww_join ::
    "'v::linorder \<times> 'b::linorder option \<Rightarrow> 'v \<times> 'b option \<Rightarrow> 'v \<times> 'b option" where
  "lww_join a b =
     (if fst a < fst b then b
      else if fst b < fst a then a
      else (fst a, case (snd a, snd b) of (Some x, Some y) \<Rightarrow> Some (max x y) | _ \<Rightarrow> None))"

lemma lww_join_assoc: "lww_join (lww_join a b) c = lww_join a (lww_join b c)"
  by (cases "fst a" "fst b" rule: linorder_cases; cases "fst b" "fst c" rule: linorder_cases)
    (auto simp: lww_join_def max.assoc split: option.splits)

lemma lww_join_comm: "lww_join a b = lww_join b a"
  by (cases "fst a" "fst b" rule: linorder_cases)
    (auto simp: lww_join_def max.commute split: option.splits)

lemma lww_join_idem: "lww_join a a = a"
  by (cases a) (auto simp: lww_join_def split: option.splits)

interpretation lww_lattice: join_semilattice_on "UNIV :: lww_elem set" lww_join
  by unfold_locales (rule UNIV_I lww_join_assoc lww_join_comm lww_join_idem)+

definition lww_value :: "operation list \<Rightarrow> string \<Rightarrow> lww_elem option" where
  "lww_value history key = joins lww_join (map lww_elem (ops_for key history))"

text \<open>What a read returns after a history of operations, in any order.\<close>

definition lww_spec_get :: "operation list \<Rightarrow> string \<Rightarrow> bytes option" where
  "lww_spec_get history key = Option.bind (lww_value history key) snd"

definition lww_abs :: "lww_engine \<Rightarrow> string \<Rightarrow> lww_elem option" where
  "lww_abs e key =
     (case map_of (lww_metadata e) key of
        Some [m] \<Rightarrow> Some (version_key m, kv_get (lww_store e) key)
      | _ \<Rightarrow> None)"

section \<open>The invariant\<close>

text \<open>
  Every key with metadata has exactly one recorded version; it is a tombstone exactly when
  the store has no bytes for the key; the lock table holds live keys only.
\<close>

definition lww_entry_ok :: "lww_engine \<Rightarrow> string \<Rightarrow> bool" where
  "lww_entry_ok e k \<longleftrightarrow>
     (case map_of (lww_metadata e) k of
        None \<Rightarrow> kv_get (lww_store e) k = None
      | Some [m] \<Rightarrow> (vm_is_tombstone m \<longleftrightarrow> kv_get (lww_store e) k = None)
      | _ \<Rightarrow> False)"

definition lww_inv :: "lww_engine \<Rightarrow> bool" where
  "lww_inv e \<longleftrightarrow>
     kv_wf (lww_store e) \<and> distinct (map fst (lww_metadata e)) \<and> distinct (lww_key_locks e) \<and>
     (\<forall>k. lww_entry_ok e k) \<and>
     set (lww_key_locks e) \<subseteq> {k. kv_get (lww_store e) k \<noteq> None}"

lemma lww_inv_new: "lww_inv (lww_new replica_id)"
  by (simp add: lww_inv_def lww_entry_ok_def lww_new_def)

lemma lww_new_simps [simp]:
  "keeper_ops (lww_log (lww_new r)) = []" "lww_replica_id (lww_new r) = r"
  by (simp_all add: lww_new_def keeper_new_def)

lemma lww_inv_entry:
  assumes "lww_inv e"
  obtains (unknown) "map_of (lww_metadata e) k = None" "kv_get (lww_store e) k = None"
    | (known) m where "map_of (lww_metadata e) k = Some [m]"
        "vm_is_tombstone m \<longleftrightarrow> kv_get (lww_store e) k = None"
proof -
  have "lww_entry_ok e k" using assms by (simp add: lww_inv_def)
  then show thesis
    using unknown known by (auto simp: lww_entry_ok_def split: option.splits list.splits)
qed

lemma lww_get_abs: "lww_inv e \<Longrightarrow> lww_get e k = Option.bind (lww_abs e k) snd"
  by (rule lww_inv_entry [where k = k]) (auto simp: lww_get_def lww_abs_def)

lemma lww_abs_None: "lww_inv e \<Longrightarrow> lww_abs e k = None \<longleftrightarrow> map_of (lww_metadata e) k = None"
  by (rule lww_inv_entry [where k = k]) (auto simp: lww_abs_def)

lemma lww_entry_cong:
  assumes "map_of (lww_metadata e') k = map_of (lww_metadata e) k"
    and "kv_get (lww_store e') k = kv_get (lww_store e) k"
  shows "lww_entry_ok e' k = lww_entry_ok e k" and "lww_abs e' k = lww_abs e k"
  unfolding lww_entry_ok_def lww_abs_def assms by (rule refl)+

lemma lww_inv_cong:
  assumes "lww_store e' = lww_store e" "lww_metadata e' = lww_metadata e"
    "lww_key_locks e' = lww_key_locks e"
  shows "lww_inv e' = lww_inv e" and "lww_abs e' = lww_abs e"
  unfolding lww_inv_def lww_entry_ok_def lww_abs_def [abs_def] assms by (rule refl)+

lemma lww_inv_log [simp]:
  "lww_inv (e\<lparr>lww_log := l\<rparr>) = lww_inv e" "lww_abs (e\<lparr>lww_log := l\<rparr>) = lww_abs e"
  by (rule lww_inv_cong; simp)+

text \<open>
  Every write path ends the same way: the key's metadata is one version, the store agrees
  with it, the key's lock was taken and is released if the key is dead.
\<close>

lemma try_cleanup_simps [simp]:
  "lww_store (try_cleanup_key_lock k e) = lww_store e"
  "lww_metadata (try_cleanup_key_lock k e) = lww_metadata e"
  "lww_log (try_cleanup_key_lock k e) = lww_log e"
  "lww_replica_id (try_cleanup_key_lock k e) = lww_replica_id e"
  by (simp_all add: try_cleanup_key_lock_def)

lemma key_lock_for_simps [simp]:
  "lww_store (key_lock_for k e) = lww_store e"
  "lww_metadata (key_lock_for k e) = lww_metadata e"
  "lww_log (key_lock_for k e) = lww_log e"
  "lww_replica_id (key_lock_for k e) = lww_replica_id e"
  "lww_key_locks (key_lock_for k e) = List.insert k (lww_key_locks e)"
  by (simp_all add: key_lock_for_def)

lemma lww_settle:
  assumes inv: "lww_inv e"
    and store: "kv_wf (lww_store e1)" "kv_get (lww_store e1) = (kv_get (lww_store e))(k := val)"
    and md: "lww_metadata e1 = AList.update k [m] (lww_metadata e)"
    and locks: "lww_key_locks e1 = List.insert k (lww_key_locks e)"
    and tomb: "vm_is_tombstone m \<longleftrightarrow> val = None"
  shows "lww_inv (try_cleanup_key_lock k e1)"
    and "lww_abs (try_cleanup_key_lock k e1) = (lww_abs e)(k := Some (version_key m, val))"
proof -
  have "kv_contains_key (lww_store e1) k \<longleftrightarrow> val \<noteq> None"
    using store(2) by (metis fun_upd_same kv_contains_key_get)
  moreover have "key_is_tombstoned_or_unknown e1 k \<longleftrightarrow> val = None"
    by (simp add: key_is_tombstoned_or_unknown_def winner_tombstoned_def md tomb)
  ultimately have locks': "lww_key_locks (try_cleanup_key_lock k e1) =
      (if val = None then removeAll k (List.insert k (lww_key_locks e))
       else List.insert k (lww_key_locks e))"
    by (simp add: try_cleanup_key_lock_def locks)
  have "lww_entry_ok (try_cleanup_key_lock k e1) k'" for k'
    by (rule lww_inv_entry [OF inv, of k']; cases "k' = k")
      (auto simp: lww_entry_ok_def store md tomb)
  then show "lww_inv (try_cleanup_key_lock k e1)"
    using inv unfolding lww_inv_def locks' try_cleanup_simps
    by (auto simp: store md distinct_update distinct_removeAll)
  show "lww_abs (try_cleanup_key_lock k e1) = (lww_abs e)(k := Some (version_key m, val))"
    by (rule ext) (simp add: lww_abs_def md store split: option.splits list.splits)
qed

lemma lww_settle_reject:
  assumes inv: "lww_inv e"
    and e1: "lww_store e1 = lww_store e" "lww_metadata e1 = AList.update k [m] (lww_metadata e)"
      "lww_key_locks e1 = List.insert k (lww_key_locks e)"
    and m: "lww_abs e k = Some (version_key m, kv_get (lww_store e) k)"
      "vm_is_tombstone m \<longleftrightarrow> kv_get (lww_store e) k = None"
  shows "lww_inv (try_cleanup_key_lock k e1)"
    and "lww_abs (try_cleanup_key_lock k e1) = lww_abs e"
proof -
  have wf: "kv_wf (lww_store e1)" using inv e1 by (simp add: lww_inv_def)
  have get: "kv_get (lww_store e1) = (kv_get (lww_store e))(k := kv_get (lww_store e) k)"
    by (simp add: e1)
  note settle = lww_settle [OF inv wf get e1(2,3) m(2)]
  show "lww_inv (try_cleanup_key_lock k e1)" by (rule settle(1))
  show "lww_abs (try_cleanup_key_lock k e1) = lww_abs e"
    using m(1) by (simp add: settle(2) fun_upd_idem)
qed

section \<open>Recording a version\<close>

text \<open>On a key with one recorded version, the metadata steps compare versions.\<close>

lemma version_key_vm [simp]:
  "version_key (vm_new now t r) = (t, r)"
  "version_key (vm_tombstone now t r) = (t, r)"
  "vm_is_tombstone (vm_new now t r) = False"
  "vm_is_tombstone (vm_tombstone now t r) = True"
  by (simp_all add: version_key_def vm_new_def vm_tombstone_def)

lemma matches_version_iff: "matches_version m t r \<longleftrightarrow> version_key m = (t, r)"
  by (simp add: matches_version_def version_key_def)

lemma compact_single [simp]: "compact_key_metadata [m] = [m]"
  by (simp add: compact_key_metadata_def)

lemma compact_pair:
  "version_key m \<le> version_key m' \<Longrightarrow> compact_key_metadata [m, m'] = [m']"
  by (auto simp: compact_key_metadata_def)

lemma record_insert_unknown:
  "map_of md k = None \<Longrightarrow>
   record_insert_metadata now k t r md = (AList.update k [vm_new now t r] md, True)"
  by (simp add: record_insert_metadata_def)

lemma record_insert_known:
  "map_of md k = Some [m] \<Longrightarrow>
   record_insert_metadata now k t r md =
     (if version_key m < (t, r) then (AList.update k [vm_new now t r] md, True)
      else (AList.update k [m] md, False))"
  by (auto simp: record_insert_metadata_def matches_version_iff is_newer_than_def compact_pair
      dest: order.strict_implies_order)

lemma record_remove_unknown:
  "map_of md k = None \<Longrightarrow>
   record_remove_metadata now k t r md = (AList.update k [vm_tombstone now t r] md, True)"
  by (simp add: record_remove_metadata_def)

lemma record_remove_known:
  "map_of md k = Some [m] \<Longrightarrow>
   record_remove_metadata now k t r md =
     (if version_key m < (t, r) \<or> version_key m = (t, r) \<and> \<not> vm_is_tombstone m
      then (AList.update k [vm_tombstone now t r] md, True)
      else (AList.update k [m] md, False))"
  by (auto simp: record_remove_metadata_def matches_version_iff is_newer_than_def compact_pair
      dest: order.strict_implies_order)

definition insert_accepted :: "version \<Rightarrow> lww_elem option \<Rightarrow> bool" where
  "insert_accepted v x = (case x of None \<Rightarrow> True | Some y \<Rightarrow> fst y < v)"

definition remove_accepted :: "version \<Rightarrow> lww_elem option \<Rightarrow> bool" where
  "remove_accepted v x =
     (case x of None \<Rightarrow> True | Some y \<Rightarrow> fst y < v \<or> fst y = v \<and> snd y \<noteq> None)"

text \<open>
  The outcome of recording a version, as the caller needs it: whether it is accepted, and
  a metadata table \<open>lww_settle\<close> applies to.
\<close>

lemma record_insert_cases:
  assumes "lww_inv e"
  obtains (accepted) "insert_accepted (t, r) (lww_abs e k)"
      "record_insert_metadata now k t r (lww_metadata e) =
         (AList.update k [vm_new now t r] (lww_metadata e), True)"
    | (rejected) m where "\<not> insert_accepted (t, r) (lww_abs e k)"
      "record_insert_metadata now k t r (lww_metadata e) = (AList.update k [m] (lww_metadata e), False)"
      "lww_abs e k = Some (version_key m, kv_get (lww_store e) k)"
      "vm_is_tombstone m \<longleftrightarrow> kv_get (lww_store e) k = None"
  using assms
proof (cases rule: lww_inv_entry [where k = k])
  case unknown
  then show ?thesis
    by (intro accepted) (simp_all add: record_insert_unknown insert_accepted_def lww_abs_def)
next
  case (known m)
  then show ?thesis
    by (cases "version_key m < (t, r)")
      (auto simp: record_insert_known insert_accepted_def lww_abs_def
        intro: accepted rejected simp del: less_prod_simp)
qed

lemma record_remove_cases:
  assumes "lww_inv e"
  obtains (accepted) "remove_accepted (t, r) (lww_abs e k)"
      "record_remove_metadata now k t r (lww_metadata e) =
         (AList.update k [vm_tombstone now t r] (lww_metadata e), True)"
    | (rejected) m where "\<not> remove_accepted (t, r) (lww_abs e k)"
      "record_remove_metadata now k t r (lww_metadata e) = (AList.update k [m] (lww_metadata e), False)"
      "lww_abs e k = Some (version_key m, kv_get (lww_store e) k)"
      "vm_is_tombstone m \<longleftrightarrow> kv_get (lww_store e) k = None"
  using assms
proof (cases rule: lww_inv_entry [where k = k])
  case unknown
  then show ?thesis
    by (intro accepted) (simp_all add: record_remove_unknown remove_accepted_def lww_abs_def)
next
  case (known m)
  then show ?thesis
    by (cases "version_key m < (t, r) \<or> version_key m = (t, r) \<and> \<not> vm_is_tombstone m")
      (auto simp: record_remove_known remove_accepted_def lww_abs_def
        intro: accepted rejected simp del: less_prod_simp)
qed

section \<open>Every operation on the abstract state\<close>

lemma kv_wf_store: "lww_inv e \<Longrightarrow> kv_wf (lww_store e)"
  by (simp add: lww_inv_def)

lemma apply_insert_abs:
  assumes inv: "lww_inv e"
  shows "lww_inv (apply_insert now k v t r e)"
    and "lww_abs (apply_insert now k v t r e) =
         (if insert_accepted (t, r) (lww_abs e k)
          then (lww_abs e)(k \<mapsto> ((t, r), Some v)) else lww_abs e)"
proof (atomize (full), rule record_insert_cases [OF inv, where t = t and r = r and k = k and now = now],
    goal_cases)
  case 1
  then show ?case
    using lww_settle [OF inv, of "(key_lock_for k e)\<lparr>lww_metadata := _, lww_store := _\<rparr>"
        k "Some v" "vm_new now t r"]
    by (simp add: apply_insert_def kv_wf_store inv)
next
  case (2 m)
  then show ?case
    using lww_settle_reject [OF inv _ _ _ 2(3,4), of "(key_lock_for k e)\<lparr>lww_metadata := _\<rparr>"]
    by (simp add: apply_insert_def)
qed

lemma apply_remove_inner_abs:
  assumes inv: "lww_inv e"
  shows "lww_inv (fst (apply_remove_inner now k t r e))"
    and "lww_abs (fst (apply_remove_inner now k t r e)) =
         (if remove_accepted (t, r) (lww_abs e k)
          then (lww_abs e)(k \<mapsto> ((t, r), None)) else lww_abs e)"
proof (atomize (full), rule record_remove_cases [OF inv, where t = t and r = r and k = k and now = now],
    goal_cases)
  case 1
  then show ?case
    using lww_settle [OF inv, of "(key_lock_for k e)\<lparr>lww_metadata := _, lww_store := _\<rparr>"
        k None "vm_tombstone now t r"]
    by (simp add: apply_remove_inner_def kv_wf_store inv case_prod_beta)
next
  case (2 m)
  then show ?case
    using lww_settle_reject [OF inv _ _ _ 2(3,4), of "(key_lock_for k e)\<lparr>lww_metadata := _\<rparr>"]
    by (simp add: apply_remove_inner_def)
qed

lemma lww_put_local_abs:
  assumes inv: "lww_inv e" and put: "lww_put_local now k v (c, e) = ((c', e'), res)"
  shows "c' = lamport_tick c" and "res = lww_get e k" and "lww_inv e'"
    and "lww_replica_id e' = lww_replica_id e"
    and "insert_accepted (lamport_tick c, lww_replica_id e) (lww_abs e k) \<Longrightarrow>
         lww_abs e' = (lww_abs e)(k \<mapsto> ((lamport_tick c, lww_replica_id e), Some v)) \<and>
         lww_log e' = keeper_append (Insert k v (lamport_tick c) (lww_replica_id e))
                        (length (lww_metadata e')) lww_fold (lww_log e)"
    and "\<not> insert_accepted (lamport_tick c, lww_replica_id e) (lww_abs e k) \<Longrightarrow>
         lww_abs e' = lww_abs e \<and> lww_log e' = lww_log e"
proof (atomize (full), rule record_insert_cases
    [OF inv, where t = "lamport_tick c" and r = "lww_replica_id e" and k = k and now = now], goal_cases)
  case 1
  then show ?case
    using put lww_settle [OF inv,
        of "(key_lock_for k e)\<lparr>lww_metadata := _, lww_store := _, lww_log := _\<rparr>"
        k "Some v" "vm_new now (lamport_tick c) (lww_replica_id e)"]
    by (auto simp: lww_put_local_def Let_def lww_append_op_def kv_wf_store inv lww_get_def)
next
  case (2 m)
  then show ?case
    using put lww_settle_reject [OF inv _ _ _ 2(3,4), of "(key_lock_for k e)\<lparr>lww_metadata := _\<rparr>"]
    by (auto simp: lww_put_local_def Let_def lww_get_def)
qed

lemma lww_delete_local_abs:
  assumes inv: "lww_inv e" and del: "lww_delete_local now k (c, e) = ((c', e'), res)"
  shows "c' = lamport_tick c" and "lww_inv e'"
    and "lww_replica_id e' = lww_replica_id e"
    and "remove_accepted (lamport_tick c, lww_replica_id e) (lww_abs e k) \<Longrightarrow>
         res = lww_get e k \<and>
         lww_abs e' = (lww_abs e)(k \<mapsto> ((lamport_tick c, lww_replica_id e), None)) \<and>
         lww_log e' = keeper_append (Remove k (lamport_tick c) (lww_replica_id e))
                        (length (lww_metadata e')) lww_fold (lww_log e)"
    and "\<not> remove_accepted (lamport_tick c, lww_replica_id e) (lww_abs e k) \<Longrightarrow>
         res = None \<and> lww_abs e' = lww_abs e \<and> lww_log e' = lww_log e"
proof (atomize (full), rule record_remove_cases
    [OF inv, where t = "lamport_tick c" and r = "lww_replica_id e" and k = k and now = now], goal_cases)
  case 1
  then show ?case
    using del lww_settle [OF inv,
        of "(key_lock_for k e)\<lparr>lww_metadata := _, lww_log := _, lww_store := _\<rparr>"
        k None "vm_tombstone now (lamport_tick c) (lww_replica_id e)"]
    by (auto simp: lww_delete_local_def Let_def lww_append_op_def kv_wf_store inv lww_get_def case_prod_beta)
next
  case (2 m)
  then show ?case
    using del lww_settle_reject [OF inv _ _ _ 2(3,4), of "(key_lock_for k e)\<lparr>lww_metadata := _\<rparr>"]
    by (auto simp: lww_delete_local_def Let_def)
qed

lemma apply_preserves_log:
  "lww_log (apply_insert now k v t r e) = lww_log e"
  "lww_log (fst (apply_remove_inner now k t r e)) = lww_log e"
  "lww_replica_id (apply_insert now k v t r e) = lww_replica_id e"
  "lww_replica_id (fst (apply_remove_inner now k t r e)) = lww_replica_id e"
  by (simp_all add: apply_insert_def apply_remove_inner_def Let_def case_prod_beta)

lemma lww_apply_op_inv:
  assumes "lww_inv e"
  shows "lww_inv (snd (lww_apply_op now (c, e) op))"
    and "lww_log (snd (lww_apply_op now (c, e) op)) = lww_log e"
    and "lww_replica_id (snd (lww_apply_op now (c, e) op)) = lww_replica_id e"
    and "fst (lww_apply_op now (c, e) op) = lamport_update c (op_timestamp op)"
  by (cases op; simp add: lww_apply_op_def apply_insert_abs [OF assms] apply_preserves_log
      apply_remove_inner_abs [OF assms])+

text \<open>A key's state and an operation agree when they do not give one version two values.\<close>

definition lww_agrees :: "lww_elem option \<Rightarrow> operation \<Rightarrow> bool" where
  "lww_agrees x op \<longleftrightarrow>
     (\<forall>a b. x = Some (op_version op, Some a) \<longrightarrow> op_live op = Some b \<longrightarrow> a = b)"

lemma lww_apply_op_refines:
  assumes "lww_inv e" and "lww_agrees (lww_abs e (op_key op)) op"
  shows "lww_abs (snd (lww_apply_op now (c, e) op)) =
         (lww_abs e)(op_key op := join_step lww_join (lww_abs e (op_key op)) (lww_elem op))"
proof (cases op)
  case (Insert k v t r)
  then show ?thesis
    using assms(2)
    by (cases "lww_abs e k")
      (auto simp: lww_apply_op_def apply_insert_abs [OF assms(1)] insert_accepted_def lww_agrees_def
        lww_join_def lww_elem_def op_version_def fun_upd_idem split: option.splits)
next
  case (Remove k t r)
  then show ?thesis
    by (cases "lww_abs e k")
      (auto simp: lww_apply_op_def apply_remove_inner_abs [OF assms(1)] remove_accepted_def
        lww_join_def lww_elem_def op_version_def fun_upd_idem split: option.splits)
qed

section \<open>Histories\<close>

lemma lww_value_snoc:
  "lww_value (H @ [op]) =
     (lww_value H)(op_key op := join_step lww_join (lww_value H (op_key op)) (lww_elem op))"
  by (auto simp: lww_value_def joins_snoc)

lemma lww_value_Nil [simp]: "lww_value [] = (\<lambda>k. None)"
  by (auto simp: lww_value_def)

lemma lww_value_set_eq: "set H = set H' \<Longrightarrow> lww_value H = lww_value H'"
  unfolding lww_value_def by (intro ext lww_lattice.joins_set_eq) auto

lemma lww_value_None: "lww_value H k = None \<longleftrightarrow> k \<notin> op_key ` set H"
  by (simp add: lww_value_def ops_for_Nil_iff)

lemma lww_join_in: "lww_join a b = a \<or> lww_join a b = b"
  by (cases a; cases b) (auto simp: lww_join_def max_def split: option.splits)

lemma joins_lww_in: "joins lww_join xs = Some x \<Longrightarrow> x \<in> set xs"
proof (induction xs arbitrary: x rule: rev_induct)
  case (snoc y xs)
  then show ?case
    by (cases "joins lww_join xs") (auto simp: joins_snoc, metis lww_join_in)
qed simp

lemma lww_value_in:
  assumes "lww_value H k = Some x"
  obtains op where "op \<in> set H" "op_key op = k" "x = lww_elem op"
  using joins_lww_in [OF assms [unfolded lww_value_def]] by auto

lemma lww_join_ge: "fst a \<le> fst (lww_join a b)" "fst b \<le> fst (lww_join a b)"
  by (auto simp: lww_join_def not_less)

lemma joins_lww_ge: "joins lww_join xs = Some x \<Longrightarrow> y \<in> set xs \<Longrightarrow> fst y \<le> fst x"
proof (induction xs arbitrary: x rule: rev_induct)
  case (snoc z xs)
  then show ?case
    by (cases "joins lww_join xs") (auto simp: joins_snoc intro: lww_join_ge order_trans)
qed simp

lemma lww_value_ge:
  "lww_value H k = Some x \<Longrightarrow> op \<in> set H \<Longrightarrow> op_key op = k \<Longrightarrow> op_version op \<le> fst x"
  using joins_lww_ge [of "map lww_elem (ops_for k H)" x "lww_elem op"]
  by (simp add: lww_value_def lww_elem_def)

lemma lww_value_eqI:
  assumes "op_ids_unique (set H)" "op \<in> set H" "op_key op = k"
    and "\<And>op'. op' \<in> set H \<Longrightarrow> op_key op' = k \<Longrightarrow> op_version op' \<le> op_version op"
  shows "lww_value H k = Some (lww_elem op)"
proof -
  obtain x where x: "lww_value H k = Some x"
    using assms(2,3) lww_value_None [of H k] by fastforce
  then obtain w where w: "w \<in> set H" "op_key w = k" "x = lww_elem w"
    by (rule lww_value_in)
  have "op_version op \<le> op_version w"
    using lww_value_ge [OF x assms(2,3)] w by (simp add: lww_elem_def)
  with assms(4) [OF w(1,2)] have "w = op"
    using op_ids_uniqueD [OF assms(1) w(1) assms(2)] by simp
  with x w show ?thesis by simp
qed

lemma lww_agrees_history:
  assumes "op_ids_unique (insert op (set H))"
  shows "lww_agrees (lww_value H (op_key op)) op"
  unfolding lww_agrees_def
proof (intro allI impI)
  fix a b
  assume "lww_value H (op_key op) = Some (op_version op, Some a)" and b: "op_live op = Some b"
  then obtain w where "w \<in> set H" "(op_version op, Some a) = lww_elem w"
    using lww_value_in by metis
  with op_ids_uniqueD [OF assms, of w op] b show "a = b"
    by (auto simp: lww_elem_def)
qed

text \<open>The per-key fold of the log is the winner of its operations.\<close>

lemma lww_fold_keeps_key: "fold_keeps_key lww_fold"
  by (auto simp: fold_keeps_key_def lww_fold_def dest: max_by_key_in)

lemma set_compact_lww: "set (compact_by_key lww_fold ops) \<subseteq> set ops"
proof
  fix w assume "w \<in> set (compact_by_key lww_fold ops)"
  then have "lww_fold (ops_for (op_key w) ops) = Some w"
    by (simp add: set_compact_by_key [OF lww_fold_keeps_key])
  then have "w \<in> set (ops_for (op_key w) ops)"
    unfolding lww_fold_def by (rule max_by_key_in)
  then show "w \<in> set ops" by simp
qed

lemma lww_value_compact:
  assumes "op_ids_unique (set ops)"
  shows "lww_value (compact_by_key lww_fold ops) = lww_value ops"
proof
  fix k
  show "lww_value (compact_by_key lww_fold ops) k = lww_value ops k"
  proof (cases "ops_for k ops = []")
    case True
    then show ?thesis
      by (simp add: lww_value_def compact_by_key_ops_for [OF lww_fold_keeps_key])
  next
    case False
    then obtain w where w: "lww_fold (ops_for k ops) = Some w"
      by (cases "lww_fold (ops_for k ops)") (auto simp: lww_fold_def)
    then have win: "w \<in> set ops" "op_key w = k"
      using max_by_key_in [of op_version "ops_for k ops" w] by (auto simp: lww_fold_def)
    have "op_version op' \<le> op_version w" if "op' \<in> set ops" "op_key op' = k" for op'
      using max_by_key_ge [of op_version "ops_for k ops" w op'] w that by (simp add: lww_fold_def)
    with assms win have "lww_value ops k = Some (lww_elem w)"
      by (intro lww_value_eqI) auto
    with False w show ?thesis
      by (simp add: lww_value_def compact_by_key_ops_for [OF lww_fold_keeps_key] joins_Cons)
  qed
qed

lemma lww_fold_perm_invariant_on:
  assumes "op_ids_unique (set xs)" "mset xs = mset ys"
  shows "lww_fold xs = lww_fold ys"
proof -
  have "set xs = set ys" using assms(2) by (rule mset_eq_setD)
  with assms(1) show ?thesis
    unfolding lww_fold_def op_ids_unique_inj_on by (intro max_by_key_cong_set)
qed

section \<open>The engine refines its history\<close>

text \<open>
  \<open>lww_repr c e H\<close>: the engine \<open>e\<close> with shared clock \<open>c\<close> has absorbed exactly the operations
  \<open>H\<close>.  The log holds operations of \<open>H\<close> only and the clock has observed all of them.
\<close>

definition lww_repr :: "u64 \<Rightarrow> lww_engine \<Rightarrow> operation list \<Rightarrow> bool" where
  "lww_repr c e H \<longleftrightarrow>
     lww_inv e \<and> lww_abs e = lww_value H \<and>
     set (keeper_ops (lww_log e)) \<subseteq> set H \<and> (\<forall>op \<in> set H. op_timestamp op \<le> c)"

lemma lww_repr_get: "lww_repr c e H \<Longrightarrow> lww_get e k = lww_spec_get H k"
  by (simp add: lww_repr_def lww_spec_get_def lww_get_abs)

lemma lww_repr_set_eq: "lww_repr c e H \<Longrightarrow> set H = set H' \<Longrightarrow> lww_repr c e H'"
  using lww_value_set_eq [of H H'] by (simp add: lww_repr_def)

lemma lww_repr_new: "lww_repr c (lww_new r) []"
  by (simp add: lww_repr_def lww_inv_new) (auto simp: lww_abs_def lww_new_def keeper_new_def)

lemma lww_apply_ops_repr:
  assumes "lww_inv e" "lww_abs e = lww_value H" "op_ids_unique (set H \<union> set ops)"
    and "\<forall>op \<in> set H. op_timestamp op \<le> c"
    and "foldl (lww_apply_op now) (c, e) ops = (c', e')"
  shows "lww_inv e' \<and> lww_abs e' = lww_value (H @ ops) \<and> lww_log e' = lww_log e \<and>
         lww_replica_id e' = lww_replica_id e \<and> c \<le> c' \<and>
         (\<forall>op \<in> set (H @ ops). op_timestamp op \<le> c')"
  using assms
proof (induction ops arbitrary: c e H)
  case Nil
  then show ?case by simp
next
  case (Cons op ops)
  obtain c1 e1 where step: "lww_apply_op now (c, e) op = (c1, e1)"
    by fastforce
  have uniq: "op_ids_unique (insert op (set H))" "op_ids_unique (set (H @ [op]) \<union> set ops)"
    using Cons.prems(3) by (auto intro: op_ids_unique_subset)
  note inv1 = lww_apply_op_inv [OF Cons.prems(1), of now c op, unfolded step, simplified]
  have abs1: "lww_abs e1 = lww_value (H @ [op])"
    using lww_apply_op_refines [OF Cons.prems(1), of op now c] lww_agrees_history [OF uniq(1)]
    by (simp add: step Cons.prems(2) lww_value_snoc)
  have clock: "c \<le> c1" "\<forall>o' \<in> set (H @ [op]). op_timestamp o' \<le> c1"
    using Cons.prems(4) lamport_update_ge(1) [of c "op_timestamp op"]
      lamport_update_ge(2) [of "op_timestamp op" c] by (auto simp: inv1(4))
  have "foldl (lww_apply_op now) (c1, e1) ops = (c', e')"
    using Cons.prems(5) by (simp add: step)
  from Cons.IH [OF inv1(1) abs1 uniq(2) clock(2) this] inv1(2,3) clock(1)
  show ?case by auto
qed

lemma set_lww_unseen:
  "set (lww_unseen e ops) = {op \<in> set ops. op_version op \<notin> op_version ` set (keeper_ops (lww_log e))}"
  by (auto simp: lww_unseen_def)

lemma lww_remote_seen:
  "lww_unseen e ops = [] \<Longrightarrow> lww_apply_remote_ops now ops (c, e) = ((c, e), [])"
  by (simp add: lww_apply_remote_ops_def)

lemma lww_remote_unseen:
  assumes "lww_unseen e ops \<noteq> []"
    and "lww_apply_remote_ops now ops (c, e) = ((c', e'), cs)"
  shows "foldl (lww_apply_op now)
           (c, e\<lparr>lww_log := keeper_merge_batch (lww_unseen e ops) lww_fold (lww_log e)\<rparr>)
           (lww_unseen e ops) = (c', e')"
    and "cs = changes (values_before (lww_unseen e ops) (lww_get e)) (lww_get e')"
proof -
  have "ops \<noteq> []" using assms(1) by (auto simp: lww_unseen_def)
  with assms
  show "foldl (lww_apply_op now)
           (c, e\<lparr>lww_log := keeper_merge_batch (lww_unseen e ops) lww_fold (lww_log e)\<rparr>)
           (lww_unseen e ops) = (c', e')"
    and "cs = changes (values_before (lww_unseen e ops) (lww_get e)) (lww_get e')"
    by (simp_all add: lww_apply_remote_ops_def lww_get_def [abs_def] Let_def split: prod.splits)
qed

lemma set_history_unseen:
  assumes repr: "lww_repr c e H" and uniq: "op_ids_unique (set H \<union> set ops)"
  shows "set (H @ lww_unseen e ops) = set (H @ ops)"
proof -
  have log: "set (keeper_ops (lww_log e)) \<subseteq> set H" using repr by (simp add: lww_repr_def)
  have "op \<in> set H" if "op \<in> set ops" "op_version op \<in> op_version ` set (keeper_ops (lww_log e))" for op
    using op_ids_unique_in [OF uniq _ _ that(2)] that(1) log by blast
  then show ?thesis by (auto simp: set_lww_unseen)
qed

lemma lww_remote_repr:
  assumes repr: "lww_repr c e H" and uniq: "op_ids_unique (set H \<union> set ops)"
    and app: "lww_apply_remote_ops now ops (c, e) = ((c', e'), cs)"
  shows "lww_repr c' e' (H @ ops)" and "c \<le> c'" and "lww_replica_id e' = lww_replica_id e"
proof -
  have log: "set (keeper_ops (lww_log e)) \<subseteq> set H" using repr by (simp add: lww_repr_def)
  note seen = set_history_unseen [OF repr uniq]
  have fin: "lww_repr c' e' (H @ lww_unseen e ops) \<and> c \<le> c' \<and> lww_replica_id e' = lww_replica_id e"
  proof (cases "lww_unseen e ops = []")
    case True
    then show ?thesis
      using app repr by (simp add: lww_remote_seen)
  next
    case False
    let ?e1 = "e\<lparr>lww_log := keeper_merge_batch (lww_unseen e ops) lww_fold (lww_log e)\<rparr>"
    note fold = lww_remote_unseen(1) [OF False app]
    have "lww_inv ?e1" "lww_abs ?e1 = lww_value H"
      using repr by (simp_all add: lww_repr_def)
    moreover have "op_ids_unique (set H \<union> set (lww_unseen e ops))"
      using uniq by (rule op_ids_unique_subset) (auto simp: set_lww_unseen)
    ultimately have "lww_inv e' \<and> lww_abs e' = lww_value (H @ lww_unseen e ops) \<and>
         lww_log e' = lww_log ?e1 \<and> lww_replica_id e' = lww_replica_id e \<and> c \<le> c' \<and>
         (\<forall>op \<in> set (H @ lww_unseen e ops). op_timestamp op \<le> c')"
      using lww_apply_ops_repr [OF _ _ _ _ fold] repr by (simp add: lww_repr_def)
    moreover have "set (keeper_ops (lww_log ?e1)) \<subseteq> set (H @ lww_unseen e ops)"
      using set_compact_lww [of "keeper_ops (lww_log e) @ lww_unseen e ops"] log
      by (auto simp: keeper_merge_batch_def)
    ultimately show ?thesis by (simp add: lww_repr_def)
  qed
  from lww_repr_set_eq [OF conjunct1 [OF fin] seen] show "lww_repr c' e' (H @ ops)" .
  from fin show "c \<le> c'" "lww_replica_id e' = lww_replica_id e" by simp_all
qed

text \<open>A local write's version is newer than everything absorbed, unless the clock is saturated.\<close>

lemma lww_tick_accepted:
  assumes "lww_repr c e H" and "c \<noteq> u64_max"
  shows "insert_accepted (lamport_tick c, r) (lww_abs e k)"
    and "remove_accepted (lamport_tick c, r) (lww_abs e k)"
proof -
  have "fst x < (lamport_tick c, r)" if "lww_abs e k = Some x" for x
  proof -
    from that assms(1) have "lww_value H k = Some x" by (simp add: lww_repr_def)
    then obtain op where "op \<in> set H" "x = lww_elem op" by (rule lww_value_in)
    moreover from this have "op_timestamp op < lamport_tick c"
      using assms lamport_tick_gt [of c] by (auto simp: lww_repr_def)
    ultimately show ?thesis by (simp add: lww_elem_def op_version_def)
  qed
  then show "insert_accepted (lamport_tick c, r) (lww_abs e k)"
    and "remove_accepted (lamport_tick c, r) (lww_abs e k)"
    by (auto simp: insert_accepted_def remove_accepted_def split: option.split)
qed

lemma lww_tick_fresh:
  assumes "lww_repr c e H" and "c \<noteq> u64_max" and "op_timestamp op = lamport_tick c"
  shows "op_version op \<notin> op_version ` set H"
  using assms lamport_tick_gt [of c] by (auto simp: lww_repr_def op_version_def)

lemma set_keeper_append_lww:
  "set (keeper_ops (keeper_append op n lww_fold k)) \<subseteq> insert op (set (keeper_ops k))"
  using set_compact_lww [of "keeper_ops k @ [op]"]
  by (auto simp: keeper_append_def Let_def truncate_oldest_over_threshold_def
      split: if_splits dest: in_set_dropD)

lemma lww_value_upd:
  assumes "lww_abs e = lww_value H"
    and "insert_accepted (op_version op) (lww_abs e (op_key op))"
  shows "lww_value (H @ [op]) = (lww_abs e)(op_key op \<mapsto> lww_elem op)"
  using assms
  by (auto simp: insert_accepted_def lww_value_snoc lww_join_def lww_elem_def split: option.splits)

lemma lww_put_repr:
  assumes repr: "lww_repr c e H" and c: "c \<noteq> u64_max"
    and put: "lww_put_local now k v (c, e) = ((c', e'), res)"
  shows "lww_repr c' e' (H @ [Insert k v (lamport_tick c) (lww_replica_id e)])"
proof -
  let ?op = "Insert k v (lamport_tick c) (lww_replica_id e)"
  have inv: "lww_inv e" using repr by (simp add: lww_repr_def)
  note acc = lww_tick_accepted(1) [OF repr c, of "lww_replica_id e" k]
  note eff = lww_put_local_abs(1,3,5) [OF inv put]
  have "lww_abs e' = lww_value (H @ [?op])"
    using eff(3) [OF acc] lww_value_upd [of e H ?op] repr acc
    by (simp add: lww_repr_def lww_elem_def op_version_def)
  moreover have "set (keeper_ops (lww_log e')) \<subseteq> set (H @ [?op])"
    using eff(3) [OF acc] repr set_keeper_append_lww [of ?op "length (lww_metadata e')" "lww_log e"]
    by (auto simp: lww_repr_def)
  moreover have "\<forall>op \<in> set H. op_timestamp op \<le> lamport_tick c"
    using repr lamport_tick_ge [of c] by (auto simp: lww_repr_def intro: order_trans)
  ultimately show ?thesis using eff(1,2) by (simp add: lww_repr_def)
qed

lemma lww_delete_repr:
  assumes repr: "lww_repr c e H" and c: "c \<noteq> u64_max"
    and del: "lww_delete_local now k (c, e) = ((c', e'), res)"
  shows "lww_repr c' e' (H @ [Remove k (lamport_tick c) (lww_replica_id e)])"
proof -
  let ?op = "Remove k (lamport_tick c) (lww_replica_id e)"
  have inv: "lww_inv e" using repr by (simp add: lww_repr_def)
  note acc = lww_tick_accepted [OF repr c, of "lww_replica_id e" k]
  note eff = lww_delete_local_abs(1,2,4) [OF inv del]
  have "lww_abs e' = lww_value (H @ [?op])"
    using eff(3) [OF acc(2)] lww_value_upd [of e H ?op] repr acc(1)
    by (simp add: lww_repr_def lww_elem_def op_version_def)
  moreover have "set (keeper_ops (lww_log e')) \<subseteq> set (H @ [?op])"
    using eff(3) [OF acc(2)] repr
      set_keeper_append_lww [of ?op "length (lww_metadata e')" "lww_log e"]
    by (auto simp: lww_repr_def)
  moreover have "\<forall>op \<in> set H. op_timestamp op \<le> lamport_tick c"
    using repr lamport_tick_ge [of c] by (auto simp: lww_repr_def intro: order_trans)
  ultimately show ?thesis using eff(1,2) by (simp add: lww_repr_def)
qed

section \<open>The log keeps the winners\<close>

text \<open>
  The exported log stands for the whole history: replaying it alone gives the same state.
  Appends and merges keep this as long as the size backstop of \<open>truncate_oldest\<close> is not
  reached, which needs more live keys than \<open>AUTO_COMPACT_THRESHOLD\<close>.
\<close>

definition lww_log_complete :: "lww_engine \<Rightarrow> operation list \<Rightarrow> bool" where
  "lww_log_complete e H \<longleftrightarrow> lww_value (keeper_ops (lww_log e)) = lww_value H"

lemma lww_value_append_cong:
  "lww_value A = lww_value B \<Longrightarrow> lww_value (A @ xs) = lww_value (B @ xs)"
  by (induction xs rule: rev_induct) (simp_all add: lww_value_snoc flip: append_assoc)

lemma length_compact_lww: "length (compact_by_key lww_fold ops) \<le> card (op_key ` set ops)"
proof -
  let ?l = "compact_by_key lww_fold ops"
  have "length ?l = card (op_key ` set ?l)"
    using compact_by_key_distinct_keys [OF lww_fold_keeps_key, of ops]
    by (metis distinct_card length_map set_map)
  also have "\<dots> \<le> card (op_key ` set ops)"
    using set_compact_lww [of ops] by (intro card_mono) auto
  finally show ?thesis .
qed

lemma keeper_append_complete:
  assumes "op_ids_unique (set (keeper_ops l @ [op]))"
    and "card (op_key ` set (keeper_ops l @ [op])) \<le> AUTO_COMPACT_THRESHOLD"
  shows "lww_value (keeper_ops (keeper_append op n lww_fold l)) = lww_value (keeper_ops l @ [op])"
  using length_compact_lww [of "keeper_ops l @ [op]"] assms(2) lww_value_compact [OF assms(1)]
  by (simp add: keeper_append_def Let_def truncate_oldest_over_threshold_def)

lemma lww_remote_complete:
  assumes repr: "lww_repr c e H" and uniq: "op_ids_unique (set H \<union> set ops)"
    and full: "lww_log_complete e H"
    and log': "lww_log e' = (if lww_unseen e ops = [] then lww_log e
                             else keeper_merge_batch (lww_unseen e ops) lww_fold (lww_log e))"
  shows "lww_log_complete e' (H @ ops)"
proof -
  let ?l = "keeper_ops (lww_log e) @ lww_unseen e ops"
  have l: "set ?l \<subseteq> set H \<union> set ops"
    using repr by (auto simp: lww_repr_def set_lww_unseen)
  then have "lww_value (keeper_ops (lww_log e')) = lww_value ?l"
    using lww_value_compact [OF op_ids_unique_subset [OF uniq l]]
    by (simp add: log' keeper_merge_batch_def)
  also have "\<dots> = lww_value (H @ lww_unseen e ops)"
    using full by (intro lww_value_append_cong) (simp add: lww_log_complete_def)
  also have "\<dots> = lww_value (H @ ops)"
    by (rule lww_value_set_eq) (rule set_history_unseen [OF repr uniq])
  finally show ?thesis by (simp add: lww_log_complete_def)
qed

section \<open>Garbage collection\<close>

text \<open>A dead key whose winning tombstone is older than the grace period.\<close>

definition gc_expired :: "instant \<Rightarrow> nat \<Rightarrow> lww_engine \<Rightarrow> string \<Rightarrow> bool" where
  "gc_expired now grace e k \<longleftrightarrow>
     (case map_of (lww_metadata e) k of
        Some [m] \<Rightarrow> vm_is_tombstone m \<and> grace \<le> now - vm_created_at m
      | _ \<Rightarrow> False)"

lemma gc_key_effect:
  assumes inv: "lww_inv e" and dead: "kv_get (lww_store e) k = None" "map_of (lww_metadata e) k \<noteq> None"
    and step: "gc_key now grace (e, n, p) k = (e', n', p')"
  shows "lww_inv e' \<and> lww_store e' = lww_store e \<and> lww_log e' = lww_log e \<and>
         lww_replica_id e' = lww_replica_id e \<and>
         map_of (lww_metadata e') = (map_of (lww_metadata e))
           (k := if gc_expired now grace e k then None else map_of (lww_metadata e) k) \<and>
         n' = (if gc_expired now grace e k then n + 1 else n) \<and>
         map_of p' = (if gc_expired now grace e k
                      then (map_of p)(k := map_option fst (lww_abs e k)) else map_of p)"
proof -
  obtain m where m: "map_of (lww_metadata e) k = Some [m]" "vm_is_tombstone m"
    by (rule lww_inv_entry [OF inv, of k]) (use dead in auto)
  let ?e1 = "e\<lparr>lww_key_locks := removeAll k (lww_key_locks e)\<rparr>"
  have unk: "key_is_tombstoned_or_unknown e k" "\<not> kv_contains_key (lww_store e) k"
    using m dead(1) by (auto simp: key_is_tombstoned_or_unknown_def winner_tombstoned_def kv_contains_key_get)
  show ?thesis
  proof (cases "gc_expired now grace e k")
    case True
    then have e': "e' = ?e1\<lparr>lww_metadata := AList.delete k (lww_metadata e)\<rparr>" "n' = n + 1"
      "p' = AList.update k (version_key m) p"
      using step m unk by (auto simp: gc_key_def gc_collectable_def gc_expired_def)
    moreover from this have "lww_entry_ok e' k'" for k'
      using inv dead(1) lww_entry_cong(1) [of e' k' e]
      by (cases "k' = k") (simp_all add: lww_inv_def lww_entry_ok_def)
    ultimately have "lww_inv e'"
      using inv by (auto simp: lww_inv_def distinct_delete distinct_removeAll)
    with e' show ?thesis
      using True m by (auto simp: fun_eq_iff lww_abs_def)
  next
    case False
    then have e': "e' = ?e1" "n' = n" "p' = p"
      using step m unk by (auto simp: gc_key_def gc_collectable_def gc_expired_def)
    moreover from this have "lww_entry_ok e' k'" for k'
      using inv lww_entry_cong(1) [of e' k' e] by (simp add: lww_inv_def)
    ultimately have "lww_inv e'"
      using inv by (auto simp: lww_inv_def distinct_removeAll)
    with e' show ?thesis
      using False by (auto simp: fun_eq_iff)
  qed
qed

lemma gc_fold_effect:
  assumes "lww_inv e" "distinct ks"
    and "\<And>k. k \<in> set ks \<Longrightarrow> kv_get (lww_store e) k = None \<and> map_of (lww_metadata e) k \<noteq> None"
    and "foldl (gc_key now grace) (e, n, p) ks = (e', n', p')"
  shows "lww_inv e' \<and> lww_store e' = lww_store e \<and> lww_log e' = lww_log e \<and>
         lww_replica_id e' = lww_replica_id e \<and>
         map_of (lww_metadata e') =
           (\<lambda>k. if k \<in> set ks \<and> gc_expired now grace e k then None else map_of (lww_metadata e) k) \<and>
         n' = n + length (filter (gc_expired now grace e) ks) \<and>
         map_of p' = (\<lambda>k. if k \<in> set ks \<and> gc_expired now grace e k
                           then map_option fst (lww_abs e k) else map_of p k)"
  using assms
proof (induction ks arbitrary: e n p)
  case Nil
  then show ?case by simp
next
  case (Cons k ks)
  obtain e1 n1 p1 where step: "gc_key now grace (e, n, p) k = (e1, n1, p1)"
    by (metis prod_cases3)
  note eff = gc_key_effect [OF Cons.prems(1) _ _ step]
  have eff: "lww_inv e1 \<and> lww_store e1 = lww_store e \<and> lww_log e1 = lww_log e \<and>
         lww_replica_id e1 = lww_replica_id e \<and>
         map_of (lww_metadata e1) = (map_of (lww_metadata e))
           (k := if gc_expired now grace e k then None else map_of (lww_metadata e) k) \<and>
         n1 = (if gc_expired now grace e k then n + 1 else n) \<and>
         map_of p1 = (if gc_expired now grace e k
                      then (map_of p)(k := map_option fst (lww_abs e k)) else map_of p)"
    using Cons.prems(3) by (intro eff) auto
  have frame: "gc_expired now grace e1 k' = gc_expired now grace e k'" "lww_abs e1 k' = lww_abs e k'"
    if "k' \<in> set ks" for k'
  proof -
    from that Cons.prems(2) eff have same: "map_of (lww_metadata e1) k' = map_of (lww_metadata e) k'"
      "kv_get (lww_store e1) k' = kv_get (lww_store e) k'"
      by auto
    then show "gc_expired now grace e1 k' = gc_expired now grace e k'" by (simp add: gc_expired_def)
    from same show "lww_abs e1 k' = lww_abs e k'" by (rule lww_entry_cong)
  qed
  have filt: "filter (gc_expired now grace e1) ks = filter (gc_expired now grace e) ks"
    by (rule filter_cong [OF refl frame(1)])
  have "foldl (gc_key now grace) (e1, n1, p1) ks = (e', n', p')"
    using Cons.prems(4) by (simp add: step)
  moreover have "kv_get (lww_store e1) k' = None \<and> map_of (lww_metadata e1) k' \<noteq> None"
    if "k' \<in> set ks" for k'
    using eff Cons.prems(2) Cons.prems(3) [of k'] that by auto
  ultimately have IH: "lww_inv e' \<and> lww_store e' = lww_store e \<and> lww_log e' = lww_log e \<and>
         lww_replica_id e' = lww_replica_id e \<and>
         map_of (lww_metadata e') =
           (\<lambda>k. if k \<in> set ks \<and> gc_expired now grace e1 k then None else map_of (lww_metadata e1) k) \<and>
         n' = n1 + length (filter (gc_expired now grace e1) ks) \<and>
         map_of p' = (\<lambda>k. if k \<in> set ks \<and> gc_expired now grace e1 k
                           then map_option fst (lww_abs e1 k) else map_of p1 k)"
    using Cons.IH [of e1 n1 p1] eff Cons.prems(2) by simp
  show ?case
    using IH eff Cons.prems(2) by (auto simp: fun_eq_iff frame filt)
qed

lemma lww_gc_effect:
  assumes inv: "lww_inv e" and gc: "lww_gc_tombstones now grace e = (e', n)"
  shows "lww_inv e'" and "lww_store e' = lww_store e" and "lww_replica_id e' = lww_replica_id e"
    and "map_of (lww_metadata e') =
         (\<lambda>k. if gc_expired now grace e k then None else map_of (lww_metadata e) k)"
    and "n = card {k. gc_expired now grace e k}"
    and "keeper_ops (lww_log e') =
         filter (\<lambda>op. \<not> (gc_expired now grace e (op_key op) \<and>
                          op_version op \<le> fst (the (lww_abs e (op_key op))))) (keeper_ops (lww_log e))"
    and "lww_log e' = lww_log e \<or> keeper_generation (lww_log e') = keeper_generation (lww_log e) + 1"
proof -
  define ks where
    "ks = map fst (filter (\<lambda>(k, _). \<not> kv_contains_key (lww_store e) k) (lww_metadata e))"
  obtain e1 n1 p1 where fold: "foldl (gc_key now grace) (e, 0, []) ks = (e1, n1, p1)"
    by (metis prod_cases3)
  have dist: "distinct ks"
    using inv unfolding ks_def lww_inv_def by (simp add: distinct_fst_filter)
  have ks: "k \<in> set ks \<longleftrightarrow> kv_get (lww_store e) k = None \<and> map_of (lww_metadata e) k \<noteq> None" for k
    by (force simp: ks_def kv_contains_key_get map_of_eq_None_iff)
  have exp: "gc_expired now grace e k \<Longrightarrow> k \<in> set ks" for k
    by (rule lww_inv_entry [OF inv, of k]) (auto simp: ks gc_expired_def)
  have mem: "k \<in> set ks \<and> gc_expired now grace e k \<longleftrightarrow> gc_expired now grace e k" for k
    using exp by blast
  have eff: "lww_inv e1" "lww_store e1 = lww_store e" "lww_log e1 = lww_log e"
    "lww_replica_id e1 = lww_replica_id e"
    "map_of (lww_metadata e1) =
       (\<lambda>k. if gc_expired now grace e k then None else map_of (lww_metadata e) k)"
    "n1 = length (filter (gc_expired now grace e) ks)"
    "map_of p1 = (\<lambda>k. if gc_expired now grace e k then map_option fst (lww_abs e k) else None)"
    using gc_fold_effect [OF inv dist ks [THEN iffD1] fold] by (simp_all add: mem fun_eq_iff)
  have e': "n = n1" "lww_store e' = lww_store e1" "lww_metadata e' = lww_metadata e1"
    "lww_key_locks e' = lww_key_locks e1" "lww_replica_id e' = lww_replica_id e1"
    "lww_log e' = (if p1 = [] then lww_log e else keeper_retain
       (\<lambda>op. case map_of p1 (op_key op) of None \<Rightarrow> True | Some v \<Rightarrow> v < op_version op) (lww_log e))"
    using gc eff(3) by (auto simp: lww_gc_tombstones_def fold [unfolded ks_def] split: if_splits)
  show "lww_inv e'" "lww_store e' = lww_store e" "lww_replica_id e' = lww_replica_id e"
    "map_of (lww_metadata e') =
       (\<lambda>k. if gc_expired now grace e k then None else map_of (lww_metadata e) k)"
    using eff e' lww_inv_cong(1) [of e' e1] by simp_all
  have "{k. gc_expired now grace e k} = set (filter (gc_expired now grace e) ks)"
    using exp by auto
  then show "n = card {k. gc_expired now grace e k}"
    using e'(1) eff(6) distinct_card [OF distinct_filter [OF dist]] by simp
  show "lww_log e' = lww_log e \<or> keeper_generation (lww_log e') = keeper_generation (lww_log e) + 1"
    by (simp add: e'(6) keeper_retain_def)
  have known: "gc_expired now grace e k \<Longrightarrow> lww_abs e k \<noteq> None" for k
    by (auto simp: gc_expired_def lww_abs_def split: option.splits list.splits)
  have keep: "(case map_of p1 (op_key op) of None \<Rightarrow> True | Some v \<Rightarrow> v < op_version op) \<longleftrightarrow>
       \<not> (gc_expired now grace e (op_key op) \<and> op_version op \<le> fst (the (lww_abs e (op_key op))))" for op
    using known [of "op_key op"] by (cases "lww_abs e (op_key op)") (auto simp: eff(7) not_le)
  have "\<not> gc_expired now grace e k" if "p1 = []" for k
    using that fun_cong [OF eff(7), of k] known [of k] by (auto split: if_splits)
  then show "keeper_ops (lww_log e') =
         filter (\<lambda>op. \<not> (gc_expired now grace e (op_key op) \<and>
                          op_version op \<le> fst (the (lww_abs e (op_key op))))) (keeper_ops (lww_log e))"
    by (simp add: e'(6) keeper_retain_def keep)
qed

section \<open>The engine contract\<close>

lemma lww_get_contains: "lww_contains_key e k \<longleftrightarrow> lww_get e k \<noteq> None"
  by (simp add: lww_contains_key_def lww_get_def kv_contains_key_get)

lemma lww_apply_op_frame:
  assumes "lww_inv e" and "k \<noteq> op_key op"
  shows "lww_get (snd (lww_apply_op now (c, e) op)) k = lww_get e k"
proof -
  have "lww_abs (snd (lww_apply_op now (c, e) op)) k = lww_abs e k"
    using assms(2)
    by (cases op) (simp_all add: lww_apply_op_def apply_insert_abs [OF assms(1)]
        apply_remove_inner_abs [OF assms(1)])
  with assms(1) lww_apply_op_inv(1) [OF assms(1)] show ?thesis
    by (simp add: lww_get_abs)
qed

lemma lww_apply_ops_inv:
  assumes "lww_inv e" and "foldl (lww_apply_op now) (c, e) ops = (c', e')"
  shows "lww_inv e' \<and> lww_log e' = lww_log e \<and> lww_replica_id e' = lww_replica_id e \<and>
         (\<forall>k. k \<notin> op_key ` set ops \<longrightarrow> lww_get e' k = lww_get e k)"
  using assms
proof (induction ops arbitrary: c e)
  case (Cons op ops)
  obtain c1 e1 where step: "lww_apply_op now (c, e) op = (c1, e1)"
    by fastforce
  note one = lww_apply_op_inv [OF Cons.prems(1), of now c op, unfolded step, simplified]
    and frame = lww_apply_op_frame [OF Cons.prems(1), of _ op now c, unfolded step, simplified]
  have "foldl (lww_apply_op now) (c1, e1) ops = (c', e')"
    using Cons.prems(2) by (simp add: step)
  from Cons.IH [OF one(1) this] one(2,3) frame show ?case by auto
qed simp

lemma lww_remote_inv:
  assumes inv: "lww_inv e" and app: "lww_apply_remote_ops now ops (c, e) = ((c', e'), cs)"
  shows "lww_inv e'" and "lww_replica_id e' = lww_replica_id e"
    and "k \<notin> op_key ` set ops \<Longrightarrow> lww_get e' k = lww_get e k"
    and "distinct (map change_key cs)"
    and "set cs = {\<lparr>change_key = k, change_value = lww_get e' k\<rparr> | k. lww_get e' k \<noteq> lww_get e k}"
    and "lww_log e' = (if lww_unseen e ops = [] then lww_log e
                       else keeper_merge_batch (lww_unseen e ops) lww_fold (lww_log e))"
proof (atomize (full), cases "lww_unseen e ops = []", goal_cases)
  case 1
  with app inv show ?case
    by (simp add: lww_remote_seen)
next
  case False: 2
  let ?e1 = "e\<lparr>lww_log := keeper_merge_batch (lww_unseen e ops) lww_fold (lww_log e)\<rparr>"
  have fold: "lww_inv e' \<and> lww_log e' = lww_log ?e1 \<and> lww_replica_id e' = lww_replica_id ?e1 \<and>
         (\<forall>k. k \<notin> op_key ` set (lww_unseen e ops) \<longrightarrow> lww_get e' k = lww_get ?e1 k)"
    using lww_apply_ops_inv [OF _ lww_remote_unseen(1) [OF False app]] inv by simp
  have get1: "lww_get ?e1 k = lww_get e k" for k
    by (simp add: lww_get_def)
  have unseen: "op_key ` set (lww_unseen e ops) \<subseteq> op_key ` set ops"
    by (auto simp: set_lww_unseen)
  have "set cs = {\<lparr>change_key = k, change_value = lww_get e' k\<rparr> | k. lww_get e' k \<noteq> lww_get e k}"
    using fold get1 unfolding lww_remote_unseen(2) [OF False app] set_changes by metis
  moreover have "k \<notin> op_key ` set ops \<longrightarrow> lww_get e' k = lww_get e k"
    using fold get1 unseen by (metis subsetD)
  ultimately show ?case
    using fold False lww_remote_unseen(2) [OF False app] changes_distinct_keys by simp
qed

lemma lww_put_frame:
  assumes inv: "lww_inv e" and put: "lww_put_local now k v (c, e) = ((c', e'), res)" and "k' \<noteq> k"
  shows "lww_get e' k' = lww_get e k'"
proof -
  have "lww_abs e' k' = lww_abs e k'"
    using lww_put_local_abs(5,6) [OF inv put] assms(3) by fastforce
  with inv lww_put_local_abs(3) [OF inv put] show ?thesis by (simp add: lww_get_abs)
qed

lemma lww_delete_frame:
  assumes inv: "lww_inv e" and del: "lww_delete_local now k (c, e) = ((c', e'), res)" and "k' \<noteq> k"
  shows "lww_get e' k' = lww_get e k'"
proof -
  have "lww_abs e' k' = lww_abs e k'"
    using lww_delete_local_abs(4,5) [OF inv del] assms(3) by fastforce
  with inv lww_delete_local_abs(2) [OF inv del] show ?thesis by (simp add: lww_get_abs)
qed

lemma lww_put_log:
  assumes "lww_inv e" and "lww_put_local now k v (c, e) = ((c', e'), res)"
  shows "lww_op_generation e' = lww_op_generation e \<and> lww_export_ops e' = lww_export_ops e \<or>
         lww_op_generation e' = lww_op_generation e + 1"
  using lww_put_local_abs(5,6) [OF assms]
  by (cases "insert_accepted (lamport_tick c, lww_replica_id e) (lww_abs e k)")
    (auto simp: lww_op_generation_def lww_export_ops_def keeper_append_generation)

lemma lww_delete_log:
  assumes "lww_inv e" and "lww_delete_local now k (c, e) = ((c', e'), res)"
  shows "lww_op_generation e' = lww_op_generation e \<and> lww_export_ops e' = lww_export_ops e \<or>
         lww_op_generation e' = lww_op_generation e + 1"
  using lww_delete_local_abs(4,5) [OF assms]
  by (cases "remove_accepted (lamport_tick c, lww_replica_id e) (lww_abs e k)")
    (auto simp: lww_op_generation_def lww_export_ops_def keeper_append_generation)

interpretation lww: namespace_engine lww_inv lww_put_local lww_delete_local lww_apply_remote_ops
  lww_gc_tombstones lww_get lww_contains_key lww_keys lww_len lww_op_generation lww_export_ops
proof (unfold_locales, goal_cases)
  case 1 then show ?case by (rule lww_put_local_abs(3))
next
  case 2 then show ?case by (rule lww_delete_local_abs(2))
next
  case 3 then show ?case by (rule lww_remote_inv(1))
next
  case 4 then show ?case by (rule lww_gc_effect(1))
next
  case 5 then show ?case by (simp add: lww_get_contains)
next
  case 6 then show ?case by (simp add: lww_keys_def lww_contains_key_def set_kv_keys)
next
  case 7 then show ?case by (simp add: lww_keys_def kv_keys_def lww_inv_def kv_wf_def)
next
  case 8 then show ?case by (simp add: lww_len_def lww_keys_def kv_len_def kv_keys_def)
next
  case 9 then show ?case by (rule lww_put_frame)
next
  case 10 then show ?case by (rule lww_delete_frame)
next
  case 11 then show ?case by (rule lww_remote_inv(3))
next
  case 12 then show ?case using lww_remote_inv(4,5) by blast
next
  case 13 then show ?case by (auto simp: lww_get_def fun_eq_iff lww_gc_effect(2))
next
  case 14 then show ?case by (rule lww_put_log)
next
  case 15 then show ?case by (rule lww_delete_log)
next
  case (16 s now ops c c' s' cs)
  from lww_remote_inv(6) [OF 16] show ?case
    by (simp add: lww_op_generation_def lww_export_ops_def keeper_merge_batch_generation)
next
  case (17 s now grace s' n)
  from lww_gc_effect(7) [OF 17] show ?case
    by (auto simp: lww_op_generation_def lww_export_ops_def)
next
  case 18 then show ?case using lww_put_frame [OF 18] by (simp add: lww_get_contains)
next
  case 19 then show ?case using lww_delete_frame [OF 19] by (simp add: lww_get_contains)
next
  case 20 then show ?case using lww_remote_inv(3) [OF 20] by (simp add: lww_get_contains)
next
  case 21 then show ?case by (simp add: lww_contains_key_def lww_gc_effect(2) [OF 21])
qed

section \<open>Evaluation on concrete inputs\<close>

lemmas lww_eval =
  lamport_tick_def lamport_new_def lamport_update_def saturating_add_def u64_max_def
  lww_put_local_def lww_delete_local_def lww_apply_remote_ops_def lww_apply_op_def lww_unseen_def
  lww_append_op_def apply_insert_def apply_remove_inner_def key_lock_for_def try_cleanup_key_lock_def
  key_is_tombstoned_or_unknown_def winner_tombstoned_def compact_key_metadata_def
  record_insert_metadata_def record_remove_metadata_def vm_new_def vm_tombstone_def version_key_def
  matches_version_def is_newer_than_def lww_new_def kv_new_def kv_insert_def kv_get_def kv_remove_def
  kv_contains_key_def keeper_new_def keeper_append_def keeper_merge_batch_def keeper_export_def
  compact_trigger_def compact_by_key_def fold_runs.simps Let_def lww_fold_def lww_get_def lww_export_ops_def
  op_version_def values_before_def changes_def truncate_oldest_over_threshold_def

definition demo_engine :: "u64 \<times> lww_engine" where
  "demo_engine = (3, snd (fst (lww_put_local 10 ''k'' [7] (0, lww_new 1))))"

definition demo_history :: "operation list" where
  "demo_history = [Insert ''k'' [7] 1 1]"

lemma demo_engine_repr: "lww_repr (fst demo_engine) (snd demo_engine) demo_history"
proof -
  obtain c e r where put: "lww_put_local 10 ''k'' [7] (0, lww_new 1) = ((c, e), r)"
    by (metis prod.exhaust)
  have "lww_repr c e [Insert ''k'' [7] 1 1]"
    using lww_put_repr [OF lww_repr_new _ put] by (simp add: lww_eval)
  then show ?thesis
    by (simp add: demo_engine_def demo_history_def put lww_repr_def)
qed

section \<open>Properties\<close>

text \<open>
  Read-your-writes.  On an engine that has absorbed a history, a local write with an
  unsaturated clock is always accepted: it returns the previous value, the key then reads
  the written bytes, no other key changes, and the new operation is logged.
\<close>

theorem lww_read_your_writes:
  assumes "lww_repr c e H" and "c \<noteq> u64_max"
    and "lww_put_local now k v (c, e) = ((c', e'), res)"
  shows "res = lww_get e k \<and> lww_get e' = (lww_get e)(k \<mapsto> v) \<and> c < c' \<and>
         lww_repr c' e' (H @ [Insert k v c' (lww_replica_id e)])"
proof -
  have inv: "lww_inv e" using assms(1) by (simp add: lww_repr_def)
  note eff = lww_put_local_abs [OF inv assms(3)]
  have "lww_abs e' k = Some ((lamport_tick c, lww_replica_id e), Some v)"
    using eff(5) [OF lww_tick_accepted(1) [OF assms(1,2)]] by simp
  then have "lww_get e' k = Some v" using eff(3) by (simp add: lww_get_abs)
  then have "lww_get e' = (lww_get e)(k \<mapsto> v)"
    using lww_put_frame [OF inv assms(3)] by (auto simp: fun_eq_iff)
  with eff(1,2) lww_put_repr [OF assms] lamport_tick_gt [OF assms(2)] show ?thesis by simp
qed

theorem lww_read_your_writes_witness:
  "\<exists>c' e' res. lww_put_local 20 ''j'' [8] demo_engine = ((c', e'), res) \<and>
     lww_get e' ''j'' = Some [8] \<and> lww_get e' ''k'' = lww_get (snd demo_engine) ''k''"
proof -
  obtain c' e' res where put: "lww_put_local 20 ''j'' [8] (fst demo_engine, snd demo_engine) = ((c', e'), res)"
    by (metis prod.exhaust)
  have "fst demo_engine \<noteq> u64_max" by (simp add: demo_engine_def u64_max_def)
  from lww_read_your_writes [OF demo_engine_repr this put] put show ?thesis by auto
qed

text \<open>C3.
  Deletes win.  A local delete with an unsaturated clock returns the bytes it removed and
  leaves the key unreadable, and no older operation that is merged later can bring it back.
\<close>

theorem lww_delete_is_final:
  assumes "lww_repr c e H" and "c \<noteq> u64_max"
    and "lww_delete_local now k (c, e) = ((c', e'), res)"
    and "op_ids_unique (set H \<union> insert (Remove k c' (lww_replica_id e)) (set ops))"
    and "\<And>op. op \<in> set ops \<Longrightarrow> op_key op = k \<Longrightarrow> op_version op \<le> (c', lww_replica_id e)"
    and "lww_apply_remote_ops now' ops (c', e') = ((c'', e''), cs)"
  shows "res = lww_get e k \<and> lww_get e' k = None \<and> lww_get e'' k = None"
proof -
  let ?op = "Remove k c' (lww_replica_id e)"
  have inv: "lww_inv e" using assms(1) by (simp add: lww_repr_def)
  note eff = lww_delete_local_abs [OF inv assms(3)]
  have repr: "lww_repr c' e' (H @ [?op])" using lww_delete_repr [OF assms(1-3)] eff(1) by simp
  have uniq: "op_ids_unique (set (H @ [?op]) \<union> set ops)" using assms(4) by simp
  have final: "lww_repr c'' e'' ((H @ [?op]) @ ops)"
    by (rule lww_remote_repr [OF repr uniq assms(6)])
  have "op_version a \<le> op_version ?op" if "a \<in> set ((H @ [?op]) @ ops)" "op_key a = k" for a
  proof (cases "a \<in> set ops")
    case False
    with that(1) repr have "op_timestamp a \<le> c'" "a \<in> set H \<Longrightarrow> op_timestamp a \<le> c"
      using assms(1) by (auto simp: lww_repr_def)
    with that(1) False lamport_tick_gt [OF assms(2)] eff(1) show ?thesis
      by (auto simp: op_version_def)
  qed (use assms(5) that(2) in \<open>simp add: op_version_def\<close>)
  then have "lww_value ((H @ [?op]) @ ops) k = Some (lww_elem ?op)"
    using uniq by (intro lww_value_eqI) auto
  then have "lww_get e'' k = None"
    by (simp add: lww_repr_get [OF final] lww_spec_get_def lww_elem_def)
  moreover have "res = lww_get e k \<and> lww_get e' k = None"
    using eff(4) [OF lww_tick_accepted(2) [OF assms(1,2)]] eff(2) by (simp add: lww_get_abs)
  ultimately show ?thesis by simp
qed

theorem lww_delete_is_final_witness:
  "\<exists>c' e' res c'' e'' cs.
     lww_delete_local 20 ''k'' demo_engine = ((c', e'), res) \<and>
     lww_apply_remote_ops 30 [Insert ''k'' [9] 2 5] (c', e') = ((c'', e''), cs) \<and>
     res = Some [7] \<and> lww_get e'' ''k'' = None"
proof -
  obtain c' e' res where del: "lww_delete_local 20 ''k'' (fst demo_engine, snd demo_engine) = ((c', e'), res)"
    by (metis prod.exhaust)
  obtain c'' e'' cs where app: "lww_apply_remote_ops 30 [Insert ''k'' [9] 2 5] (c', e') = ((c'', e''), cs)"
    by (metis prod.exhaust)
  have inv: "lww_inv (snd demo_engine)" using demo_engine_repr by (simp add: lww_repr_def)
  have c: "c' = 4" and r: "lww_replica_id (snd demo_engine) = 1" and g: "lww_get (snd demo_engine) ''k'' = Some [7]"
    using lww_delete_local_abs(1) [OF inv del] by (simp_all add: demo_engine_def lww_eval)
  have "res = lww_get (snd demo_engine) ''k'' \<and> lww_get e' ''k'' = None \<and> lww_get e'' ''k'' = None"
    by (rule lww_delete_is_final [OF demo_engine_repr _ del _ _ app])
      (auto simp: demo_engine_def demo_history_def u64_max_def op_ids_unique_def op_version_def c r)
  with del app g show ?thesis by auto
qed

lemma lww_gc_repr:
  assumes repr: "lww_repr c e H" and gc: "lww_gc_tombstones now grace e = (e', n)"
  shows "lww_repr c e' (filter (\<lambda>op. \<not> gc_expired now grace e (op_key op)) H)"
proof -
  let ?H = "filter (\<lambda>op. \<not> gc_expired now grace e (op_key op)) H"
  have inv: "lww_inv e" using repr by (simp add: lww_repr_def)
  note eff = lww_gc_effect [OF inv gc]
  have "lww_abs e' k = lww_value ?H k" for k
  proof (cases "gc_expired now grace e k")
    case True
    then have "lww_abs e' k = None" by (simp add: lww_abs_None [OF eff(1)] eff(4))
    moreover from True have "lww_value ?H k = None" by (auto simp: lww_value_None)
    ultimately show ?thesis by simp
  next
    case False
    then have "lww_abs e' k = lww_abs e k"
      by (intro lww_entry_cong(2)) (simp_all add: eff(2,4))
    moreover from False have "ops_for k ?H = ops_for k H"
      by (auto simp: ops_for_def intro: filter_cong)
    ultimately show ?thesis using repr by (simp add: lww_repr_def lww_value_def)
  qed
  moreover have "set (keeper_ops (lww_log e')) \<subseteq> set ?H"
  proof
    fix op assume "op \<in> set (keeper_ops (lww_log e'))"
    then have op: "op \<in> set H" "\<not> (gc_expired now grace e (op_key op) \<and>
        op_version op \<le> fst (the (lww_abs e (op_key op))))"
      using repr by (auto simp: eff(6) lww_repr_def)
    obtain x where "lww_value H (op_key op) = Some x"
      using op(1) lww_value_None [of H "op_key op"] by fastforce
    with op(1) repr have "op_version op \<le> fst (the (lww_abs e (op_key op)))"
      using lww_value_ge [of H "op_key op" x op] by (simp add: lww_repr_def)
    with op show "op \<in> set ?H" by simp
  qed
  ultimately show ?thesis
    using repr eff(1) by (auto simp: lww_repr_def)
qed

text \<open>
  Garbage collection.  It is invisible to reads, removes exactly the keys whose winning
  tombstone is at least the grace period old (and counts them), purges their operations from
  the log, and leaves the engine as if the operations of those keys had never been seen.
\<close>

theorem lww_gc_exact:
  assumes "lww_repr c e H" and "lww_gc_tombstones now grace e = (e', n)"
  shows "lww_get e' = lww_get e \<and>
         n = card {k. gc_expired now grace e k} \<and>
         set (map fst (lww_metadata e')) =
           set (map fst (lww_metadata e)) - {k. gc_expired now grace e k} \<and>
         lww_repr c e' (filter (\<lambda>op. \<not> gc_expired now grace e (op_key op)) H)"
proof -
  have inv: "lww_inv e" using assms(1) by (simp add: lww_repr_def)
  note eff = lww_gc_effect [OF inv assms(2)]
  have dom: "set (map fst m) = {k. map_of m k \<noteq> None}" for m :: metadata_map
    by (auto simp: map_of_eq_None_iff)
  have "set (map fst (lww_metadata e')) = set (map fst (lww_metadata e)) - {k. gc_expired now grace e k}"
    unfolding dom eff(4) by auto
  then show ?thesis
    using eff(2,5) lww_gc_repr [OF assms] by (auto simp: lww_get_def fun_eq_iff)
qed

definition demo_dead :: "u64 \<times> lww_engine" where
  "demo_dead = fst (lww_delete_local 20 ''k'' demo_engine)"

lemma demo_dead_repr:
  "lww_repr (fst demo_dead) (snd demo_dead) (demo_history @ [Remove ''k'' 4 1])"
proof -
  obtain c' e' res where del: "lww_delete_local 20 ''k'' (fst demo_engine, snd demo_engine) = ((c', e'), res)"
    by (metis prod.exhaust)
  have "fst demo_engine \<noteq> u64_max" by (simp add: demo_engine_def u64_max_def)
  from lww_delete_repr [OF demo_engine_repr this del] show ?thesis
    using del by (simp add: demo_dead_def) (simp add: demo_engine_def lww_eval)
qed

theorem lww_gc_exact_witness:
  "\<exists>e' n. lww_gc_tombstones 100 50 (snd demo_dead) = (e', n) \<and>
     n = card {k. gc_expired 100 50 (snd demo_dead) k} \<and> gc_expired 100 50 (snd demo_dead) ''k'' \<and>
     lww_metadata e' = []"
proof -
  obtain e' n where gc: "lww_gc_tombstones 100 50 (snd demo_dead) = (e', n)" by fastforce
  have md: "lww_metadata (snd demo_dead) = [(''k'', [vm_tombstone 20 4 1])]"
    by (simp add: demo_dead_def demo_engine_def lww_eval)
  have "gc_expired 100 50 (snd demo_dead) ''k''"
    by (simp add: gc_expired_def md vm_tombstone_def)
  with lww_gc_exact [OF demo_dead_repr gc] md gc show ?thesis by auto
qed

text \<open>
  Log compaction.  Folding the log per key keeps exactly the newest operation of each key in
  version order, so the compacted log stands for the same state; and the result does not
  depend on how the unstable sort by key arranges the operations of one key.
\<close>

theorem lww_compaction_sound:
  assumes "op_ids_unique (set ops)" and "mset arranged = mset ops" and "sorted (map op_key arranged)"
  shows "sort_key op_version (fold_runs lww_fold arranged) = compact_by_key lww_fold ops \<and>
         lww_value (compact_by_key lww_fold ops) = lww_value ops \<and>
         distinct (map op_key (compact_by_key lww_fold ops)) \<and>
         sorted (map op_version (compact_by_key lww_fold ops))"
proof -
  have "fold_perm_invariant lww_fold (set ops)"
    unfolding fold_perm_invariant_def
    using lww_fold_perm_invariant_on op_ids_unique_subset [OF assms(1)] by blast
  moreover have "set arranged = set ops" using assms(2) by (rule mset_eq_setD)
  ultimately have "fold_runs lww_fold arranged = fold_runs lww_fold (sort_key op_key ops)"
    using assms(2,3) by (intro fold_runs_perm [where U = "set ops"]) simp_all
  then show ?thesis
    using lww_value_compact [OF assms(1)] compact_by_key_distinct_keys [OF lww_fold_keeps_key]
      compact_by_key_sorted
    by (simp add: compact_by_key_def)
qed

theorem lww_compaction_sound_witness:
  "sort_key op_version (fold_runs lww_fold [Insert ''a'' [2] 2 1, Insert ''a'' [1] 1 1, Remove ''b'' 3 1])
     = compact_by_key lww_fold [Insert ''a'' [1] 1 1, Remove ''b'' 3 1, Insert ''a'' [2] 2 1]"
proof -
  have "op_ids_unique (set [Insert ''a'' [1] 1 1, Remove ''b'' 3 1, Insert ''a'' [2] 2 1])"
    by (auto simp: op_ids_unique_def op_version_def)
  from lww_compaction_sound [OF this,
      of "[Insert ''a'' [2] 2 1, Insert ''a'' [1] 1 1, Remove ''b'' 3 1]"]
  show ?thesis by simp
qed
end
