(* ===== verification/Lww_Network.thy ===== *)
theory Lww_Network
  imports Lww_Engine
begin

text \<open>
  Nodes that run the last-writer-wins engine and gossip their logs, as a step relation:
  local writes and deletes, a node putting its exported log on the wire, and a node merging
  any list of operations found on the wire (late, repeated, reordered, partial).  The
  operations a node has absorbed are kept as a ghost history.  The invariant shows that the
  Lamport clocks make operation ids unique across the cluster and that every engine is the
  newest operation of each key of its history, so equal histories read equally and one
  exchange of full logs makes two nodes equal.

  The steps assume the clock is below its saturation value; garbage collection, which
  forgets history, is treated in the engine theory.
\<close>

section \<open>The step relation\<close>

record lww_net =
  net_clock :: "replica_id \<Rightarrow> u64"
  net_engine :: "replica_id \<Rightarrow> lww_engine"
  net_hist :: "replica_id \<Rightarrow> operation list"
  net_wire :: "operation list"

definition net_init :: lww_net where
  "net_init = \<lparr>net_clock = (\<lambda>_. lamport_new), net_engine = lww_new, net_hist = (\<lambda>_. []),
               net_wire = []\<rparr>"

definition net_set :: "replica_id \<Rightarrow> u64 \<Rightarrow> lww_engine \<Rightarrow> operation list \<Rightarrow> lww_net \<Rightarrow> lww_net" where
  "net_set n c e new s =
     s\<lparr>net_clock := (net_clock s)(n := c), net_engine := (net_engine s)(n := e),
       net_hist := (net_hist s)(n := net_hist s n @ new)\<rparr>"

inductive net_step :: "lww_net \<Rightarrow> lww_net \<Rightarrow> bool" where
  net_put:
    "net_clock s n \<noteq> u64_max \<Longrightarrow>
     lww_put_local now k v (net_clock s n, net_engine s n) = ((c', e'), r) \<Longrightarrow>
     net_step s (net_set n c' e' [Insert k v (lamport_tick (net_clock s n)) n] s)"
| net_delete:
    "net_clock s n \<noteq> u64_max \<Longrightarrow>
     lww_delete_local now k (net_clock s n, net_engine s n) = ((c', e'), r) \<Longrightarrow>
     net_step s (net_set n c' e' [Remove k (lamport_tick (net_clock s n)) n] s)"
| net_send:
    "net_step s (s\<lparr>net_wire := net_wire s @ lww_export_ops (net_engine s n)\<rparr>)"
| net_receive:
    "set ops \<subseteq> set (net_wire s) \<Longrightarrow>
     lww_apply_remote_ops now ops (net_clock s n, net_engine s n) = ((c', e'), cs) \<Longrightarrow>
     net_step s (net_set n c' e' ops s)"

inductive net_reachable :: "lww_net \<Rightarrow> bool" where
  reach_init: "net_reachable net_init"
| reach_step: "net_reachable s \<Longrightarrow> net_step s s' \<Longrightarrow> net_reachable s'"

section \<open>The invariant\<close>

definition net_ops :: "lww_net \<Rightarrow> operation set" where
  "net_ops s = (\<Union>n. set (net_hist s n))"

definition node_ok :: "lww_net \<Rightarrow> replica_id \<Rightarrow> bool" where
  "node_ok s n \<longleftrightarrow>
     lww_repr (net_clock s n) (net_engine s n) (net_hist s n) \<and>
     lww_replica_id (net_engine s n) = n \<and>
     (card (op_key ` set (net_hist s n)) \<le> AUTO_COMPACT_THRESHOLD \<longrightarrow>
        lww_log_complete (net_engine s n) (net_hist s n))"

definition net_inv :: "lww_net \<Rightarrow> bool" where
  "net_inv s \<longleftrightarrow>
     (\<forall>n. node_ok s n) \<and> op_ids_unique (net_ops s) \<and>
     (\<forall>op \<in> net_ops s. op \<in> set (net_hist s (op_replica_id op))) \<and>
     set (net_wire s) \<subseteq> net_ops s"

lemma net_inv_init: "net_inv net_init"
  by (simp add: net_inv_def node_ok_def net_init_def net_ops_def lww_repr_new op_ids_unique_def
      lww_log_complete_def)

lemma net_set_simps [simp]:
  "net_clock (net_set n c e new s) = (net_clock s)(n := c)"
  "net_engine (net_set n c e new s) = (net_engine s)(n := e)"
  "net_hist (net_set n c e new s) = (net_hist s)(n := net_hist s n @ new)"
  "net_wire (net_set n c e new s) = net_wire s"
  by (simp_all add: net_set_def)

lemma net_ops_set: "net_ops (net_set n c e new s) = net_ops s \<union> set new"
  by (auto simp: net_ops_def split: if_splits)

lemma node_ok_other: "node_ok s m \<Longrightarrow> m \<noteq> n \<Longrightarrow> node_ok (net_set n c e new s) m"
  by (simp add: node_ok_def)

text \<open>A local operation carries a version no operation of the cluster has.\<close>

lemma net_fresh:
  assumes "net_inv s" and "net_clock s n \<noteq> u64_max"
    and "op_timestamp op = lamport_tick (net_clock s n)" and "op_replica_id op = n"
  shows "op_version op \<notin> op_version ` net_ops s"
proof
  assume "op_version op \<in> op_version ` net_ops s"
  then obtain a where a: "a \<in> net_ops s" "op_version op = op_version a" by blast
  then have "op_replica_id a = n" using assms(4) by (simp add: op_version_def)
  with a(1) assms(1) have "a \<in> set (net_hist s n)" by (auto simp: net_inv_def)
  moreover have "lww_repr (net_clock s n) (net_engine s n) (net_hist s n)"
    using assms(1) by (simp add: net_inv_def node_ok_def)
  ultimately show False
    using lww_tick_fresh [OF _ assms(2,3)] a(2) by blast
qed

lemma net_inv_local:
  assumes inv: "net_inv s" and c: "net_clock s n \<noteq> u64_max"
    and op: "op_timestamp op = lamport_tick (net_clock s n)" "op_replica_id op = n"
    and repr: "lww_repr c' e' (net_hist s n @ [op])" and rid: "lww_replica_id e' = n"
    and log: "lww_log e' = keeper_append op t lww_fold (lww_log (net_engine s n))"
  shows "net_inv (net_set n c' e' [op] s)"
proof -
  let ?H = "net_hist s n" and ?l = "keeper_ops (lww_log (net_engine s n))"
  have ok: "node_ok s n" using inv by (simp add: net_inv_def)
  have uniq: "op_ids_unique (insert op (net_ops s))"
    using inv net_fresh [OF inv c op] by (simp add: net_inv_def op_ids_unique_insert)
  have l: "set ?l \<subseteq> set ?H" and H: "set ?H \<subseteq> net_ops s"
    using ok by (auto simp: node_ok_def lww_repr_def net_ops_def)
  have "lww_log_complete e' (?H @ [op])"
    if bound: "card (op_key ` set (?H @ [op])) \<le> AUTO_COMPACT_THRESHOLD"
  proof -
    have "card (op_key ` set (?l @ [op])) \<le> card (op_key ` set (?H @ [op]))"
      "card (op_key ` set ?H) \<le> card (op_key ` set (?H @ [op]))"
      using l by (auto intro!: card_mono)
    moreover have "op_ids_unique (set (?l @ [op]))"
      using uniq l H by (auto intro: op_ids_unique_subset)
    ultimately have "lww_value (keeper_ops (lww_log e')) = lww_value (?l @ [op])"
      using keeper_append_complete [of "lww_log (net_engine s n)" op t] bound by (simp add: log)
    also have "lww_value (?l @ [op]) = lww_value (?H @ [op])"
      using ok bound \<open>card (op_key ` set ?H) \<le> card (op_key ` set (?H @ [op]))\<close>
      by (intro lww_value_append_cong) (simp add: node_ok_def lww_log_complete_def)
    finally show ?thesis by (simp add: lww_log_complete_def)
  qed
  then have "node_ok (net_set n c' e' [op] s) n"
    using repr rid by (simp add: node_ok_def)
  then have "node_ok (net_set n c' e' [op] s) m" for m
    using inv node_ok_other [of s m n] by (cases "m = n") (auto simp: net_inv_def)
  moreover have "op_ids_unique (net_ops (net_set n c' e' [op] s))"
    using uniq by (simp add: net_ops_set)
  moreover have "\<forall>a \<in> net_ops (net_set n c' e' [op] s).
      a \<in> set (net_hist (net_set n c' e' [op] s) (op_replica_id a))"
    using inv op(2) by (auto simp: net_inv_def net_ops_set)
  ultimately show ?thesis
    using inv by (auto simp: net_inv_def net_ops_set)
qed

lemma net_inv_put:
  assumes inv: "net_inv s" and c: "net_clock s n \<noteq> u64_max"
    and put: "lww_put_local now k v (net_clock s n, net_engine s n) = ((c', e'), r)"
  shows "net_inv (net_set n c' e' [Insert k v (lamport_tick (net_clock s n)) n] s)"
proof -
  have ok: "lww_repr (net_clock s n) (net_engine s n) (net_hist s n)"
    "lww_replica_id (net_engine s n) = n"
    using inv by (simp_all add: net_inv_def node_ok_def)
  then have einv: "lww_inv (net_engine s n)" by (simp add: lww_repr_def)
  note eff = lww_put_local_abs [OF einv put]
  show ?thesis
    using lww_put_repr [OF ok(1) c put] eff(4) eff(5) [OF lww_tick_accepted(1) [OF ok(1) c]] ok(2)
    by (intro net_inv_local [OF inv c]) auto
qed

lemma net_inv_delete:
  assumes inv: "net_inv s" and c: "net_clock s n \<noteq> u64_max"
    and del: "lww_delete_local now k (net_clock s n, net_engine s n) = ((c', e'), r)"
  shows "net_inv (net_set n c' e' [Remove k (lamport_tick (net_clock s n)) n] s)"
proof -
  have ok: "lww_repr (net_clock s n) (net_engine s n) (net_hist s n)"
    "lww_replica_id (net_engine s n) = n"
    using inv by (simp_all add: net_inv_def node_ok_def)
  then have einv: "lww_inv (net_engine s n)" by (simp add: lww_repr_def)
  note eff = lww_delete_local_abs [OF einv del]
  show ?thesis
    using lww_delete_repr [OF ok(1) c del] eff(3) eff(4) [OF lww_tick_accepted(2) [OF ok(1) c]] ok(2)
    by (intro net_inv_local [OF inv c]) auto
qed

lemma net_inv_send:
  assumes "net_inv s"
  shows "net_inv (s\<lparr>net_wire := net_wire s @ lww_export_ops (net_engine s n)\<rparr>)"
proof -
  have "set (lww_export_ops (net_engine s n)) \<subseteq> net_ops s"
    using assms by (auto simp: net_inv_def node_ok_def lww_repr_def net_ops_def lww_export_ops_def
        keeper_export_def)
  with assms show ?thesis
    by (simp add: net_inv_def node_ok_def net_ops_def)
qed

lemma net_inv_receive:
  assumes inv: "net_inv s" and ops: "set ops \<subseteq> set (net_wire s)"
    and app: "lww_apply_remote_ops now ops (net_clock s n, net_engine s n) = ((c', e'), cs)"
  shows "net_inv (net_set n c' e' ops s)"
proof -
  let ?H = "net_hist s n"
  have ok: "node_ok s n" and opsN: "set ops \<subseteq> net_ops s" and HN: "set ?H \<subseteq> net_ops s"
    using inv ops by (auto simp: net_inv_def net_ops_def)
  have repr: "lww_repr (net_clock s n) (net_engine s n) ?H" and einv: "lww_inv (net_engine s n)"
    using ok by (simp_all add: node_ok_def lww_repr_def)
  have uniq: "op_ids_unique (set ?H \<union> set ops)"
    using inv opsN HN by (auto simp: net_inv_def intro: op_ids_unique_subset)
  note rem = lww_remote_repr [OF repr uniq app]
  have "card (op_key ` set ?H) \<le> card (op_key ` set (?H @ ops))"
    by (auto intro!: card_mono)
  then have "node_ok (net_set n c' e' ops s) n"
    using ok rem lww_remote_complete [OF repr uniq _ lww_remote_inv(6) [OF einv app]]
    by (simp add: node_ok_def)
  then have "node_ok (net_set n c' e' ops s) m" for m
    using inv node_ok_other [of s m n] by (cases "m = n") (auto simp: net_inv_def)
  moreover have N: "net_ops (net_set n c' e' ops s) = net_ops s"
    using opsN by (auto simp: net_ops_set)
  moreover have "\<forall>a \<in> net_ops s. a \<in> set (net_hist (net_set n c' e' ops s) (op_replica_id a))"
    using inv by (auto simp: net_inv_def)
  ultimately show ?thesis
    using inv by (simp add: net_inv_def)
qed

lemma net_inv_step: "net_inv s \<Longrightarrow> net_step s s' \<Longrightarrow> net_inv s'"
  by (erule net_step.cases) (auto intro: net_inv_put net_inv_delete net_inv_send net_inv_receive)

lemma net_reachable_inv: "net_reachable s \<Longrightarrow> net_inv s"
  by (induction rule: net_reachable.induct) (auto intro: net_inv_init net_inv_step)

section \<open>Convergence\<close>

lemma net_node:
  assumes "net_reachable s"
  shows "lww_repr (net_clock s n) (net_engine s n) (net_hist s n)"
    and "card (op_key ` set (net_hist s n)) \<le> AUTO_COMPACT_THRESHOLD \<Longrightarrow>
         lww_log_complete (net_engine s n) (net_hist s n)"
    and "op_ids_unique (set (net_hist s n) \<union> set (net_hist s m))"
    and "set (lww_export_ops (net_engine s n)) \<subseteq> set (net_hist s n)"
proof -
  have inv: "net_inv s" using assms by (rule net_reachable_inv)
  then show "lww_repr (net_clock s n) (net_engine s n) (net_hist s n)"
    and "card (op_key ` set (net_hist s n)) \<le> AUTO_COMPACT_THRESHOLD \<Longrightarrow>
         lww_log_complete (net_engine s n) (net_hist s n)"
    by (simp_all add: net_inv_def node_ok_def)
  then show "set (lww_export_ops (net_engine s n)) \<subseteq> set (net_hist s n)"
    by (simp add: lww_repr_def lww_export_ops_def keeper_export_def)
  show "op_ids_unique (set (net_hist s n) \<union> set (net_hist s m))"
    using inv by (auto simp: net_inv_def net_ops_def intro: op_ids_unique_subset)
qed

text \<open>C1.
  Strong eventual consistency.  In every reachable state of the cluster, two nodes that have
  absorbed the same set of operations, in whatever order, batches and multiplicity, read the
  same bytes for every key.
\<close>

theorem lww_strong_eventual_consistency:
  assumes "net_reachable s" and "set (net_hist s a) = set (net_hist s b)"
  shows "lww_get (net_engine s a) k = lww_get (net_engine s b) k"
proof -
  have "lww_get (net_engine s a) k = lww_spec_get (net_hist s a) k"
    by (rule lww_repr_get [OF net_node(1) [OF assms(1)]])
  also have "\<dots> = lww_spec_get (net_hist s b) k"
    by (simp add: lww_spec_get_def lww_value_set_eq [OF assms(2)])
  also have "\<dots> = lww_get (net_engine s b) k"
    by (rule lww_repr_get [OF net_node(1) [OF assms(1)], symmetric])
  finally show ?thesis .
qed

text \<open>A run of two nodes: node 1 writes, sends, node 2 merges the message twice over.\<close>

definition demo_put :: "(u64 \<times> lww_engine) \<times> bytes option" where
  "demo_put = lww_put_local 0 ''k'' [7] (lamport_new, lww_new 1)"

definition demo_put_net :: lww_net where
  "demo_put_net = net_set 1 (fst (fst demo_put)) (snd (fst demo_put))
     [Insert ''k'' [7] (lamport_tick lamport_new) 1] net_init"

definition demo_sent_net :: lww_net where
  "demo_sent_net = demo_put_net\<lparr>net_wire :=
     net_wire demo_put_net @ lww_export_ops (net_engine demo_put_net 1)\<rparr>"

definition demo_batch :: "operation list" where
  "demo_batch = [Insert ''k'' [7] 1 1, Insert ''k'' [7] 1 1]"

definition demo_recv :: "(u64 \<times> lww_engine) \<times> crdt_change list" where
  "demo_recv = lww_apply_remote_ops 5 demo_batch (lamport_new, lww_new 2)"

definition demo_recv_net :: lww_net where
  "demo_recv_net = net_set 2 (fst (fst demo_recv)) (snd (fst demo_recv)) demo_batch demo_sent_net"

lemma demo_export: "lww_export_ops (snd (fst demo_put)) = [Insert ''k'' [7] 1 1]"
  by (simp add: demo_put_def lww_eval)

lemma demo_tick: "lamport_tick lamport_new = 1"
  by (simp add: lww_eval)

lemma demo_put_reachable: "net_reachable demo_put_net"
proof -
  have c: "net_clock net_init 1 = lamport_new" and ne: "lamport_new \<noteq> u64_max"
    by (simp_all add: net_init_def lamport_new_def u64_max_def)
  have put: "lww_put_local 0 ''k'' [7] (net_clock net_init 1, net_engine net_init 1)
      = ((fst (fst demo_put), snd (fst demo_put)), snd demo_put)"
    by (simp add: demo_put_def net_init_def)
  have "net_step net_init demo_put_net"
    using net_put [OF _ put] ne by (simp add: c demo_put_net_def)
  then show ?thesis by (rule reach_step [OF reach_init])
qed

lemma demo_recv_reachable: "net_reachable demo_recv_net"
proof -
  have sent: "net_reachable demo_sent_net"
    unfolding demo_sent_net_def using demo_put_reachable by (rule reach_step) (rule net_send)
  have "set demo_batch \<subseteq> set (net_wire demo_sent_net)"
    by (simp add: demo_sent_net_def demo_put_net_def demo_export demo_batch_def)
  moreover have "lww_apply_remote_ops 5 demo_batch (net_clock demo_sent_net 2, net_engine demo_sent_net 2)
      = ((fst (fst demo_recv), snd (fst demo_recv)), snd demo_recv)"
    by (simp add: demo_recv_def demo_sent_net_def demo_put_net_def net_init_def)
  ultimately have "net_step demo_sent_net demo_recv_net"
    unfolding demo_recv_net_def by (rule net_receive)
  with sent show ?thesis by (rule reach_step)
qed

theorem lww_strong_eventual_consistency_witness:
  "net_reachable demo_recv_net \<and>
   set (net_hist demo_recv_net 1) = set (net_hist demo_recv_net 2) \<and>
   lww_get (net_engine demo_recv_net 1) ''k'' = lww_get (net_engine demo_recv_net 2) ''k'' \<and>
   lww_get (net_engine demo_recv_net 2) ''k'' = Some [7]"
proof (intro conjI)
  show "net_reachable demo_recv_net" by (rule demo_recv_reachable)
  show sets: "set (net_hist demo_recv_net 1) = set (net_hist demo_recv_net 2)"
    by (simp add: demo_recv_net_def demo_sent_net_def demo_put_net_def net_init_def demo_batch_def
        demo_tick)
  show "lww_get (net_engine demo_recv_net 1) ''k'' = lww_get (net_engine demo_recv_net 2) ''k''"
    by (rule lww_strong_eventual_consistency [OF demo_recv_reachable sets])
  have "lww_get (snd (fst demo_recv)) ''k'' = Some [7]"
    by (simp add: demo_recv_def demo_batch_def lww_eval)
  then show "lww_get (net_engine demo_recv_net 2) ''k'' = Some [7]"
    by (simp add: demo_recv_net_def)
qed

text \<open>C2.
  Anti-entropy.  When node \<open>b\<close> merges node \<open>a\<close>'s exported log and then \<open>a\<close> merges the log
  \<open>b\<close> exports afterwards, both read, for every key, the winner among all operations either
  of them had absorbed: compacted logs lose nothing, as long as no node has seen more keys
  than the log's size backstop allows.
\<close>

theorem full_exchange_converges:
  assumes reach: "net_reachable s"
    and bound: "card (op_key ` set (net_hist s a)) \<le> AUTO_COMPACT_THRESHOLD"
      "card (op_key ` set (net_hist s b)) \<le> AUTO_COMPACT_THRESHOLD"
    and ab: "lww_apply_remote_ops now (lww_export_ops (net_engine s a)) (net_clock s b, net_engine s b)
             = ((cb', eb'), cs)"
    and ba: "lww_apply_remote_ops now' (lww_export_ops eb') (net_clock s a, net_engine s a)
             = ((ca', ea'), cs')"
  shows "lww_get ea' k = lww_get eb' k \<and>
         lww_get eb' k = lww_spec_get (net_hist s a @ net_hist s b) k"
proof -
  let ?A = "net_hist s a" and ?B = "net_hist s b" and ?X = "lww_export_ops (net_engine s a)"
  note na = net_node(1,2) [OF reach, of a] and nb = net_node(1,2) [OF reach, of b]
    and XA = net_node(4) [OF reach, of a] and uniq = net_node(3) [OF reach, of a b]
  have ub: "op_ids_unique (set ?B \<union> set ?X)"
    using uniq XA by (auto intro: op_ids_unique_subset)
  have rb: "lww_repr cb' eb' (?B @ ?X)" by (rule lww_remote_repr [OF nb(1) ub ab])
  have einv: "lww_inv (net_engine s b)" using nb(1) by (simp add: lww_repr_def)
  have fb: "lww_log_complete eb' (?B @ ?X)"
    by (rule lww_remote_complete [OF nb(1) ub nb(2) [OF bound(2)] lww_remote_inv(6) [OF einv ab]])
  let ?Y = "lww_export_ops eb'"
  have YB: "set ?Y \<subseteq> set (?B @ ?X)"
    using rb by (simp add: lww_repr_def lww_export_ops_def keeper_export_def)
  have ua: "op_ids_unique (set ?A \<union> set ?Y)"
    by (rule op_ids_unique_subset [OF uniq]) (use XA YB in auto)
  have ra: "lww_repr ca' ea' (?A @ ?Y)" by (rule lww_remote_repr [OF na(1) ua ba])
  have vX: "lww_value ?X = lww_value ?A"
    using na(2) [OF bound(1)] by (simp add: lww_log_complete_def lww_export_ops_def keeper_export_def)
  have vY: "lww_value ?Y = lww_value (?B @ ?X)"
    using fb by (simp add: lww_log_complete_def lww_export_ops_def keeper_export_def)
  have "lww_value (?B @ ?X) = lww_value (?X @ ?B)" by (rule lww_value_set_eq) auto
  also have "\<dots> = lww_value (?A @ ?B)" by (rule lww_value_append_cong [OF vX])
  finally have b: "lww_value (?B @ ?X) = lww_value (?A @ ?B)" .
  have "lww_value (?A @ ?Y) = lww_value (?Y @ ?A)" by (rule lww_value_set_eq) auto
  also have "\<dots> = lww_value ((?B @ ?X) @ ?A)" by (rule lww_value_append_cong [OF vY])
  also have "\<dots> = lww_value (?A @ ?B)" by (rule lww_value_set_eq) (use XA in auto)
  finally have a: "lww_value (?A @ ?Y) = lww_value (?A @ ?B)" .
  show ?thesis
    by (simp add: lww_repr_get [OF ra] lww_repr_get [OF rb] lww_spec_get_def a b)
qed

theorem full_exchange_converges_witness:
  "\<exists>cb eb cs ca ea cs'.
     lww_apply_remote_ops 5 (lww_export_ops (net_engine demo_put_net 1))
       (net_clock demo_put_net 2, net_engine demo_put_net 2) = ((cb, eb), cs) \<and>
     lww_apply_remote_ops 6 (lww_export_ops eb)
       (net_clock demo_put_net 1, net_engine demo_put_net 1) = ((ca, ea), cs') \<and>
     lww_get ea ''k'' = lww_get eb ''k'' \<and> lww_get eb ''k'' = Some [7]"
proof -
  obtain cb eb cs where ab: "lww_apply_remote_ops 5 (lww_export_ops (net_engine demo_put_net 1))
       (net_clock demo_put_net 2, net_engine demo_put_net 2) = ((cb, eb), cs)"
    by (metis prod.exhaust)
  obtain ca ea cs' where ba: "lww_apply_remote_ops 6 (lww_export_ops eb)
       (net_clock demo_put_net 1, net_engine demo_put_net 1) = ((ca, ea), cs')"
    by (metis prod.exhaust)
  have hist: "net_hist demo_put_net 1 = [Insert ''k'' [7] 1 1]" "net_hist demo_put_net 2 = []"
    by (simp_all add: demo_put_net_def net_init_def demo_tick)
  have "lww_get ea ''k'' = lww_get eb ''k'' \<and>
        lww_get eb ''k'' = lww_spec_get (net_hist demo_put_net 1 @ net_hist demo_put_net 2) ''k''"
    by (rule full_exchange_converges [OF demo_put_reachable _ _ ab ba])
      (simp_all add: hist AUTO_COMPACT_THRESHOLD_def)
  moreover have "lww_spec_get (net_hist demo_put_net 1 @ net_hist demo_put_net 2) ''k'' = Some [7]"
    by (simp add: hist lww_spec_get_def lww_value_def joins_Cons lww_elem_def)
  ultimately show ?thesis using ab ba by auto
qed

end
