(* ===== verification/Epoch_Max_Wins.thy ===== *)
theory Epoch_Max_Wins
  imports Crdt_Spec "HOL-Library.Option_ord"
begin

text \<open>
  The rate-limit shard merge (\<open>crdt_kv/epoch_max_wins.rs\<close>): epoch counters and their
  16-byte payload, shards with a frontier of live points and a tombstone boundary, the
  merge of two states and the fold of a key's operations into one.

  The serializer of shards is the external crate \<open>bincode\<close>: it is a pair of arguments
  \<open>ser\<close> (what \<open>bincode::serialize(..).ok()\<close> returns) and \<open>de\<close> (what
  \<open>DefaultOptions::new().with_fixint_encoding().allow_trailing_bytes().with_limit(..)
  .deserialize(..).ok()\<close> returns).

  The abstract state of a key is a tombstone boundary with a Pareto frontier of points;
  joining frontiers is associative, commutative and idempotent, and the lemmas show that
  \<open>merge\<close> computes it whenever one version carries one value.
\<close>

unbundle bit_operations_syntax

section \<open>Epoch counters\<close>

definition EPOCH_MAX_WINS_ENCODED_LEN :: nat where
  "EPOCH_MAX_WINS_ENCODED_LEN = 16"

text \<open>\<open>count\<close> is an \<open>i64\<close>: a 64-bit word compared by its signed value.\<close>

datatype epoch_count = EpochCount (ec_epoch: u64) (ec_count: u64)

instantiation epoch_count :: linorder
begin

definition less_eq_epoch_count :: "epoch_count \<Rightarrow> epoch_count \<Rightarrow> bool" where
  "less_eq_epoch_count a b \<longleftrightarrow>
     (ec_epoch a, sint (ec_count a)) \<le> (ec_epoch b, sint (ec_count b))"

definition less_epoch_count :: "epoch_count \<Rightarrow> epoch_count \<Rightarrow> bool" where
  "less_epoch_count a b \<longleftrightarrow>
     (ec_epoch a, sint (ec_count a)) < (ec_epoch b, sint (ec_count b))"

instance
proof
  fix a b c :: epoch_count
  show "(a < b) = (a \<le> b \<and> \<not> b \<le> a)"
    unfolding less_eq_epoch_count_def less_epoch_count_def by (rule less_le_not_le)
  show "a \<le> a" by (simp add: less_eq_epoch_count_def)
  show "a \<le> b \<Longrightarrow> b \<le> c \<Longrightarrow> a \<le> c"
    unfolding less_eq_epoch_count_def by (rule order_trans)
  show "a \<le> b \<or> b \<le> a"
    unfolding less_eq_epoch_count_def by (rule linear)
  assume "a \<le> b" "b \<le> a"
  then have "(ec_epoch a, sint (ec_count a)) = (ec_epoch b, sint (ec_count b))"
    unfolding less_eq_epoch_count_def by (rule order_antisym)
  then show "a = b"
    by (metis epoch_count.expand prod.inject signed_word_eqI)
qed

end

datatype value_winner = VW_Local | VW_Remote | VW_Equal

definition compare_epoch_count :: "epoch_count \<Rightarrow> epoch_count \<Rightarrow> value_winner" where
  "compare_epoch_count local remote =
     (if ec_epoch remote < ec_epoch local then VW_Local
      else if ec_epoch local < ec_epoch remote then VW_Remote
      else if sint (ec_count remote) < sint (ec_count local) then VW_Local
      else if sint (ec_count local) < sint (ec_count remote) then VW_Remote
      else VW_Equal)"

lemma compare_epoch_count_order:
  "compare_epoch_count a b = VW_Local \<longleftrightarrow> b < a"
  "compare_epoch_count a b = VW_Remote \<longleftrightarrow> a < b"
  "compare_epoch_count a b = VW_Equal \<longleftrightarrow> a = b"
proof -
  show "compare_epoch_count a b = VW_Local \<longleftrightarrow> b < a"
    "compare_epoch_count a b = VW_Remote \<longleftrightarrow> a < b"
    by (auto simp: compare_epoch_count_def less_epoch_count_def)
  then show "compare_epoch_count a b = VW_Equal \<longleftrightarrow> a = b"
    by (cases "compare_epoch_count a b") auto
qed

section \<open>The application payload\<close>

definition u64_to_be_bytes :: "u64 \<Rightarrow> bytes" where
  "u64_to_be_bytes w = map (\<lambda>i. ucast (drop_bit (8 * i) w)) [7, 6, 5, 4, 3, 2, 1, 0]"

definition u64_from_be_bytes :: "bytes \<Rightarrow> u64" where
  "u64_from_be_bytes bs = foldl (\<lambda>acc b. push_bit 8 acc OR ucast b) 0 bs"

definition ec_encode :: "u64 \<Rightarrow> u64 \<Rightarrow> bytes" where
  "ec_encode epoch cnt = u64_to_be_bytes epoch @ u64_to_be_bytes cnt"

definition decode_raw_epoch_count :: "bytes \<Rightarrow> epoch_count option" where
  "decode_raw_epoch_count bytes =
     (if length bytes \<noteq> EPOCH_MAX_WINS_ENCODED_LEN then None
      else Some (EpochCount (u64_from_be_bytes (take 8 bytes)) (u64_from_be_bytes (take 8 (drop 8 bytes)))))"

lemma be_split_byte:
  "push_bit 8 (drop_bit (8 + n) w) OR ucast (ucast (drop_bit n w) :: u8) = drop_bit n w"
  for w :: u64
  by (rule bit_word_eqI) (auto simp: bit_simps)

lemma be_top_byte: "drop_bit 56 w = ucast (ucast (drop_bit 56 w) :: u8)" for w :: u64
  by (rule bit_word_eqI) (auto simp: bit_simps dest: bit_imp_le_length)

lemma u64_be_bytes_roundtrip [simp]: "u64_from_be_bytes (u64_to_be_bytes w) = w"
  using be_split_byte [of 48 w] be_split_byte [of 40 w] be_split_byte [of 32 w]
    be_split_byte [of 24 w] be_split_byte [of 16 w] be_split_byte [of 8 w] be_split_byte [of 0 w]
  by (simp add: u64_from_be_bytes_def u64_to_be_bytes_def be_top_byte [symmetric])

lemma length_u64_to_be_bytes [simp]: "length (u64_to_be_bytes w) = 8"
  by (simp add: u64_to_be_bytes_def)

lemma length_ec_encode [simp]: "length (ec_encode e c) = EPOCH_MAX_WINS_ENCODED_LEN"
  by (simp add: ec_encode_def EPOCH_MAX_WINS_ENCODED_LEN_def)

lemma decode_raw_encode: "decode_raw_epoch_count (ec_encode e c) = Some (EpochCount e c)"
  by (simp add: decode_raw_epoch_count_def) (simp add: ec_encode_def)

section \<open>Shards and states\<close>

record live_point =
  lp_value :: epoch_count
  lp_version :: version

record rate_limit_shard =
  live_points :: "live_point list"
  shard_tombstone :: "version option"

datatype rate_limit_state = Live rate_limit_shard | Tombstone version

type_synonym shard_ser = "rate_limit_shard \<Rightarrow> bytes option"
type_synonym shard_de = "bytes \<Rightarrow> rate_limit_shard option"

definition MAX_SHARD_BYTES :: nat where
  "MAX_SHARD_BYTES = 64 * 1024"

definition encode_shard :: "shard_ser \<Rightarrow> rate_limit_shard \<Rightarrow> bytes option" where
  "encode_shard ser shard = ser shard"

definition decode_shard :: "shard_de \<Rightarrow> bytes \<Rightarrow> rate_limit_shard option" where
  "decode_shard de bytes =
     (case de bytes of
        None \<Rightarrow> None
      | Some shard \<Rightarrow> if live_points shard \<noteq> [] then Some shard else None)"

definition from_live_point :: "live_point \<Rightarrow> rate_limit_shard" where
  "from_live_point point = \<lparr>live_points = [point], shard_tombstone = None\<rparr>"

definition keep_greater :: "epoch_count \<Rightarrow> epoch_count \<Rightarrow> epoch_count" where
  "keep_greater current candidate =
     (case compare_epoch_count current candidate of
        VW_Remote \<Rightarrow> candidate
      | VW_Local \<Rightarrow> current
      | VW_Equal \<Rightarrow> current)"

definition current_value :: "rate_limit_shard \<Rightarrow> epoch_count option" where
  "current_value shard =
     (case map lp_value (live_points shard) of
        [] \<Rightarrow> None
      | v # vs \<Rightarrow> Some (foldl keep_greater v vs))"

definition newest_live_version :: "rate_limit_shard \<Rightarrow> version option" where
  "newest_live_version shard = max_by_key (\<lambda>v. v) (map lp_version (live_points shard))"

definition after_tombstone :: "version option \<Rightarrow> live_point \<Rightarrow> bool" where
  "after_tombstone tombstone_version point =
     (case tombstone_version of None \<Rightarrow> True | Some tombstone \<Rightarrow> tombstone < lp_version point)"

text \<open>The scan over points from newest to oldest, keeping a point when it beats all newer ones.\<close>

fun frontier_scan :: "epoch_count option \<Rightarrow> live_point list \<Rightarrow> live_point list" where
  "frontier_scan suffix_best [] = []"
| "frontier_scan suffix_best (point # points) =
     (let keep = (case suffix_best of
                    None \<Rightarrow> True
                  | Some best \<Rightarrow> compare_epoch_count (lp_value point) best = VW_Local)
      in if keep
         then point # frontier_scan
                (Some (case suffix_best of
                         Some best \<Rightarrow>
                           (case compare_epoch_count best (lp_value point) of
                              VW_Remote \<Rightarrow> lp_value point
                            | VW_Local \<Rightarrow> best
                            | VW_Equal \<Rightarrow> best)
                       | None \<Rightarrow> lp_value point)) points
         else frontier_scan suffix_best points)"

text \<open>\<open>sort_by_key(Reverse(version))\<close>: stable, newest first.\<close>

definition sort_newest_first :: "live_point list \<Rightarrow> live_point list" where
  "sort_newest_first points = rev (sort_key lp_version (rev points))"

definition shard_merged :: "live_point list \<Rightarrow> version option \<Rightarrow> rate_limit_shard option" where
  "shard_merged points tombstone_version =
     (let retained = filter (after_tombstone tombstone_version) points in
      if retained = [] then None
      else Some \<lparr>live_points = sort_key lp_version (frontier_scan None (sort_newest_first retained)),
                 shard_tombstone = tombstone_version\<rparr>)"

definition shard_live_points_after :: "rate_limit_shard \<Rightarrow> version option \<Rightarrow> live_point list" where
  "shard_live_points_after shard tombstone_version =
     filter (after_tombstone tombstone_version) (live_points shard)"

fun state_tombstone_version :: "rate_limit_state \<Rightarrow> version option" where
  "state_tombstone_version (Live shard) = shard_tombstone shard"
| "state_tombstone_version (Tombstone version) = Some version"

fun state_live_points_after :: "rate_limit_state \<Rightarrow> version option \<Rightarrow> live_point list" where
  "state_live_points_after (Live shard) tv = shard_live_points_after shard tv"
| "state_live_points_after (Tombstone _) tv = []"

definition state_merge :: "rate_limit_state \<Rightarrow> rate_limit_state \<Rightarrow> rate_limit_state option" where
  "state_merge s other =
     (let tombstone_version = max (state_tombstone_version s) (state_tombstone_version other);
          points = state_live_points_after s tombstone_version
                     @ state_live_points_after other tombstone_version
      in case shard_merged points tombstone_version of
           Some shard \<Rightarrow> Some (Live shard)
         | None \<Rightarrow> map_option Tombstone tombstone_version)"

fun encode_live :: "shard_ser \<Rightarrow> rate_limit_state \<Rightarrow> bytes option" where
  "encode_live ser (Live shard) = encode_shard ser shard"
| "encode_live ser (Tombstone _) = None"

fun into_operation :: "shard_ser \<Rightarrow> string \<Rightarrow> rate_limit_state \<Rightarrow> operation option" where
  "into_operation ser key (Live shard) =
     (case newest_live_version shard of
        None \<Rightarrow> None
      | Some live_version \<Rightarrow>
          (case encode_shard ser shard of
             None \<Rightarrow> None
           | Some value \<Rightarrow> Some (Insert key value (fst live_version) (snd live_version))))"
| "into_operation ser key (Tombstone version) = Some (Remove key (fst version) (snd version))"

definition state_from_insert_value :: "shard_de \<Rightarrow> bytes \<Rightarrow> version \<Rightarrow> rate_limit_state option" where
  "state_from_insert_value de value version =
     (case decode_shard de value of
        Some shard \<Rightarrow> Some (Live shard)
      | None \<Rightarrow>
          map_option (\<lambda>v. Live (from_live_point \<lparr>lp_value = v, lp_version = version\<rparr>))
            (decode_raw_epoch_count value))"

definition rl_decode :: "shard_de \<Rightarrow> bytes \<Rightarrow> epoch_count option" where
  "rl_decode de bytes =
     (case Option.bind (decode_shard de bytes) current_value of
        Some v \<Rightarrow> Some v
      | None \<Rightarrow> decode_raw_epoch_count bytes)"

text \<open>The state an operation stands for; \<open>None\<close> for a malformed payload, which is skipped.\<close>

fun operation_state :: "shard_de \<Rightarrow> operation \<Rightarrow> rate_limit_state option" where
  "operation_state de (Insert _ value timestamp replica_id) =
     state_from_insert_value de value (timestamp, replica_id)"
| "operation_state de (Remove _ timestamp replica_id) = Some (Tombstone (timestamp, replica_id))"

text \<open>
  The loop of \<open>compact_operations\<close>; the outer \<open>None\<close> is the early return of a failed merge.
\<close>

fun compact_states ::
    "shard_de \<Rightarrow> rate_limit_state option \<Rightarrow> operation list \<Rightarrow> rate_limit_state option option" where
  "compact_states de state [] = Some state"
| "compact_states de state (operation # operations) =
     (case operation_state de operation of
        None \<Rightarrow> compact_states de state operations
      | Some op_state \<Rightarrow>
          (case state of
             None \<Rightarrow> compact_states de (Some op_state) operations
           | Some current \<Rightarrow>
               (case state_merge current op_state of
                  None \<Rightarrow> None
                | Some merged \<Rightarrow> compact_states de (Some merged) operations)))"

definition compact_operations ::
    "shard_ser \<Rightarrow> shard_de \<Rightarrow> operation list \<Rightarrow> operation option" where
  "compact_operations ser de operations =
     (case operations of
        [] \<Rightarrow> None
      | first # _ \<Rightarrow>
          (case compact_states de None operations of
             None \<Rightarrow> None
           | Some None \<Rightarrow> None
           | Some (Some state) \<Rightarrow> into_operation ser (op_key first) state))"

section \<open>Pareto frontiers\<close>

definition dominated :: "live_point \<Rightarrow> live_point \<Rightarrow> bool" where
  "dominated p q \<longleftrightarrow> lp_version p \<le> lp_version q \<and> lp_value p \<le> lp_value q"

definition frontier :: "live_point set \<Rightarrow> live_point set" where
  "frontier S = {p \<in> S. \<forall>q \<in> S. dominated p q \<longrightarrow> p = q}"

definition newer_points :: "version option \<Rightarrow> live_point set \<Rightarrow> live_point set" where
  "newer_points T S = {p \<in> S. after_tombstone T p}"

type_synonym rl_elem = "version option \<times> live_point set"

definition rl_join :: "rl_elem \<Rightarrow> rl_elem \<Rightarrow> rl_elem" where
  "rl_join a b =
     (let T = max (fst a) (fst b) in (T, frontier (newer_points T (snd a \<union> snd b))))"

definition rl_elems :: "rl_elem set" where
  "rl_elems = {e. finite (snd e) \<and> snd e = frontier (newer_points (fst e) (snd e))}"

lemma dominated_refl [simp]: "dominated p p"
  by (simp add: dominated_def)

lemma dominated_trans: "dominated p q \<Longrightarrow> dominated q r \<Longrightarrow> dominated p r"
  by (auto simp: dominated_def)

lemma dominated_antisym: "dominated p q \<Longrightarrow> dominated q p \<Longrightarrow> p = q"
  by (auto simp: dominated_def intro: live_point.equality)

lemma finite_maximal_above:
  assumes "finite S" and "p \<in> S"
  obtains m where "m \<in> frontier S" and "dominated p m"
proof -
  let ?D = "{q \<in> S. dominated p q}" and ?f = "\<lambda>q. (lp_version q, lp_value q)"
  have fin: "finite (?f ` ?D)" "?f ` ?D \<noteq> {}" using assms by auto
  from Max_in [OF fin] obtain m where m: "m \<in> ?D" "?f m = Max (?f ` ?D)"
    by (metis (no_types, lifting) imageE)
  have "m = q" if q: "q \<in> S" "dominated m q" for q
  proof -
    have "?f q \<le> ?f m"
      using Max_ge [OF fin(1), of "?f q"] q m dominated_trans by (metis (no_types, lifting) imageI mem_Collect_eq)
    with q(2) have "dominated q m" by (auto simp: dominated_def)
    with q(2) show ?thesis by (rule dominated_antisym)
  qed
  with m(1) that show thesis by (auto simp: frontier_def)
qed

lemma frontier_subset: "frontier S \<subseteq> S"
  by (auto simp: frontier_def)

lemma newer_points_Un: "newer_points T (A \<union> B) = newer_points T A \<union> newer_points T B"
  by (auto simp: newer_points_def)

lemma after_tombstone_mono: "T1 \<le> T \<Longrightarrow> after_tombstone T p \<Longrightarrow> after_tombstone T1 p"
  by (cases T1; cases T) (auto simp: after_tombstone_def)

lemma after_tombstone_dominated: "after_tombstone T p \<Longrightarrow> dominated p q \<Longrightarrow> after_tombstone T q"
  by (auto simp: after_tombstone_def dominated_def split: option.splits)

text \<open>Replacing part of a point set by its own frontier does not change the frontier.\<close>

lemma frontier_absorb:
  assumes "finite A" "finite B" "T1 \<le> T"
  shows "frontier (newer_points T (frontier (newer_points T1 A) \<union> B)) =
         frontier (newer_points T (A \<union> B))" (is "frontier ?L = frontier ?R")
proof -
  have sub: "?L \<subseteq> ?R"
    by (auto simp: newer_points_def frontier_def)
  have above: "\<exists>m \<in> ?L. dominated p m" if p: "p \<in> ?R" for p
  proof (cases "p \<in> A")
    case True
    with p have "p \<in> newer_points T1 A"
      using after_tombstone_mono [OF assms(3)] by (auto simp: newer_points_def)
    moreover have "finite (newer_points T1 A)" using assms(1) by (simp add: newer_points_def)
    ultimately obtain m where "m \<in> frontier (newer_points T1 A)" "dominated p m"
      using finite_maximal_above by blast
    with p after_tombstone_dominated show ?thesis
      by (intro bexI [of _ m]) (auto simp: newer_points_def)
  qed (use p in \<open>auto simp: newer_points_def\<close>)
  show ?thesis
  proof (intro set_eqI iffI)
    fix p assume p: "p \<in> frontier ?L"
    have "p = q" if q: "q \<in> ?R" "dominated p q" for q
    proof -
      from above [OF q(1)] obtain m where m: "m \<in> ?L" "dominated q m" by blast
      with p q(2) have "p = m" by (auto simp: frontier_def dest: dominated_trans)
      with m(2) q(2) show ?thesis by (auto intro: dominated_antisym)
    qed
    with p sub show "p \<in> frontier ?R" by (auto simp: frontier_def)
  next
    fix p assume p: "p \<in> frontier ?R"
    then have "p \<in> ?R" by (simp add: frontier_def)
    from above [OF this] obtain m where "m \<in> ?L" "dominated p m" by blast
    with p sub have "p \<in> ?L" by (auto simp: frontier_def)
    with p sub show "p \<in> frontier ?L" by (auto simp: frontier_def)
  qed
qed

lemma rl_join_closed: "a \<in> rl_elems \<Longrightarrow> b \<in> rl_elems \<Longrightarrow> rl_join a b \<in> rl_elems"
proof -
  assume "a \<in> rl_elems" "b \<in> rl_elems"
  then have fin: "finite (snd a \<union> snd b)" by (simp add: rl_elems_def)
  let ?T = "max (fst a) (fst b)"
  have "finite (frontier (newer_points ?T (snd a \<union> snd b)))"
    using fin by (rule rev_finite_subset) (auto simp: frontier_def newer_points_def)
  then show "rl_join a b \<in> rl_elems"
    using frontier_absorb [OF fin finite.emptyI order_refl [of ?T]]
    by (simp add: rl_elems_def rl_join_def Let_def)
qed

lemma rl_join_comm: "rl_join a b = rl_join b a"
  by (simp add: rl_join_def Let_def max.commute Un_commute)

lemma rl_join_assoc:
  assumes "a \<in> rl_elems" "b \<in> rl_elems" "c \<in> rl_elems"
  shows "rl_join (rl_join a b) c = rl_join a (rl_join b c)"
proof -
  have fin: "finite (snd a)" "finite (snd b)" "finite (snd c)"
    using assms by (simp_all add: rl_elems_def)
  let ?T = "max (max (fst a) (fst b)) (fst c)"
  have l: "frontier (newer_points ?T (frontier (newer_points (max (fst a) (fst b)) (snd a \<union> snd b)) \<union> snd c))
      = frontier (newer_points ?T (snd a \<union> snd b \<union> snd c))"
    using fin by (intro frontier_absorb) auto
  have r: "frontier (newer_points ?T (frontier (newer_points (max (fst b) (fst c)) (snd b \<union> snd c)) \<union> snd a))
      = frontier (newer_points ?T (snd b \<union> snd c \<union> snd a))"
    using fin by (intro frontier_absorb) (auto simp: max.assoc)
  show ?thesis
    using l r by (simp add: rl_join_def Let_def max.assoc Un_ac)
qed

lemma rl_join_idem: "a \<in> rl_elems \<Longrightarrow> rl_join a a = a"
  by (cases a) (simp add: rl_join_def rl_elems_def Let_def)

interpretation rl_lattice: join_semilattice_on rl_elems rl_join
  by unfold_locales (rule rl_join_closed rl_join_assoc rl_join_comm rl_join_idem; assumption)+

section \<open>The merge computes the join\<close>

text \<open>One version carries one value: what unique operation ids give.\<close>

definition coherent :: "live_point set \<Rightarrow> bool" where
  "coherent S \<longleftrightarrow> (\<forall>p \<in> S. \<forall>q \<in> S. lp_version p = lp_version q \<longrightarrow> p = q)"

lemma coherent_subset: "coherent S \<Longrightarrow> R \<subseteq> S \<Longrightarrow> coherent R"
  by (auto simp: coherent_def)

lemma coherent_inj_on: "coherent S \<longleftrightarrow> inj_on lp_version S"
  by (auto simp: coherent_def inj_on_def)

definition newest_first :: "live_point list \<Rightarrow> bool" where
  "newest_first = sorted_wrt (\<lambda>p q. lp_version q \<le> lp_version p)"

definition strict_front :: "live_point list \<Rightarrow> bool" where
  "strict_front = sorted_wrt (\<lambda>p q. lp_version q < lp_version p \<and> lp_value p < lp_value q)"

lemma frontier_scan_Cons:
  "frontier_scan best (p # ps) =
     (if (case best of None \<Rightarrow> True | Some b \<Rightarrow> b < lp_value p)
      then p # frontier_scan (Some (lp_value p)) ps else frontier_scan best ps)"
  by (cases best)
    (auto simp: compare_epoch_count_order Let_def split: value_winner.splits
      dest: compare_epoch_count_order(1)[THEN iffD1] compare_epoch_count_order(3)[THEN iffD1])

declare frontier_scan.simps(2) [simp del]

lemma set_frontier_scan_subset: "set (frontier_scan best ps) \<subseteq> set ps"
  by (induction ps arbitrary: best) (auto simp: frontier_scan_Cons split: if_splits)

lemma frontier_scan_above:
  "p \<in> set (frontier_scan (Some b) ps) \<Longrightarrow> b < lp_value p"
  by (induction ps arbitrary: b) (fastforce simp: frontier_scan_Cons split: if_splits)+

lemma set_frontier_scan:
  assumes "newest_first ps" "coherent (set ps)"
  shows "set (frontier_scan best ps) =
         {p \<in> set ps. (case best of None \<Rightarrow> True | Some b \<Rightarrow> b < lp_value p) \<and>
                      (\<forall>q \<in> set ps. lp_version p < lp_version q \<longrightarrow> lp_value q < lp_value p)}"
  using assms
proof (induction ps arbitrary: best)
  case Nil
  then show ?case by simp
next
  case (Cons x ps)
  have ps: "newest_first ps" "coherent (set ps)" and x: "\<And>q. q \<in> set ps \<Longrightarrow> lp_version q \<le> lp_version x"
    using Cons.prems by (auto simp: newest_first_def coherent_def)
  have same: "q = x" if "q \<in> set ps" "\<not> lp_version q < lp_version x" for q
  proof -
    have "lp_version q = lp_version x" using x [OF that(1)] that(2) by simp
    with Cons.prems(2) that(1) show ?thesis by (auto simp: coherent_def)
  qed
  show ?case
  proof (cases "case best of None \<Rightarrow> True | Some b \<Rightarrow> b < lp_value x")
    case True
    then show ?thesis
      using x same by (auto simp: frontier_scan_Cons Cons.IH [OF ps] split: option.splits dest: leD) 
  next
    case False
    then show ?thesis
      using x same by (auto simp: frontier_scan_Cons Cons.IH [OF ps] split: option.splits dest: leD)
  qed
qed

lemma frontier_scan_strict:
  assumes "newest_first ps" "coherent (set ps)"
  shows "strict_front (frontier_scan best ps)"
  using assms
proof (induction ps arbitrary: best)
  case Nil
  then show ?case by (simp add: strict_front_def)
next
  case (Cons x ps)
  have ps: "newest_first ps" "coherent (set ps)" and x: "\<And>q. q \<in> set ps \<Longrightarrow> lp_version q \<le> lp_version x"
    using Cons.prems by (auto simp: newest_first_def coherent_def)
  have "lp_version q < lp_version x \<and> lp_value x < lp_value q"
    if q: "q \<in> set (frontier_scan (Some (lp_value x)) ps)" for q
  proof -
    have "lp_value x < lp_value q" using q by (rule frontier_scan_above)
    moreover have "q \<in> set ps" using q set_frontier_scan_subset by blast
    ultimately show ?thesis
      using x Cons.prems(2) by (fastforce simp: coherent_def order.order_iff_strict)
  qed
  then show ?case
    using Cons.IH [OF ps] by (simp add: frontier_scan_Cons strict_front_def)
qed

lemma sort_newest_first_set [simp]: "set (sort_newest_first ps) = set ps"
  by (simp add: sort_newest_first_def)

lemma sort_newest_first_newest_first: "newest_first (sort_newest_first ps)"
proof -
  have "sorted_wrt (\<lambda>p q. lp_version p \<le> lp_version q) (sort_key lp_version (rev ps))"
    using sorted_sort_key [of lp_version "rev ps"] by (simp add: sorted_map)
  then show ?thesis by (simp add: newest_first_def sort_newest_first_def sorted_wrt_rev)
qed

lemma sort_strict_front:
  assumes "strict_front xs"
  shows "sort_key lp_version xs = rev xs"
proof -
  have "sorted_wrt (\<lambda>p q. lp_version p < lp_version q) (rev xs)"
    using assms unfolding strict_front_def sorted_wrt_rev by (rule sorted_wrt_mono_rel [rotated]) simp
  then have "sorted_wrt (<) (map lp_version (rev xs))"
    by (simp add: sorted_wrt_map)
  then have "sorted (map lp_version (rev xs))" "distinct (map lp_version (rev xs))"
    by (simp_all only: strict_sorted_iff)
  then show ?thesis
    by (intro sort_key_inj_key_eq) (auto simp: distinct_map)
qed

text \<open>A well-formed state: oldest point first, values strictly falling, all past the tombstone.\<close>

definition front :: "live_point list \<Rightarrow> bool" where
  "front = sorted_wrt (\<lambda>p q. lp_version p < lp_version q \<and> lp_value q < lp_value p)"

fun state_wf :: "rate_limit_state \<Rightarrow> bool" where
  "state_wf (Live shard) \<longleftrightarrow>
     live_points shard \<noteq> [] \<and> front (live_points shard) \<and>
     (\<forall>p \<in> set (live_points shard). after_tombstone (shard_tombstone shard) p)"
| "state_wf (Tombstone _) \<longleftrightarrow> True"

fun state_points :: "rate_limit_state \<Rightarrow> live_point set" where
  "state_points (Live shard) = set (live_points shard)"
| "state_points (Tombstone _) = {}"

definition state_abs :: "rate_limit_state \<Rightarrow> rl_elem" where
  "state_abs s = (state_tombstone_version s, state_points s)"

lemma frontier_coherent:
  assumes "coherent S"
  shows "frontier S = {p \<in> S. \<forall>q \<in> S. lp_version p < lp_version q \<longrightarrow> lp_value q < lp_value p}"
proof -
  have "(\<forall>q \<in> S. dominated p q \<longrightarrow> p = q) \<longleftrightarrow>
        (\<forall>q \<in> S. lp_version p < lp_version q \<longrightarrow> lp_value q < lp_value p)" if "p \<in> S" for p
  proof (intro iffI ballI impI)
    fix q assume "\<forall>q \<in> S. dominated p q \<longrightarrow> p = q" "q \<in> S" "lp_version p < lp_version q"
    then show "lp_value q < lp_value p" by (force simp: dominated_def)
  next
    fix q assume *: "\<forall>q \<in> S. lp_version p < lp_version q \<longrightarrow> lp_value q < lp_value p"
      "q \<in> S" "dominated p q"
    then have "\<not> lp_version p < lp_version q" by (auto simp: dominated_def dest: leD)
    with *(3) have "lp_version p = lp_version q" by (simp add: dominated_def)
    with assms that *(2) show "p = q" by (simp add: coherent_def)
  qed
  then show ?thesis by (auto simp: frontier_def)
qed

lemma shard_merged_spec:
  assumes "coherent (set ps)"
  shows "newer_points T (set ps) = {} \<Longrightarrow> shard_merged ps T = None"
    and "newer_points T (set ps) \<noteq> {} \<Longrightarrow>
         \<exists>L. shard_merged ps T = Some \<lparr>live_points = L, shard_tombstone = T\<rparr> \<and>
             set L = frontier (newer_points T (set ps)) \<and> front L \<and> L \<noteq> []"
proof -
  let ?R = "filter (after_tombstone T) ps"
  have R: "set ?R = newer_points T (set ps)" by (auto simp: newer_points_def)
  then have ne: "?R = [] \<longleftrightarrow> newer_points T (set ps) = {}" by (metis set_empty)
  show "newer_points T (set ps) = {} \<Longrightarrow> shard_merged ps T = None"
    using ne by (simp add: shard_merged_def)
  assume some: "newer_points T (set ps) \<noteq> {}"
  let ?F = "frontier_scan None (sort_newest_first ?R)"
  have N: "set (sort_newest_first ?R) = newer_points T (set ps)"
    by (simp only: sort_newest_first_set R)
  have coh: "coherent (newer_points T (set ps))"
    using assms by (rule coherent_subset) (auto simp: newer_points_def)
  have strict: "strict_front ?F"
    by (rule frontier_scan_strict [OF sort_newest_first_newest_first]) (simp only: N coh)
  have set: "set ?F = frontier (newer_points T (set ps))"
    using set_frontier_scan [OF sort_newest_first_newest_first, of ?R None]
    by (simp only: N coh frontier_coherent [OF coh] option.case simp_thms)
  have "finite (newer_points T (set ps))" unfolding R [symmetric] by simp
  then have "frontier (newer_points T (set ps)) \<noteq> {}"
    using some finite_maximal_above by (metis ex_in_conv)
  with set have "rev ?F \<noteq> []" by auto
  moreover have "front (rev ?F)"
    using strict by (simp add: front_def strict_front_def sorted_wrt_rev)
  moreover have "shard_merged ps T = Some \<lparr>live_points = rev ?F, shard_tombstone = T\<rparr>"
    using ne some by (simp add: shard_merged_def sort_strict_front [OF strict])
  ultimately show "\<exists>L. shard_merged ps T = Some \<lparr>live_points = L, shard_tombstone = T\<rparr> \<and>
             set L = frontier (newer_points T (set ps)) \<and> front L \<and> L \<noteq> []"
    using set by (intro exI [of _ "rev ?F"]) simp
qed

lemma set_state_live_points_after: "set (state_live_points_after s T) = newer_points T (state_points s)"
  by (cases s) (auto simp: shard_live_points_after_def newer_points_def)

lemma newer_points_idem [simp]: "newer_points T (newer_points T S) = newer_points T S"
  by (auto simp: newer_points_def)

text \<open>\<open>merge\<close> never fails on well-formed states and is the join of the abstract states.\<close>

lemma state_merge_refines:
  assumes wf: "state_wf a" "state_wf b" and coh: "coherent (state_points a \<union> state_points b)"
  shows "\<exists>s. state_merge a b = Some s \<and> state_wf s \<and> state_abs s = rl_join (state_abs a) (state_abs b)"
proof -
  let ?T = "max (state_tombstone_version a) (state_tombstone_version b)"
  let ?ps = "state_live_points_after a ?T @ state_live_points_after b ?T"
  let ?N = "newer_points ?T (state_points a \<union> state_points b)"
  have ps: "set ?ps = ?N" "newer_points ?T (set ?ps) = ?N"
    by (simp_all add: set_state_live_points_after newer_points_Un)
  have cps: "coherent (set ?ps)"
    unfolding ps(1) using coh by (rule coherent_subset) (auto simp: newer_points_def)
  show ?thesis
  proof (cases "?N = {}")
    case False
    then obtain L where L: "shard_merged ?ps ?T = Some \<lparr>live_points = L, shard_tombstone = ?T\<rparr>"
      "set L = frontier ?N" "front L" "L \<noteq> []"
      using shard_merged_spec(2) [OF cps] ps(2) by metis
    then show ?thesis
      by (auto simp: state_merge_def Let_def state_abs_def rl_join_def frontier_def newer_points_def)
  next
    case True
    have "?T \<noteq> None"
    proof (cases a)
      case (Live sh)
      with wf(1) obtain p where "p \<in> state_points a" by (cases "live_points sh") auto
      with True show ?thesis by (auto simp: newer_points_def after_tombstone_def split: option.splits)
    qed (cases "state_tombstone_version b", auto simp: max_def)
    then obtain v where v: "?T = Some v" by blast
    then show ?thesis
      using shard_merged_spec(1) [OF cps] ps(2) True
      by (simp add: state_merge_def Let_def state_abs_def rl_join_def frontier_def)
  qed
qed

lemma state_abs_inj:
  assumes wf: "state_wf a" "state_wf b" and eq: "state_abs a = state_abs b"
  shows "a = b"
proof (cases a; cases b)
  fix x y assume ab: "a = Live x" "b = Live y"
  then have set: "set (live_points x) = set (live_points y)" and tv: "shard_tombstone x = shard_tombstone y"
    using eq by (simp_all add: state_abs_def)
  have strict: "sorted_wrt (<) (map lp_version (live_points s))" if "state_wf (Live s)" for s
    using that unfolding state_wf.simps front_def sorted_wrt_map
    by (auto intro: sorted_wrt_mono_rel [rotated])
  have "map lp_version (live_points x) = map lp_version (live_points y)"
    using strict [of x] strict [of y] wf ab set
    by (intro sorted_distinct_set_unique) (simp_all add: strict_sorted_iff)
  moreover have "inj_on lp_version (set (live_points x) \<union> set (live_points y))"
    using strict [of x] wf ab set by (simp add: strict_sorted_iff distinct_map)
  ultimately have "live_points x = live_points y" by (rule map_inj_on)
  with tv ab show ?thesis by simp
qed (use eq wf in \<open>auto simp: state_abs_def\<close>)

lemma front_dominated:
  "front xs \<Longrightarrow> p \<in> set xs \<Longrightarrow> q \<in> set xs \<Longrightarrow> dominated p q \<Longrightarrow> p = q"
  by (induction xs) (auto simp: front_def dominated_def dest: leD)

lemma state_abs_elem: "state_wf s \<Longrightarrow> state_abs s \<in> rl_elems"
proof (cases s)
  case (Live sh)
  assume "state_wf s"
  with Live have f: "front (live_points sh)" and a: "\<forall>p \<in> set (live_points sh). after_tombstone (shard_tombstone sh) p"
    by auto
  have "p = q" if "p \<in> set (live_points sh)" "q \<in> set (live_points sh)" "dominated p q" for p q
    using front_dominated [OF f that] .
  with a Live show ?thesis
    by (auto simp: rl_elems_def state_abs_def frontier_def newer_points_def)
qed (simp add: rl_elems_def state_abs_def frontier_def newer_points_def)

section \<open>Histories of a key\<close>

definition rl_states :: "shard_de \<Rightarrow> operation list \<Rightarrow> rate_limit_state list" where
  "rl_states de ops = List.map_filter (operation_state de) ops"

definition rl_value :: "shard_de \<Rightarrow> operation list \<Rightarrow> string \<Rightarrow> rl_elem option" where
  "rl_value de history key = joins rl_join (map state_abs (rl_states de (ops_for key history)))"

definition rl_points :: "shard_de \<Rightarrow> operation set \<Rightarrow> string \<Rightarrow> live_point set" where
  "rl_points de H key =
     (\<Union>op \<in> {op \<in> H. op_key op = key}. case operation_state de op of None \<Rightarrow> {} | Some s \<Rightarrow> state_points s)"

text \<open>Every payload is a well-formed state and a version of a key carries one value.\<close>

definition rl_history_ok :: "shard_de \<Rightarrow> operation set \<Rightarrow> bool" where
  "rl_history_ok de H \<longleftrightarrow>
     (\<forall>op \<in> H. \<forall>s. operation_state de op = Some s \<longrightarrow> state_wf s) \<and>
     (\<forall>key. coherent (rl_points de H key))"

text \<open>
  What the code relies on in the serializer: a shard of at most \<open>cap\<close> points serializes
  within the decoder's limit and decodes to itself.
\<close>

definition shard_codec :: "shard_ser \<Rightarrow> shard_de \<Rightarrow> nat \<Rightarrow> bool" where
  "shard_codec ser de cap \<longleftrightarrow>
     (\<forall>shard. live_points shard \<noteq> [] \<and> length (live_points shard) \<le> cap \<longrightarrow>
        (\<exists>b. ser shard = Some b \<and> length b \<le> MAX_SHARD_BYTES \<and> de b = Some shard))"

lemma rl_states_simps [simp]:
  "rl_states de [] = []"
  "rl_states de (op # ops) =
     (case operation_state de op of None \<Rightarrow> rl_states de ops | Some s \<Rightarrow> s # rl_states de ops)"
  "rl_states de (xs @ ys) = rl_states de xs @ rl_states de ys"
  by (simp_all add: rl_states_def List.map_filter_def split: option.splits)

lemma set_rl_states: "set (rl_states de ops) = {s. \<exists>op \<in> set ops. operation_state de op = Some s}"
  by (induction ops) (auto split: option.splits)

lemma rl_points_states:
  "rl_points de (set ops) k = (\<Union>s \<in> set (rl_states de (ops_for k ops)). state_points s)"
  by (induction ops) (auto simp: rl_points_def split: option.splits if_splits)

lemma rl_points_mono: "G \<subseteq> H \<Longrightarrow> rl_points de G k \<subseteq> rl_points de H k"
  unfolding rl_points_def by blast

lemma rl_history_okI:
  assumes "\<And>op s. op \<in> H \<Longrightarrow> operation_state de op = Some s \<Longrightarrow> state_wf s"
    and "\<And>k. coherent (rl_points de H k)"
  shows "rl_history_ok de H"
  using assms by (simp add: rl_history_ok_def)

lemma rl_history_okD:
  assumes "rl_history_ok de H"
  shows "op \<in> H \<Longrightarrow> operation_state de op = Some s \<Longrightarrow> state_wf s"
    and "coherent (rl_points de H k)"
  using assms by (simp_all add: rl_history_ok_def)

lemma rl_history_ok_subset:
  assumes "rl_history_ok de H" "G \<subseteq> H"
  shows "rl_history_ok de G"
proof (rule rl_history_okI)
  show "state_wf s" if "op \<in> G" "operation_state de op = Some s" for op s
    using rl_history_okD(1) [OF assms(1) subsetD [OF assms(2) that(1)] that(2)] .
  show "coherent (rl_points de G k)" for k
    by (rule coherent_subset [OF rl_history_okD(2) [OF assms(1)] rl_points_mono [OF assms(2)]])
qed

lemma rl_states_elems:
  assumes "rl_history_ok de H" "set ops \<subseteq> H"
  shows "state_abs ` set (rl_states de ops) \<subseteq> rl_elems"
proof (intro image_subsetI)
  fix s assume "s \<in> set (rl_states de ops)"
  then obtain op where "op \<in> H" "operation_state de op = Some s"
    using assms(2) by (auto simp: set_rl_states)
  then show "state_abs s \<in> rl_elems"
    by (intro state_abs_elem rl_history_okD(1) [OF assms(1)])
qed

lemma rl_join_points: "snd (rl_join a b) \<subseteq> snd a \<union> snd b"
  by (auto simp: rl_join_def Let_def frontier_def newer_points_def)

lemma snd_state_abs [simp]: "snd (state_abs s) = state_points s"
  by (simp add: state_abs_def)

lemma compact_states_refines:
  assumes "state_wf st" "state_points st \<subseteq> P" "coherent P"
    and "\<And>s. s \<in> set (rl_states de ops) \<Longrightarrow> state_wf s \<and> state_points s \<subseteq> P"
  shows "\<exists>r. compact_states de (Some st) ops = Some (Some r) \<and> state_wf r \<and> state_points r \<subseteq> P \<and>
             state_abs r = foldl rl_join (state_abs st) (map state_abs (rl_states de ops))"
  using assms
proof (induction ops arbitrary: st)
  case Nil
  then show ?case by simp
next
  case (Cons op ops)
  show ?case
  proof (cases "operation_state de op")
    case None
    with Cons show ?thesis by simp
  next
    case (Some s)
    with Cons.prems(4) have s: "state_wf s" "state_points s \<subseteq> P" by auto
    have "coherent (state_points st \<union> state_points s)"
      using Cons.prems(2,3) s(2) by (auto intro: coherent_subset)
    then obtain m where m: "state_merge st s = Some m" "state_wf m"
      "state_abs m = rl_join (state_abs st) (state_abs s)"
      using state_merge_refines [OF Cons.prems(1) s(1)] by blast
    have "state_points m \<subseteq> P"
      using rl_join_points [of "state_abs st" "state_abs s"] m(3) Cons.prems(2) s(2)
      by (metis snd_state_abs Un_least order_trans)
    moreover have "\<And>s. s \<in> set (rl_states de ops) \<Longrightarrow> state_wf s \<and> state_points s \<subseteq> P"
      using Cons.prems(4) Some by simp
    ultimately show ?thesis
      using Cons.IH [OF m(2) _ Cons.prems(3)] Some m by simp
  qed
qed

text \<open>
  The fold of a key's operations: skipped when every payload is malformed, and otherwise one
  operation of the same key that stands for the join of all of them.
\<close>

lemma compact_states_None:
  assumes "coherent P" "\<And>s. s \<in> set (rl_states de ops) \<Longrightarrow> state_wf s \<and> state_points s \<subseteq> P"
  shows "case rl_states de ops of
           [] \<Rightarrow> compact_states de None ops = Some None
         | s # ss \<Rightarrow> \<exists>r. compact_states de None ops = Some (Some r) \<and> state_wf r \<and> state_points r \<subseteq> P \<and>
                         joins rl_join (map state_abs (s # ss)) = Some (state_abs r)"
  using assms
proof (induction ops)
  case (Cons op ops)
  show ?case
  proof (cases "operation_state de op")
    case None
    with Cons show ?thesis by (simp split: list.splits)
  next
    case (Some s)
    with Cons.prems have "\<exists>r. compact_states de (Some s) ops = Some (Some r) \<and> state_wf r \<and> state_points r \<subseteq> P \<and>
             state_abs r = foldl rl_join (state_abs s) (map state_abs (rl_states de ops))"
      by (intro compact_states_refines) auto
    with Some show ?thesis by (auto simp: joins_Cons)
  qed
qed simp

lemma length_front: "front L \<Longrightarrow> finite P \<Longrightarrow> set L \<subseteq> P \<Longrightarrow> length L \<le> card P"
proof -
  assume "front L" and P: "finite P" "set L \<subseteq> P"
  then have "distinct L"
    by (induction L) (auto simp: front_def)
  with card_mono [OF P] show "length L \<le> card P"
    by (simp add: distinct_card)
qed

lemma into_operation_state:
  assumes "state_wf r" "shard_codec ser de cap" "finite P" "state_points r \<subseteq> P" "card P \<le> cap"
  shows "\<exists>w. into_operation ser key r = Some w \<and> op_key w = key \<and> operation_state de w = Some r"
proof (cases r)
  case (Live sh)
  with assms have "length (live_points sh) \<le> cap" "live_points sh \<noteq> []"
    using length_front [of "live_points sh" P] by auto
  then obtain b where b: "ser sh = Some b" "de b = Some sh"
    using assms(2) unfolding shard_codec_def by blast
  obtain v where "newest_live_version sh = Some v"
    using \<open>live_points sh \<noteq> []\<close> by (cases "newest_live_version sh") (auto simp: newest_live_version_def)
  with b Live \<open>live_points sh \<noteq> []\<close> show ?thesis
    by (simp add: encode_shard_def state_from_insert_value_def decode_shard_def)
qed simp

lemma finite_state_points [simp]: "finite (state_points s)"
  by (cases s) auto

lemma finite_rl_points [simp]: "finite (rl_points de (set ops) k)"
  by (simp add: rl_points_states)

section \<open>Compaction\<close>

lemma compact_operations_keeps_key: "fold_keeps_key (compact_operations ser de)"
proof -
  have key: "op_key w = key" if "into_operation ser key st = Some w" for key st w
    using that by (cases st) (auto split: option.splits)
  show ?thesis
    unfolding fold_keeps_key_def
  proof (intro allI impI)
    fix ops w k
    assume "compact_operations ser de ops = Some w" "\<forall>op\<in>set ops. op_key op = k" "ops \<noteq> []"
    then show "op_key w = k"
      by (auto simp: compact_operations_def split: list.splits option.splits dest: key)
  qed
qed

lemma rl_fold_sound:
  assumes ok: "rl_history_ok de (set ops)" and codec: "shard_codec ser de cap"
    and cap: "card (rl_points de (set ops) k) \<le> cap"
    and key: "\<forall>op \<in> set ops. op_key op = k"
  shows "case rl_value de ops k of
           None \<Rightarrow> compact_operations ser de ops = None
         | Some x \<Rightarrow> \<exists>w s. compact_operations ser de ops = Some w \<and> op_key w = k \<and>
             operation_state de w = Some s \<and> state_wf s \<and> state_abs s = x \<and>
             state_points s \<subseteq> rl_points de (set ops) k"
proof -
  have same: "ops_for k ops = ops" using key by (simp add: ops_for_def)
  have sts: "state_wf s \<and> state_points s \<subseteq> rl_points de (set ops) k"
    if "s \<in> set (rl_states de ops)" for s
    using that rl_history_okD(1) [OF ok] unfolding rl_points_states same by (auto simp: set_rl_states)
  have fold: "case rl_states de ops of
           [] \<Rightarrow> compact_states de None ops = Some None
         | s # ss \<Rightarrow> \<exists>r. compact_states de None ops = Some (Some r) \<and> state_wf r \<and>
             state_points r \<subseteq> rl_points de (set ops) k \<and>
             joins rl_join (map state_abs (s # ss)) = Some (state_abs r)"
    by (rule compact_states_None [OF rl_history_okD(2) [OF ok, of k]]) (rule sts)
  show ?thesis
  proof (cases "rl_states de ops")
    case Nil
    with fold same show ?thesis
      by (auto simp: rl_value_def compact_operations_def split: list.splits)
  next
    case (Cons s ss)
    with fold obtain r where r: "compact_states de None ops = Some (Some r)" "state_wf r"
      "state_points r \<subseteq> rl_points de (set ops) k" "rl_value de ops k = Some (state_abs r)"
      by (auto simp: rl_value_def same)
    from Cons obtain first rest where ops: "ops = first # rest" by (cases ops) auto
    obtain w where "into_operation ser k r = Some w" "op_key w = k" "operation_state de w = Some r"
      using into_operation_state [OF r(2) codec finite_rl_points r(3) cap] by blast
    with r key ops show ?thesis
      by (auto simp: compact_operations_def)
  qed
qed

definition rl_caps :: "shard_de \<Rightarrow> operation list \<Rightarrow> nat \<Rightarrow> bool" where
  "rl_caps de H cap \<longleftrightarrow> (\<forall>k. card (rl_points de (set H) k) \<le> cap)"

lemma rl_points_ops_for: "rl_points de (set (ops_for k ops)) k = rl_points de (set ops) k"
  by (simp add: rl_points_def)

text \<open>Compaction keeps the value of every key and stays within the history's points.\<close>

lemma rl_compact_key:
  assumes ok: "rl_history_ok de (set ops)" and codec: "shard_codec ser de cap"
    and cap: "rl_caps de ops cap"
  shows "rl_value de (compact_by_key (compact_operations ser de) ops) k = rl_value de ops k"
    and "op \<in> set (compact_by_key (compact_operations ser de) ops) \<Longrightarrow> op_key op = k \<Longrightarrow>
         \<exists>s. operation_state de op = Some s \<and> state_wf s \<and>
             state_points s \<subseteq> rl_points de (set ops) k"
proof -
  let ?F = "compact_operations ser de"
  have ok': "rl_history_ok de (set (ops_for k ops))"
    using ok by (rule rl_history_ok_subset) auto
  have cap': "card (rl_points de (set (ops_for k ops)) k) \<le> cap"
    using cap unfolding rl_points_ops_for by (simp add: rl_caps_def)
  note fold = rl_fold_sound [OF ok' codec cap', unfolded rl_points_ops_for]
  have self: "ops_for k (ops_for k ops) = ops_for k ops" by (simp add: ops_for_def)
  have val: "rl_value de (ops_for k ops) k = rl_value de ops k" by (simp add: rl_value_def self)
  have key: "\<forall>op \<in> set (ops_for k ops). op_key op = k" by simp
  note comp = compact_by_key_ops_for [OF compact_operations_keeps_key, of k ser de ops]
  show "rl_value de (compact_by_key ?F ops) k = rl_value de ops k"
  proof (cases "rl_value de ops k")
    case None
    with fold [OF key] have "?F (ops_for k ops) = None" by (simp add: val)
    with comp None show ?thesis by (simp add: rl_value_def)
  next
    case (Some x)
    then have "ops_for k ops \<noteq> []" by (auto simp: rl_value_def)
    moreover obtain w s where "?F (ops_for k ops) = Some w" "operation_state de w = Some s" "state_abs s = x"
      using fold [OF key] Some by (auto simp: val)
    ultimately have "rl_value de (compact_by_key ?F ops) k = Some x"
      using comp by (simp add: rl_value_def joins_Cons)
    with Some show ?thesis by simp
  qed
  assume op: "op \<in> set (compact_by_key ?F ops)" "op_key op = k"
  then have "?F (ops_for k ops) = Some op"
    using set_compact_by_key [OF compact_operations_keeps_key, of op ser de ops] by simp
  with fold [OF key] show "\<exists>s. operation_state de op = Some s \<and> state_wf s \<and>
             state_points s \<subseteq> rl_points de (set ops) k"
    by (cases "rl_value de ops k") (auto simp: val)
qed

lemma rl_compact_ok:
  assumes "rl_history_ok de (set ops)" "shard_codec ser de cap" "rl_caps de ops cap"
  shows "rl_points de (set (compact_by_key (compact_operations ser de) ops)) k \<subseteq> rl_points de (set ops) k"
    and "rl_history_ok de (set (compact_by_key (compact_operations ser de) ops))"
proof -
  note comp = rl_compact_key(2) [OF assms]
  show sub: "rl_points de (set (compact_by_key (compact_operations ser de) ops)) k \<subseteq> rl_points de (set ops) k"
    for k
  proof
    fix p assume "p \<in> rl_points de (set (compact_by_key (compact_operations ser de) ops)) k"
    then obtain op s where "op \<in> set (compact_by_key (compact_operations ser de) ops)" "op_key op = k"
      "operation_state de op = Some s" "p \<in> state_points s"
      by (auto simp: rl_points_def split: option.splits)
    with comp [of op k] show "p \<in> rl_points de (set ops) k" by auto
  qed
  show "rl_history_ok de (set (compact_by_key (compact_operations ser de) ops))"
  proof (rule rl_history_okI)
    show "state_wf s" if "op \<in> set (compact_by_key (compact_operations ser de) ops)"
      "operation_state de op = Some s" for op s
      using comp [OF that(1) refl] that(2) by auto
    show "coherent (rl_points de (set (compact_by_key (compact_operations ser de) ops)) k)" for k
      by (rule coherent_subset [OF rl_history_okD(2) [OF assms(1)] sub])
  qed
qed

section \<open>The value of a history in closed form\<close>

lemma rl_joins_char:
  assumes "set xs \<subseteq> rl_elems" "xs \<noteq> []"
  shows "joins rl_join xs =
         (let T = Max (fst ` set xs) in Some (T, frontier (newer_points T (\<Union>x \<in> set xs. snd x))))"
  using assms
proof (induction xs rule: rev_induct)
  case (snoc x xs)
  have x: "finite (snd x)" "snd x = frontier (newer_points (fst x) (snd x))"
    using snoc.prems by (auto simp: rl_elems_def)
  show ?case
  proof (cases "xs = []")
    case True
    with x show ?thesis by (cases x) (simp add: joins_Cons Let_def)
  next
    case False
    let ?T = "Max (fst ` set xs)" and ?U = "\<Union>x \<in> set xs. snd x"
    have fin: "finite ?U" using snoc.prems by (auto simp: rl_elems_def)
    have "joins rl_join xs = Some (?T, frontier (newer_points ?T ?U))"
      using snoc.IH snoc.prems False by (simp add: Let_def)
    then have "joins rl_join (xs @ [x]) = Some (rl_join (?T, frontier (newer_points ?T ?U)) x)"
      by (simp add: joins_snoc)
    moreover have "Max (fst ` set (xs @ [x])) = max ?T (fst x)"
      using False by (simp add: max.commute)
    moreover have "rl_join (?T, frontier (newer_points ?T ?U)) x =
        (max ?T (fst x), frontier (newer_points (max ?T (fst x)) (?U \<union> snd x)))"
      using frontier_absorb [OF fin x(1), of ?T "max ?T (fst x)"] by (simp add: rl_join_def Let_def)
    ultimately show ?thesis by (simp add: Let_def Un_commute)
  qed
qed simp

text \<open>Every tombstone boundary an operation of the key carries.\<close>

definition rl_tombstones :: "shard_de \<Rightarrow> operation list \<Rightarrow> string \<Rightarrow> version option set" where
  "rl_tombstones de ops k = state_tombstone_version ` set (rl_states de (ops_for k ops))"

lemma rl_value_char:
  assumes "rl_history_ok de (set H)" "rl_states de (ops_for k H) \<noteq> []"
  shows "rl_value de H k =
         (let T = Max (rl_tombstones de H k)
          in Some (T, frontier (newer_points T (rl_points de (set H) k))))"
proof -
  have "set (map state_abs (rl_states de (ops_for k H))) \<subseteq> rl_elems"
    using rl_states_elems [OF assms(1), of "ops_for k H"] by auto
  from rl_joins_char [OF this] assms(2) show ?thesis
    by (simp add: rl_value_def rl_tombstones_def rl_points_states image_image state_abs_def)
qed

lemma rl_value_None: "rl_value de H k = None \<longleftrightarrow> rl_states de (ops_for k H) = []"
  by (simp add: rl_value_def)

lemma keep_greater_max: "keep_greater = max"
proof (intro ext)
  fix a b
  show "keep_greater a b = max a b"
    using compare_epoch_count_order [of a b]
    by (cases "compare_epoch_count a b") (auto simp: keep_greater_def max_def)
qed

lemma foldl_keep_greater: "foldl keep_greater v vs = Max (set (v # vs))"
  unfolding keep_greater_max
proof (induction vs arbitrary: v)
  case (Cons w vs)
  then show ?case by (cases "vs = []") (simp_all add: max.assoc)
qed simp

lemma current_value_Max:
  "live_points sh \<noteq> [] \<Longrightarrow> current_value sh = Some (Max (lp_value ` set (live_points sh)))"
  by (cases "live_points sh") (simp_all add: current_value_def foldl_keep_greater)

lemma Max_frontier:
  assumes "finite S" "S \<noteq> {}"
  shows "Max (lp_value ` frontier S) = Max (lp_value ` S)"
proof (rule Max_eqI [symmetric])
  have fin: "finite (frontier S)" using assms(1) frontier_subset by (rule rev_finite_subset)
  show "finite (lp_value ` S)" using assms(1) by simp
  show "y \<le> Max (lp_value ` frontier S)" if "y \<in> lp_value ` S" for y
  proof -
    from that obtain p where p: "p \<in> S" "y = lp_value p" by blast
    from finite_maximal_above [OF assms(1) p(1)] obtain m where "m \<in> frontier S" "dominated p m" .
    with p fin show ?thesis by (auto simp: dominated_def intro: order_trans Max_ge)
  qed
  have "frontier S \<noteq> {}"
    using assms finite_maximal_above by (metis ex_in_conv)
  with fin have "Max (lp_value ` frontier S) \<in> lp_value ` frontier S" by (intro Max_in) auto
  with frontier_subset show "Max (lp_value ` frontier S) \<in> lp_value ` S" by blast
qed
end
