(* ===== verification/Rate_Limit_Engine.thy ===== *)
theory Rate_Limit_Engine
  imports Epoch_Max_Wins
begin

text \<open>
  The rate-limit engine (\<open>crdt_kv/engine/rate_limit.rs\<close>): typed shard entries, the merge of
  inserts and removes under the entry lock, and every method of the engine trait.  A merge
  of one key runs under the map's entry guard, so it is one atomic step.

  The lemmas show that an entry is the join of all operations of its key, in any order and
  grouping and after any compaction of the log, and that the value read from it is the
  greatest (epoch, count) among the points newer than the newest delete.
\<close>

section \<open>Definitions\<close>

record shard_entry =
  se_state :: rate_limit_state
  se_tombstoned_at :: "instant option"

record rl_engine =
  rl_entries :: "(string \<times> shard_entry) list"
  rl_log :: op_log_keeper
  rl_replica_id :: replica_id
  rl_counter :: u64

record merge_outcome =
  mo_changed :: bool
  mo_prior_live :: "bytes option"
  mo_new_is_live :: bool

definition rl_new :: "replica_id \<Rightarrow> rl_engine" where
  "rl_new replica_id =
     \<lparr>rl_entries = [], rl_log = keeper_new, rl_replica_id = replica_id, rl_counter = 0\<rparr>"

fun is_live :: "rate_limit_state \<Rightarrow> bool" where
  "is_live (Live _) = True"
| "is_live (Tombstone _) = False"

fun tombstone_version_of :: "rate_limit_state \<Rightarrow> version option" where
  "tombstone_version_of (Tombstone version) = Some version"
| "tombstone_version_of (Live _) = None"

definition update_entry :: "instant \<Rightarrow> shard_entry \<Rightarrow> rate_limit_state \<Rightarrow> shard_entry" where
  "update_entry now entry merged =
     \<lparr>se_state = merged,
      se_tombstoned_at =
        (case (tombstone_version_of (se_state entry), tombstone_version_of merged) of
           (None, Some _) \<Rightarrow> Some now
         | (Some _, None) \<Rightarrow> None
         | (Some was, Some new) \<Rightarrow> if was \<noteq> new then Some now else se_tombstoned_at entry
         | (None, None) \<Rightarrow> se_tombstoned_at entry)\<rparr>"

definition epoch_max_wins_fold ::
    "shard_ser \<Rightarrow> shard_de \<Rightarrow> operation list \<Rightarrow> operation option" where
  "epoch_max_wins_fold ser de ops = compact_operations ser de ops"

definition rl_append_op :: "shard_ser \<Rightarrow> shard_de \<Rightarrow> operation \<Rightarrow> rl_engine \<Rightarrow> rl_engine" where
  "rl_append_op ser de op e =
     e\<lparr>rl_log := keeper_append op (length (rl_entries e)) (epoch_max_wins_fold ser de) (rl_log e)\<rparr>"

definition current_encoded :: "shard_ser \<Rightarrow> rl_engine \<Rightarrow> string \<Rightarrow> bytes option" where
  "current_encoded ser e key =
     Option.bind (map_of (rl_entries e) key) (\<lambda>entry. encode_live ser (se_state entry))"

definition merge_insert ::
    "shard_ser \<Rightarrow> shard_de \<Rightarrow> instant \<Rightarrow> string \<Rightarrow> bytes \<Rightarrow> version \<Rightarrow> rl_engine
       \<Rightarrow> rl_engine \<times> merge_outcome" where
  "merge_insert ser de now key value version e =
     (case map_of (rl_entries e) key of
        Some entry \<Rightarrow>
          let prior_live = encode_live ser (se_state entry);
              now_live = is_live (se_state entry)
          in (case state_from_insert_value de value version of
                None \<Rightarrow> (e, \<lparr>mo_changed = False, mo_prior_live = prior_live, mo_new_is_live = now_live\<rparr>)
              | Some incoming \<Rightarrow>
                  (case state_merge (se_state entry) incoming of
                     None \<Rightarrow> (e, \<lparr>mo_changed = False, mo_prior_live = prior_live, mo_new_is_live = now_live\<rparr>)
                   | Some merged \<Rightarrow>
                       let changed = (merged \<noteq> se_state entry)
                       in (if changed
                           then e\<lparr>rl_entries := AList.update key (update_entry now entry merged) (rl_entries e)\<rparr>
                           else e,
                           \<lparr>mo_changed = changed, mo_prior_live = prior_live,
                            mo_new_is_live = is_live merged\<rparr>)))
      | None \<Rightarrow>
          (case state_from_insert_value de value version of
             None \<Rightarrow> (e, \<lparr>mo_changed = False, mo_prior_live = None, mo_new_is_live = False\<rparr>)
           | Some incoming \<Rightarrow>
               let new_is_live = is_live incoming
               in (e\<lparr>rl_entries := AList.update key
                       \<lparr>se_state = incoming,
                        se_tombstoned_at = (if \<not> new_is_live then Some now else None)\<rparr>
                       (rl_entries e)\<rparr>,
                   \<lparr>mo_changed = True, mo_prior_live = None, mo_new_is_live = new_is_live\<rparr>)))"

definition merge_remove ::
    "shard_ser \<Rightarrow> instant \<Rightarrow> string \<Rightarrow> version \<Rightarrow> rl_engine \<Rightarrow> rl_engine \<times> merge_outcome" where
  "merge_remove ser now key version e =
     (let incoming = Tombstone version in
      case map_of (rl_entries e) key of
        Some entry \<Rightarrow>
          let prior_live = encode_live ser (se_state entry)
          in (case state_merge (se_state entry) incoming of
                None \<Rightarrow> (e, \<lparr>mo_changed = False, mo_prior_live = prior_live,
                            mo_new_is_live = is_live (se_state entry)\<rparr>)
              | Some merged \<Rightarrow>
                  let changed = (merged \<noteq> se_state entry)
                  in (if changed
                      then e\<lparr>rl_entries := AList.update key (update_entry now entry merged) (rl_entries e)\<rparr>
                      else e,
                      \<lparr>mo_changed = changed, mo_prior_live = prior_live,
                       mo_new_is_live = is_live merged\<rparr>))
      | None \<Rightarrow>
          (e\<lparr>rl_entries := AList.update key
               \<lparr>se_state = incoming, se_tombstoned_at = Some now\<rparr> (rl_entries e)\<rparr>,
           \<lparr>mo_changed = True, mo_prior_live = None, mo_new_is_live = False\<rparr>))"

definition rl_put_local ::
    "shard_ser \<Rightarrow> shard_de \<Rightarrow> instant \<Rightarrow> string \<Rightarrow> bytes \<Rightarrow> u64 \<times> rl_engine
       \<Rightarrow> (u64 \<times> rl_engine) \<times> bytes option" where
  "rl_put_local ser de now key value = (\<lambda>(clock, e).
     let timestamp = lamport_tick clock;
         (e1, outcome) = merge_insert ser de now key value (timestamp, rl_replica_id e) e;
         e2 = (if mo_changed outcome
               then (let e' = rl_append_op ser de (Insert key value timestamp (rl_replica_id e)) e1
                     in e'\<lparr>rl_counter := rl_counter e' + 1\<rparr>)
               else e1)
     in ((timestamp, e2),
         case (mo_changed outcome, mo_new_is_live outcome) of
           (False, _) \<Rightarrow> mo_prior_live outcome
         | (True, False) \<Rightarrow> mo_prior_live outcome
         | (True, True) \<Rightarrow> None))"

definition rl_delete_local ::
    "shard_ser \<Rightarrow> shard_de \<Rightarrow> instant \<Rightarrow> string \<Rightarrow> u64 \<times> rl_engine
       \<Rightarrow> (u64 \<times> rl_engine) \<times> bytes option" where
  "rl_delete_local ser de now key = (\<lambda>(clock, e).
     let timestamp = lamport_tick clock;
         (e1, outcome) = merge_remove ser now key (timestamp, rl_replica_id e) e;
         e2 = (if mo_changed outcome
               then (let e' = rl_append_op ser de (Remove key timestamp (rl_replica_id e)) e1
                     in e'\<lparr>rl_counter := rl_counter e' + 1\<rparr>)
               else e1)
     in ((timestamp, e2),
         if mo_changed outcome \<and> \<not> mo_new_is_live outcome then mo_prior_live outcome else None))"

definition rl_get :: "shard_ser \<Rightarrow> rl_engine \<Rightarrow> string \<Rightarrow> bytes option" where
  "rl_get ser e key = current_encoded ser e key"

definition rl_contains_key :: "rl_engine \<Rightarrow> string \<Rightarrow> bool" where
  "rl_contains_key e key =
     (case map_of (rl_entries e) key of None \<Rightarrow> False | Some entry \<Rightarrow> is_live (se_state entry))"

definition rl_keys :: "rl_engine \<Rightarrow> string list" where
  "rl_keys e = map fst (filter (\<lambda>(_, entry). is_live (se_state entry)) (rl_entries e))"

definition rl_len :: "rl_engine \<Rightarrow> nat" where
  "rl_len e = length (filter (\<lambda>(_, entry). is_live (se_state entry)) (rl_entries e))"

definition rl_generation :: "rl_engine \<Rightarrow> u64" where
  "rl_generation e = rl_counter e"

definition rl_op_generation :: "rl_engine \<Rightarrow> u64" where
  "rl_op_generation e = keeper_generation (rl_log e)"

definition rl_export_ops :: "rl_engine \<Rightarrow> operation list" where
  "rl_export_ops e = keeper_export (rl_log e)"

fun rl_merge_op ::
    "shard_ser \<Rightarrow> shard_de \<Rightarrow> instant \<Rightarrow> operation \<Rightarrow> rl_engine \<Rightarrow> rl_engine \<times> merge_outcome" where
  "rl_merge_op ser de now (Insert key value timestamp replica_id) e =
     merge_insert ser de now key value (timestamp, replica_id) e"
| "rl_merge_op ser de now (Remove key timestamp replica_id) e =
     merge_remove ser now key (timestamp, replica_id) e"

definition rl_apply_op ::
    "shard_ser \<Rightarrow> shard_de \<Rightarrow> instant \<Rightarrow> u64 \<times> rl_engine \<Rightarrow> operation \<Rightarrow> u64 \<times> rl_engine" where
  "rl_apply_op ser de now = (\<lambda>(clock, e) op.
     let (e1, outcome) = rl_merge_op ser de now op e
     in (lamport_update clock (op_timestamp op),
         if mo_changed outcome then e1\<lparr>rl_counter := rl_counter e1 + 1\<rparr> else e1))"

definition rl_apply_remote_ops ::
    "shard_ser \<Rightarrow> shard_de \<Rightarrow> instant \<Rightarrow> operation list \<Rightarrow> u64 \<times> rl_engine
       \<Rightarrow> (u64 \<times> rl_engine) \<times> crdt_change list" where
  "rl_apply_remote_ops ser de now ops = (\<lambda>(clock, e).
     if ops = [] then ((clock, e), [])
     else
       let sorted_ops = sort_key op_version ops;
           e1 = e\<lparr>rl_log := keeper_merge_batch sorted_ops (epoch_max_wins_fold ser de) (rl_log e)\<rparr>;
           before = values_before sorted_ops (current_encoded ser e1);
           (clock', e2) = foldl (rl_apply_op ser de now) (clock, e1) sorted_ops
       in ((clock', e2), changes before (current_encoded ser e2)))"

definition rl_gc_due :: "instant \<Rightarrow> nat \<Rightarrow> shard_entry \<Rightarrow> bool" where
  "rl_gc_due now grace entry \<longleftrightarrow>
     \<not> is_live (se_state entry) \<and>
     (case se_tombstoned_at entry of None \<Rightarrow> False | Some at \<Rightarrow> grace \<le> now - at)"

definition rl_gc_key ::
    "instant \<Rightarrow> nat \<Rightarrow> rl_engine \<times> nat \<times> (string \<times> version) list \<Rightarrow> string
       \<Rightarrow> rl_engine \<times> nat \<times> (string \<times> version) list" where
  "rl_gc_key now grace = (\<lambda>(e, removed, purged) key.
     case map_of (rl_entries e) key of
       None \<Rightarrow> (e, removed, purged)
     | Some entry \<Rightarrow>
         if rl_gc_due now grace entry
         then (e\<lparr>rl_entries := AList.delete key (rl_entries e)\<rparr>, removed + 1,
               case se_state entry of
                 Tombstone version \<Rightarrow> AList.update key version purged
               | Live _ \<Rightarrow> purged)
         else (e, removed, purged))"

definition rl_gc_tombstones :: "instant \<Rightarrow> nat \<Rightarrow> rl_engine \<Rightarrow> rl_engine \<times> nat" where
  "rl_gc_tombstones now grace e =
     (let candidates = map fst (filter (\<lambda>(_, entry). rl_gc_due now grace entry) (rl_entries e));
          (e1, removed, purged) = foldl (rl_gc_key now grace) (e, 0, []) candidates
      in (if purged \<noteq> []
          then e1\<lparr>rl_log := keeper_retain (\<lambda>op. case map_of purged (op_key op) of
                                None \<Rightarrow> True
                              | Some tombstone \<Rightarrow> tombstone < op_version op) (rl_log e1)\<rparr>
          else e1, removed))"

section \<open>The invariant\<close>

text \<open>Keys are distinct and the garbage-collection clock runs exactly for tombstones.\<close>

definition clock_ok :: "shard_entry \<Rightarrow> bool" where
  "clock_ok entry \<longleftrightarrow> (se_tombstoned_at entry \<noteq> None \<longleftrightarrow> \<not> is_live (se_state entry))"

definition rl_inv :: "rl_engine \<Rightarrow> bool" where
  "rl_inv e \<longleftrightarrow>
     distinct (map fst (rl_entries e)) \<and>
     (\<forall>k entry. map_of (rl_entries e) k = Some entry \<longrightarrow> clock_ok entry)"

section \<open>One merge on the abstract state\<close>

definition rl_state_of :: "rl_engine \<Rightarrow> string \<Rightarrow> rate_limit_state option" where
  "rl_state_of e k = map_option se_state (map_of (rl_entries e) k)"

lemma tombstone_version_of_live: "tombstone_version_of s = None \<longleftrightarrow> is_live s"
  by (cases s) auto

lemma clock_ok_update: "clock_ok entry \<Longrightarrow> clock_ok (update_entry now entry merged)"
  by (cases "se_state entry"; cases merged) (auto simp: clock_ok_def update_entry_def)

lemma clock_ok_new:
  "clock_ok \<lparr>se_state = s, se_tombstoned_at = (if is_live s then None else Some now)\<rparr>"
  "is_live s \<Longrightarrow> clock_ok \<lparr>se_state = s, se_tombstoned_at = None\<rparr>"
  "\<not> is_live s \<Longrightarrow> clock_ok \<lparr>se_state = s, se_tombstoned_at = Some now\<rparr>"
  by (simp_all add: clock_ok_def)

lemma rl_inv_update:
  assumes "rl_inv e" "clock_ok entry"
  shows "rl_inv (e\<lparr>rl_entries := AList.update k entry (rl_entries e)\<rparr>)"
  using assms by (auto simp: rl_inv_def distinct_update split: if_splits)

text \<open>What merging a state into the entry of a key does.\<close>

definition rl_absorb :: "rate_limit_state option \<Rightarrow> rate_limit_state option \<Rightarrow> rate_limit_state option" where
  "rl_absorb current incoming =
     (case incoming of
        None \<Rightarrow> current
      | Some s \<Rightarrow>
          (case current of
             None \<Rightarrow> Some s
           | Some c \<Rightarrow> (case state_merge c s of None \<Rightarrow> Some c | Some m \<Rightarrow> Some m)))"

lemma se_state_update_entry [simp]: "se_state (update_entry now entry merged) = merged"
  by (simp add: update_entry_def)

lemma rl_merge_op_effect:
  assumes "rl_inv e" and "rl_merge_op ser de now op e = (e', outcome)"
  shows "rl_inv e'"
    and "rl_state_of e' = (rl_state_of e)(op_key op := rl_absorb (rl_state_of e (op_key op)) (operation_state de op))"
    and "mo_changed outcome \<longleftrightarrow>
         rl_absorb (rl_state_of e (op_key op)) (operation_state de op) \<noteq> rl_state_of e (op_key op)"
    and "mo_prior_live outcome = Option.bind (rl_state_of e (op_key op)) (encode_live ser)"
    and "mo_new_is_live outcome \<longleftrightarrow>
         (case rl_state_of e' (op_key op) of None \<Rightarrow> False | Some s \<Rightarrow> is_live s)"
    and "rl_log e' = rl_log e \<and> rl_replica_id e' = rl_replica_id e \<and> rl_counter e' = rl_counter e"
proof -
  have ok: "map_of (rl_entries e) k = Some entry \<Longrightarrow> clock_ok entry" for k entry
    using assms(1) by (simp add: rl_inv_def)
  show "rl_inv e'"
    using assms
    by (cases op) (auto simp: merge_insert_def merge_remove_def Let_def
        intro!: rl_inv_update clock_ok_update clock_ok_new dest: ok split: option.splits if_splits)
  show "rl_state_of e' = (rl_state_of e)(op_key op := rl_absorb (rl_state_of e (op_key op)) (operation_state de op))"
    "mo_changed outcome \<longleftrightarrow>
         rl_absorb (rl_state_of e (op_key op)) (operation_state de op) \<noteq> rl_state_of e (op_key op)"
    "mo_prior_live outcome = Option.bind (rl_state_of e (op_key op)) (encode_live ser)"
    "mo_new_is_live outcome \<longleftrightarrow>
         (case rl_state_of e' (op_key op) of None \<Rightarrow> False | Some s \<Rightarrow> is_live s)"
    "rl_log e' = rl_log e \<and> rl_replica_id e' = rl_replica_id e \<and> rl_counter e' = rl_counter e"
    using assms(2)
    by (cases op; auto simp: merge_insert_def merge_remove_def Let_def rl_state_of_def rl_absorb_def fun_eq_iff
        split: option.splits if_splits)+
qed

lemma rl_get_state: "rl_get ser e k = Option.bind (rl_state_of e k) (encode_live ser)"
  by (cases "map_of (rl_entries e) k") (simp_all add: rl_get_def current_encoded_def rl_state_of_def)

lemma current_encoded_get: "current_encoded ser e = rl_get ser e"
  by (simp add: rl_get_def fun_eq_iff)

lemma rl_contains_state:
  "rl_contains_key e k \<longleftrightarrow> (case rl_state_of e k of None \<Rightarrow> False | Some s \<Rightarrow> is_live s)"
  by (cases "map_of (rl_entries e) k") (simp_all add: rl_contains_key_def rl_state_of_def)

lemma rl_state_cong: "rl_entries e' = rl_entries e \<Longrightarrow> rl_state_of e' = rl_state_of e"
  by (simp add: rl_state_of_def fun_eq_iff)

lemma rl_inv_cong: "rl_entries e' = rl_entries e \<Longrightarrow> rl_inv e' = rl_inv e"
  by (simp add: rl_inv_def)

lemma rl_apply_op_effect:
  assumes "rl_inv e" and "rl_apply_op ser de now (c, e) op = (c', e')"
  shows "rl_inv e'" "c' = lamport_update c (op_timestamp op)"
    and "rl_state_of e' = (rl_state_of e)(op_key op := rl_absorb (rl_state_of e (op_key op)) (operation_state de op))"
    and "rl_log e' = rl_log e \<and> rl_replica_id e' = rl_replica_id e"
proof -
  obtain e1 out where m: "rl_merge_op ser de now op e = (e1, out)" by fastforce
  note eff = rl_merge_op_effect [OF assms(1) m]
  have e': "e' = (if mo_changed out then e1\<lparr>rl_counter := rl_counter e1 + 1\<rparr> else e1)"
    and "c' = lamport_update c (op_timestamp op)"
    using assms(2) by (auto simp: rl_apply_op_def m)
  then show "c' = lamport_update c (op_timestamp op)" by simp
  have ent: "rl_entries e' = rl_entries e1" by (simp add: e')
  show "rl_inv e'" using eff(1) rl_inv_cong [OF ent] by simp
  show "rl_state_of e' = (rl_state_of e)(op_key op := rl_absorb (rl_state_of e (op_key op)) (operation_state de op))"
    using eff(2) rl_state_cong [OF ent] by simp
  show "rl_log e' = rl_log e \<and> rl_replica_id e' = rl_replica_id e"
    using eff(6) by (simp add: e')
qed

lemma rl_apply_ops_effect:
  assumes "rl_inv e" and "foldl (rl_apply_op ser de now) (c, e) ops = (c', e')"
  shows "rl_inv e' \<and> rl_log e' = rl_log e \<and> rl_replica_id e' = rl_replica_id e \<and> c \<le> c' \<and>
         (\<forall>op \<in> set ops. op_timestamp op \<le> c') \<and>
         (\<forall>k. rl_state_of e' k =
              foldl rl_absorb (rl_state_of e k) (map (operation_state de) (ops_for k ops)))"
  using assms
proof (induction ops arbitrary: c e)
  case (Cons op ops)
  obtain c1 e1 where step: "rl_apply_op ser de now (c, e) op = (c1, e1)" by fastforce
  note one = rl_apply_op_effect [OF Cons.prems(1) step]
  have rest: "foldl (rl_apply_op ser de now) (c1, e1) ops = (c', e')"
    using Cons.prems(2) by (simp add: step)
  have "c \<le> c1" "op_timestamp op \<le> c1"
    using lamport_update_ge(1) [of c "op_timestamp op"] lamport_update_ge(2) [of "op_timestamp op" c]
    by (simp_all add: one(2))
  with Cons.IH [OF one(1) rest] one(3,4) show ?case
    by (auto intro: order_trans)
qed simp

section \<open>Garbage collection\<close>

definition rl_expired :: "instant \<Rightarrow> nat \<Rightarrow> rl_engine \<Rightarrow> string \<Rightarrow> bool" where
  "rl_expired now grace e k \<longleftrightarrow>
     (case map_of (rl_entries e) k of None \<Rightarrow> False | Some entry \<Rightarrow> rl_gc_due now grace entry)"

lemma rl_inv_delete: "rl_inv e \<Longrightarrow> rl_inv (e\<lparr>rl_entries := AList.delete k (rl_entries e)\<rparr>)"
  by (auto simp: rl_inv_def distinct_delete split: if_splits)

lemma rl_gc_key_effect:
  assumes inv: "rl_inv e" and exp: "rl_expired now grace e k"
  obtains v where "rl_state_of e k = Some (Tombstone v)"
    "rl_gc_key now grace (e, n, p) k =
       (e\<lparr>rl_entries := AList.delete k (rl_entries e)\<rparr>, n + 1, AList.update k v p)"
proof -
  from exp obtain entry where entry: "map_of (rl_entries e) k = Some entry" "rl_gc_due now grace entry"
    by (auto simp: rl_expired_def split: option.splits)
  then obtain v where v: "se_state entry = Tombstone v"
    by (cases "se_state entry") (auto simp: rl_gc_due_def)
  show thesis
    by (rule that [of v]) (simp_all add: rl_state_of_def rl_gc_key_def entry v)
qed

lemma rl_gc_fold_effect:
  assumes "rl_inv e" "distinct ks" "\<And>k. k \<in> set ks \<Longrightarrow> rl_expired now grace e k"
    and "foldl (rl_gc_key now grace) (e, n, p) ks = (e', n', p')"
  shows "rl_inv e' \<and> rl_log e' = rl_log e \<and> rl_replica_id e' = rl_replica_id e \<and>
         n' = n + length ks \<and>
         map_of (rl_entries e') = (\<lambda>k. if k \<in> set ks then None else map_of (rl_entries e) k) \<and>
         map_of p' = (\<lambda>k. if k \<in> set ks then Option.bind (rl_state_of e k) tombstone_version_of
                           else map_of p k)"
  using assms
proof (induction ks arbitrary: e n p)
  case (Cons k ks)
  let ?e1 = "e\<lparr>rl_entries := AList.delete k (rl_entries e)\<rparr>"
  obtain v where v: "rl_state_of e k = Some (Tombstone v)"
    "rl_gc_key now grace (e, n, p) k = (?e1, n + 1, AList.update k v p)"
    using rl_gc_key_effect [OF Cons.prems(1) Cons.prems(3)] by (metis list.set_intros(1))
  have same: "map_of (rl_entries ?e1) k' = map_of (rl_entries e) k'" if "k' \<in> set ks" for k'
    using that Cons.prems(2) by auto
  then have exp: "rl_expired now grace ?e1 k'" if "k' \<in> set ks" for k'
    using that Cons.prems(3) [of k'] by (simp add: rl_expired_def)
  have st: "rl_state_of ?e1 k' = rl_state_of e k'" if "k' \<in> set ks" for k'
    using same [OF that] by (simp add: rl_state_of_def)
  have "foldl (rl_gc_key now grace) (?e1, n + 1, AList.update k v p) ks = (e', n', p')"
    using Cons.prems(4) v(2) by simp
  from Cons.IH [OF rl_inv_delete [OF Cons.prems(1)] _ exp this] Cons.prems(2) v(1) st
  show ?case by (auto simp: fun_eq_iff)
qed simp

lemma rl_gc_effect:
  assumes inv: "rl_inv e" and gc: "rl_gc_tombstones now grace e = (e', n)"
  shows "rl_inv e'" and "rl_replica_id e' = rl_replica_id e"
    and "n = card {k. rl_expired now grace e k}"
    and "rl_state_of e' = (\<lambda>k. if rl_expired now grace e k then None else rl_state_of e k)"
    and "rl_log e' = rl_log e \<or> keeper_generation (rl_log e') = keeper_generation (rl_log e) + 1"
    and "keeper_ops (rl_log e') = filter (\<lambda>op. \<not> (rl_expired now grace e (op_key op) \<and>
           (\<exists>v. rl_state_of e (op_key op) = Some (Tombstone v) \<and> op_version op \<le> v)))
           (keeper_ops (rl_log e))"
proof -
  define ks where "ks = map fst (filter (\<lambda>(_, entry). rl_gc_due now grace entry) (rl_entries e))"
  obtain e1 n1 p1 where fold: "foldl (rl_gc_key now grace) (e, 0, []) ks = (e1, n1, p1)"
    by (metis prod_cases3)
  have dist: "distinct (map fst (rl_entries e))" using inv by (simp add: rl_inv_def)
  have dks: "distinct ks" unfolding ks_def using dist by (rule distinct_fst_filter)
  have ks: "k \<in> set ks \<longleftrightarrow> rl_expired now grace e k" for k
  proof -
    have "k \<in> set ks \<longleftrightarrow> (\<exists>entry. (k, entry) \<in> set (rl_entries e) \<and> rl_gc_due now grace entry)"
      by (force simp: ks_def)
    also have "\<dots> \<longleftrightarrow> rl_expired now grace e k"
      by (auto simp: rl_expired_def map_of_eq_Some_iff [OF dist, symmetric] split: option.splits)
    finally show ?thesis .
  qed
  have eff: "rl_inv e1" "rl_log e1 = rl_log e" "rl_replica_id e1 = rl_replica_id e" "n1 = length ks"
    "map_of (rl_entries e1) = (\<lambda>k. if rl_expired now grace e k then None else map_of (rl_entries e) k)"
    "map_of p1 = (\<lambda>k. if rl_expired now grace e k then Option.bind (rl_state_of e k) tombstone_version_of
                       else None)"
    using rl_gc_fold_effect [OF inv dks ks [THEN iffD1] fold] by (simp_all add: ks fun_eq_iff)
  have e': "n = n1" "rl_entries e' = rl_entries e1" "rl_replica_id e' = rl_replica_id e1"
    "rl_log e' = (if p1 = [] then rl_log e else keeper_retain
       (\<lambda>op. case map_of p1 (op_key op) of None \<Rightarrow> True | Some v \<Rightarrow> v < op_version op) (rl_log e))"
    using gc eff(2) by (auto simp: rl_gc_tombstones_def fold [unfolded ks_def] split: if_splits)
  show "rl_inv e'" using eff(1) rl_inv_cong [OF e'(2)] by simp
  show "rl_replica_id e' = rl_replica_id e" using e'(3) eff(3) by simp
  have "{k. rl_expired now grace e k} = set ks" using ks by blast
  then show "n = card {k. rl_expired now grace e k}" using e'(1) eff(4) distinct_card [OF dks] by simp
  show "rl_state_of e' = (\<lambda>k. if rl_expired now grace e k then None else rl_state_of e k)"
    by (simp add: rl_state_of_def e'(2) eff(5) fun_eq_iff)
  show "rl_log e' = rl_log e \<or> keeper_generation (rl_log e') = keeper_generation (rl_log e) + 1"
    by (simp add: e'(4) keeper_retain_def)
  have tomb: "\<exists>v. rl_state_of e k = Some (Tombstone v)" if "rl_expired now grace e k" for k
    using rl_gc_key_effect [OF inv that] by metis
  have keep: "(case map_of p1 (op_key op) of None \<Rightarrow> True | Some v \<Rightarrow> v < op_version op) \<longleftrightarrow>
       \<not> (rl_expired now grace e (op_key op) \<and>
           (\<exists>v. rl_state_of e (op_key op) = Some (Tombstone v) \<and> op_version op \<le> v))" for op
    using tomb [of "op_key op"] by (auto simp: eff(6) not_le)
  have "\<not> rl_expired now grace e k" if "p1 = []" for k
    using that fun_cong [OF eff(6), of k] tomb [of k] by (auto split: if_splits)
  then show "keeper_ops (rl_log e') = filter (\<lambda>op. \<not> (rl_expired now grace e (op_key op) \<and>
           (\<exists>v. rl_state_of e (op_key op) = Some (Tombstone v) \<and> op_version op \<le> v)))
           (keeper_ops (rl_log e))"
    by (simp add: e'(4) keeper_retain_def keep)
qed

section \<open>The engine contract\<close>

text \<open>A local write merges one operation and logs it when it changed the entry.\<close>

lemma rl_put_local_effect:
  fixes ser de now k v c e
  defines "op \<equiv> Insert k v (lamport_tick c) (rl_replica_id e)"
  assumes inv: "rl_inv e" and put: "rl_put_local ser de now k v (c, e) = ((c', e'), res)"
  shows "c' = lamport_tick c" "rl_inv e'" "rl_replica_id e' = rl_replica_id e"
    and "rl_state_of e' = (rl_state_of e)(k := rl_absorb (rl_state_of e k) (operation_state de op))"
    and "rl_log e' = (if rl_state_of e' k = rl_state_of e k then rl_log e
           else keeper_append op (length (rl_entries e')) (epoch_max_wins_fold ser de) (rl_log e))"
    and "res = (if rl_state_of e' k \<noteq> rl_state_of e k \<and> rl_contains_key e' k then None else rl_get ser e k)"
proof -
  obtain e1 out where m: "rl_merge_op ser de now op e = (e1, out)" by fastforce
  then have mi: "merge_insert ser de now k v (lamport_tick c, rl_replica_id e) e = (e1, out)"
    by (simp add: op_def)
  note eff = rl_merge_op_effect [OF inv m]
  have key: "op_key op = k" by (simp add: op_def)
  have e': "c' = lamport_tick c" "e' = (if mo_changed out
      then (let e' = rl_append_op ser de op e1 in e'\<lparr>rl_counter := rl_counter e' + 1\<rparr>) else e1)"
    "res = (if mo_changed out \<and> mo_new_is_live out then None else mo_prior_live out)"
    using put by (auto simp: rl_put_local_def mi op_def Let_def split: bool.splits)
  show "c' = lamport_tick c" by (rule e'(1))
  have ent: "rl_entries e' = rl_entries e1" by (simp add: e'(2) Let_def rl_append_op_def)
  show "rl_inv e'" using eff(1) rl_inv_cong [OF ent] by simp
  show rid: "rl_replica_id e' = rl_replica_id e" using eff(6) by (simp add: e'(2) Let_def rl_append_op_def)
  show st: "rl_state_of e' = (rl_state_of e)(k := rl_absorb (rl_state_of e k) (operation_state de op))"
    using eff(2) rl_state_cong [OF ent] key by simp
  have ch: "mo_changed out \<longleftrightarrow> rl_state_of e' k \<noteq> rl_state_of e k" using eff(3) st key by simp
  show "rl_log e' = (if rl_state_of e' k = rl_state_of e k then rl_log e
           else keeper_append op (length (rl_entries e')) (epoch_max_wins_fold ser de) (rl_log e))"
    using eff(6) ch ent by (auto simp: e'(2) Let_def rl_append_op_def)
  have "mo_new_is_live out \<longleftrightarrow> rl_contains_key e' k"
    using eff(5) key rl_state_cong [OF ent] by (simp add: rl_contains_state)
  with ch eff(4) key show
    "res = (if rl_state_of e' k \<noteq> rl_state_of e k \<and> rl_contains_key e' k then None else rl_get ser e k)"
    by (simp add: e'(3) rl_get_state)
qed

lemma rl_delete_local_effect:
  fixes ser de now k c e
  defines "op \<equiv> Remove k (lamport_tick c) (rl_replica_id e)"
  assumes inv: "rl_inv e" and del: "rl_delete_local ser de now k (c, e) = ((c', e'), res)"
  shows "c' = lamport_tick c" "rl_inv e'" "rl_replica_id e' = rl_replica_id e"
    and "rl_state_of e' = (rl_state_of e)(k := rl_absorb (rl_state_of e k) (operation_state de op))"
    and "rl_log e' = (if rl_state_of e' k = rl_state_of e k then rl_log e
           else keeper_append op (length (rl_entries e')) (epoch_max_wins_fold ser de) (rl_log e))"
    and "res = (if rl_state_of e' k \<noteq> rl_state_of e k \<and> \<not> rl_contains_key e' k then rl_get ser e k else None)"
proof -
  obtain e1 out where m: "rl_merge_op ser de now op e = (e1, out)" by fastforce
  then have mi: "merge_remove ser now k (lamport_tick c, rl_replica_id e) e = (e1, out)"
    by (simp add: op_def)
  note eff = rl_merge_op_effect [OF inv m]
  have key: "op_key op = k" by (simp add: op_def)
  have e': "c' = lamport_tick c" "e' = (if mo_changed out
      then (let e' = rl_append_op ser de op e1 in e'\<lparr>rl_counter := rl_counter e' + 1\<rparr>) else e1)"
    "res = (if mo_changed out \<and> \<not> mo_new_is_live out then mo_prior_live out else None)"
    using del by (auto simp: rl_delete_local_def mi op_def Let_def)
  show "c' = lamport_tick c" by (rule e'(1))
  have ent: "rl_entries e' = rl_entries e1" by (simp add: e'(2) Let_def rl_append_op_def)
  show "rl_inv e'" using eff(1) rl_inv_cong [OF ent] by simp
  show rid: "rl_replica_id e' = rl_replica_id e" using eff(6) by (simp add: e'(2) Let_def rl_append_op_def)
  show st: "rl_state_of e' = (rl_state_of e)(k := rl_absorb (rl_state_of e k) (operation_state de op))"
    using eff(2) rl_state_cong [OF ent] key by simp
  have ch: "mo_changed out \<longleftrightarrow> rl_state_of e' k \<noteq> rl_state_of e k" using eff(3) st key by simp
  show "rl_log e' = (if rl_state_of e' k = rl_state_of e k then rl_log e
           else keeper_append op (length (rl_entries e')) (epoch_max_wins_fold ser de) (rl_log e))"
    using eff(6) ch ent by (auto simp: e'(2) Let_def rl_append_op_def)
  have "mo_new_is_live out \<longleftrightarrow> rl_contains_key e' k"
    using eff(5) key rl_state_cong [OF ent] by (simp add: rl_contains_state)
  with ch eff(4) key show
    "res = (if rl_state_of e' k \<noteq> rl_state_of e k \<and> \<not> rl_contains_key e' k then rl_get ser e k else None)"
    by (simp add: e'(3) rl_get_state)
qed

lemma rl_remote_effect:
  assumes inv: "rl_inv e" and app: "rl_apply_remote_ops ser de now ops (c, e) = ((c', e'), cs)"
  shows "rl_inv e'" "rl_replica_id e' = rl_replica_id e" "c \<le> c'"
    and "\<forall>op \<in> set ops. op_timestamp op \<le> c'"
    and "rl_state_of e' k = foldl rl_absorb (rl_state_of e k)
           (map (operation_state de) (ops_for k (sort_key op_version ops)))"
    and "distinct (map change_key cs)"
    and "set cs = {\<lparr>change_key = k, change_value = rl_get ser e' k\<rparr> | k. rl_get ser e' k \<noteq> rl_get ser e k}"
    and "rl_log e' = (if ops = [] then rl_log e
           else keeper_merge_batch (sort_key op_version ops) (epoch_max_wins_fold ser de) (rl_log e))"
proof (atomize (full), cases "ops = []", goal_cases)
  case 1
  with app inv show ?case by (simp add: rl_apply_remote_ops_def)
next
  case ne: 2
  let ?s = "sort_key op_version ops"
  let ?e1 = "e\<lparr>rl_log := keeper_merge_batch ?s (epoch_max_wins_fold ser de) (rl_log e)\<rparr>"
  have ent: "rl_entries ?e1 = rl_entries e" by simp
  have fold: "foldl (rl_apply_op ser de now) (c, ?e1) ?s = (c', e')"
    and cs: "cs = changes (values_before ?s (rl_get ser e)) (rl_get ser e')"
    using app ne rl_state_cong [OF ent]
    by (auto simp: rl_apply_remote_ops_def Let_def current_encoded_get rl_get_state [abs_def] split: prod.splits)
  have eff: "rl_inv e' \<and> rl_log e' = rl_log ?e1 \<and> rl_replica_id e' = rl_replica_id ?e1 \<and> c \<le> c' \<and>
         (\<forall>op \<in> set ?s. op_timestamp op \<le> c') \<and>
         (\<forall>k. rl_state_of e' k =
              foldl rl_absorb (rl_state_of ?e1 k) (map (operation_state de) (ops_for k ?s)))"
    using rl_apply_ops_effect [OF _ fold] inv rl_inv_cong [OF ent] by simp
  have frame: "rl_get ser e' k = rl_get ser e k" if "k \<notin> op_key ` set ops" for k
  proof -
    have "ops_for k ?s = []" using that by (simp add: ops_for_Nil_iff)
    with eff have "rl_state_of e' k = rl_state_of e k" using rl_state_cong [OF ent] by simp
    then show ?thesis by (simp add: rl_get_state)
  qed
  have "set cs = {\<lparr>change_key = k, change_value = rl_get ser e' k\<rparr> | k. rl_get ser e' k \<noteq> rl_get ser e k}"
    unfolding cs set_changes using frame by (auto simp: set_sort) (metis image_eqI)+
  with eff ne rl_state_cong [OF ent] changes_distinct_keys show ?case
    by (simp add: cs)
qed

lemma rl_get_contains: "rl_get ser e k \<noteq> None \<Longrightarrow> rl_contains_key e k"
  by (cases "rl_state_of e k"; cases "the (rl_state_of e k)") (auto simp: rl_get_state rl_contains_state)

lemma set_rl_keys:
  assumes "rl_inv e"
  shows "set (rl_keys e) = {k. rl_contains_key e k}"
proof -
  have dist: "distinct (map fst (rl_entries e))" using assms by (simp add: rl_inv_def)
  have "k \<in> set (rl_keys e) \<longleftrightarrow> (\<exists>entry. (k, entry) \<in> set (rl_entries e) \<and> is_live (se_state entry))" for k
    by (force simp: rl_keys_def)
  then show ?thesis
    by (auto simp: rl_contains_key_def map_of_eq_Some_iff [OF dist, symmetric] split: option.splits)
qed

lemma rl_gc_get:
  assumes "rl_inv e" and "rl_gc_tombstones now grace e = (e', n)"
  shows "rl_get ser e' = rl_get ser e"
proof
  fix k
  show "rl_get ser e' k = rl_get ser e k"
  proof (cases "rl_expired now grace e k")
    case True
    from rl_gc_key_effect [OF assms(1) True] obtain v where "rl_state_of e k = Some (Tombstone v)" by metis
    with True show ?thesis by (simp add: rl_get_state rl_gc_effect(4) [OF assms])
  next
    case False
    then show ?thesis by (simp add: rl_get_state rl_gc_effect(4) [OF assms])
  qed
qed

lemma rl_gc_contains:
  assumes "rl_inv e" "rl_gc_tombstones now grace e = (e', n)"
  shows "rl_contains_key e' k = rl_contains_key e k"
proof (cases "rl_expired now grace e k")
  case True
  from rl_gc_key_effect [OF assms(1) True] obtain v where "rl_state_of e k = Some (Tombstone v)" by metis
  with True show ?thesis by (simp add: rl_contains_state rl_gc_effect(4) [OF assms])
next
  case False
  then show ?thesis by (simp add: rl_contains_state rl_gc_effect(4) [OF assms])
qed

interpretation rl: namespace_engine rl_inv "rl_put_local ser de" "rl_delete_local ser de"
  "rl_apply_remote_ops ser de" rl_gc_tombstones "rl_get ser" rl_contains_key rl_keys rl_len
  rl_op_generation rl_export_ops for ser de
proof (unfold_locales, goal_cases)
  case 1 then show ?case by (rule rl_put_local_effect(2))
next
  case 2 then show ?case by (rule rl_delete_local_effect(2))
next
  case 3 then show ?case by (rule rl_remote_effect(1))
next
  case 4 then show ?case by (rule rl_gc_effect(1))
next
  case 5 then show ?case by (intro rl_get_contains)
next
  case 6 then show ?case by (rule set_rl_keys)
next
  case 7 then show ?case by (simp add: rl_keys_def rl_inv_def distinct_fst_filter)
next
  case 8 then show ?case by (simp add: rl_len_def rl_keys_def)
next
  case 9 then show ?case by (simp add: rl_get_state rl_put_local_effect(4))
next
  case 10 then show ?case by (simp add: rl_get_state rl_delete_local_effect(4))
next
  case (11 s now ops c c' s' cs k)
  then have "ops_for k (sort_key op_version ops) = []" by (simp add: ops_for_Nil_iff)
  with rl_remote_effect(5) [OF 11(1,2), of k] show ?case by (simp add: rl_get_state)
next
  case 12 then show ?case using rl_remote_effect(6,7) [OF 12] by simp
next
  case 13 then show ?case by (rule rl_gc_get)
next
  case (14 s now k v c c' s' r)
  from rl_put_local_effect(5) [OF 14] show ?case
    by (simp add: rl_op_generation_def rl_export_ops_def keeper_append_generation)
next
  case (15 s now k c c' s' r)
  from rl_delete_local_effect(5) [OF 15] show ?case
    by (simp add: rl_op_generation_def rl_export_ops_def keeper_append_generation)
next
  case (16 s now ops c c' s' cs)
  from rl_remote_effect(8) [OF 16] show ?case
    by (simp add: rl_op_generation_def rl_export_ops_def keeper_merge_batch_generation)
next
  case (17 s now grace s' n)
  from rl_gc_effect(5) [OF 17] show ?case
    by (auto simp: rl_op_generation_def rl_export_ops_def)
next
  case 18 then show ?case by (simp add: rl_contains_state rl_put_local_effect(4))
next
  case 19 then show ?case by (simp add: rl_contains_state rl_delete_local_effect(4))
next
  case (20 s now ops c c' s' cs k)
  then have "ops_for k (sort_key op_version ops) = []" by (simp add: ops_for_Nil_iff)
  with rl_remote_effect(5) [OF 20(1,2), of k] show ?case by (simp add: rl_contains_state)
next
  case 21 then show ?case by (rule rl_gc_contains)
qed

section \<open>The engine refines its history\<close>

definition rl_repr :: "shard_de \<Rightarrow> u64 \<Rightarrow> rl_engine \<Rightarrow> operation list \<Rightarrow> bool" where
  "rl_repr de c e H \<longleftrightarrow>
     rl_inv e \<and> (\<forall>op \<in> set H. op_timestamp op \<le> c) \<and>
     (\<forall>k. map_option state_abs (rl_state_of e k) = rl_value de H k) \<and>
     (\<forall>k s. rl_state_of e k = Some s \<longrightarrow> state_wf s \<and> state_points s \<subseteq> rl_points de (set H) k)"

lemma rl_repr_new: "rl_repr de c (rl_new r) []"
  by (simp add: rl_repr_def rl_inv_def rl_new_def rl_state_of_def rl_value_def)

lemma rl_value_append:
  "rl_value de (H @ ops) k =
     foldl (join_step rl_join) (rl_value de H k) (map state_abs (rl_states de (ops_for k ops)))"
  by (simp add: rl_value_def joins_def)

lemma rl_value_set_eq:
  assumes "rl_history_ok de (set H)" and "set H = set H'"
  shows "rl_value de H k = rl_value de H' k"
  unfolding rl_value_def
proof (rule rl_lattice.joins_set_eq)
  show "set (map state_abs (rl_states de (ops_for k H))) \<subseteq> rl_elems"
    using rl_states_elems [OF assms(1), of "ops_for k H"] by auto
  show "set (map state_abs (rl_states de (ops_for k H))) = set (map state_abs (rl_states de (ops_for k H')))"
    using assms(2) by (simp add: set_rl_states)
qed

text \<open>Absorbing a state joins it to the entry.\<close>

definition fits :: "live_point set \<Rightarrow> rate_limit_state option \<Rightarrow> bool" where
  "fits P x \<longleftrightarrow> (case x of None \<Rightarrow> True | Some s \<Rightarrow> state_wf s \<and> state_points s \<subseteq> P)"

lemma rl_absorb_refines:
  assumes "coherent P" "fits P cur" "fits P inc"
  shows "fits P (rl_absorb cur inc) \<and>
         map_option state_abs (rl_absorb cur inc) =
           (case inc of None \<Rightarrow> map_option state_abs cur
            | Some s \<Rightarrow> join_step rl_join (map_option state_abs cur) (state_abs s))"
proof (cases cur; cases inc)
  fix c s assume cs: "cur = Some c" "inc = Some s"
  with assms have wf: "state_wf c" "state_wf s" and P: "state_points c \<subseteq> P" "state_points s \<subseteq> P"
    by (auto simp: fits_def)
  have "coherent (state_points c \<union> state_points s)"
    using assms(1) P by (auto intro: coherent_subset)
  then obtain m where m: "state_merge c s = Some m" "state_wf m"
    "state_abs m = rl_join (state_abs c) (state_abs s)"
    using state_merge_refines [OF wf] by blast
  have "state_points m \<subseteq> P"
    using rl_join_points [of "state_abs c" "state_abs s"] m(3) P
    by (metis snd_state_abs Un_least order_trans)
  with cs m show ?thesis by (simp add: rl_absorb_def fits_def)
qed (use assms in \<open>auto simp: rl_absorb_def fits_def\<close>)

lemma rl_absorbs_refines:
  assumes "coherent P" "fits P cur" "\<And>op. op \<in> set ops \<Longrightarrow> fits P (operation_state de op)"
  shows "fits P (foldl rl_absorb cur (map (operation_state de) ops)) \<and>
         map_option state_abs (foldl rl_absorb cur (map (operation_state de) ops)) =
           foldl (join_step rl_join) (map_option state_abs cur) (map state_abs (rl_states de ops))"
  using assms(2,3)
proof (induction ops arbitrary: cur)
  case (Cons op ops)
  note one = rl_absorb_refines [OF assms(1) Cons.prems(1), of "operation_state de op"]
  have op: "fits P (operation_state de op)" using Cons.prems(2) by simp
  from Cons.IH [of "rl_absorb cur (operation_state de op)"] one [OF op] Cons.prems(2)
  show ?case by (cases "operation_state de op") auto
qed simp

lemma fits_history:
  assumes "rl_history_ok de H" "op \<in> H" "op_key op = k"
  shows "fits (rl_points de H k) (operation_state de op)"
  using assms rl_history_okD(1) [OF assms(1,2)]
  by (cases "operation_state de op") (auto simp: fits_def rl_points_def intro!: bexI [of _ op])

text \<open>The shared step: the engine's entries absorb a list of operations.\<close>

lemma rl_repr_absorb:
  assumes repr: "rl_repr de c e H" and ok: "rl_history_ok de (set H \<union> set ops)"
    and inv: "rl_inv e'" and clock: "c \<le> c'" "\<forall>op \<in> set ops. op_timestamp op \<le> c'"
    and st: "\<And>k. rl_state_of e' k =
           foldl rl_absorb (rl_state_of e k) (map (operation_state de) (ops_for k ops))"
  shows "rl_repr de c' e' (H @ ops)"
proof -
  have key: "fits (rl_points de (set (H @ ops)) k) (rl_state_of e' k) \<and>
        map_option state_abs (rl_state_of e' k) = rl_value de (H @ ops) k" for k
  proof -
    let ?P = "rl_points de (set (H @ ops)) k"
    have ok': "rl_history_ok de (set (H @ ops))" using ok by simp
    have sub: "rl_points de (set H) k \<subseteq> ?P" by (rule rl_points_mono) simp
    have cur: "fits ?P (rl_state_of e k)"
    proof (cases "rl_state_of e k")
      case (Some s)
      with repr have "state_wf s" "state_points s \<subseteq> rl_points de (set H) k"
        by (simp_all add: rl_repr_def)
      with sub Some show ?thesis by (auto simp: fits_def)
    qed (simp add: fits_def)
    have "fits ?P (operation_state de op)" if "op \<in> set (ops_for k ops)" for op
      using that by (intro fits_history [OF ok']) auto
    then have "fits ?P (rl_state_of e' k) \<and> map_option state_abs (rl_state_of e' k) =
        foldl (join_step rl_join) (map_option state_abs (rl_state_of e k))
          (map state_abs (rl_states de (ops_for k ops)))"
      unfolding st by (intro rl_absorbs_refines [OF rl_history_okD(2) [OF ok'] cur])
    with repr show ?thesis by (simp add: rl_repr_def rl_value_append)
  qed
  have "state_wf s \<and> state_points s \<subseteq> rl_points de (set (H @ ops)) k" if "rl_state_of e' k = Some s" for k s
    using key [of k] that by (simp add: fits_def)
  moreover have "\<forall>k. map_option state_abs (rl_state_of e' k) = rl_value de (H @ ops) k"
    using key by blast
  moreover have "\<forall>op \<in> set (H @ ops). op_timestamp op \<le> c'"
    using repr clock by (auto simp: rl_repr_def intro: order_trans)
  ultimately show ?thesis using inv by (simp add: rl_repr_def)
qed

lemma rl_repr_set_eq:
  assumes "rl_repr de c e H" "rl_history_ok de (set H)" "set H = set H'"
  shows "rl_repr de c e H'"
  using assms rl_value_set_eq [OF assms(2,3)] unfolding rl_repr_def by simp

lemma rl_remote_repr:
  assumes repr: "rl_repr de c e H" and ok: "rl_history_ok de (set H \<union> set ops)"
    and app: "rl_apply_remote_ops ser de now ops (c, e) = ((c', e'), cs)"
  shows "rl_repr de c' e' (H @ ops)"
proof -
  have inv: "rl_inv e" using repr by (simp add: rl_repr_def)
  note eff = rl_remote_effect [OF inv app]
  have "rl_repr de c' e' (H @ sort_key op_version ops)"
    using eff(1,3,4) eff(5) ok by (intro rl_repr_absorb [OF repr]) simp_all
  then show ?thesis
    by (rule rl_repr_set_eq) (use ok in simp_all)
qed

lemma rl_put_repr:
  assumes repr: "rl_repr de c e H"
    and ok: "rl_history_ok de (insert (Insert k v (lamport_tick c) (rl_replica_id e)) (set H))"
    and put: "rl_put_local ser de now k v (c, e) = ((c', e'), res)"
  shows "rl_repr de c' e' (H @ [Insert k v (lamport_tick c) (rl_replica_id e)])"
proof -
  have inv: "rl_inv e" using repr by (simp add: rl_repr_def)
  note eff = rl_put_local_effect [OF inv put]
  show ?thesis
    using eff(1,2,4) ok by (intro rl_repr_absorb [OF repr]) simp_all
qed

lemma rl_delete_repr:
  assumes repr: "rl_repr de c e H"
    and ok: "rl_history_ok de (insert (Remove k (lamport_tick c) (rl_replica_id e)) (set H))"
    and del: "rl_delete_local ser de now k (c, e) = ((c', e'), res)"
  shows "rl_repr de c' e' (H @ [Remove k (lamport_tick c) (rl_replica_id e)])"
proof -
  have inv: "rl_inv e" using repr by (simp add: rl_repr_def)
  note eff = rl_delete_local_effect [OF inv del]
  show ?thesis
    using eff(1,2,4) ok by (intro rl_repr_absorb [OF repr]) simp_all
qed

lemma rl_repr_states_eq:
  assumes "rl_repr de c e H" "rl_repr de c' e' H'" "rl_value de H = rl_value de H'"
  shows "rl_state_of e = rl_state_of e'"
proof
  fix k
  have eq: "map_option state_abs (rl_state_of e k) = map_option state_abs (rl_state_of e' k)"
    using assms by (simp add: rl_repr_def)
  show "rl_state_of e k = rl_state_of e' k"
  proof (cases "rl_state_of e k")
    case (Some s)
    with eq obtain s' where "rl_state_of e' k = Some s'" "state_abs s = state_abs s'"
      by (cases "rl_state_of e' k") auto
    with Some assms(1,2) state_abs_inj [of s s'] show ?thesis by (auto simp: rl_repr_def)
  qed (use eq in simp)
qed

section \<open>The log stands for the history\<close>

text \<open>
  The log's operations are well formed and carry only points of the history; when the log is
  complete, replaying it gives the value of every key.
\<close>

definition rl_log_sound :: "shard_de \<Rightarrow> operation list \<Rightarrow> operation list \<Rightarrow> bool" where
  "rl_log_sound de L H \<longleftrightarrow>
     (\<forall>op \<in> set L. \<forall>s. operation_state de op = Some s \<longrightarrow> state_wf s) \<and>
     (\<forall>k. rl_points de (set L) k \<subseteq> rl_points de (set H) k)"

definition rl_log_complete :: "shard_de \<Rightarrow> operation list \<Rightarrow> operation list \<Rightarrow> bool" where
  "rl_log_complete de L H \<longleftrightarrow> rl_log_sound de L H \<and> (\<forall>k. rl_value de L k = rl_value de H k)"

lemma rl_points_Un: "rl_points de (A \<union> B) k = rl_points de A k \<union> rl_points de B k"
  unfolding rl_points_def by blast

lemma rl_log_sound_ok:
  assumes "rl_log_sound de L H" "rl_history_ok de (set H \<union> G)"
  shows "rl_history_ok de (set L \<union> (set H \<union> G))"
proof (rule rl_history_okI)
  show "state_wf s" if "op \<in> set L \<union> (set H \<union> G)" "operation_state de op = Some s" for op s
    using that assms(1) rl_history_okD(1) [OF assms(2), of op s] by (auto simp: rl_log_sound_def)
  show "coherent (rl_points de (set L \<union> (set H \<union> G)) k)" for k
  proof (rule coherent_subset [OF rl_history_okD(2) [OF assms(2), of k]])
    have "rl_points de (set L) k \<subseteq> rl_points de (set H) k" using assms(1) by (simp add: rl_log_sound_def)
    then show "rl_points de (set L \<union> (set H \<union> G)) k \<subseteq> rl_points de (set H \<union> G) k"
      unfolding rl_points_Un by blast
  qed
qed

lemma rl_value_append_cong:
  "rl_value de A k = rl_value de B k \<Longrightarrow> rl_value de (A @ xs) k = rl_value de (B @ xs) k"
  by (simp add: rl_value_append)

text \<open>Merging a batch keeps the log complete.\<close>

lemma rl_remote_complete:
  assumes full: "rl_log_complete de (keeper_ops l) H" and ok: "rl_history_ok de (set H \<union> set ops)"
    and codec: "shard_codec ser de cap" and cap: "rl_caps de (H @ ops) cap"
  shows "rl_log_complete de
     (keeper_ops (keeper_merge_batch (sort_key op_version ops) (epoch_max_wins_fold ser de) l)) (H @ ops)"
proof -
  let ?L = "keeper_ops l @ sort_key op_version ops"
  let ?F = "compact_operations ser de"
  have sound: "rl_log_sound de (keeper_ops l) H" and val: "\<And>k. rl_value de (keeper_ops l) k = rl_value de H k"
    using full by (simp_all add: rl_log_complete_def)
  have okL: "rl_history_ok de (set ?L)"
    by (rule rl_history_ok_subset [OF rl_log_sound_ok [OF sound ok]]) auto
  have pts: "rl_points de (set ?L) k \<subseteq> rl_points de (set (H @ ops)) k" for k
    using sound by (auto simp: rl_log_sound_def rl_points_Un)
  have capL: "rl_caps de ?L cap"
    unfolding rl_caps_def
  proof
    fix k
    have "card (rl_points de (set ?L) k) \<le> card (rl_points de (set (H @ ops)) k)"
      by (rule card_mono [OF finite_rl_points pts])
    with cap show "card (rl_points de (set ?L) k) \<le> cap"
      unfolding rl_caps_def using order_trans by blast
  qed
  have log: "keeper_ops (keeper_merge_batch (sort_key op_version ops) (epoch_max_wins_fold ser de) l)
      = compact_by_key ?F ?L"
    by (simp add: keeper_merge_batch_def epoch_max_wins_fold_def [abs_def])
  have "rl_value de (compact_by_key ?F ?L) k = rl_value de (H @ ops) k" for k
  proof -
    have "rl_value de (compact_by_key ?F ?L) k = rl_value de ?L k"
      by (rule rl_compact_key(1) [OF okL codec capL])
    also have "\<dots> = rl_value de (H @ sort_key op_version ops) k"
      by (rule rl_value_append_cong [OF val])
    also have "\<dots> = rl_value de (H @ ops) k"
      by (rule rl_value_set_eq) (use ok in simp_all)
    finally show ?thesis .
  qed
  moreover have "rl_log_sound de (compact_by_key ?F ?L) (H @ ops)"
    unfolding rl_log_sound_def
    using rl_history_okD(1) [OF rl_compact_ok(2) [OF okL codec capL]]
      subset_trans [OF rl_compact_ok(1) [OF okL codec capL] pts] by blast
  ultimately show ?thesis unfolding rl_log_complete_def log by simp
qed

lemma rl_compact_complete:
  assumes full: "rl_log_complete de L H" and ok: "rl_history_ok de (set H)"
    and codec: "shard_codec ser de cap" and cap: "rl_caps de H cap"
  shows "rl_log_complete de (compact_by_key (compact_operations ser de) L) H"
proof -
  let ?F = "compact_operations ser de"
  have pts: "rl_points de (set L) k \<subseteq> rl_points de (set H) k" for k
    using full by (simp add: rl_log_complete_def rl_log_sound_def)
  have okL: "rl_history_ok de (set L)"
    by (rule rl_history_ok_subset [OF rl_log_sound_ok [of de L H "{}"]]) (use full ok in \<open>auto simp: rl_log_complete_def\<close>)
  have "card (rl_points de (set L) k) \<le> card (rl_points de (set H) k)" for k
    by (rule card_mono [OF finite_rl_points pts])
  with cap have capL: "rl_caps de L cap" unfolding rl_caps_def using order_trans by blast
  show ?thesis
    using rl_compact_key(1) [OF okL codec capL] full rl_history_okD(1) [OF rl_compact_ok(2) [OF okL codec capL]]
      subset_trans [OF rl_compact_ok(1) [OF okL codec capL] pts]
    unfolding rl_log_complete_def rl_log_sound_def by metis
qed

lemma rl_append_complete:
  assumes full: "rl_log_complete de L H" and ok: "rl_history_ok de (set H \<union> set ops)"
  shows "rl_log_complete de (L @ ops) (H @ ops)"
proof -
  have "rl_points de (set L \<union> set ops) k \<subseteq> rl_points de (set H \<union> set ops) k" for k
    using full by (auto simp: rl_log_complete_def rl_log_sound_def rl_points_Un)
  moreover have "state_wf s" if "op \<in> set L \<union> set ops" "operation_state de op = Some s" for op s
    using that full rl_history_okD(1) [OF ok, of op s] by (auto simp: rl_log_complete_def rl_log_sound_def)
  ultimately show ?thesis
    using full by (auto simp: rl_log_complete_def rl_log_sound_def intro: rl_value_append_cong)
qed

text \<open>Appending a local operation keeps the log complete while the keys fit its size backstop.\<close>

lemma rl_keeper_append_complete:
  assumes full: "rl_log_complete de (keeper_ops l) H" and ok: "rl_history_ok de (set H \<union> {op})"
    and codec: "shard_codec ser de cap" and cap: "rl_caps de (H @ [op]) cap"
    and keys: "op_key ` set (keeper_ops l @ [op]) \<subseteq> K" "finite K" "card K \<le> AUTO_COMPACT_THRESHOLD"
  shows "rl_log_complete de (keeper_ops (keeper_append op n (epoch_max_wins_fold ser de) l)) (H @ [op])"
    and "op_key ` set (keeper_ops (keeper_append op n (epoch_max_wins_fold ser de) l)) \<subseteq> K"
proof -
  let ?F = "compact_operations ser de" and ?L = "keeper_ops l @ [op]"
  have f: "epoch_max_wins_fold ser de = ?F" by (simp add: epoch_max_wins_fold_def fun_eq_iff)
  have L: "rl_log_complete de ?L (H @ [op])" using rl_append_complete [OF full, of "[op]"] ok by simp
  have C: "rl_log_complete de (compact_by_key ?F ?L) (H @ [op])"
    by (rule rl_compact_complete [OF L _ codec cap]) (use ok in simp)
  have "length (compact_by_key ?F ?L) \<le> card (op_key ` set ?L)"
    by (rule length_compact_by_key [OF compact_operations_keeps_key])
  also have "\<dots> \<le> card K" by (rule card_mono [OF keys(2,1)])
  finally have len: "length (compact_by_key ?F ?L) \<le> AUTO_COMPACT_THRESHOLD" using keys(3) by simp
  show "rl_log_complete de (keeper_ops (keeper_append op n (epoch_max_wins_fold ser de) l)) (H @ [op])"
    using L C len by (simp add: f keeper_append_def Let_def truncate_oldest_over_threshold_def)
  show "op_key ` set (keeper_ops (keeper_append op n (epoch_max_wins_fold ser de) l)) \<subseteq> K"
    using keys(1) len subset_trans [OF compact_by_key_keys_subset [OF compact_operations_keeps_key [of ser de], of ?L] keys(1)]
    by (auto simp: f keeper_append_def Let_def truncate_oldest_over_threshold_def)
qed

end
