(* ===== verification/Shard_Codec.thy ===== *)
theory Shard_Codec
  imports Epoch_Max_Wins
begin

text \<open>
  A concrete fixed-width shard serializer.  The gateway calls \<open>bincode\<close>, which is a parameter
  of the model; this theory gives functions that satisfy what the model assumes of it, so
  that the theorems can be applied at concrete shards.  The layout follows the fixed-width
  integer encoding: a 64-bit length, the points, then a tag byte and the optional tombstone.
\<close>

unbundle bit_operations_syntax

definition u128_bytes :: "u128 \<Rightarrow> bytes" where
  "u128_bytes w = u64_to_be_bytes (ucast (drop_bit 64 w)) @ u64_to_be_bytes (ucast w)"

definition u128_of_bytes :: "bytes \<Rightarrow> u128" where
  "u128_of_bytes bs =
     push_bit 64 (ucast (u64_from_be_bytes (take 8 bs))) OR ucast (u64_from_be_bytes (take 8 (drop 8 bs)))"

definition version_bytes :: "version \<Rightarrow> bytes" where
  "version_bytes v = u64_to_be_bytes (fst v) @ u128_bytes (snd v)"

definition version_of_bytes :: "bytes \<Rightarrow> version" where
  "version_of_bytes bs = (u64_from_be_bytes (take 8 bs), u128_of_bytes (take 16 (drop 8 bs)))"

definition point_bytes :: "live_point \<Rightarrow> bytes" where
  "point_bytes p =
     ec_encode (ec_epoch (lp_value p)) (ec_count (lp_value p)) @ version_bytes (lp_version p)"

definition point_of_bytes :: "bytes \<Rightarrow> live_point" where
  "point_of_bytes bs =
     \<lparr>lp_value = EpochCount (u64_from_be_bytes (take 8 bs)) (u64_from_be_bytes (take 8 (drop 8 bs))),
      lp_version = version_of_bytes (drop 16 bs)\<rparr>"

fun tombstone_bytes :: "version option \<Rightarrow> bytes" where
  "tombstone_bytes None = [0]"
| "tombstone_bytes (Some v) = 1 # version_bytes v"

definition tombstone_of_bytes :: "bytes \<Rightarrow> version option" where
  "tombstone_of_bytes bs = (if hd bs = 0 then None else Some (version_of_bytes (tl bs)))"

fun points_of_bytes :: "nat \<Rightarrow> bytes \<Rightarrow> live_point list" where
  "points_of_bytes 0 bs = []"
| "points_of_bytes (Suc n) bs = point_of_bytes (take 40 bs) # points_of_bytes n (drop 40 bs)"

definition fixed_ser :: shard_ser where
  "fixed_ser shard =
     Some (u64_to_be_bytes (of_nat (length (live_points shard)))
       @ concat (map point_bytes (live_points shard)) @ tombstone_bytes (shard_tombstone shard))"

definition fixed_de :: shard_de where
  "fixed_de bs =
     (let n = unat (u64_from_be_bytes (take 8 bs)); body = drop 8 bs in
      if MAX_SHARD_BYTES < length bs \<or> length bs < 8 \<or> length body < 40 * n + 1 then None
      else Some \<lparr>live_points = points_of_bytes n body,
                 shard_tombstone = tombstone_of_bytes (drop (40 * n) body)\<rparr>)"

lemma length_u128_bytes [simp]: "length (u128_bytes w) = 16"
  by (simp add: u128_bytes_def)

lemma u128_roundtrip [simp]: "u128_of_bytes (u128_bytes w) = w"
proof -
  have "push_bit 64 (ucast (ucast (drop_bit 64 w) :: u64)) OR ucast (ucast w :: u64) = w"
    by (rule bit_word_eqI) (auto simp: bit_simps)
  then show ?thesis by (simp add: u128_of_bytes_def u128_bytes_def)
qed

lemma length_version_bytes [simp]: "length (version_bytes v) = 24"
  by (simp add: version_bytes_def)

lemma version_roundtrip [simp]: "version_of_bytes (version_bytes v) = v"
  by (simp add: version_of_bytes_def version_bytes_def)

lemma length_point_bytes [simp]: "length (point_bytes p) = 40"
  by (simp add: point_bytes_def EPOCH_MAX_WINS_ENCODED_LEN_def)

lemma point_roundtrip [simp]: "point_of_bytes (point_bytes p) = p"
  by (simp add: point_of_bytes_def point_bytes_def ec_encode_def)

lemma points_roundtrip:
  "points_of_bytes (length ps) (concat (map point_bytes ps) @ rest) = ps"
  by (induction ps) simp_all

lemma length_concat_points: "length (concat (map point_bytes ps)) = 40 * length ps"
  by (induction ps) simp_all

lemma tombstone_roundtrip [simp]: "tombstone_of_bytes (tombstone_bytes t) = t"
  by (cases t) (simp_all add: tombstone_of_bytes_def)

lemma length_tombstone_bytes: "1 \<le> length (tombstone_bytes t)" "length (tombstone_bytes t) \<le> 25"
  by (cases t; simp)+

lemma fixed_codec: "shard_codec fixed_ser fixed_de 1000"
  unfolding shard_codec_def
proof (intro allI impI)
  fix shard :: rate_limit_shard
  let ?ps = "live_points shard"
  assume "?ps \<noteq> [] \<and> length ?ps \<le> 1000"
  then have n: "length ?ps \<le> 1000" by simp
  let ?b = "u64_to_be_bytes (of_nat (length ?ps)) @ concat (map point_bytes ?ps)
      @ tombstone_bytes (shard_tombstone shard)"
  have un: "unat (of_nat (length ?ps) :: u64) = length ?ps"
    using n by (simp add: unat_of_nat)
  have len: "length ?b \<le> MAX_SHARD_BYTES"
    using n length_tombstone_bytes(2) [of "shard_tombstone shard"]
    by (simp add: length_concat_points MAX_SHARD_BYTES_def)
  have "fixed_de ?b = Some shard"
    using len length_tombstone_bytes(1) [of "shard_tombstone shard"]
    by (auto simp: fixed_de_def un points_roundtrip length_concat_points Let_def)
  with len show "\<exists>b. fixed_ser shard = Some b \<and> length b \<le> MAX_SHARD_BYTES \<and> fixed_de b = Some shard"
    by (simp add: fixed_ser_def)
qed

text \<open>A raw 16-byte payload is never read as a shard with live points.\<close>

lemma fixed_de_raw:
  assumes "length bs = EPOCH_MAX_WINS_ENCODED_LEN"
  shows "decode_shard fixed_de bs = None"
  using assms
  by (cases "unat (u64_from_be_bytes (take 8 bs))")
    (auto simp: decode_shard_def fixed_de_def Let_def EPOCH_MAX_WINS_ENCODED_LEN_def)

end
