(* ===== verification/Rate_Limit_Properties.thy ===== *)
theory Rate_Limit_Properties
  imports Rate_Limit_Engine Shard_Codec
begin

text \<open>
  What the rate-limit engine guarantees: its merge is a join, replicas that receive the same
  operations agree, exchanging compacted logs loses nothing, and a read is the greatest
  counter newer than the newest delete.  The concrete replicas of the examples use the
  serializer of \<open>Shard_Codec\<close>.
\<close>

section \<open>The merge is a join\<close>

text \<open>C4.
  The shard merge is a join.  On well-formed states in which one version carries one value,
  \<open>merge\<close> always returns a state, and it is commutative, idempotent and associative.
\<close>

theorem state_merge_semilattice:
  assumes "state_wf a" "state_wf b" "state_wf c"
    and "coherent (state_points a \<union> state_points b \<union> state_points c)"
  shows "state_merge a b = state_merge b a \<and> state_merge a a = Some a \<and>
         (\<exists>ab bc abc. state_merge a b = Some ab \<and> state_merge b c = Some bc \<and>
            state_merge ab c = Some abc \<and> state_merge a bc = Some abc)"
proof -
  have coh: "coherent P" if "P \<subseteq> state_points a \<union> state_points b \<union> state_points c" for P
    using assms(4) that by (rule coherent_subset)
  note el = state_abs_elem [OF assms(1)] state_abs_elem [OF assms(2)] state_abs_elem [OF assms(3)]
  obtain ab where ab: "state_merge a b = Some ab" "state_wf ab" "state_abs ab = rl_join (state_abs a) (state_abs b)"
    using state_merge_refines [OF assms(1,2) coh] by auto
  obtain ba where ba: "state_merge b a = Some ba" "state_wf ba" "state_abs ba = rl_join (state_abs b) (state_abs a)"
    using state_merge_refines [OF assms(2,1) coh] by auto
  obtain aa where aa: "state_merge a a = Some aa" "state_wf aa" "state_abs aa = rl_join (state_abs a) (state_abs a)"
    using state_merge_refines [OF assms(1,1) coh] by auto
  obtain bc where bc: "state_merge b c = Some bc" "state_wf bc" "state_abs bc = rl_join (state_abs b) (state_abs c)"
    using state_merge_refines [OF assms(2,3) coh] by auto
  have pts: "state_points ab \<subseteq> state_points a \<union> state_points b" "state_points bc \<subseteq> state_points b \<union> state_points c"
    using rl_join_points [of "state_abs a" "state_abs b"] rl_join_points [of "state_abs b" "state_abs c"] ab(3) bc(3)
    by (metis snd_state_abs)+
  obtain l where l: "state_merge ab c = Some l" "state_wf l" "state_abs l = rl_join (state_abs ab) (state_abs c)"
    using state_merge_refines [OF ab(2) assms(3) coh] pts by blast
  obtain r where r: "state_merge a bc = Some r" "state_wf r" "state_abs r = rl_join (state_abs a) (state_abs bc)"
    using state_merge_refines [OF assms(1) bc(2) coh] pts by blast
  have "ab = ba" using state_abs_inj [OF ab(2) ba(2)] ab(3) ba(3) rl_join_comm by metis
  moreover have "aa = a" using state_abs_inj [OF aa(2) assms(1)] aa(3) rl_join_idem [OF el(1)] by metis
  moreover have "l = r" using state_abs_inj [OF l(2) r(2)] l(3) r(3) ab(3) bc(3) rl_join_assoc [OF el] by metis
  ultimately show ?thesis using ab ba aa bc l r by auto
qed

definition demo_point :: "u64 \<Rightarrow> u64 \<Rightarrow> u64 \<Rightarrow> live_point" where
  "demo_point epoch cnt t = \<lparr>lp_value = EpochCount epoch cnt, lp_version = (t, 1)\<rparr>"

definition demo_live :: "live_point \<Rightarrow> version option \<Rightarrow> rate_limit_state" where
  "demo_live p t = Live \<lparr>live_points = [p], shard_tombstone = t\<rparr>"

theorem state_merge_semilattice_witness:
  "state_merge (demo_live (demo_point 1 9 2) None) (demo_live (demo_point 1 5 6) (Some (3, 1))) =
   state_merge (demo_live (demo_point 1 5 6) (Some (3, 1))) (demo_live (demo_point 1 9 2) None) \<and>
   state_merge (demo_live (demo_point 1 9 2) None) (demo_live (demo_point 1 5 6) (Some (3, 1))) =
   Some (demo_live (demo_point 1 5 6) (Some (3, 1)))"
proof -
  let ?a = "demo_live (demo_point 1 9 2) None" and ?b = "demo_live (demo_point 1 5 6) (Some (3, 1))"
  have wf: "state_wf ?a" "state_wf ?b" "state_wf (Tombstone (3, 1))"
    by (simp_all add: demo_live_def demo_point_def front_def after_tombstone_def)
  have "coherent (state_points ?a \<union> state_points ?b \<union> state_points (Tombstone (3, 1)))"
    by (auto simp: coherent_def demo_live_def demo_point_def)
  from state_merge_semilattice [OF wf this] have "state_merge ?a ?b = state_merge ?b ?a" by blast
  moreover have "state_merge ?a ?b = Some ?b"
    by (simp add: state_merge_def demo_live_def demo_point_def shard_live_points_after_def
        after_tombstone_def shard_merged_def sort_newest_first_def frontier_scan_Cons max_def)
  ultimately show ?thesis by simp
qed

section \<open>Convergence\<close>

definition rl_deliver ::
    "shard_ser \<Rightarrow> shard_de \<Rightarrow> u64 \<times> rl_engine \<Rightarrow> instant \<times> operation list \<Rightarrow> u64 \<times> rl_engine" where
  "rl_deliver ser de ce batch = fst (rl_apply_remote_ops ser de (fst batch) (snd batch) ce)"

definition rl_run :: "shard_ser \<Rightarrow> shard_de \<Rightarrow> replica_id \<Rightarrow> (instant \<times> operation list) list \<Rightarrow> u64 \<times> rl_engine" where
  "rl_run ser de r batches = foldl (rl_deliver ser de) (lamport_new, rl_new r) batches"

lemma rl_run_repr:
  assumes "rl_history_ok de (set (concat (map snd batches)))"
  shows "rl_repr de (fst (rl_run ser de r batches)) (snd (rl_run ser de r batches)) (concat (map snd batches))"
  using assms
proof (induction batches rule: rev_induct)
  case Nil
  then show ?case by (simp add: rl_run_def rl_repr_new)
next
  case (snoc b bs)
  let ?ce = "rl_run ser de r bs"
  obtain c' e' cs where app: "rl_apply_remote_ops ser de (fst b) (snd b) (fst ?ce, snd ?ce) = ((c', e'), cs)"
    by (metis prod.exhaust)
  have "rl_history_ok de (set (concat (map snd bs)))"
    using snoc.prems by (rule rl_history_ok_subset) auto
  from rl_remote_repr [OF snoc.IH [OF this] _ app] snoc.prems app show ?case
    by (simp add: rl_run_def rl_deliver_def)
qed

text \<open>C5.
  Strong eventual consistency of the rate-limit engine.  Two fresh replicas that receive the
  same set of operations, each in its own order, batches and multiplicity, hold the same
  state and read the same bytes for every key.
\<close>

theorem rl_strong_eventual_consistency:
  assumes "rl_history_ok de (set (concat (map snd batches)))"
    and "set (concat (map snd batches)) = set (concat (map snd batches'))"
  shows "rl_state_of (snd (rl_run ser de r batches)) k = rl_state_of (snd (rl_run ser de r' batches')) k \<and>
         rl_get ser (snd (rl_run ser de r batches)) k = rl_get ser (snd (rl_run ser de r' batches')) k"
proof -
  have "rl_history_ok de (set (concat (map snd batches')))" using assms by simp
  then have "rl_state_of (snd (rl_run ser de r batches)) = rl_state_of (snd (rl_run ser de r' batches'))"
    using rl_repr_states_eq [OF rl_run_repr [OF assms(1)] rl_run_repr] rl_value_set_eq [OF assms]
    by blast
  then show ?thesis by (simp add: rl_get_state)
qed

lemma raw_insert_value:
  "state_from_insert_value fixed_de (ec_encode e c) v =
     Some (Live (from_live_point \<lparr>lp_value = EpochCount e c, lp_version = v\<rparr>))"
  by (simp add: state_from_insert_value_def fixed_de_raw decode_raw_encode)

definition demo_ops :: "operation list" where
  "demo_ops = [Insert ''r'' (ec_encode 1 9) 3 1, Insert ''r'' (ec_encode 1 5) 4 1, Remove ''r'' 1 2]"

lemma demo_states:
  "rl_states fixed_de demo_ops =
     [Live (from_live_point \<lparr>lp_value = EpochCount 1 9, lp_version = (3, 1)\<rparr>),
      Live (from_live_point \<lparr>lp_value = EpochCount 1 5, lp_version = (4, 1)\<rparr>), Tombstone (1, 2)]"
  by (simp add: demo_ops_def raw_insert_value)

lemma demo_points:
  "rl_points fixed_de (set demo_ops) k =
     (if k = ''r'' then {\<lparr>lp_value = EpochCount 1 9, lp_version = (3, 1)\<rparr>,
                         \<lparr>lp_value = EpochCount 1 5, lp_version = (4, 1)\<rparr>} else {})"
  unfolding rl_points_states by (simp add: demo_ops_def raw_insert_value from_live_point_def insert_commute)

lemma demo_history_ok: "rl_history_ok fixed_de (set demo_ops)"
proof (rule rl_history_okI)
  show "state_wf s" if "op \<in> set demo_ops" "operation_state fixed_de op = Some s" for op s
  proof -
    from that have "s \<in> set (rl_states fixed_de demo_ops)" by (auto simp: set_rl_states)
    then show ?thesis by (auto simp: demo_states from_live_point_def front_def after_tombstone_def)
  qed
  show "coherent (rl_points fixed_de (set demo_ops) k)" for k
    by (auto simp: demo_points coherent_def)
qed

theorem rl_strong_eventual_consistency_witness:
  "rl_get fixed_ser (snd (rl_run fixed_ser fixed_de 7 [(0, demo_ops)])) ''r'' =
   rl_get fixed_ser (snd (rl_run fixed_ser fixed_de 8 [(5, [demo_ops ! 2]), (6, rev demo_ops)])) ''r''"
proof -
  have set: "set (concat (map snd [(0, demo_ops)])) = set (concat (map snd [(5, [demo_ops ! 2]), (6, rev demo_ops)]))"
    by (auto simp: demo_ops_def)
  have "rl_history_ok fixed_de (set (concat (map snd [(0, demo_ops)])))"
    using demo_history_ok by simp
  from rl_strong_eventual_consistency [OF this set] show ?thesis by blast
qed

text \<open>
  The engines a node can reach from a fresh one by local writes, local deletes and remote
  batches, with everything absorbed so far.
\<close>

inductive rl_reach :: "shard_ser \<Rightarrow> shard_de \<Rightarrow> u64 \<Rightarrow> rl_engine \<Rightarrow> operation list \<Rightarrow> bool" for ser de where
  start: "rl_reach ser de lamport_new (rl_new r) []"
| put: "rl_reach ser de c e H \<Longrightarrow> rl_put_local ser de now k v (c, e) = ((c', e'), res) \<Longrightarrow>
    rl_reach ser de c' e' (H @ [Insert k v (lamport_tick c) (rl_replica_id e)])"
| delete: "rl_reach ser de c e H \<Longrightarrow> rl_delete_local ser de now k (c, e) = ((c', e'), res) \<Longrightarrow>
    rl_reach ser de c' e' (H @ [Remove k (lamport_tick c) (rl_replica_id e)])"
| merge: "rl_reach ser de c e H \<Longrightarrow> rl_apply_remote_ops ser de now ops (c, e) = ((c', e'), cs) \<Longrightarrow>
    rl_reach ser de c' e' (H @ ops)"

definition rl_log_keys :: "rl_engine \<Rightarrow> operation list \<Rightarrow> bool" where
  "rl_log_keys e H \<longleftrightarrow> op_key ` set (keeper_ops (rl_log e)) \<subseteq> op_key ` set H"

lemma rl_local_complete:
  assumes full: "rl_log_complete de (keeper_ops (rl_log e)) H" and K: "rl_log_keys e H"
    and ok: "rl_history_ok de (set H \<union> {op})"
    and codec: "shard_codec ser de cap" and cap: "rl_caps de (H @ [op]) cap"
    and keys: "card (op_key ` set (H @ [op])) \<le> AUTO_COMPACT_THRESHOLD"
    and repr: "rl_repr de c e H" "rl_repr de c' e' (H @ [op])"
    and st: "rl_state_of e' = (rl_state_of e)(op_key op := x)"
    and log: "rl_log e' = (if rl_state_of e' (op_key op) = rl_state_of e (op_key op) then rl_log e
           else keeper_append op n (epoch_max_wins_fold ser de) (rl_log e))"
  shows "rl_log_complete de (keeper_ops (rl_log e')) (H @ [op]) \<and> rl_log_keys e' (H @ [op])"
proof (cases "rl_state_of e' (op_key op) = rl_state_of e (op_key op)")
  case True
  then have "rl_state_of e' k = rl_state_of e k" for k using st by (cases "k = op_key op") simp_all
  then have "rl_value de (H @ [op]) k = rl_value de H k" for k using repr by (metis rl_repr_def)
  moreover have "rl_points de (set H) k \<subseteq> rl_points de (set (H @ [op])) k" for k by (rule rl_points_mono) auto
  ultimately show ?thesis
    using full K log True by (simp add: rl_log_complete_def rl_log_sound_def rl_log_keys_def) blast
next
  case False
  have "op_key ` set (keeper_ops (rl_log e) @ [op]) \<subseteq> op_key ` set (H @ [op])"
    using K by (auto simp: rl_log_keys_def)
  note a = rl_keeper_append_complete [OF full ok codec cap this _ keys, of n]
  show ?thesis using a False log by (simp add: rl_log_keys_def)
qed

lemma rl_caps_mono: "rl_caps de H' cap \<Longrightarrow> set H \<subseteq> set H' \<Longrightarrow> rl_caps de H cap"
  unfolding rl_caps_def by (meson card_mono finite_rl_points order_trans rl_points_mono)

lemma rl_history_prefix:
  assumes "rl_history_ok de (set (H @ ops))" "rl_caps de (H @ ops) cap" "card (op_key ` set (H @ ops)) \<le> AUTO_COMPACT_THRESHOLD"
  shows "rl_history_ok de (set H)" "rl_caps de H cap" "card (op_key ` set H) \<le> AUTO_COMPACT_THRESHOLD"
proof -
  show "rl_history_ok de (set H)" by (rule rl_history_ok_subset [OF assms(1)]) simp
  show "rl_caps de H cap" by (rule rl_caps_mono [OF assms(2)]) simp
  have "card (op_key ` set H) \<le> card (op_key ` set (H @ ops))" by (rule card_mono) auto
  with assms(3) show "card (op_key ` set H) \<le> AUTO_COMPACT_THRESHOLD" by simp
qed

lemma rl_reach_complete:
  assumes "rl_reach ser de c e H" "rl_history_ok de (set H)" "shard_codec ser de cap" "rl_caps de H cap"
    "card (op_key ` set H) \<le> AUTO_COMPACT_THRESHOLD"
  shows "rl_repr de c e H \<and> rl_log_complete de (rl_export_ops e) H \<and> rl_log_keys e H"
  using assms
proof (induction rule: rl_reach.induct)
  case (start r)
  show ?case
    using rl_repr_new by (simp add: rl_log_keys_def rl_log_complete_def rl_log_sound_def rl_new_def rl_export_ops_def keeper_export_def keeper_new_def)
next
  case (put c e H now k v c' e' res)
  let ?op = "Insert k v (lamport_tick c) (rl_replica_id e)"
  note H = rl_history_prefix [OF put.prems(1,3,4)]
  note IH = put.IH [OF H(1) put.prems(2) H(2,3)]
  have ok: "rl_history_ok de (set H \<union> {?op})" using put.prems(1) by simp
  have inv: "rl_inv e" using IH by (simp add: rl_repr_def)
  note eff = rl_put_local_effect [OF inv put.hyps(2)]
  have r: "rl_repr de c' e' (H @ [?op])" using rl_put_repr [OF _ _ put.hyps(2)] IH ok by simp
  show ?case
    using rl_local_complete [OF _ _ ok put.prems(2,3,4) _ r, of e c] IH eff(4,5) r
    by (simp add: rl_export_ops_def keeper_export_def)
next
  case (delete c e H now k c' e' res)
  let ?op = "Remove k (lamport_tick c) (rl_replica_id e)"
  note H = rl_history_prefix [OF delete.prems(1,3,4)]
  note IH = delete.IH [OF H(1) delete.prems(2) H(2,3)]
  have ok: "rl_history_ok de (set H \<union> {?op})" using delete.prems(1) by simp
  have inv: "rl_inv e" using IH by (simp add: rl_repr_def)
  note eff = rl_delete_local_effect [OF inv delete.hyps(2)]
  have r: "rl_repr de c' e' (H @ [?op])" using rl_delete_repr [OF _ _ delete.hyps(2)] IH ok by simp
  show ?case
    using rl_local_complete [OF _ _ ok delete.prems(2,3,4) _ r, of e c] IH eff(4,5) r
    by (simp add: rl_export_ops_def keeper_export_def)
next
  case (merge c e H now ops c' e' cs)
  note H = rl_history_prefix [OF merge.prems(1,3,4)]
  note IH = merge.IH [OF H(1) merge.prems(2) H(2,3)]
  have ok: "rl_history_ok de (set H \<union> set ops)" using merge.prems(1) by simp
  have inv: "rl_inv e" using IH by (simp add: rl_repr_def)
  note eff = rl_remote_effect(8) [OF inv merge.hyps(2)]
  have r: "rl_repr de c' e' (H @ ops)" using rl_remote_repr [OF _ ok merge.hyps(2)] IH by simp
  have f: "epoch_max_wins_fold ser de = compact_operations ser de" by (simp add: epoch_max_wins_fold_def fun_eq_iff)
  have "op_key ` set (compact_by_key (compact_operations ser de) (keeper_ops (rl_log e) @ sort_key op_version ops)) \<subseteq> op_key ` set (H @ ops)"
    by (rule subset_trans [OF compact_by_key_keys_subset [OF compact_operations_keeps_key]])
      (use IH in \<open>auto simp: rl_log_keys_def image_Un\<close>)
  then show ?case
    using IH r eff rl_remote_complete [OF _ ok merge.prems(2,3), of "rl_log e"]
    by (auto simp: rl_export_ops_def keeper_export_def rl_log_keys_def keeper_merge_batch_def f)
qed

text \<open>C6.
  Anti-entropy through compacted logs, for any two engines reached from fresh ones by local writes,
  local deletes and merges.  When \<open>b\<close> merges \<open>a\<close>'s exported log and \<open>a\<close> then merges the log \<open>b\<close>
  exports, both engines hold, for every key, the same state, which is the join of all operations
  either had absorbed: folding a key's operations into one serialized shard loses nothing, as long
  as every key has at most \<open>cap\<close> points, the serializer round-trips shards of that size, and no
  engine has seen more keys than the size backstop of the log allows.
\<close>

theorem rl_exchange_converges:
  assumes codec: "shard_codec ser de cap" and cap: "rl_caps de (A @ B) cap"
    and ok: "rl_history_ok de (set A \<union> set B)"
    and reach: "rl_reach ser de ca ea A" "rl_reach ser de cb eb B"
    and keys: "card (op_key ` set A) \<le> AUTO_COMPACT_THRESHOLD" "card (op_key ` set B) \<le> AUTO_COMPACT_THRESHOLD"
    and ab: "rl_apply_remote_ops ser de now (rl_export_ops ea) (cb, eb) = ((cb', eb'), cs)"
    and ba: "rl_apply_remote_ops ser de now' (rl_export_ops eb') (ca, ea) = ((ca', ea'), cs')"
  shows "map_option state_abs (rl_state_of ea' k) = rl_value de (A @ B) k \<and>
         map_option state_abs (rl_state_of eb' k) = rl_value de (A @ B) k \<and>
         rl_state_of ea' k = rl_state_of eb' k \<and> rl_get ser ea' k = rl_get ser eb' k"
proof -
  have hist: "rl_history_ok de (set A)" "rl_history_ok de (set B)" "rl_caps de A cap" "rl_caps de B cap"
    using rl_history_ok_subset [OF ok] rl_caps_mono [OF cap] by auto
  have a: "rl_repr de ca ea A" "rl_log_complete de (rl_export_ops ea) A"
    and b: "rl_repr de cb eb B" "rl_log_complete de (rl_export_ops eb) B"
    using rl_reach_complete [OF reach(1) hist(1) codec hist(3) keys(1)] rl_reach_complete [OF reach(2) hist(2) codec hist(4) keys(2)]
    by blast+
  let ?X = "rl_export_ops ea" and ?Y = "rl_export_ops eb'"
  have soundX: "rl_log_sound de ?X A" and valX: "\<And>k. rl_value de ?X k = rl_value de A k"
    using a(2) by (simp_all add: rl_log_complete_def)
  note okX = rl_log_sound_ok [OF soundX ok]
  have okBX: "rl_history_ok de (set B \<union> set ?X)" by (rule rl_history_ok_subset [OF okX]) auto
  have rb: "rl_repr de cb' eb' (B @ ?X)" by (rule rl_remote_repr [OF b(1) okBX ab])
  have ptsX: "rl_points de (set ?X) k \<subseteq> rl_points de (set A) k" for k
    using soundX by (simp add: rl_log_sound_def)
  have capBX: "rl_caps de (B @ ?X) cap"
    unfolding rl_caps_def
  proof
    fix k
    have "card (rl_points de (set (B @ ?X)) k) \<le> card (rl_points de (set (A @ B)) k)"
      by (rule card_mono [OF finite_rl_points]) (use ptsX in \<open>auto simp: rl_points_Un\<close>)
    with cap show "card (rl_points de (set (B @ ?X)) k) \<le> cap"
      unfolding rl_caps_def using order_trans by blast
  qed
  have inv: "rl_inv eb" using b(1) by (simp add: rl_repr_def)
  have fullY: "rl_log_complete de ?Y (B @ ?X)"
  proof (cases "?X = []")
    case True
    with rl_remote_effect(8) [OF inv ab] b(2) show ?thesis by (simp add: rl_export_ops_def keeper_export_def)
  next
    case False
    with rl_remote_effect(8) [OF inv ab] rl_remote_complete [OF _ okBX codec capBX] b(2)
    show ?thesis by (simp add: rl_export_ops_def keeper_export_def)
  qed
  then have soundY: "rl_log_sound de ?Y (B @ ?X)" and valY: "\<And>k. rl_value de ?Y k = rl_value de (B @ ?X) k"
    by (simp_all add: rl_log_complete_def)
  have "rl_history_ok de (set (B @ ?X) \<union> set A)" by (rule rl_history_ok_subset [OF okX]) auto
  note okY = rl_log_sound_ok [OF soundY this]
  have okAY: "rl_history_ok de (set A \<union> set ?Y)" by (rule rl_history_ok_subset [OF okY]) auto
  have ra: "rl_repr de ca' ea' (A @ ?Y)" by (rule rl_remote_repr [OF a(1) okAY ba])
  have okAB: "rl_history_ok de (set (A @ B))" using ok by simp
  have vB: "rl_value de (B @ ?X) k = rl_value de (A @ B) k" for k
  proof -
    have "rl_value de (B @ ?X) k = rl_value de (?X @ B) k" by (rule rl_value_set_eq) (use okBX in auto)
    also have "\<dots> = rl_value de (A @ B) k" by (rule rl_value_append_cong [OF valX])
    finally show ?thesis .
  qed
  have vA: "rl_value de (A @ ?Y) k = rl_value de (A @ B) k" for k
  proof -
    have "rl_value de (A @ ?Y) k = rl_value de (?Y @ A) k" by (rule rl_value_set_eq) (use okAY in auto)
    also have "\<dots> = rl_value de ((A @ B) @ A) k" by (rule rl_value_append_cong) (simp add: valY vB)
    also have "\<dots> = rl_value de (A @ B) k" by (rule rl_value_set_eq) (use ok in \<open>auto simp: Un_commute Un_assoc\<close>)
    finally show ?thesis .
  qed
  have "rl_state_of ea' = rl_state_of eb'"
    by (rule rl_repr_states_eq [OF ra rb]) (simp add: fun_eq_iff vA vB)
  with rb vB show ?thesis by (simp add: rl_get_state rl_repr_def)
qed

lemma demo_caps: "rl_caps fixed_de demo_ops 1000"
  by (simp add: rl_caps_def demo_points)

definition demo_replica :: "u64 \<times> rl_engine" where
  "demo_replica = rl_run fixed_ser fixed_de 1 [(0, demo_ops)]"

lemma demo_replica_repr: "rl_repr fixed_de (fst demo_replica) (snd demo_replica) demo_ops"
  using rl_run_repr [of fixed_de "[(0, demo_ops)]" fixed_ser 1] demo_history_ok
  by (simp add: demo_replica_def)

definition demo_counters :: "operation list" where
  "demo_counters = [Insert ''r'' (ec_encode 1 9) 1 1, Insert ''r'' (ec_encode 1 5) 1 2]"

lemma demo_counter_points:
  "rl_points fixed_de (set demo_counters) k =
     (if k = ''r'' then {\<lparr>lp_value = EpochCount 1 9, lp_version = (1, 1)\<rparr>,
                         \<lparr>lp_value = EpochCount 1 5, lp_version = (1, 2)\<rparr>} else {})"
  unfolding rl_points_states by (simp add: demo_counters_def raw_insert_value from_live_point_def insert_commute)

lemma demo_counters_ok: "rl_history_ok fixed_de (set demo_counters)"
proof (rule rl_history_okI)
  show "state_wf s" if "op \<in> set demo_counters" "operation_state fixed_de op = Some s" for op s
    using that by (auto simp: demo_counters_def raw_insert_value from_live_point_def front_def after_tombstone_def)
  show "coherent (rl_points fixed_de (set demo_counters) k)" for k
    by (auto simp: demo_counter_points coherent_def)
qed

definition demo_put :: "u128 \<Rightarrow> u64 \<Rightarrow> u64 \<times> rl_engine" where
  "demo_put r n = fst (rl_put_local fixed_ser fixed_de 0 ''r'' (ec_encode 1 n) (lamport_new, rl_new r))"

lemma demo_put_reach:
  "rl_reach fixed_ser fixed_de (fst (demo_put r n)) (snd (demo_put r n)) [Insert ''r'' (ec_encode 1 n) 1 r]"
proof -
  obtain c' e' res where p: "rl_put_local fixed_ser fixed_de 0 ''r'' (ec_encode 1 n) (lamport_new, rl_new r) = ((c', e'), res)"
    by (metis prod.exhaust)
  have "lamport_tick lamport_new = 1" "rl_replica_id (rl_new r) = r"
    by (simp_all add: lamport_tick_def lamport_new_def rl_new_def saturating_add_def)
  then show ?thesis using rl_reach.put [OF rl_reach.start p] p by (simp add: demo_put_def)
qed

theorem rl_exchange_converges_witness:
  "\<exists>cb' eb' cs ca' ea' cs'.
     rl_apply_remote_ops fixed_ser fixed_de 3 (rl_export_ops (snd (demo_put 1 9))) (demo_put 2 5) = ((cb', eb'), cs) \<and>
     rl_apply_remote_ops fixed_ser fixed_de 4 (rl_export_ops eb') (demo_put 1 9) = ((ca', ea'), cs') \<and>
     rl_get fixed_ser ea' ''r'' = rl_get fixed_ser eb' ''r''"
proof -
  obtain cb' eb' cs where ab: "rl_apply_remote_ops fixed_ser fixed_de 3 (rl_export_ops (snd (demo_put 1 9)))
      (fst (demo_put 2 5), snd (demo_put 2 5)) = ((cb', eb'), cs)"
    by (metis prod.exhaust)
  obtain ca' ea' cs' where ba: "rl_apply_remote_ops fixed_ser fixed_de 4 (rl_export_ops eb')
      (fst (demo_put 1 9), snd (demo_put 1 9)) = ((ca', ea'), cs')"
    by (metis prod.exhaust)
  have caps: "rl_caps fixed_de demo_counters 1000" by (simp add: rl_caps_def demo_counter_points)
  have "rl_get fixed_ser ea' ''r'' = rl_get fixed_ser eb' ''r''"
    using rl_exchange_converges [OF fixed_codec _ _ demo_put_reach demo_put_reach _ _ ab ba] caps demo_counters_ok
    by (simp add: demo_counters_def AUTO_COMPACT_THRESHOLD_def insert_commute)
  with ab ba show ?thesis by auto
qed

section \<open>The value read\<close>

text \<open>C7.
  What a rate-limit read means.  A key is live exactly when some point of its history is newer
  than the newest delete of its history, and then decoding the bytes read gives the greatest
  (epoch, count) among the points newer than that delete.
\<close>

theorem rl_read_is_max:
  assumes repr: "rl_repr de c e H" and ok: "rl_history_ok de (set H)"
    and codec: "shard_codec ser de cap" and cap: "rl_caps de H cap"
    and seen: "rl_states de (ops_for k H) \<noteq> []"
    and live: "live = newer_points (Max (rl_tombstones de H k)) (rl_points de (set H) k)"
  shows "if live = {} then rl_get ser e k = None
         else \<exists>b. rl_get ser e k = Some b \<and> rl_decode de b = Some (Max (lp_value ` live))"
proof -
  have val: "rl_value de H k = Some (Max (rl_tombstones de H k), frontier live)"
    unfolding live by (simp add: rl_value_char [OF ok seen] Let_def)
  then obtain s where s: "rl_state_of e k = Some s" "state_abs s = (Max (rl_tombstones de H k), frontier live)"
    using repr by (cases "rl_state_of e k") (auto simp: rl_repr_def dest: spec [of _ k])
  have wf: "state_wf s" and pts: "state_points s \<subseteq> rl_points de (set H) k"
    using repr s(1) by (simp_all add: rl_repr_def)
  have fin: "finite live" unfolding live newer_points_def by simp
  show ?thesis
  proof (cases "live = {}")
    case True
    then have "state_points s = {}" using s(2) by (auto simp: state_abs_def frontier_def)
    with wf have "\<exists>v. s = Tombstone v" by (cases s) auto
    with True s(1) show ?thesis by (auto simp: rl_get_state)
  next
    case False
    then obtain m where "m \<in> frontier live" using finite_maximal_above [OF fin] by blast
    then have "state_points s \<noteq> {}" using s(2) by (auto simp: state_abs_def)
    then obtain sh where sh: "s = Live sh" by (cases s) auto
    have "length (live_points sh) \<le> cap"
      using length_front [of "live_points sh" "rl_points de (set H) k"] wf pts cap sh
      by (auto simp: rl_caps_def intro: order_trans)
    then obtain b where b: "ser sh = Some b" "de b = Some sh"
      using codec wf sh unfolding shard_codec_def by auto
    have "set (live_points sh) = frontier live" using s(2) sh by (simp add: state_abs_def)
    then have "current_value sh = Some (Max (lp_value ` live))"
      using current_value_Max [of sh] wf sh Max_frontier [OF fin False] by simp
    then show ?thesis
      using False s(1) sh b wf by (simp add: rl_get_state encode_shard_def rl_decode_def decode_shard_def)
  qed
qed

theorem rl_read_is_max_witness:
  "\<exists>b. rl_get fixed_ser (snd demo_replica) ''r'' = Some b \<and>
       rl_decode fixed_de b = Some (EpochCount 1 9)"
proof -
  have self: "ops_for ''r'' demo_ops = demo_ops" by (simp add: demo_ops_def)
  have T: "Max (rl_tombstones fixed_de demo_ops ''r'') = Some (1, 2)"
    by (simp add: rl_tombstones_def self demo_states from_live_point_def)
  let ?live = "{\<lparr>lp_value = EpochCount 1 9, lp_version = (3, 1)\<rparr>,
               \<lparr>lp_value = EpochCount 1 5, lp_version = (4, 1)\<rparr>} :: live_point set"
  have live: "?live = newer_points (Max (rl_tombstones fixed_de demo_ops ''r'')) (rl_points fixed_de (set demo_ops) ''r'')"
    by (auto simp: T demo_points newer_points_def after_tombstone_def)
  have "rl_states fixed_de (ops_for ''r'' demo_ops) \<noteq> []" by (simp add: self demo_states)
  from rl_read_is_max [OF demo_replica_repr demo_history_ok fixed_codec demo_caps this live]
  have "\<exists>b. rl_get fixed_ser (snd demo_replica) ''r'' = Some b \<and>
       rl_decode fixed_de b = Some (Max (lp_value ` ?live))" by simp
  moreover have "Max (lp_value ` ?live) = EpochCount 1 9"
    by (simp add: max_def less_eq_epoch_count_def)
  ultimately show ?thesis by simp
qed

text \<open>
  The application payload round-trips: a 16-byte (epoch, count) payload decodes to itself, as
  long as the shard decoder does not mistake it for a shard with live points; and a local
  write of it becomes a single live point at the write's version.
\<close>

theorem rl_payload_roundtrip:
  assumes "decode_shard de (ec_encode epoch cnt) = None"
  shows "length (ec_encode epoch cnt) = 16 \<and>
         rl_decode de (ec_encode epoch cnt) = Some (EpochCount epoch cnt) \<and>
         state_from_insert_value de (ec_encode epoch cnt) v =
           Some (Live \<lparr>live_points = [\<lparr>lp_value = EpochCount epoch cnt, lp_version = v\<rparr>],
                       shard_tombstone = None\<rparr>)"
  using assms length_ec_encode [of epoch cnt]
  by (simp add: rl_decode_def state_from_insert_value_def decode_raw_encode from_live_point_def
      EPOCH_MAX_WINS_ENCODED_LEN_def)

theorem rl_payload_roundtrip_witness:
  "rl_decode fixed_de (ec_encode 3 (- 2)) = Some (EpochCount 3 (- 2))"
proof -
  have "decode_shard fixed_de (ec_encode 3 (- 2)) = None" by (simp add: fixed_de_raw)
  from rl_payload_roundtrip [OF this] show ?thesis by blast
qed
end
