(* ===== verification/Rust_Text.thy ===== *)
theory Rust_Text
  imports Smg_Prelude
begin

text \<open>
  The string methods of the standard library the gateway uses.  A string is its list of bytes;
  only ASCII white space is trimmed.
\<close>

definition is_space :: "char \<Rightarrow> bool" where
  "is_space c \<longleftrightarrow> c \<in> {CHR '' '', CHR 0x09, CHR 0x0A, CHR 0x0B, CHR 0x0C, CHR 0x0D}"

definition trim :: "string \<Rightarrow> string" where
  "trim s = rev (dropWhile is_space (rev (dropWhile is_space s)))"

definition to_ascii_lowercase :: "char \<Rightarrow> char" where
  "to_ascii_lowercase c =
     (if CHR ''A'' \<le> c \<and> c \<le> CHR ''Z'' then char_of (of_char c + 32 :: nat) else c)"

definition eq_ignore_ascii_case :: "string \<Rightarrow> string \<Rightarrow> bool" where
  "eq_ignore_ascii_case a b \<longleftrightarrow> map to_ascii_lowercase a = map to_ascii_lowercase b"

text \<open>\<open>str::starts_with\<close>.\<close>

definition starts_with :: "string \<Rightarrow> string \<Rightarrow> bool" where
  "starts_with p key \<longleftrightarrow> take (length p) key = p"

definition strip_prefix :: "string \<Rightarrow> string \<Rightarrow> string option" where
  "strip_prefix p s = (if starts_with p s then Some (drop (length p) s) else None)"

lemma starts_with_append [simp]: "starts_with p (p @ s)"
  by (simp add: starts_with_def)

lemma starts_with_iff: "starts_with p s \<longleftrightarrow> (\<exists>r. s = p @ r)"
  unfolding starts_with_def by (metis append_eq_conv_conj append_take_drop_id)

lemma strip_prefix_Some [simp]: "strip_prefix p s = Some r \<longleftrightarrow> s = p @ r"
  by (auto simp: strip_prefix_def starts_with_iff)

lemma strip_prefix_None: "strip_prefix p s = None \<longleftrightarrow> \<not> starts_with p s"
  by (simp add: strip_prefix_def)

text \<open>\<open>trim\<close> removes the white space around a text and nothing else.\<close>

lemma trim_fixed: "s = [] \<or> \<not> is_space (hd s) \<and> \<not> is_space (last s) \<Longrightarrow> trim s = s"
  using dropWhile_eq_self_iff [of is_space s] dropWhile_eq_self_iff [of is_space "rev s"]
  by (cases "s = []") (simp_all add: trim_def hd_rev)

lemma trim_Nil [simp]: "trim [] = []"
  by (simp add: trim_def)

lemma last_dropWhile_same: "dropWhile P xs \<noteq> [] \<Longrightarrow> last (dropWhile P xs) = last xs"
  by (metis last_appendR takeWhile_dropWhile_id)

lemma trim_ends: "trim s = [] \<or> \<not> is_space (hd (trim s)) \<and> \<not> is_space (last (trim s))"
proof -
  define t where "t = dropWhile is_space s"
  define u where "u = dropWhile is_space (rev t)"
  have "\<not> is_space (hd u) \<and> \<not> is_space (last u)" if "u \<noteq> []"
  proof
    show "\<not> is_space (hd u)" using that unfolding u_def by (rule hd_dropWhile)
    have "t \<noteq> []" using that by (auto simp: u_def)
    then show "\<not> is_space (last u)"
      using that hd_dropWhile [of is_space s] last_dropWhile_same [of is_space "rev t"]
      by (simp add: u_def t_def last_rev)
  qed
  then show ?thesis
    by (cases "u = []") (simp_all add: trim_def hd_rev last_rev flip: t_def u_def)
qed

lemma trim_trim [simp]: "trim (trim s) = trim s"
  using trim_ends by (rule trim_fixed)

lemma trim_set: "set (trim s) \<subseteq> set s"
  unfolding trim_def by (metis set_dropWhileD set_rev subsetI)

end
