(* ===== verification/Crdt_Router.thy ===== *)
theory Crdt_Router
  imports Rust_Text Lww_Network Rate_Limit_Properties
begin

text \<open>
  Model of \<open>crdt_kv/crdt.rs\<close> and \<open>crdt_kv/merge_strategy.rs\<close>: the map that routes every key
  to the engine of the longest registered prefix.  A \<open>dyn NamespaceCrdtEngine\<close> is the sum of
  the two engine states; the sum meets the contract \<open>namespace_engine\<close> (interpretation \<open>dyn\<close>),
  and the router's lemmas use the contract only.
\<close>

section \<open>Engines behind the trait\<close>

datatype merge_strategy = LastWriterWins | EpochMaxWins

datatype engine = Lww_Handle lww_engine | Rate_Limit_Handle rl_engine

fun eng_inv :: "engine \<Rightarrow> bool" where
  "eng_inv (Lww_Handle e) = lww_inv e"
| "eng_inv (Rate_Limit_Handle e) = rl_inv e"

fun eng_put_local ::
    "shard_ser \<Rightarrow> shard_de \<Rightarrow> instant \<Rightarrow> string \<Rightarrow> bytes \<Rightarrow> u64 \<times> engine \<Rightarrow> (u64 \<times> engine) \<times> bytes option" where
  "eng_put_local ser de now key val (clock, Lww_Handle e) =
     (case lww_put_local now key val (clock, e) of ((c', e'), r) \<Rightarrow> ((c', Lww_Handle e'), r))"
| "eng_put_local ser de now key val (clock, Rate_Limit_Handle e) =
     (case rl_put_local ser de now key val (clock, e) of ((c', e'), r) \<Rightarrow> ((c', Rate_Limit_Handle e'), r))"

fun eng_delete_local ::
    "shard_ser \<Rightarrow> shard_de \<Rightarrow> instant \<Rightarrow> string \<Rightarrow> u64 \<times> engine \<Rightarrow> (u64 \<times> engine) \<times> bytes option" where
  "eng_delete_local ser de now key (clock, Lww_Handle e) =
     (case lww_delete_local now key (clock, e) of ((c', e'), r) \<Rightarrow> ((c', Lww_Handle e'), r))"
| "eng_delete_local ser de now key (clock, Rate_Limit_Handle e) =
     (case rl_delete_local ser de now key (clock, e) of ((c', e'), r) \<Rightarrow> ((c', Rate_Limit_Handle e'), r))"

fun eng_apply_remote_ops ::
    "shard_ser \<Rightarrow> shard_de \<Rightarrow> instant \<Rightarrow> operation list \<Rightarrow> u64 \<times> engine \<Rightarrow> (u64 \<times> engine) \<times> crdt_change list" where
  "eng_apply_remote_ops ser de now ops (clock, Lww_Handle e) =
     (case lww_apply_remote_ops now ops (clock, e) of ((c', e'), cs) \<Rightarrow> ((c', Lww_Handle e'), cs))"
| "eng_apply_remote_ops ser de now ops (clock, Rate_Limit_Handle e) =
     (case rl_apply_remote_ops ser de now ops (clock, e) of ((c', e'), cs) \<Rightarrow> ((c', Rate_Limit_Handle e'), cs))"

fun eng_gc_tombstones :: "instant \<Rightarrow> nat \<Rightarrow> engine \<Rightarrow> engine \<times> nat" where
  "eng_gc_tombstones now grace (Lww_Handle e) =
     (case lww_gc_tombstones now grace e of (e', n) \<Rightarrow> (Lww_Handle e', n))"
| "eng_gc_tombstones now grace (Rate_Limit_Handle e) =
     (case rl_gc_tombstones now grace e of (e', n) \<Rightarrow> (Rate_Limit_Handle e', n))"

fun eng_get :: "shard_ser \<Rightarrow> engine \<Rightarrow> string \<Rightarrow> bytes option" where
  "eng_get ser (Lww_Handle e) key = lww_get e key"
| "eng_get ser (Rate_Limit_Handle e) key = rl_get ser e key"

fun eng_contains_key :: "engine \<Rightarrow> string \<Rightarrow> bool" where
  "eng_contains_key (Lww_Handle e) key = lww_contains_key e key"
| "eng_contains_key (Rate_Limit_Handle e) key = rl_contains_key e key"

fun eng_keys :: "engine \<Rightarrow> string list" where
  "eng_keys (Lww_Handle e) = lww_keys e"
| "eng_keys (Rate_Limit_Handle e) = rl_keys e"

fun eng_len :: "engine \<Rightarrow> nat" where
  "eng_len (Lww_Handle e) = lww_len e"
| "eng_len (Rate_Limit_Handle e) = rl_len e"

fun eng_generation :: "engine \<Rightarrow> u64" where
  "eng_generation (Lww_Handle e) = lww_generation e"
| "eng_generation (Rate_Limit_Handle e) = rl_generation e"

fun eng_op_generation :: "engine \<Rightarrow> u64" where
  "eng_op_generation (Lww_Handle e) = lww_op_generation e"
| "eng_op_generation (Rate_Limit_Handle e) = rl_op_generation e"

fun eng_export_ops :: "engine \<Rightarrow> operation list" where
  "eng_export_ops (Lww_Handle e) = lww_export_ops e"
| "eng_export_ops (Rate_Limit_Handle e) = rl_export_ops e"

lemma eng_get_Lww: "eng_get ser (Lww_Handle e) = lww_get e"
  by (simp add: fun_eq_iff)

lemma eng_get_Rl: "eng_get ser (Rate_Limit_Handle e) = rl_get ser e"
  by (simp add: fun_eq_iff)

interpretation dyn: namespace_engine eng_inv "eng_put_local ser de" "eng_delete_local ser de"
  "eng_apply_remote_ops ser de" eng_gc_tombstones "eng_get ser" eng_contains_key eng_keys eng_len
  eng_op_generation eng_export_ops for ser de
proof (unfold_locales, goal_cases)
  case (1 s) then show ?case by (cases s) (auto split: prod.splits intro: lww.inv_put rl.inv_put)
next
  case (2 s) then show ?case by (cases s) (auto split: prod.splits intro: lww.inv_delete rl.inv_delete)
next
  case (3 s) then show ?case by (cases s) (auto split: prod.splits intro: lww.inv_remote rl.inv_remote)
next
  case (4 s) then show ?case by (cases s) (auto split: prod.splits intro: lww.inv_gc rl.inv_gc)
next
  case (5 s) then show ?case by (cases s) (auto intro: lww.get_contains rl.get_contains)
next
  case (6 s) then show ?case by (cases s) (simp_all add: lww.set_live_keys rl.set_live_keys)
next
  case (7 s) then show ?case by (cases s) (simp_all add: lww.distinct_live_keys rl.distinct_live_keys)
next
  case (8 s) then show ?case by (cases s) (simp_all add: lww.len_live_keys rl.len_live_keys)
next
  case (9 s) then show ?case by (cases s) (auto split: prod.splits simp: lww.put_frame rl.put_frame)
next
  case (10 s) then show ?case by (cases s) (auto split: prod.splits simp: lww.delete_frame rl.delete_frame)
next
  case (11 s) then show ?case by (cases s) (auto split: prod.splits simp: lww.remote_frame rl.remote_frame)
next
  case (12 s) then show ?case
    by (cases s) (simp split: prod.splits; use lww.remote_changes rl.remote_changes in force)+
next
  case (13 s) then show ?case
    by (cases s) (auto split: prod.splits simp: eng_get_Lww eng_get_Rl lww.gc_get rl.gc_get)
next
  case (14 s) then show ?case
    by (cases s) (auto split: prod.splits dest: lww.put_op_generation rl.put_op_generation)
next
  case (15 s) then show ?case
    by (cases s) (auto split: prod.splits dest: lww.delete_op_generation rl.delete_op_generation)
next
  case (16 s) then show ?case
    by (cases s) (auto split: prod.splits dest: lww.remote_op_generation rl.remote_op_generation)
next
  case (17 s) then show ?case
    by (cases s) (auto split: prod.splits dest: lww.gc_op_generation rl.gc_op_generation)
next
  case (18 s) then show ?case by (cases s) (auto split: prod.splits simp: lww.put_contains rl.put_contains)
next
  case (19 s) then show ?case by (cases s) (auto split: prod.splits simp: lww.delete_contains rl.delete_contains)
next
  case (20 s) then show ?case by (cases s) (auto split: prod.splits simp: lww.remote_contains rl.remote_contains)
next
  case (21 s) then show ?case by (cases s) (auto split: prod.splits simp: lww.gc_contains rl.gc_contains)
qed

section \<open>The router\<close>

record crdt_or_map =
  cm_engines :: "(string \<times> engine) list"
  cm_default_engine :: engine
  cm_clock :: u64
  cm_replica_id :: replica_id
  cm_op_snapshot :: "(u64 \<times> operation list) option"

definition with_replica_id :: "replica_id \<Rightarrow> crdt_or_map" where
  "with_replica_id r =
     \<lparr>cm_engines = [], cm_default_engine = Lww_Handle (lww_new r), cm_clock = lamport_new,
      cm_replica_id = r, cm_op_snapshot = None\<rparr>"

fun strategy_engine :: "merge_strategy \<Rightarrow> replica_id \<Rightarrow> engine" where
  "strategy_engine LastWriterWins r = Lww_Handle (lww_new r)"
| "strategy_engine EpochMaxWins r = Rate_Limit_Handle (rl_new r)"

text \<open>
  \<open>sort_by_key\<close> is stable; \<open>Reverse\<close> of a length is the negated length.  The failed
  \<open>assert!\<close> of a second registration is \<open>None\<close>.
\<close>

definition register_merge_strategy ::
    "string \<Rightarrow> merge_strategy \<Rightarrow> crdt_or_map \<Rightarrow> crdt_or_map option" where
  "register_merge_strategy p strategy m =
     (if \<exists>x \<in> set (cm_engines m). fst x = p then None
      else Some (m\<lparr>cm_engines :=
             sort_key (\<lambda>x. - int (length (fst x)))
               (cm_engines m @ [(p, strategy_engine strategy (cm_replica_id m))])\<rparr>))"

text \<open>\<open>position\<close> of the first matching prefix, or the index of the default engine.\<close>

fun engine_index :: "(string \<times> engine) list \<Rightarrow> string \<Rightarrow> nat" where
  "engine_index [] key = 0"
| "engine_index ((p, e) # tbl) key = (if starts_with p key then 0 else Suc (engine_index tbl key))"

fun engine_for :: "(string \<times> engine) list \<Rightarrow> engine \<Rightarrow> string \<Rightarrow> engine" where
  "engine_for [] dflt key = dflt"
| "engine_for ((p, e) # tbl) dflt key =
     (if starts_with p key then e else engine_for tbl dflt key)"

definition engine_for_key :: "crdt_or_map \<Rightarrow> string \<Rightarrow> engine" where
  "engine_for_key m key = engine_for (cm_engines m) (cm_default_engine m) key"

definition all_engines :: "crdt_or_map \<Rightarrow> engine list" where
  "all_engines m = map snd (cm_engines m) @ [cm_default_engine m]"

text \<open>The effect of a call through the shared handle of engine \<open>i\<close>.\<close>

definition set_engine :: "nat \<Rightarrow> u64 \<times> engine \<Rightarrow> crdt_or_map \<Rightarrow> crdt_or_map" where
  "set_engine i ce m =
     (if i < length (cm_engines m)
      then m\<lparr>cm_engines := (cm_engines m)[i := (fst (cm_engines m ! i), snd ce)], cm_clock := fst ce\<rparr>
      else m\<lparr>cm_default_engine := snd ce, cm_clock := fst ce\<rparr>)"

definition cm_insert ::
    "shard_ser \<Rightarrow> shard_de \<Rightarrow> instant \<Rightarrow> string \<Rightarrow> bytes \<Rightarrow> crdt_or_map \<Rightarrow> crdt_or_map \<times> bytes option" where
  "cm_insert ser de now key val m =
     (case eng_put_local ser de now key val (cm_clock m, engine_for_key m key) of
        (ce, r) \<Rightarrow> (set_engine (engine_index (cm_engines m) key) ce m, r))"

definition cm_remove ::
    "shard_ser \<Rightarrow> shard_de \<Rightarrow> instant \<Rightarrow> string \<Rightarrow> crdt_or_map \<Rightarrow> crdt_or_map \<times> bytes option" where
  "cm_remove ser de now key m =
     (case eng_delete_local ser de now key (cm_clock m, engine_for_key m key) of
        (ce, r) \<Rightarrow> (set_engine (engine_index (cm_engines m) key) ce m, r))"

definition cm_get :: "shard_ser \<Rightarrow> crdt_or_map \<Rightarrow> string \<Rightarrow> bytes option" where
  "cm_get ser m key = eng_get ser (engine_for_key m key) key"

definition cm_contains_key :: "crdt_or_map \<Rightarrow> string \<Rightarrow> bool" where
  "cm_contains_key m key = eng_contains_key (engine_for_key m key) key"

definition cm_generation :: "crdt_or_map \<Rightarrow> u64" where
  "cm_generation m = sum_list (map eng_generation (all_engines m))"

definition cm_keys :: "crdt_or_map \<Rightarrow> string list" where
  "cm_keys m = concat (map eng_keys (all_engines m))"

text \<open>The entries one engine contributes to \<open>all\<close>, then the ordered map of all of them.\<close>

definition engine_entries :: "shard_ser \<Rightarrow> engine \<Rightarrow> (string \<times> bytes) list" where
  "engine_entries ser e =
     List.map_filter (\<lambda>key. map_option (Pair key) (eng_get ser e key)) (eng_keys e)"

definition cm_all :: "shard_ser \<Rightarrow> crdt_or_map \<Rightarrow> (string \<times> bytes) list" where
  "cm_all ser m =
     sort_key fst
       (foldl (\<lambda>acc (key, val). AList.update key val acc) []
          (concat (map (engine_entries ser) (all_engines m))))"

definition cm_len :: "crdt_or_map \<Rightarrow> nat" where
  "cm_len m = sum_list (map eng_len (all_engines m))"

definition cm_is_empty :: "crdt_or_map \<Rightarrow> bool" where
  "cm_is_empty m \<longleftrightarrow> cm_len m = 0"

definition DEFAULT_TOMBSTONE_GRACE :: nat where
  "DEFAULT_TOMBSTONE_GRACE = 300"

definition gc_tombstones_with_grace :: "instant \<Rightarrow> nat \<Rightarrow> crdt_or_map \<Rightarrow> crdt_or_map \<times> nat" where
  "gc_tombstones_with_grace now grace m =
     (m\<lparr>cm_engines := map (\<lambda>(p, e). (p, fst (eng_gc_tombstones now grace e))) (cm_engines m),
        cm_default_engine := fst (eng_gc_tombstones now grace (cm_default_engine m))\<rparr>,
      sum_list (map (\<lambda>e. snd (eng_gc_tombstones now grace e)) (all_engines m)))"

definition cm_gc_tombstones :: "instant \<Rightarrow> crdt_or_map \<Rightarrow> crdt_or_map \<times> nat" where
  "cm_gc_tombstones now m = gc_tombstones_with_grace now DEFAULT_TOMBSTONE_GRACE m"

definition get_operation_log :: "crdt_or_map \<Rightarrow> operation list" where
  "get_operation_log m = concat (map eng_export_ops (all_engines m))"

definition log_generation :: "crdt_or_map \<Rightarrow> u64" where
  "log_generation m =
     sum_list (map (\<lambda>(p, e). eng_op_generation e) (cm_engines m)) + eng_op_generation (cm_default_engine m)"

definition operation_log_snapshot :: "crdt_or_map \<Rightarrow> crdt_or_map \<times> operation list" where
  "operation_log_snapshot m =
     (let gen = log_generation m; fresh = get_operation_log m
      in case cm_op_snapshot m of
           Some (cached_gen, snapshot) \<Rightarrow>
             if cached_gen = gen then (m, snapshot)
             else (m\<lparr>cm_op_snapshot := Some (gen, fresh)\<rparr>, fresh)
         | None \<Rightarrow> (m\<lparr>cm_op_snapshot := Some (gen, fresh)\<rparr>, fresh))"

fun bucket_ops ::
    "(string \<times> engine) list \<Rightarrow> operation list \<Rightarrow> operation list list \<Rightarrow> operation list list" where
  "bucket_ops tbl [] buckets = buckets"
| "bucket_ops tbl (op # ops) buckets =
     (let idx = engine_index tbl (op_key op)
      in bucket_ops tbl ops (buckets[idx := buckets ! idx @ [op]]))"

fun merge_buckets ::
    "shard_ser \<Rightarrow> shard_de \<Rightarrow> instant \<Rightarrow> nat \<Rightarrow> operation list list \<Rightarrow> crdt_or_map \<Rightarrow>
     crdt_or_map \<times> crdt_change list" where
  "merge_buckets ser de now idx [] m = (m, [])"
| "merge_buckets ser de now idx (ops # buckets) m =
     (if ops = [] then merge_buckets ser de now (Suc idx) buckets m
      else case eng_apply_remote_ops ser de now ops (cm_clock m, all_engines m ! idx) of
             (ce, cs) \<Rightarrow>
               (case merge_buckets ser de now (Suc idx) buckets (set_engine idx ce m) of
                  (m', cs') \<Rightarrow> (m', cs @ cs')))"

definition cm_merge ::
    "shard_ser \<Rightarrow> shard_de \<Rightarrow> instant \<Rightarrow> operation list \<Rightarrow> crdt_or_map \<Rightarrow> crdt_or_map \<times> crdt_change list" where
  "cm_merge ser de now log m =
     merge_buckets ser de now 0
       (bucket_ops (cm_engines m) log (replicate (Suc (length (cm_engines m))) [])) m"

section \<open>Routing\<close>

lemma engine_index_le [simp]: "engine_index tbl k \<le> length tbl"
  by (induction tbl k rule: engine_index.induct) auto

lemma engine_for_nth: "engine_for tbl d k = (map snd tbl @ [d]) ! engine_index tbl k"
  by (induction tbl d k rule: engine_for.induct) auto

lemma engine_index_prefixes:
  "map fst tbl = map fst tbl' \<Longrightarrow> engine_index tbl k = engine_index tbl' k"
proof (induction tbl arbitrary: tbl')
  case Nil
  then show ?case by simp
next
  case (Cons a tbl)
  then show ?case by (cases a; cases tbl') auto
qed

definition cm_route :: "crdt_or_map \<Rightarrow> string \<Rightarrow> nat" where
  "cm_route m key = engine_index (cm_engines m) key"

lemma cm_route_le [simp]: "cm_route m k \<le> length (cm_engines m)"
  by (simp add: cm_route_def)

lemma length_all_engines [simp]: "length (all_engines m) = Suc (length (cm_engines m))"
  by (simp add: all_engines_def)

lemma engine_for_key_nth: "engine_for_key m k = all_engines m ! cm_route m k"
  by (simp add: engine_for_key_def engine_for_nth all_engines_def cm_route_def)

lemma engine_for_key_in: "engine_for_key m k \<in> set (all_engines m)"
  by (simp add: engine_for_key_nth less_Suc_eq_le)

lemma all_engines_set_engine:
  "i \<le> length (cm_engines m) \<Longrightarrow> all_engines (set_engine i ce m) = (all_engines m)[i := snd ce]"
  by (auto simp: all_engines_def set_engine_def list_update_append map_update)

lemma prefixes_set_engine [simp]: "map fst (cm_engines (set_engine i ce m)) = map fst (cm_engines m)"
  by (simp add: set_engine_def map_update) (metis list_update_id nth_map)

lemma length_set_engine [simp]: "length (cm_engines (set_engine i ce m)) = length (cm_engines m)"
  by (simp add: set_engine_def)

lemma cm_route_cong:
  "map fst (cm_engines m') = map fst (cm_engines m) \<Longrightarrow> cm_route m' k = cm_route m k"
  unfolding cm_route_def by (rule engine_index_prefixes)

lemma cm_route_set_engine [simp]: "cm_route (set_engine i ce m) k = cm_route m k"
  by (rule cm_route_cong) (rule prefixes_set_engine)

lemma snapshot_set_engine [simp]: "cm_op_snapshot (set_engine i ce m) = cm_op_snapshot m"
  by (simp add: set_engine_def)

lemma cm_get_nth: "cm_get ser m k = eng_get ser (all_engines m ! cm_route m k) k"
  by (simp add: cm_get_def engine_for_key_nth)

lemma cm_contains_nth: "cm_contains_key m k = eng_contains_key (all_engines m ! cm_route m k) k"
  by (simp add: cm_contains_key_def engine_for_key_nth)

definition engines_inv :: "crdt_or_map \<Rightarrow> bool" where
  "engines_inv m \<longleftrightarrow> (\<forall>e \<in> set (all_engines m). eng_inv e)"

lemma engines_inv_nth: "engines_inv m \<Longrightarrow> i \<le> length (cm_engines m) \<Longrightarrow> eng_inv (all_engines m ! i)"
  by (simp add: engines_inv_def less_Suc_eq_le)

lemma engines_inv_for: "engines_inv m \<Longrightarrow> eng_inv (engine_for_key m k)"
  using engine_for_key_in by (auto simp: engines_inv_def)

lemma engines_inv_set:
  "engines_inv m \<Longrightarrow> eng_inv e \<Longrightarrow> i \<le> length (cm_engines m) \<Longrightarrow> engines_inv (set_engine i (c, e) m)"
  using set_update_subset_insert [of "all_engines m" i e]
  by (auto simp: engines_inv_def all_engines_set_engine)

text \<open>Every live key sits in the engine it routes to.\<close>

definition cm_routed :: "crdt_or_map \<Rightarrow> bool" where
  "cm_routed m \<longleftrightarrow>
     (\<forall>i \<le> length (cm_engines m). \<forall>k. eng_contains_key (all_engines m ! i) k \<longrightarrow> cm_route m k = i)"

lemma cm_routedD:
  "cm_routed m \<Longrightarrow> i \<le> length (cm_engines m) \<Longrightarrow> eng_contains_key (all_engines m ! i) k \<Longrightarrow>
   cm_route m k = i"
  by (simp add: cm_routed_def)

lemma cm_routed_set:
  assumes "cm_routed m" "i \<le> length (cm_engines m)"
    and "\<And>k. cm_route m k \<noteq> i \<Longrightarrow> eng_contains_key e k \<Longrightarrow> eng_contains_key (all_engines m ! i) k"
  shows "cm_routed (set_engine i (c, e) m)"
  unfolding cm_routed_def
proof (intro allI impI)
  fix j k
  assume j: "j \<le> length (cm_engines (set_engine i (c, e) m))"
    and con: "eng_contains_key (all_engines (set_engine i (c, e) m) ! j) k"
  have "eng_contains_key (all_engines m ! j) k" if "cm_route m k \<noteq> j"
  proof (cases "j = i")
    case True
    with con assms(2) have "eng_contains_key e k" by (simp add: all_engines_set_engine less_Suc_eq_le)
    with that assms(3) True show ?thesis by blast
  next
    case False
    with con assms(2) show ?thesis by (simp add: all_engines_set_engine)
  qed
  with cm_routedD [OF assms(1), of j k] j show "cm_route (set_engine i (c, e) m) k = j"
    by (cases "cm_route m k = j") simp_all
qed

section \<open>Distribution of a batch\<close>

lemma bucket_ops_length [simp]: "length (bucket_ops tbl ops bs) = length bs"
  by (induction tbl ops bs rule: bucket_ops.induct) (simp_all add: Let_def)

lemma bucket_ops_nth:
  "length bs = Suc (length tbl) \<Longrightarrow> i \<le> length tbl \<Longrightarrow>
   bucket_ops tbl ops bs ! i = bs ! i @ filter (\<lambda>op. engine_index tbl (op_key op) = i) ops"
proof (induction tbl ops bs rule: bucket_ops.induct)
  case (1 tbl buckets)
  then show ?case by simp
next
  case (2 tbl op ops buckets)
  have "engine_index tbl (op_key op) < length buckets"
    using 2(2) by (simp add: less_Suc_eq_le)
  with 2 show ?case
    by (auto simp: Let_def nth_list_update)
qed

lemma replay_changes_append: "replay_changes (xs @ ys) v = replay_changes ys (replay_changes xs v)"
  by (induction xs arbitrary: v) auto

lemma replay_changes_cong: "v k = v' k \<Longrightarrow> replay_changes cs v k = replay_changes cs v' k"
proof (induction cs arbitrary: v v')
  case Nil
  then show ?case by simp
next
  case (Cons c cs)
  show ?case unfolding replay_changes.simps by (rule Cons.IH) (simp add: Cons.prems)
qed

lemma replay_changes_other: "k \<notin> change_key ` set cs \<Longrightarrow> replay_changes cs v k = v k"
  by (induction cs arbitrary: v) auto

text \<open>One bucket: the engine at its index absorbs it, the others keep their state.\<close>

lemma merge_one_bucket:
  assumes inv: "engines_inv m" and i: "i \<le> length (cm_engines m)"
    and app: "eng_apply_remote_ops ser de now ops (cm_clock m, all_engines m ! i) = ((c, e), cs)"
    and routed: "\<forall>op \<in> set ops. cm_route m (op_key op) = i"
  shows "engines_inv (set_engine i (c, e) m)"
    and "cm_routed m \<Longrightarrow> cm_routed (set_engine i (c, e) m)"
    and "replay_changes cs (cm_get ser m) = cm_get ser (set_engine i (c, e) m)"
    and "distinct (map change_key cs)" "\<And>x. x \<in> set cs \<Longrightarrow> cm_route m (change_key x) = i"
proof -
  note ei = engines_inv_nth [OF inv i]
  show "engines_inv (set_engine i (c, e) m)"
    by (rule engines_inv_set [OF inv dyn.inv_remote [OF ei app] i])
  show "cm_routed (set_engine i (c, e) m)" if "cm_routed m"
  proof (rule cm_routed_set [OF that i])
    fix k assume "cm_route m k \<noteq> i" "eng_contains_key e k"
    with routed dyn.remote_contains [OF ei app, of k] show "eng_contains_key (all_engines m ! i) k"
      by auto
  qed
  show "distinct (map change_key cs)"
    using dyn.remote_changes [OF ei app] by simp
  show rt: "cm_route m (change_key x) = i" if "x \<in> set cs" for x
    using dyn.changed_keys_in_batch [OF ei app that] routed by auto
  show "replay_changes cs (cm_get ser m) = cm_get ser (set_engine i (c, e) m)"
  proof
    fix k
    show "replay_changes cs (cm_get ser m) k = cm_get ser (set_engine i (c, e) m) k"
    proof (cases "cm_route m k = i")
      case True
      have "replay_changes cs (cm_get ser m) k = replay_changes cs (eng_get ser (all_engines m ! i)) k"
        by (rule replay_changes_cong) (simp add: cm_get_nth True)
      also have "\<dots> = eng_get ser e k"
        by (simp only: dyn.replay_is_get [OF ei app])
      finally show ?thesis
        using i by (simp add: cm_get_nth True all_engines_set_engine less_Suc_eq_le)
    next
      case False
      then have "k \<notin> change_key ` set cs" using rt by auto
      with False i show ?thesis
        by (simp add: replay_changes_other cm_get_nth all_engines_set_engine)
    qed
  qed
qed

lemma merge_buckets_effect:
  assumes "merge_buckets ser de now idx buckets m = (m', cs)" and "engines_inv m"
    and "idx + length buckets = Suc (length (cm_engines m))"
    and "\<And>j op. j < length buckets \<Longrightarrow> op \<in> set (buckets ! j) \<Longrightarrow> cm_route m (op_key op) = idx + j"
  shows "engines_inv m' \<and> map fst (cm_engines m') = map fst (cm_engines m) \<and>
         (cm_routed m \<longrightarrow> cm_routed m') \<and> cm_op_snapshot m' = cm_op_snapshot m \<and>
         replay_changes cs (cm_get ser m) = cm_get ser m' \<and> distinct (map change_key cs) \<and>
         (\<forall>x \<in> set cs. idx \<le> cm_route m (change_key x))"
  using assms
proof (induction ser de now idx buckets m arbitrary: m' cs rule: merge_buckets.induct)
  case (1 ser de now idx m)
  then show ?case by simp
next
  case (2 ser de now idx ops buckets m)
  have route: "cm_route m (op_key op) = Suc idx + j" if "j < length buckets" "op \<in> set (buckets ! j)" for j op
    using 2(6) [of "Suc j" op] that by simp
  have routei: "\<forall>op \<in> set ops. cm_route m (op_key op) = idx"
    using 2(6) [of 0] by simp
  have i: "idx \<le> length (cm_engines m)" using 2(5) by simp
  show ?case
  proof (cases "ops = []")
    case True
    have "engines_inv m' \<and> map fst (cm_engines m') = map fst (cm_engines m) \<and>
       (cm_routed m \<longrightarrow> cm_routed m') \<and> cm_op_snapshot m' = cm_op_snapshot m \<and>
       replay_changes cs (cm_get ser m) = cm_get ser m' \<and> distinct (map change_key cs) \<and>
       (\<forall>x \<in> set cs. Suc idx \<le> cm_route m (change_key x))"
      by (rule 2(1) [OF True _ 2(4)]) (use True 2(3,5) route in auto)
    then show ?thesis by (auto dest: Suc_leD)
  next
    case False
    obtain c e cs1 where app: "eng_apply_remote_ops ser de now ops (cm_clock m, all_engines m ! idx) = ((c, e), cs1)"
      by (metis prod.exhaust)
    obtain cs2 where rest: "merge_buckets ser de now (Suc idx) buckets (set_engine idx (c, e) m) = (m', cs2)"
      and cs: "cs = cs1 @ cs2"
      using 2(3) False app by (auto split: prod.splits)
    note one = merge_one_bucket [OF 2(4) i app routei]
    have IH: "engines_inv m' \<and> map fst (cm_engines m') = map fst (cm_engines (set_engine idx (c, e) m)) \<and>
       (cm_routed (set_engine idx (c, e) m) \<longrightarrow> cm_routed m') \<and>
       cm_op_snapshot m' = cm_op_snapshot (set_engine idx (c, e) m) \<and>
       replay_changes cs2 (cm_get ser (set_engine idx (c, e) m)) = cm_get ser m' \<and>
       distinct (map change_key cs2) \<and>
       (\<forall>x \<in> set cs2. Suc idx \<le> cm_route (set_engine idx (c, e) m) (change_key x))"
      by (rule 2(2) [OF False app [symmetric] rest one(1)]) (use 2(5) route in auto)
    have "change_key x \<noteq> change_key y" if "x \<in> set cs1" "y \<in> set cs2" for x y
      using one(5) [OF that(1)] IH that(2) by fastforce
    then have "distinct (map change_key cs)"
      using one(4) IH cs by auto
    moreover have "replay_changes cs (cm_get ser m) = cm_get ser m'"
      using one(3) IH by (simp add: cs replay_changes_append)
    moreover have "\<forall>x \<in> set cs. idx \<le> cm_route m (change_key x)"
      using one(5) IH by (auto simp: cs)
    ultimately show ?thesis
      using IH one(2) by simp
  qed
qed

lemma cm_merge_effect:
  assumes "cm_merge ser de now log m = (m', cs)" and "engines_inv m"
  shows "engines_inv m'" "map fst (cm_engines m') = map fst (cm_engines m)"
    "cm_routed m \<Longrightarrow> cm_routed m'" "cm_op_snapshot m' = cm_op_snapshot m"
    "replay_changes cs (cm_get ser m) = cm_get ser m'" "distinct (map change_key cs)"
proof -
  have "cm_route m (op_key op) = 0 + j"
    if "j < length (bucket_ops (cm_engines m) log (replicate (Suc (length (cm_engines m))) []))"
      and "op \<in> set (bucket_ops (cm_engines m) log (replicate (Suc (length (cm_engines m))) []) ! j)" for j op
    using that by (simp add: bucket_ops_nth less_Suc_eq_le cm_route_def del: replicate_Suc)
  from merge_buckets_effect [OF assms(1) [unfolded cm_merge_def] assms(2) _ this]
  show "engines_inv m'" "map fst (cm_engines m') = map fst (cm_engines m)"
    "cm_routed m \<Longrightarrow> cm_routed m'" "cm_op_snapshot m' = cm_op_snapshot m"
    "replay_changes cs (cm_get ser m) = cm_get ser m'" "distinct (map change_key cs)"
    by simp_all
qed

section \<open>The table of prefixes\<close>

text \<open>Longest prefix first, no prefix twice.\<close>

definition table_ok :: "string list \<Rightarrow> bool" where
  "table_ok ps \<longleftrightarrow> sorted (map (\<lambda>p. - int (length p)) ps) \<and> distinct ps"

lemma table_ok_register:
  assumes "register_merge_strategy p s m = Some m'" and "table_ok (map fst (cm_engines m))"
  shows "table_ok (map fst (cm_engines m'))"
proof -
  have m': "cm_engines m' = sort_key (\<lambda>x. - int (length (fst x)))
              (cm_engines m @ [(p, strategy_engine s (cm_replica_id m))])"
    and new: "p \<notin> fst ` set (cm_engines m)"
    using assms(1) by (auto simp: register_merge_strategy_def split: if_splits)
  have "distinct (map fst (cm_engines m @ [(p, strategy_engine s (cm_replica_id m))]))"
    using assms(2) new by (simp add: table_ok_def)
  moreover have "mset (map fst (cm_engines m')) =
      mset (map fst (cm_engines m @ [(p, strategy_engine s (cm_replica_id m))]))"
    unfolding m' by simp
  ultimately have "distinct (map fst (cm_engines m'))"
    using mset_eq_imp_distinct_iff by blast
  moreover have "sorted (map (\<lambda>x. - int (length (fst x))) (cm_engines m'))"
    unfolding m' by (rule sorted_sort_key)
  ultimately show ?thesis
    by (simp add: table_ok_def comp_def)
qed

lemma engine_for_longest:
  assumes "table_ok (map fst tbl)"
  shows "(\<forall>x \<in> set tbl. \<not> starts_with (fst x) k) \<and> engine_for tbl d k = d \<or>
         (\<exists>p e. (p, e) \<in> set tbl \<and> starts_with p k \<and> engine_for tbl d k = e \<and>
            (\<forall>x \<in> set tbl. starts_with (fst x) k \<longrightarrow> x = (p, e) \<or> length (fst x) < length p))"
  using assms
proof (induction tbl)
  case Nil
  then show ?case by simp
next
  case (Cons a tbl)
  obtain p e where a: "a = (p, e)" by force
  have tbl: "table_ok (map fst tbl)" and dist: "p \<notin> fst ` set tbl"
    and len: "\<And>x. x \<in> set tbl \<Longrightarrow> length (fst x) \<le> length p"
    using Cons.prems by (auto simp: table_ok_def a)
  have same: "q = p" if "starts_with q k" "starts_with p k" "length q = length p" for q
    using that by (metis starts_with_def)
  show ?case
  proof (cases "starts_with p k")
    case True
    have "length (fst x) < length p" if x: "x \<in> set tbl" "starts_with (fst x) k" for x
    proof -
      have "fst x \<noteq> p" using dist x(1) by blast
      then show ?thesis using same [OF x(2) True] len [OF x(1)] by linarith
    qed
    then have "\<forall>x \<in> set (a # tbl). starts_with (fst x) k \<longrightarrow> x = (p, e) \<or> length (fst x) < length p"
      by (simp add: a)
    then show ?thesis using True by (auto simp: a)
  next
    case False
    with Cons.IH [OF tbl] show ?thesis
      by (auto simp: a)
  qed
qed

section \<open>Log generations\<close>

lemma log_generation_sum: "log_generation m = sum_list (map eng_op_generation (all_engines m))"
  by (simp add: log_generation_def all_engines_def comp_def case_prod_unfold)

text \<open>The log moved \<open>d\<close> times; when it did not move, it is the same log.\<close>

definition log_moves :: "nat \<Rightarrow> crdt_or_map \<Rightarrow> crdt_or_map \<Rightarrow> bool" where
  "log_moves d m m' \<longleftrightarrow>
     log_generation m' = log_generation m + of_nat d \<and>
     (d = 0 \<longrightarrow> get_operation_log m' = get_operation_log m)"

lemma log_moves_refl: "log_moves 0 m m"
  by (simp add: log_moves_def)

lemma log_moves_trans: "log_moves a m m' \<Longrightarrow> log_moves b m' m'' \<Longrightarrow> log_moves (a + b) m m''"
  by (auto simp: log_moves_def)

lemma engines_moves:
  assumes "list_all2 (\<lambda>e e'. eng_op_generation e' = eng_op_generation e \<and> eng_export_ops e' = eng_export_ops e \<or>
      eng_op_generation e' = eng_op_generation e + 1) es es'"
  shows "\<exists>d \<le> length es. sum_list (map eng_op_generation es') = sum_list (map eng_op_generation es) + of_nat d \<and>
    (d = 0 \<longrightarrow> concat (map eng_export_ops es') = concat (map eng_export_ops es))"
  using assms
proof (induction es es' rule: list_all2_induct)
  case Nil
  then show ?case by simp
next
  case (Cons e es e' es')
  then obtain d where d: "d \<le> length es"
    "sum_list (map eng_op_generation es') = sum_list (map eng_op_generation es) + of_nat d"
    "d = 0 \<longrightarrow> concat (map eng_export_ops es') = concat (map eng_export_ops es)" by blast
  from Cons(1) show ?case
  proof
    assume "eng_op_generation e' = eng_op_generation e \<and> eng_export_ops e' = eng_export_ops e"
    with d show ?thesis by (intro exI [of _ d]) (simp add: algebra_simps)
  next
    assume "eng_op_generation e' = eng_op_generation e + 1"
    with d show ?thesis by (intro exI [of _ "Suc d"]) (simp add: algebra_simps)
  qed
qed

lemma set_engine_moves:
  assumes i: "i \<le> length (cm_engines m)"
    and e: "eng_op_generation e' = eng_op_generation (all_engines m ! i) \<and>
            eng_export_ops e' = eng_export_ops (all_engines m ! i) \<or>
            eng_op_generation e' = eng_op_generation (all_engines m ! i) + 1"
  shows "\<exists>d \<le> 1. log_moves d m (set_engine i (c, e') m)"
proof -
  define es where "es = all_engines m"
  have len: "i < length es" using i by (simp add: es_def)
  have split: "es = take i es @ es ! i # drop (Suc i) es"
    using len by (simp add: id_take_nth_drop)
  have upd: "es[i := e'] = take i es @ e' # drop (Suc i) es"
    using len by (simp add: upd_conv_take_nth_drop)
  have gen: "log_generation m = sum_list (map eng_op_generation (take i es)) + eng_op_generation (es ! i)
      + sum_list (map eng_op_generation (drop (Suc i) es))"
    unfolding log_generation_sum es_def [symmetric] by (subst split) (simp add: algebra_simps)
  have gen': "log_generation (set_engine i (c, e') m) = sum_list (map eng_op_generation (take i es))
      + eng_op_generation e' + sum_list (map eng_op_generation (drop (Suc i) es))"
    using i by (simp add: log_generation_sum all_engines_set_engine es_def [symmetric] upd)
  from e show ?thesis
  proof
    assume same: "eng_op_generation e' = eng_op_generation (all_engines m ! i) \<and>
      eng_export_ops e' = eng_export_ops (all_engines m ! i)"
    have "get_operation_log (set_engine i (c, e') m) = get_operation_log m"
      unfolding get_operation_log_def all_engines_set_engine [OF i] snd_conv es_def [symmetric] upd
      by (subst (3) split) (simp add: same es_def)
    with gen gen' same show ?thesis by (auto simp: log_moves_def es_def intro!: exI [of _ 0])
  next
    assume "eng_op_generation e' = eng_op_generation (all_engines m ! i) + 1"
    with gen gen' show ?thesis by (auto simp: log_moves_def es_def intro!: exI [of _ 1])
  qed
qed

lemma merge_buckets_moves:
  assumes "merge_buckets ser de now idx buckets m = (m', cs)" and "engines_inv m"
    and "idx + length buckets \<le> Suc (length (cm_engines m))"
  shows "\<exists>d \<le> length buckets. log_moves d m m'"
  using assms
proof (induction ser de now idx buckets m arbitrary: m' cs rule: merge_buckets.induct)
  case (1 ser de now idx m)
  then show ?case by (simp add: log_moves_refl)
next
  case (2 ser de now idx ops buckets m)
  have i: "idx \<le> length (cm_engines m)" using 2(5) by simp
  show ?case
  proof (cases "ops = []")
    case True
    then have "\<exists>d \<le> length buckets. log_moves d m m'"
      by (intro 2(1) [OF True _ 2(4)]) (use 2(3,5) in auto)
    then show ?thesis by (auto intro: le_SucI)
  next
    case False
    obtain c e cs1 where app: "eng_apply_remote_ops ser de now ops (cm_clock m, all_engines m ! idx) = ((c, e), cs1)"
      by (metis prod.exhaust)
    note ei = engines_inv_nth [OF 2(4) i]
    obtain cs2 where rest: "merge_buckets ser de now (Suc idx) buckets (set_engine idx (c, e) m) = (m', cs2)"
      using 2(3) False app by (auto split: prod.splits)
    have "\<exists>d \<le> length buckets. log_moves d (set_engine idx (c, e) m) m'"
      by (rule 2(2) [OF False app [symmetric] rest])
        (use 2(5) engines_inv_set [OF 2(4) dyn.inv_remote [OF ei app] i] in auto)
    moreover have "\<exists>d \<le> 1. log_moves d m (set_engine idx (c, e) m)"
      by (rule set_engine_moves [OF i dyn.remote_op_generation [OF ei app]])
    ultimately obtain a b where "a \<le> 1" "b \<le> length buckets" "log_moves (a + b) m m'"
      using log_moves_trans by blast
    then show ?thesis by (intro exI [of _ "a + b"]) simp
  qed
qed

section \<open>Sequences of calls\<close>

datatype cm_call =
    Call_Register string merge_strategy
  | Call_Insert instant string bytes
  | Call_Remove instant string
  | Call_Merge instant "operation list"
  | Call_Gc instant nat
  | Call_Snapshot

fun is_register :: "cm_call \<Rightarrow> bool" where
  "is_register (Call_Register p s) = True"
| "is_register _ = False"

fun cm_exec :: "shard_ser \<Rightarrow> shard_de \<Rightarrow> cm_call \<Rightarrow> crdt_or_map \<Rightarrow> crdt_or_map option" where
  "cm_exec ser de (Call_Register p s) m = register_merge_strategy p s m"
| "cm_exec ser de (Call_Insert now k v) m = Some (fst (cm_insert ser de now k v m))"
| "cm_exec ser de (Call_Remove now k) m = Some (fst (cm_remove ser de now k m))"
| "cm_exec ser de (Call_Merge now ops) m = Some (fst (cm_merge ser de now ops m))"
| "cm_exec ser de (Call_Gc now grace) m = Some (fst (gc_tombstones_with_grace now grace m))"
| "cm_exec ser de Call_Snapshot m = Some (fst (operation_log_snapshot m))"

fun cm_run :: "shard_ser \<Rightarrow> shard_de \<Rightarrow> cm_call list \<Rightarrow> crdt_or_map \<Rightarrow> crdt_or_map option" where
  "cm_run ser de [] m = Some m"
| "cm_run ser de (c # cs) m = Option.bind (cm_exec ser de c m) (cm_run ser de cs)"

lemma cm_run_invariant:
  assumes "cm_run ser de cs m = Some m'" "P m"
    and "\<And>c m m'. c \<in> set cs \<Longrightarrow> P m \<Longrightarrow> cm_exec ser de c m = Some m' \<Longrightarrow> P m'"
  shows "P m'"
  using assms
proof (induction cs arbitrary: m)
  case Nil
  then show ?case by simp
next
  case (Cons c cs)
  from Cons.prems(1) obtain m1 where m1: "cm_exec ser de c m = Some m1" "cm_run ser de cs m1 = Some m'"
    by (auto simp: bind_eq_Some_conv)
  from Cons.prems(3) [OF _ Cons.prems(2) m1(1)] have "P m1" by simp
  then show ?case
    by (rule Cons.IH [OF m1(2)]) (rule Cons.prems(3), simp_all)
qed

lemma gc_all_engines:
  "all_engines (fst (gc_tombstones_with_grace now grace m)) =
     map (\<lambda>e. fst (eng_gc_tombstones now grace e)) (all_engines m)"
  by (simp add: gc_tombstones_with_grace_def all_engines_def comp_def case_prod_unfold)

lemma gc_prefixes [simp]:
  "map fst (cm_engines (fst (gc_tombstones_with_grace now grace m))) = map fst (cm_engines m)"
  by (simp add: gc_tombstones_with_grace_def comp_def case_prod_unfold)

lemma snapshot_engines [simp]:
  "all_engines (fst (operation_log_snapshot m)) = all_engines m"
  "cm_engines (fst (operation_log_snapshot m)) = cm_engines m"
  by (auto simp: operation_log_snapshot_def all_engines_def Let_def split: option.splits)

text \<open>A local write replaces the state of the engine its key routes to.\<close>

lemma cm_exec_local:
  assumes inv: "engines_inv m" and ex: "cm_exec ser de call m = Some m'"
    and call: "call = Call_Insert now k v \<or> call = Call_Remove now k"
  obtains c e where "m' = set_engine (cm_route m k) (c, e) m" "eng_inv e"
    "eng_op_generation e = eng_op_generation (all_engines m ! cm_route m k) \<and>
       eng_export_ops e = eng_export_ops (all_engines m ! cm_route m k) \<or>
     eng_op_generation e = eng_op_generation (all_engines m ! cm_route m k) + 1"
    "\<forall>k'. k' \<noteq> k \<longrightarrow> eng_contains_key e k' = eng_contains_key (all_engines m ! cm_route m k) k'"
proof -
  have ei: "eng_inv (all_engines m ! cm_route m k)" by (simp add: engines_inv_nth [OF inv])
  from call show thesis
  proof
    assume "call = Call_Insert now k v"
    obtain c e r where put: "eng_put_local ser de now k v (cm_clock m, all_engines m ! cm_route m k) = ((c, e), r)"
      by (metis prod.exhaust)
    have "m' = set_engine (cm_route m k) (c, e) m"
      using ex put \<open>call = _\<close> by (simp add: cm_insert_def engine_for_key_nth flip: cm_route_def)
    then show thesis
      by (rule that) (use dyn.inv_put [OF ei put] dyn.put_op_generation [OF ei put] dyn.put_contains [OF ei put] in auto)
  next
    assume "call = Call_Remove now k"
    obtain c e r where del: "eng_delete_local ser de now k (cm_clock m, all_engines m ! cm_route m k) = ((c, e), r)"
      by (metis prod.exhaust)
    have "m' = set_engine (cm_route m k) (c, e) m"
      using ex del \<open>call = _\<close> by (simp add: cm_remove_def engine_for_key_nth flip: cm_route_def)
    then show thesis
      by (rule that) (use dyn.inv_delete [OF ei del] dyn.delete_op_generation [OF ei del] dyn.delete_contains [OF ei del] in auto)
  qed
qed

lemma eng_inv_new: "eng_inv (strategy_engine s r)"
  by (cases s) (simp_all add: lww_inv_new rl_inv_def rl_new_def)

lemma all_engines_register:
  assumes "register_merge_strategy p s m = Some m'"
  shows "mset (all_engines m') = add_mset (strategy_engine s (cm_replica_id m)) (mset (all_engines m))"
  using assms
  by (auto simp: register_merge_strategy_def all_engines_def mset_map mset_sort split: if_splits)

lemma cm_exec_inv:
  assumes "engines_inv m" and "cm_exec ser de c m = Some m'"
  shows "engines_inv m'"
proof (cases c)
  case (Call_Register p s)
  then have "set (all_engines m') = insert (strategy_engine s (cm_replica_id m)) (set (all_engines m))"
    using assms(2) all_engines_register [of p s m m'] by (metis cm_exec.simps(1) set_mset_add_mset_insert set_mset_mset)
  with assms(1) eng_inv_new show ?thesis by (simp add: engines_inv_def)
next
  case (Call_Insert now k v)
  then show ?thesis
    by (rule cm_exec_local [OF assms disjI1]) (simp add: engines_inv_set [OF assms(1)])
next
  case (Call_Remove now k)
  then show ?thesis
    by (rule cm_exec_local [OF assms disjI2]) (simp add: engines_inv_set [OF assms(1)])
next
  case (Call_Merge now ops)
  with assms show ?thesis
    using cm_merge_effect(1) [OF prod.collapse [symmetric] assms(1)] by auto
next
  case (Call_Gc now grace)
  have "eng_inv (fst (eng_gc_tombstones now grace e))" if "eng_inv e" for e
    using dyn.inv_gc [OF that prod.collapse [symmetric]] .
  with Call_Gc assms show ?thesis
    by (auto simp: engines_inv_def gc_all_engines)
next
  case Call_Snapshot
  with assms show ?thesis by (auto simp: engines_inv_def)
qed

lemma cm_exec_table:
  assumes "cm_exec ser de c m = Some m'" and "engines_inv m" "table_ok (map fst (cm_engines m))"
  shows "table_ok (map fst (cm_engines m'))"
    and "\<not> is_register c \<Longrightarrow> map fst (cm_engines m') = map fst (cm_engines m)"
    and "length (cm_engines m) \<le> length (cm_engines m')"
proof -
  have keep: "map fst (cm_engines m') = map fst (cm_engines m)" if "\<not> is_register c"
  proof (cases c)
    case (Call_Insert now k v)
    then show ?thesis by (rule cm_exec_local [OF assms(2,1) disjI1]) simp
  next
    case (Call_Remove now k)
    then show ?thesis by (rule cm_exec_local [OF assms(2,1) disjI2]) simp
  next
    case (Call_Merge now ops)
    with assms(1) show ?thesis
      using cm_merge_effect(2) [OF prod.collapse [symmetric] assms(2)] by auto
  qed (use assms(1) that in auto)
  then show "\<not> is_register c \<Longrightarrow> map fst (cm_engines m') = map fst (cm_engines m)" .
  have reg: "\<exists>p s. c = Call_Register p s" if "is_register c"
    using that by (cases c) auto
  show "table_ok (map fst (cm_engines m'))"
    using keep reg table_ok_register assms(1,3) by (cases "is_register c") auto
  show "length (cm_engines m) \<le> length (cm_engines m')"
  proof (cases "is_register c")
    case True
    with reg assms(1) show ?thesis by (auto simp: register_merge_strategy_def split: if_splits)
  next
    case False
    then show ?thesis using keep by (metis le_refl length_map)
  qed
qed

lemma cm_new_inv: "engines_inv (with_replica_id r)" "table_ok (map fst (cm_engines (with_replica_id r)))"
  by (simp_all add: engines_inv_def all_engines_def with_replica_id_def lww_inv_new table_ok_def)

lemma cm_run_inv:
  assumes "cm_run ser de cs m = Some m'" "engines_inv m" "table_ok (map fst (cm_engines m))"
  shows "engines_inv m' \<and> table_ok (map fst (cm_engines m'))"
  by (rule cm_run_invariant [OF assms(1)]) (use assms cm_exec_inv cm_exec_table(1) in blast)+

section \<open>The snapshot cache\<close>

lemma concat_export_sort:
  fixes tbl :: "(string \<times> engine) list"
  assumes "sorted (map f tbl)" and "eng_export_ops e = []"
  shows "concat (map (eng_export_ops \<circ> snd) (sort_key f (tbl @ [(p, e)]))) =
         concat (map (eng_export_ops \<circ> snd) tbl)"
proof -
  let ?P = "\<lambda>x. eng_export_ops (snd x) \<noteq> []"
  have drop: "concat (map (eng_export_ops \<circ> snd) xs) = concat (map (eng_export_ops \<circ> snd) (filter ?P xs))"
    for xs :: "(string \<times> engine) list"
    by (induction xs) auto
  have "filter ?P (sort_key f (tbl @ [(p, e)])) = sort_key f (filter ?P tbl)"
    using assms(2) by (simp add: filter_sort)
  also have "\<dots> = filter ?P tbl"
    using sorted_filter [OF assms(1)] by (rule sort_key_id_if_sorted)
  finally show ?thesis
    using drop [of tbl] drop [of "sort_key f (tbl @ [(p, e)])"] by simp
qed

lemma strategy_engine_empty:
  "eng_export_ops (strategy_engine s r) = []" "eng_op_generation (strategy_engine s r) = 0"
  "\<not> eng_contains_key (strategy_engine s r) k"
  by (cases s; simp add: lww_export_ops_def rl_export_ops_def lww_op_generation_def rl_op_generation_def
      lww_new_def rl_new_def keeper_new_def keeper_export_def lww_contains_key_def kv_contains_key_def
      kv_new_def rl_contains_key_def)+

lemma register_moves:
  assumes "register_merge_strategy p s m = Some m'" and "table_ok (map fst (cm_engines m))"
  shows "log_moves 0 m m'"
proof -
  have gen: "sum_list (map eng_op_generation es) = sum_mset (image_mset eng_op_generation (mset es))" for es
    by (metis mset_map sum_mset_sum_list)
  have "sum_list (map eng_op_generation (all_engines m')) = sum_list (map eng_op_generation (all_engines m))"
    unfolding gen all_engines_register [OF assms(1)] by (simp add: strategy_engine_empty)
  moreover have "get_operation_log m' = get_operation_log m"
    using assms concat_export_sort [of "\<lambda>x. - int (length (fst x))" "cm_engines m"
        "strategy_engine s (cm_replica_id m)" p]
    by (auto simp: register_merge_strategy_def get_operation_log_def all_engines_def table_ok_def
        strategy_engine_empty comp_def split: if_splits)
  ultimately show ?thesis by (simp add: log_moves_def log_generation_sum)
qed

lemma gc_moves:
  assumes "engines_inv m"
  shows "\<exists>d \<le> Suc (length (cm_engines m)). log_moves d m (fst (gc_tombstones_with_grace now grace m))"
proof -
  have "list_all2 (\<lambda>e e'. eng_op_generation e' = eng_op_generation e \<and> eng_export_ops e' = eng_export_ops e \<or>
      eng_op_generation e' = eng_op_generation e + 1)
      (all_engines m) (map (\<lambda>e. fst (eng_gc_tombstones now grace e)) (all_engines m))"
    unfolding list_all2_map2
    by (rule list.rel_refl_strong)
      (use assms dyn.gc_op_generation [OF _ prod.collapse [symmetric]] in \<open>simp add: engines_inv_def\<close>)
  from engines_moves [OF this] show ?thesis
    by (simp add: log_moves_def log_generation_sum get_operation_log_def gc_all_engines)
qed

lemma cm_exec_moves:
  assumes ex: "cm_exec ser de c m = Some m'" and inv: "engines_inv m" "table_ok (map fst (cm_engines m))"
  shows "\<exists>d \<le> Suc (length (cm_engines m)). log_moves d m m'"
    and "c \<noteq> Call_Snapshot \<Longrightarrow> cm_op_snapshot m' = cm_op_snapshot m"
proof (atomize (full))
  have one: "\<exists>d \<le> Suc n. log_moves d m x" if "\<exists>d \<le> 1. log_moves d m x" for n x
  proof -
    from that obtain d where "d \<le> 1" "log_moves d m x" by blast
    then show ?thesis by (intro exI [of _ d]) simp
  qed
  show "(\<exists>d \<le> Suc (length (cm_engines m)). log_moves d m m') \<and>
      (c \<noteq> Call_Snapshot \<longrightarrow> cm_op_snapshot m' = cm_op_snapshot m)"
  proof (cases c)
    case (Call_Register p s)
    then show ?thesis
      using ex register_moves [OF _ inv(2), of p s m']
      by (auto simp: register_merge_strategy_def split: if_splits)
  next
    case (Call_Insert now k v)
    from cm_exec_local [OF inv(1) ex disjI1 [OF Call_Insert]]
    obtain a e where m': "m' = set_engine (cm_route m k) (a, e) m"
      and e: "eng_op_generation e = eng_op_generation (all_engines m ! cm_route m k) \<and>
         eng_export_ops e = eng_export_ops (all_engines m ! cm_route m k) \<or>
       eng_op_generation e = eng_op_generation (all_engines m ! cm_route m k) + 1" by metis
    show ?thesis
      using one [OF set_engine_moves [OF cm_route_le e]] by (simp add: m')
  next
    case (Call_Remove now k)
    from cm_exec_local [OF inv(1) ex disjI2 [OF Call_Remove]]
    obtain a e where m': "m' = set_engine (cm_route m k) (a, e) m"
      and e: "eng_op_generation e = eng_op_generation (all_engines m ! cm_route m k) \<and>
         eng_export_ops e = eng_export_ops (all_engines m ! cm_route m k) \<or>
       eng_op_generation e = eng_op_generation (all_engines m ! cm_route m k) + 1" by metis
    show ?thesis
      using one [OF set_engine_moves [OF cm_route_le e]] by (simp add: m')
  next
    case (Call_Merge now ops)
    obtain cs where mg: "cm_merge ser de now ops m = (m', cs)"
      using ex Call_Merge by (cases "cm_merge ser de now ops m") auto
    show ?thesis
      using merge_buckets_moves [OF mg [unfolded cm_merge_def] inv(1)] cm_merge_effect(4) [OF mg inv(1)]
      by (simp del: replicate_Suc)
  next
    case (Call_Gc now grace)
    with ex have m': "m' = fst (gc_tombstones_with_grace now grace m)" by simp
    then have "cm_op_snapshot m' = cm_op_snapshot m" by (simp add: gc_tombstones_with_grace_def)
    then show ?thesis using gc_moves [OF inv(1), of now grace] by (simp add: m')
  next
    case Call_Snapshot
    then show ?thesis
      using ex by (auto simp: log_moves_def log_generation_sum get_operation_log_def intro!: exI [of _ 0])
  qed
qed

text \<open>The cached log is at most \<open>n\<close> log mutations old, and current if it is none old.\<close>

definition snapshot_age :: "nat \<Rightarrow> crdt_or_map \<Rightarrow> bool" where
  "snapshot_age n m \<longleftrightarrow>
     (\<forall>g log. cm_op_snapshot m = Some (g, log) \<longrightarrow>
        (\<exists>d \<le> n. log_generation m = g + of_nat d \<and> (d = 0 \<longrightarrow> log = get_operation_log m)))"

lemma snapshot_age_mono: "snapshot_age n m \<Longrightarrow> n \<le> n' \<Longrightarrow> snapshot_age n' m"
  unfolding snapshot_age_def by (meson order.trans)

lemma of_nat_u64_zero: "of_nat d = (0 :: u64) \<Longrightarrow> d < 2 ^ 64 \<Longrightarrow> d = 0"
  by (simp add: word_of_nat_eq_0_iff nat_dvd_not_less) (metis nat_dvd_not_less not_gr_zero)

lemma snapshot_age_fresh:
  assumes "snapshot_age n m" and "n < 2 ^ 64"
  shows "snd (operation_log_snapshot m) = get_operation_log m"
    and "snapshot_age n (fst (operation_log_snapshot m))"
proof -
  have gen: "log_generation (fst (operation_log_snapshot m)) = log_generation m"
    "get_operation_log (fst (operation_log_snapshot m)) = get_operation_log m"
    by (simp_all add: log_generation_sum get_operation_log_def)
  consider (hit) log where "cm_op_snapshot m = Some (log_generation m, log)"
    | (miss) "\<And>log. cm_op_snapshot m \<noteq> Some (log_generation m, log)" by blast
  then have "snd (operation_log_snapshot m) = get_operation_log m \<and>
      snapshot_age n (fst (operation_log_snapshot m))"
  proof cases
    case hit
    then have snap: "operation_log_snapshot m = (m, log)"
      by (simp add: operation_log_snapshot_def Let_def)
    from assms(1) hit obtain d where d: "d \<le> n" "of_nat d = (0 :: u64)" "d = 0 \<longrightarrow> log = get_operation_log m"
      unfolding snapshot_age_def by force
    with assms(2) have "d = 0" by (intro of_nat_u64_zero) simp_all
    with d snap assms(1) show ?thesis by simp
  next
    case miss
    then have snap: "operation_log_snapshot m =
        (m\<lparr>cm_op_snapshot := Some (log_generation m, get_operation_log m)\<rparr>, get_operation_log m)"
      by (auto simp: operation_log_snapshot_def Let_def split: option.splits)
    then show ?thesis
      unfolding snapshot_age_def gen by (auto simp: snap intro: exI [of _ 0])
  qed
  then show "snd (operation_log_snapshot m) = get_operation_log m"
    and "snapshot_age n (fst (operation_log_snapshot m))" by simp_all
qed

lemma cm_exec_age:
  assumes ex: "cm_exec ser de c m = Some m'" and inv: "engines_inv m" "table_ok (map fst (cm_engines m))"
    and age: "snapshot_age n m" and n: "n < 2 ^ 64"
  shows "snapshot_age (n + Suc (length (cm_engines m))) m'"
proof (cases "c = Call_Snapshot")
  case True
  with ex have "m' = fst (operation_log_snapshot m)" by simp
  with snapshot_age_fresh(2) [OF age n] show ?thesis
    by (simp add: snapshot_age_mono [of n])
next
  case False
  obtain d where d: "d \<le> Suc (length (cm_engines m))" "log_moves d m m'"
    using cm_exec_moves(1) [OF ex inv] by blast
  have same: "cm_op_snapshot m' = cm_op_snapshot m" by (rule cm_exec_moves(2) [OF ex inv False])
  show ?thesis
    unfolding snapshot_age_def same
  proof (intro allI impI)
    fix g log assume "cm_op_snapshot m = Some (g, log)"
    with age obtain a where "a \<le> n" "log_generation m = g + of_nat a" "a = 0 \<longrightarrow> log = get_operation_log m"
      unfolding snapshot_age_def by blast
    with d show "\<exists>d \<le> n + Suc (length (cm_engines m)). log_generation m' = g + of_nat d \<and>
        (d = 0 \<longrightarrow> log = get_operation_log m')"
      by (intro exI [of _ "a + d"]) (simp add: log_moves_def)
  qed
qed

lemma cm_run_grows:
  assumes "cm_run ser de cs m = Some m'" "engines_inv m" "table_ok (map fst (cm_engines m))"
  shows "length (cm_engines m) \<le> length (cm_engines m')"
proof -
  have "engines_inv m' \<and> table_ok (map fst (cm_engines m')) \<and> length (cm_engines m) \<le> length (cm_engines m')"
    by (rule cm_run_invariant [OF assms(1)])
      (use assms(2,3) cm_exec_inv cm_exec_table(1,3) order.trans in blast)+
  then show ?thesis by simp
qed

lemma cm_run_age:
  assumes "cm_run ser de cs m = Some m'" "engines_inv m" "table_ok (map fst (cm_engines m))"
    and "snapshot_age n m" and "n + length cs * Suc (length (cm_engines m')) < 2 ^ 64"
  shows "snapshot_age (n + length cs * Suc (length (cm_engines m'))) m' \<and>
         length (cm_engines m) \<le> length (cm_engines m')"
  using assms
proof (induction cs arbitrary: m n)
  case Nil
  then show ?case by simp
next
  case (Cons c cs)
  from Cons.prems(1) obtain m1 where m1: "cm_exec ser de c m = Some m1" "cm_run ser de cs m1 = Some m'"
    by (auto simp: bind_eq_Some_conv)
  note inv1 = cm_exec_inv [OF Cons.prems(2) m1(1)] cm_exec_table(1) [OF m1(1) Cons.prems(2,3)]
  have len: "length (cm_engines m) \<le> length (cm_engines m1)" "length (cm_engines m1) \<le> length (cm_engines m')"
    using cm_exec_table(3) [OF m1(1) Cons.prems(2,3)] cm_run_grows [OF m1(2) inv1] by simp_all
  have "snapshot_age (n + Suc (length (cm_engines m))) m1"
    by (rule cm_exec_age [OF m1(1) Cons.prems(2-4)]) (use Cons.prems(5) in simp)
  then have "snapshot_age (n + Suc (length (cm_engines m'))) m1"
    by (rule snapshot_age_mono) (use len in simp)
  from Cons.IH [OF m1(2) inv1 this] Cons.prems(5) len show ?case
    by (simp add: algebra_simps)
qed

end
