(* ===== verification/Router_Properties.thy ===== *)
theory Router_Properties
  imports Crdt_Router
begin

text \<open>
  What the router promises: longest-prefix routing, change reports that reproduce the store,
  fan-out reads that agree with routed reads, a log snapshot that is never stale, and
  convergence of whole stores that hold namespaces of both kinds.
\<close>

section \<open>Fan-out reads\<close>

lemma cm_exec_routed:
  assumes "cm_exec ser de c m = Some m'" and "engines_inv m" "cm_routed m" "\<not> is_register c"
  shows "cm_routed m'"
proof (cases c)
  case (Call_Insert now k v)
  then show ?thesis
    by (rule cm_exec_local [OF assms(2,1) disjI1]) (use cm_routed_set [OF assms(3) cm_route_le] in metis)
next
  case (Call_Remove now k)
  then show ?thesis
    by (rule cm_exec_local [OF assms(2,1) disjI2]) (use cm_routed_set [OF assms(3) cm_route_le] in metis)
next
  case (Call_Merge now ops)
  with assms show ?thesis
    using cm_merge_effect(3) [OF prod.collapse [symmetric] assms(2,3)] by auto
next
  case (Call_Gc now grace)
  have same: "eng_contains_key (fst (eng_gc_tombstones now grace e)) k = eng_contains_key e k" if "eng_inv e" for e k
    using dyn.gc_contains [OF that prod.collapse [symmetric]] .
  from Call_Gc assms(1) have m': "m' = fst (gc_tombstones_with_grace now grace m)" by simp
  then have len: "length (cm_engines m') = length (cm_engines m)" and rt: "cm_route m' k = cm_route m k" for k
    by (metis gc_prefixes length_map) (simp add: m' cm_route_cong [OF gc_prefixes])
  show ?thesis
    unfolding cm_routed_def len rt
    using assms(3) same engines_inv_nth [OF assms(2)]
    by (simp add: m' gc_all_engines cm_routed_def)
next
  case Call_Snapshot
  with assms show ?thesis by (auto simp: cm_routed_def cm_route_def)
qed (use assms in simp)

lemma cm_fresh_exec:
  assumes "cm_exec ser de c m = Some m'" "is_register c"
    and "\<forall>e \<in> set (all_engines m). \<exists>s r. e = strategy_engine s r"
  shows "\<forall>e \<in> set (all_engines m'). \<exists>s r. e = strategy_engine s r"
proof (cases c)
  case (Call_Register p s)
  then have "set (all_engines m') = insert (strategy_engine s (cm_replica_id m)) (set (all_engines m))"
    using assms(1) all_engines_register [of p s m m']
    by (metis cm_exec.simps(1) set_mset_add_mset_insert set_mset_mset)
  with assms(3) show ?thesis by auto
qed (use assms in auto)

lemma cm_fresh:
  assumes "cm_run ser de cs (with_replica_id r) = Some m" "list_all is_register cs"
  shows "\<forall>e \<in> set (all_engines m). \<exists>s r. e = strategy_engine s r"
proof (rule cm_run_invariant [OF assms(1)])
  show "\<forall>e \<in> set (all_engines (with_replica_id r)). \<exists>s r. e = strategy_engine s r"
    by (simp add: all_engines_def with_replica_id_def) (metis strategy_engine.simps(1))
qed (use assms(2) cm_fresh_exec in \<open>auto simp: list_all_iff\<close>)

lemma cm_fresh_routed:
  "\<forall>e \<in> set (all_engines m). \<exists>s r. e = strategy_engine s r \<Longrightarrow> cm_routed m"
  unfolding cm_routed_def
  by (metis length_all_engines less_Suc_eq_le nth_mem strategy_engine_empty(3))

lemma distinct_concat_nth:
  assumes "\<And>i. i < length xss \<Longrightarrow> distinct (xss ! i)"
    and "\<And>i j. i < length xss \<Longrightarrow> j < length xss \<Longrightarrow> i \<noteq> j \<Longrightarrow> set (xss ! i) \<inter> set (xss ! j) = {}"
  shows "distinct (concat xss)"
  using assms
proof (induction xss)
  case Nil
  then show ?case by simp
next
  case (Cons xs xss)
  have "distinct (concat xss)"
    by (rule Cons.IH) (use Cons.prems(1) [of "Suc _"] Cons.prems(2) [of "Suc _" "Suc _"] in auto)
  moreover have "set xs \<inter> set (xss ! j) = {}" if "j < length xss" for j
    using Cons.prems(2) [of 0 "Suc j"] that by simp
  ultimately show ?case
    using Cons.prems(1) [of 0] by (fastforce simp: in_set_conv_nth [of _ xss])
qed

lemma distinct_keys:
  assumes "engines_inv m" "cm_routed m"
  shows "distinct (cm_keys m)" and "set (cm_keys m) = {k. cm_contains_key m k}"
    and "cm_len m = length (cm_keys m)"
proof -
  have keys: "set (eng_keys e) = {k. eng_contains_key e k}" "distinct (eng_keys e)" "eng_len e = length (eng_keys e)"
    if "e \<in> set (all_engines m)" for e
    using that assms(1) dyn.set_live_keys dyn.distinct_live_keys dyn.len_live_keys by (auto simp: engines_inv_def)
  have route: "cm_route m k = i" if "i \<le> length (cm_engines m)" "k \<in> set (eng_keys (all_engines m ! i))" for i k
    using that keys(1) [of "all_engines m ! i"] by (intro cm_routedD [OF assms(2)]) (simp_all add: less_Suc_eq_le)
  show "distinct (cm_keys m)"
    unfolding cm_keys_def
  proof (rule distinct_concat_nth)
    show "distinct (map eng_keys (all_engines m) ! i)" if "i < length (map eng_keys (all_engines m))" for i
      using that keys(2) by simp
    show "set (map eng_keys (all_engines m) ! i) \<inter> set (map eng_keys (all_engines m) ! j) = {}"
      if "i < length (map eng_keys (all_engines m))" "j < length (map eng_keys (all_engines m))" "i \<noteq> j" for i j
    proof (rule equals0I)
      fix k assume "k \<in> set (map eng_keys (all_engines m) ! i) \<inter> set (map eng_keys (all_engines m) ! j)"
      with that have "cm_route m k = i" "cm_route m k = j"
        by (auto simp: less_Suc_eq_le intro!: route)
      with that(3) show False by simp
    qed
  qed
  show "set (cm_keys m) = {k. cm_contains_key m k}"
  proof (intro set_eqI iffI)
    fix k assume "k \<in> set (cm_keys m)"
    then obtain e where "e \<in> set (all_engines m)" "k \<in> set (eng_keys e)"
      by (auto simp: cm_keys_def)
    then obtain i where i: "i \<le> length (cm_engines m)" "k \<in> set (eng_keys (all_engines m ! i))"
      by (metis in_set_conv_nth length_all_engines less_Suc_eq_le)
    with route [OF i] keys(1) [of "all_engines m ! i"] show "k \<in> {k. cm_contains_key m k}"
      by (simp add: cm_contains_nth less_Suc_eq_le)
  next
    fix k assume "k \<in> {k. cm_contains_key m k}"
    then show "k \<in> set (cm_keys m)"
      using keys(1) [OF engine_for_key_in [of m k]]
      by (auto simp: cm_keys_def cm_contains_key_def intro!: bexI [OF _ engine_for_key_in [of m k]])
  qed
  show "cm_len m = length (cm_keys m)"
    using keys(3) by (simp add: cm_len_def cm_keys_def length_concat comp_def cong: map_cong)
qed

lemma foldl_update_entries:
  "distinct (map fst xs) \<Longrightarrow>
   map_of (foldl (\<lambda>acc (key, val). AList.update key val acc) acc xs) k =
     (case map_of xs k of Some v \<Rightarrow> Some v | None \<Rightarrow> map_of acc k)"
proof (induction xs arbitrary: acc)
  case Nil
  then show ?case by simp
next
  case (Cons x xs)
  have "map_of xs (fst x) = None"
    using Cons.prems by (simp add: map_of_eq_None_iff)
  with Cons show ?case
    by (cases x) (auto split: option.splits)
qed

lemma distinct_foldl_update:
  "distinct (map fst acc) \<Longrightarrow>
   distinct (map fst (foldl (\<lambda>acc (key, val). AList.update key val acc) acc xs))"
  by (induction xs arbitrary: acc) (auto simp: distinct_update)

lemma map_of_sort_key:
  fixes xs :: "('k::linorder \<times> 'v) list"
  assumes "distinct (map fst xs)"
  shows "map_of (sort_key fst xs) = map_of xs"
proof -
  have "distinct (map fst (sort_key fst xs))"
    using assms by (metis mset_eq_imp_distinct_iff mset_map mset_sort)
  with assms show ?thesis by (simp add: map_of_inject_set)
qed

lemma map_filter_entries:
  "map fst (List.map_filter (\<lambda>k. map_option (Pair k) (f k)) ks) = filter (\<lambda>k. f k \<noteq> None) ks"
  "(k, v) \<in> set (List.map_filter (\<lambda>k. map_option (Pair k) (f k)) ks) \<longleftrightarrow> k \<in> set ks \<and> f k = Some v"
  by (induction ks) (auto simp: List.map_filter_def)

lemma distinct_concat_filter:
  "distinct (concat (map f xs)) \<Longrightarrow> distinct (concat (map (\<lambda>x. filter (P x) (f x)) xs))"
  by (induction xs) auto

lemma cm_all_get:
  assumes inv: "engines_inv m" and routed: "cm_routed m"
  shows "map_of (cm_all ser m) k = cm_get ser m k"
proof -
  let ?xs = "concat (map (engine_entries ser) (all_engines m))"
  have dist: "distinct (map fst ?xs)"
    using distinct_concat_filter [OF distinct_keys(1) [OF assms, unfolded cm_keys_def],
        of "\<lambda>e k. eng_get ser e k \<noteq> None"]
    by (simp add: map_concat engine_entries_def map_filter_entries(1) comp_def)
  have "map_of ?xs k = Some v \<longleftrightarrow> cm_get ser m k = Some v" for v
  proof
    assume "map_of ?xs k = Some v"
    then obtain e where "e \<in> set (all_engines m)" "eng_get ser e k = Some v"
      using dist by (auto simp: map_of_eq_Some_iff engine_entries_def map_filter_entries(2))
    then obtain i where i: "i \<le> length (cm_engines m)" and v: "eng_get ser (all_engines m ! i) k = Some v"
      by (metis in_set_conv_nth length_all_engines less_Suc_eq_le)
    have "cm_route m k = i"
      using dyn.get_contains [OF engines_inv_nth [OF inv i], of ser k] v by (intro cm_routedD [OF routed i]) simp
    with v show "cm_get ser m k = Some v" by (simp add: cm_get_nth)
  next
    assume v: "cm_get ser m k = Some v"
    then have "k \<in> set (eng_keys (engine_for_key m k))"
      using dyn.get_contains [OF engines_inv_for [OF inv], of ser k k] dyn.set_live_keys [OF engines_inv_for [OF inv], of k]
      by (simp add: cm_get_def)
    with v engine_for_key_in show "map_of ?xs k = Some v"
      using dist by (auto simp: map_of_eq_Some_iff engine_entries_def map_filter_entries(2) cm_get_def)
  qed
  then have "map_of ?xs k = cm_get ser m k"
    by (metis not_Some_eq)
  then show ?thesis
    using dist distinct_foldl_update [of "[]" ?xs]
    by (simp add: cm_all_def map_of_sort_key foldl_update_entries split: option.splits)
qed

section \<open>Convergence of stores\<close>

text \<open>The engine holds what the operations of its history denote.\<close>

fun eng_repr :: "shard_de \<Rightarrow> u64 \<Rightarrow> engine \<Rightarrow> operation list \<Rightarrow> bool" where
  "eng_repr de c (Lww_Handle e) H = lww_repr c e H"
| "eng_repr de c (Rate_Limit_Handle e) H = rl_repr de c e H"

fun eng_strategy :: "engine \<Rightarrow> merge_strategy" where
  "eng_strategy (Lww_Handle e) = LastWriterWins"
| "eng_strategy (Rate_Limit_Handle e) = EpochMaxWins"

fun eng_history_ok :: "shard_de \<Rightarrow> merge_strategy \<Rightarrow> operation set \<Rightarrow> bool" where
  "eng_history_ok de LastWriterWins H = op_ids_unique H"
| "eng_history_ok de EpochMaxWins H = rl_history_ok de H"

lemma eng_repr_mono: "eng_repr de c E H \<Longrightarrow> c \<le> c' \<Longrightarrow> eng_repr de c' E H"
  by (cases E) (auto simp: lww_repr_def rl_repr_def intro: order.trans)

lemma eng_repr_new: "eng_repr de c (strategy_engine s r) []"
  by (cases s) (simp_all add: lww_repr_new rl_repr_new)

lemma eng_remote_repr:
  assumes "eng_repr de c E H" and "eng_history_ok de (eng_strategy E) (set H \<union> set ops)"
    and "eng_apply_remote_ops ser de now ops (c, E) = ((c', E'), cs)"
  shows "eng_repr de c' E' (H @ ops) \<and> c \<le> c' \<and> eng_strategy E' = eng_strategy E"
proof (cases E)
  case (Lww_Handle e)
  obtain e' where app: "lww_apply_remote_ops now ops (c, e) = ((c', e'), cs)" and "E' = Lww_Handle e'"
    using assms(3) Lww_Handle by (auto split: prod.splits)
  with lww_remote_repr [OF _ _ app, of H] assms(1,2) Lww_Handle show ?thesis by simp
next
  case (Rate_Limit_Handle e)
  obtain e' where app: "rl_apply_remote_ops ser de now ops (c, e) = ((c', e'), cs)" and "E' = Rate_Limit_Handle e'"
    using assms(3) Rate_Limit_Handle by (auto split: prod.splits)
  with rl_remote_repr [OF _ _ app, of H] rl_remote_effect(3) [OF _ app] assms(1,2) Rate_Limit_Handle show ?thesis
    by (simp add: rl_repr_def)
qed

lemma eng_repr_get:
  assumes "eng_repr de c E H" "eng_repr de c' E' H'" "eng_strategy E = eng_strategy E'"
    and "set H = set H'" "eng_history_ok de (eng_strategy E) (set H)"
  shows "eng_get ser E = eng_get ser E'"
proof (cases E; cases E')
  fix e e' assume E: "E = Lww_Handle e" "E' = Lww_Handle e'"
  have "lww_spec_get H = lww_spec_get H'"
    using lww_value_set_eq [OF assms(4)] by (simp add: lww_spec_get_def fun_eq_iff)
  with assms(1,2) E show ?thesis
    by (simp add: fun_eq_iff lww_repr_get)
next
  fix e e' assume E: "E = Rate_Limit_Handle e" "E' = Rate_Limit_Handle e'"
  have "rl_value de H = rl_value de H'"
    using rl_value_set_eq [OF _ assms(4), of de] assms(5) E by (simp add: fun_eq_iff)
  with assms(1,2) E show ?thesis
    using rl_repr_states_eq [of de c e H c' e' H'] by (simp add: fun_eq_iff rl_get_state)
qed (use assms(3) in simp_all)

lemma clock_set_engine [simp]: "cm_clock (set_engine i ce m) = fst ce"
  by (simp add: set_engine_def)

definition bucket_at :: "nat \<Rightarrow> operation list list \<Rightarrow> nat \<Rightarrow> operation list" where
  "bucket_at idx buckets i = (if idx \<le> i then buckets ! (i - idx) else [])"

lemma bucket_at_Cons:
  "bucket_at idx (ops # buckets) i = (if i = idx then ops else bucket_at (Suc idx) buckets i)"
  by (auto simp: bucket_at_def nth_Cons')

lemma bucket_at_own [simp]: "bucket_at (Suc idx) buckets idx = []"
  by (simp add: bucket_at_def)

lemma bucket_at_skip: "bucket_at idx ([] # buckets) i = bucket_at (Suc idx) buckets i"
  by (simp add: bucket_at_Cons)

lemma merge_buckets_repr:
  assumes "merge_buckets ser de now idx buckets m = (m', cs)"
    and "idx + length buckets = Suc (length (cm_engines m))"
    and "\<forall>i \<le> length (cm_engines m). eng_repr de (cm_clock m) (all_engines m ! i) (Hs i)"
    and "\<forall>i \<le> length (cm_engines m). eng_history_ok de (eng_strategy (all_engines m ! i))
           (set (Hs i) \<union> set (bucket_at idx buckets i))"
  shows "\<forall>i \<le> length (cm_engines m).
           eng_repr de (cm_clock m') (all_engines m' ! i) (Hs i @ bucket_at idx buckets i) \<and>
           eng_strategy (all_engines m' ! i) = eng_strategy (all_engines m ! i)"
  using assms
proof (induction ser de now idx buckets m arbitrary: m' cs Hs rule: merge_buckets.induct)
  case (1 ser de now idx m)
  then show ?case by (simp add: bucket_at_def)
next
  case (2 ser de now idx ops buckets m)
  show ?case
  proof (cases "ops = []")
    case True
    have "\<forall>i \<le> length (cm_engines m).
           eng_repr de (cm_clock m') (all_engines m' ! i)
             (Hs i @ bucket_at (Suc idx) buckets i) \<and>
           eng_strategy (all_engines m' ! i) = eng_strategy (all_engines m ! i)"
      by (rule 2(1) [OF True]) (use True 2(3-6) in \<open>simp_all add: bucket_at_skip\<close>)
    with True show ?thesis by (simp add: bucket_at_skip)
  next
    case False
    obtain c e cs1 where app: "eng_apply_remote_ops ser de now ops (cm_clock m, all_engines m ! idx) = ((c, e), cs1)"
      by (metis prod.exhaust)
    obtain cs2 where rest: "merge_buckets ser de now (Suc idx) buckets (set_engine idx (c, e) m) = (m', cs2)"
      using 2(3) False app by (auto split: prod.splits)
    have i: "idx \<le> length (cm_engines m)" using 2(4) by simp
    have e: "eng_repr de c e (Hs idx @ ops) \<and> cm_clock m \<le> c \<and> eng_strategy e = eng_strategy (all_engines m ! idx)"
      by (rule eng_remote_repr [OF _ _ app])
        (use 2(5) 2(6) [rule_format, OF i] i in \<open>simp_all add: bucket_at_Cons\<close>)
    let ?m1 = "set_engine idx (c, e) m" and ?Hs1 = "Hs(idx := Hs idx @ ops)"
    have eng: "all_engines ?m1 ! j = (if j = idx then e else all_engines m ! j)" if "j \<le> length (cm_engines m)" for j
      using that i by (simp add: all_engines_set_engine nth_list_update less_Suc_eq_le)
    have "\<forall>i \<le> length (cm_engines ?m1).
           eng_repr de (cm_clock m') (all_engines m' ! i)
             (?Hs1 i @ bucket_at (Suc idx) buckets i) \<and>
           eng_strategy (all_engines m' ! i) = eng_strategy (all_engines ?m1 ! i)"
    proof (rule 2(2) [OF False app [symmetric] rest])
      show "Suc idx + length buckets = Suc (length (cm_engines ?m1))" using 2(4) by simp
      show "\<forall>i \<le> length (cm_engines ?m1). eng_repr de (cm_clock ?m1) (all_engines ?m1 ! i) (?Hs1 i)"
        using 2(5) e eng by (auto intro: eng_repr_mono)
      show "\<forall>i \<le> length (cm_engines ?m1). eng_history_ok de (eng_strategy (all_engines ?m1 ! i))
           (set (?Hs1 i) \<union> set (bucket_at (Suc idx) buckets i))"
      proof (intro allI impI)
        fix j assume j: "j \<le> length (cm_engines ?m1)"
        with 2(6) have "eng_history_ok de (eng_strategy (all_engines m ! j))
           (set (Hs j) \<union> set (bucket_at idx (ops # buckets) j))" by simp
        with j e eng [of j] show "eng_history_ok de (eng_strategy (all_engines ?m1 ! j))
           (set (?Hs1 j) \<union> set (bucket_at (Suc idx) buckets j))"
          by (cases "j = idx") (simp_all add: bucket_at_Cons)
      qed
    qed
    with e eng show ?thesis
      by (auto simp: bucket_at_Cons)
  qed
qed

definition routed_to :: "crdt_or_map \<Rightarrow> nat \<Rightarrow> operation list \<Rightarrow> operation list" where
  "routed_to m i ops = filter (\<lambda>op. cm_route m (op_key op) = i) ops"

definition store_repr :: "shard_de \<Rightarrow> crdt_or_map \<Rightarrow> operation list \<Rightarrow> bool" where
  "store_repr de m H \<longleftrightarrow>
     (\<forall>i \<le> length (cm_engines m). eng_repr de (cm_clock m) (all_engines m ! i) (routed_to m i H))"

text \<open>Every namespace's share of the operations is a history its engine can represent.\<close>

definition store_history_ok :: "shard_de \<Rightarrow> crdt_or_map \<Rightarrow> operation set \<Rightarrow> bool" where
  "store_history_ok de m H \<longleftrightarrow>
     (\<forall>i \<le> length (cm_engines m).
        eng_history_ok de (eng_strategy (all_engines m ! i)) {op \<in> H. cm_route m (op_key op) = i})"

definition cm_layout :: "crdt_or_map \<Rightarrow> (string \<times> merge_strategy) list" where
  "cm_layout m = map (\<lambda>(p, e). (p, eng_strategy e)) (cm_engines m)"

definition cm_merges ::
    "shard_ser \<Rightarrow> shard_de \<Rightarrow> (instant \<times> operation list) list \<Rightarrow> crdt_or_map \<Rightarrow> crdt_or_map" where
  "cm_merges ser de batches m = foldl (\<lambda>m (now, ops). fst (cm_merge ser de now ops m)) m batches"

lemma eng_repr_inv: "eng_repr de c E H \<Longrightarrow> eng_inv E"
  by (cases E) (simp_all add: lww_repr_def rl_repr_def)

lemma store_repr_inv:
  assumes "store_repr de m H"
  shows "engines_inv m"
  unfolding engines_inv_def
proof
  fix e assume "e \<in> set (all_engines m)"
  then obtain i where "i \<le> length (cm_engines m)" "e = all_engines m ! i"
    by (metis in_set_conv_nth length_all_engines less_Suc_eq_le)
  with assms show "eng_inv e" by (auto simp: store_repr_def intro: eng_repr_inv)
qed

lemma eng_history_ok_subset: "eng_history_ok de s H \<Longrightarrow> H' \<subseteq> H \<Longrightarrow> eng_history_ok de s H'"
  by (cases s) (auto intro: op_ids_unique_subset rl_history_ok_subset)

lemma cm_merge_repr:
  assumes repr: "store_repr de m H" and ok: "store_history_ok de m (set H \<union> set ops)"
    and mg: "cm_merge ser de now ops m = (m', cs)"
  shows "store_repr de m' (H @ ops)" and "map fst (cm_engines m') = map fst (cm_engines m)"
    and "map eng_strategy (all_engines m') = map eng_strategy (all_engines m)"
proof -
  let ?n = "length (cm_engines m)"
  show pre: "map fst (cm_engines m') = map fst (cm_engines m)"
    by (rule cm_merge_effect(2) [OF mg store_repr_inv [OF repr]])
  then have len: "length (cm_engines m') = ?n" by (metis length_map)
  have rt: "cm_route m' k = cm_route m k" for k by (rule cm_route_cong [OF pre])
  let ?bs = "bucket_ops (cm_engines m) ops (replicate (Suc ?n) [])"
  have at: "bucket_at 0 ?bs i = routed_to m i ops" if "i \<le> ?n" for i
    using that by (simp add: bucket_at_def bucket_ops_nth routed_to_def cm_route_def less_Suc_eq_le del: replicate_Suc)
  have sets: "set (routed_to m i H) \<union> set (routed_to m i ops) = {op \<in> set H \<union> set ops. cm_route m (op_key op) = i}" for i
    by (auto simp: routed_to_def)
  have all: "\<forall>i \<le> ?n. eng_repr de (cm_clock m') (all_engines m' ! i) (routed_to m i H @ bucket_at 0 ?bs i) \<and>
      eng_strategy (all_engines m' ! i) = eng_strategy (all_engines m ! i)"
    by (rule merge_buckets_repr [OF mg [unfolded cm_merge_def]])
      (use repr ok in \<open>simp_all add: store_repr_def store_history_ok_def at sets del: replicate_Suc\<close>)
  have "routed_to m' i (H @ ops) = routed_to m i H @ routed_to m i ops" for i
    by (simp add: routed_to_def rt)
  with all show "store_repr de m' (H @ ops)"
    by (simp add: store_repr_def len at del: replicate_Suc)
  show "map eng_strategy (all_engines m') = map eng_strategy (all_engines m)"
    by (rule nth_equalityI) (use all len in \<open>simp_all add: less_Suc_eq_le\<close>)
qed

lemma store_history_ok_cong:
  assumes "map fst (cm_engines m') = map fst (cm_engines m)"
    and "map eng_strategy (all_engines m') = map eng_strategy (all_engines m)"
  shows "store_history_ok de m' H = store_history_ok de m H"
proof -
  have len: "length (cm_engines m') = length (cm_engines m)" using assms(1) by (metis length_map)
  have "eng_strategy (all_engines m' ! i) = eng_strategy (all_engines m ! i)" if "i \<le> length (cm_engines m)" for i
    using arg_cong [OF assms(2), of "\<lambda>xs. xs ! i"] that len by (simp add: less_Suc_eq_le)
  then show ?thesis
    by (simp add: store_history_ok_def len cm_route_cong [OF assms(1)])
qed

lemma cm_merges_repr:
  assumes "store_repr de m H" and "store_history_ok de m (set H \<union> set (concat (map snd batches)))"
  shows "store_repr de (cm_merges ser de batches m) (H @ concat (map snd batches)) \<and>
         map fst (cm_engines (cm_merges ser de batches m)) = map fst (cm_engines m) \<and>
         map eng_strategy (all_engines (cm_merges ser de batches m)) = map eng_strategy (all_engines m)"
  using assms
proof (induction batches arbitrary: m H)
  case Nil
  then show ?case by (simp add: cm_merges_def)
next
  case (Cons b batches)
  obtain now ops where b: "b = (now, ops)" by force
  obtain m1 cs where mg: "cm_merge ser de now ops m = (m1, cs)" by force
  have ok: "store_history_ok de m (set H \<union> set ops)"
    using Cons.prems(2) unfolding store_history_ok_def b by (auto intro: eng_history_ok_subset)
  note one = cm_merge_repr [OF Cons.prems(1) ok mg]
  have "store_history_ok de m1 (set (H @ ops) \<union> set (concat (map snd batches)))"
    using Cons.prems(2) by (simp add: store_history_ok_cong [OF one(2,3)] b Un_assoc)
  from Cons.IH [OF one(1) this] one(2,3) show ?case
    by (simp add: cm_merges_def b mg)
qed

lemma cm_default_strategy:
  assumes "cm_run ser de cs (with_replica_id r) = Some m" "list_all is_register cs"
  shows "eng_strategy (cm_default_engine m) = LastWriterWins"
proof (rule cm_run_invariant [OF assms(1)])
  fix c m m'
  assume "c \<in> set cs" "eng_strategy (cm_default_engine m) = LastWriterWins" "cm_exec ser de c m = Some m'"
  with assms(2) show "eng_strategy (cm_default_engine m') = LastWriterWins"
    by (cases c) (auto simp: list_all_iff register_merge_strategy_def split: if_splits)
qed (simp add: with_replica_id_def)

lemma cm_fresh_repr:
  "\<forall>e \<in> set (all_engines m). \<exists>s r. e = strategy_engine s r \<Longrightarrow> store_repr de m []"
  unfolding store_repr_def routed_to_def
  by (metis eng_repr_new filter.simps(1) length_all_engines less_Suc_eq_le nth_mem)

lemma cm_layout_strategies:
  assumes "cm_layout a = cm_layout b" and "eng_strategy (cm_default_engine a) = eng_strategy (cm_default_engine b)"
  shows "map fst (cm_engines a) = map fst (cm_engines b)"
    and "map eng_strategy (all_engines a) = map eng_strategy (all_engines b)"
proof -
  have "map fst (cm_layout a) = map fst (cm_layout b)" and "map snd (cm_layout a) = map snd (cm_layout b)"
    using assms(1) by simp_all
  then show "map fst (cm_engines a) = map fst (cm_engines b)"
    and "map eng_strategy (all_engines a) = map eng_strategy (all_engines b)"
    using assms(2) by (simp_all add: cm_layout_def comp_def case_prod_unfold all_engines_def)
qed

lemma cm_exec_keeps_prefix:
  assumes "cm_exec ser de c m = Some m'" "engines_inv m" "table_ok (map fst (cm_engines m))"
    and "p \<in> set (map fst (cm_engines m))"
  shows "engines_inv m' \<and> table_ok (map fst (cm_engines m')) \<and> p \<in> set (map fst (cm_engines m'))"
proof -
  have "p \<in> set (map fst (cm_engines m'))"
  proof (cases "is_register c")
    case True
    with assms show ?thesis by (cases c) (auto simp: register_merge_strategy_def split: if_splits)
  next
    case False
    with cm_exec_table(2) [OF assms(1-3)] assms(4) show ?thesis by simp
  qed
  with cm_exec_inv [OF assms(2,1)] cm_exec_table(1) [OF assms(1-3)] show ?thesis by simp
qed

section \<open>Properties\<close>

text \<open>C8.
  Longest-prefix routing.  After any sequence of calls on a new map, a key is served by the
  default engine when no registered prefix starts it, and otherwise by the engine of the
  registered prefix that starts it and is strictly longer than every other one that does.
\<close>

theorem longest_prefix_routing:
  assumes "cm_run ser de calls (with_replica_id r) = Some m"
  shows "(\<forall>x \<in> set (cm_engines m). \<not> starts_with (fst x) k) \<and> engine_for_key m k = cm_default_engine m \<or>
         (\<exists>p e. (p, e) \<in> set (cm_engines m) \<and> starts_with p k \<and> engine_for_key m k = e \<and>
            (\<forall>x \<in> set (cm_engines m). starts_with (fst x) k \<longrightarrow> x = (p, e) \<or> length (fst x) < length p))"
  unfolding engine_for_key_def
  by (rule engine_for_longest) (use cm_run_inv [OF assms cm_new_inv] in simp)

definition demo_calls :: "cm_call list" where
  "demo_calls = [Call_Register ''w:'' LastWriterWins, Call_Register ''w:x:'' EpochMaxWins]"

definition demo_map :: "replica_id \<Rightarrow> crdt_or_map" where
  "demo_map r =
     \<lparr>cm_engines = [(''w:x:'', Rate_Limit_Handle (rl_new r)), (''w:'', Lww_Handle (lww_new r))],
      cm_default_engine = Lww_Handle (lww_new r), cm_clock = 0, cm_replica_id = r, cm_op_snapshot = None\<rparr>"

lemma demo_run: "cm_run ser de demo_calls (with_replica_id r) = Some (demo_map r)"
  by (simp add: demo_calls_def demo_map_def with_replica_id_def register_merge_strategy_def lamport_new_def)

lemma demo_registers: "list_all is_register demo_calls"
  by (simp add: demo_calls_def)

theorem longest_prefix_routing_witness:
  "engine_for_key (demo_map 7) ''w:x:1'' = Rate_Limit_Handle (rl_new 7) \<and>
   engine_for_key (demo_map 7) ''w:y'' = Lww_Handle (lww_new 7)"
  using longest_prefix_routing [OF demo_run [of fixed_ser fixed_de 7], of "''w:x:1''"]
    longest_prefix_routing [OF demo_run [of fixed_ser fixed_de 7], of "''w:y''"]
  by (auto simp: demo_map_def starts_with_def)

text \<open>C9.
  A merge reports what it changed.  On every reachable map, a subscriber that holds the
  store and replays the report of a merge, whose changes may come from several engines,
  holds the merged store, and no key is reported twice.
\<close>

theorem merge_report_reproduces_store:
  assumes "cm_run ser de calls (with_replica_id r) = Some m"
    and "cm_merge ser de now log m = (m', report)"
  shows "replay_changes report (cm_get ser m) = cm_get ser m' \<and> distinct (map change_key report)"
  using cm_run_inv [OF assms(1) cm_new_inv] cm_merge_effect(5,6) [OF assms(2)] by blast

definition demo_log :: "operation list" where
  "demo_log = [Insert ''w:a'' [1] 5 2, Insert ''w:x:1'' (ec_encode 3 4) 6 2]"

theorem merge_report_reproduces_store_witness:
  "replay_changes (snd (cm_merge fixed_ser fixed_de 0 demo_log (demo_map 7))) (cm_get fixed_ser (demo_map 7))
     = cm_get fixed_ser (fst (cm_merge fixed_ser fixed_de 0 demo_log (demo_map 7)))"
  using merge_report_reproduces_store [OF demo_run prod.collapse [symmetric]] by blast

text \<open>
  Fan-out reads agree with routed reads.  When the prefixes are registered before the first
  write, the ordered map that \<open>all\<close> collects from every engine is the map \<open>get\<close> reads,
  \<open>keys\<close> lists exactly the live keys without repetition, and \<open>len\<close> counts them.
\<close>

theorem fan_out_reads_agree:
  assumes "cm_run ser de regs (with_replica_id r) = Some m0" and "list_all is_register regs"
    and "cm_run ser de calls m0 = Some m" and "list_all (\<lambda>c. \<not> is_register c) calls"
  shows "map_of (cm_all ser m) k = cm_get ser m k \<and> distinct (cm_keys m) \<and>
         (k \<in> set (cm_keys m) \<longleftrightarrow> cm_contains_key m k) \<and> cm_len m = length (cm_keys m)"
proof -
  have "engines_inv m0 \<and> cm_routed m0"
    using cm_run_inv [OF assms(1) cm_new_inv] cm_fresh_routed [OF cm_fresh [OF assms(1,2)]] by simp
  then have "engines_inv m \<and> cm_routed m"
    by (rule cm_run_invariant [OF assms(3)])
      (use assms(4) cm_exec_inv cm_exec_routed in \<open>auto simp: list_all_iff\<close>)
  then show ?thesis
    using cm_all_get [of m ser k] distinct_keys [of m] by simp
qed

definition demo_writes :: "cm_call list" where
  "demo_writes = [Call_Insert 0 ''w:a'' [1], Call_Insert 1 ''w:x:1'' (ec_encode 3 4), Call_Merge 2 demo_log, Call_Gc 9 3]"

theorem fan_out_reads_agree_witness:
  "\<exists>m. cm_run fixed_ser fixed_de demo_writes (demo_map 7) = Some m \<and>
       map_of (cm_all fixed_ser m) ''w:a'' = cm_get fixed_ser m ''w:a'' \<and> cm_len m = length (cm_keys m)"
proof -
  obtain m where m: "cm_run fixed_ser fixed_de demo_writes (demo_map 7) = Some m"
    by (simp add: demo_writes_def)
  moreover have "list_all (\<lambda>c. \<not> is_register c) demo_writes"
    by (simp add: demo_writes_def)
  ultimately show ?thesis
    using fan_out_reads_agree [OF demo_run demo_registers m, of "''w:a''"] by blast
qed

text \<open>C10.
  The gossip snapshot is never stale.  From a new map, after any sequence of calls short
  enough that the wrapping 64-bit sum of the log generations cannot come back to an earlier
  value, \<open>operation_log_snapshot\<close> returns the current log whether or not it hits its cache.
\<close>

theorem snapshot_never_stale:
  assumes "cm_run ser de calls (with_replica_id r) = Some m"
    and "length calls * Suc (length (cm_engines m)) < 2 ^ 64"
  shows "snd (operation_log_snapshot m) = get_operation_log m"
proof -
  have "snapshot_age 0 (with_replica_id r)" by (simp add: snapshot_age_def with_replica_id_def)
  from cm_run_age [OF assms(1) cm_new_inv this] assms(2)
  have "snapshot_age (0 + length calls * Suc (length (cm_engines m))) m" by simp
  then show ?thesis by (rule snapshot_age_fresh(1)) (use assms(2) in simp)
qed

theorem snapshot_never_stale_witness:
  "\<exists>m. cm_run fixed_ser fixed_de [Call_Snapshot, Call_Insert 0 ''a'' [1]] (with_replica_id 7) = Some m \<and>
       snd (operation_log_snapshot m) = get_operation_log m \<and> get_operation_log m = [Insert ''a'' [1] 1 7]"
proof -
  define m where "m = fst (cm_insert fixed_ser fixed_de 0 ''a'' [1] (fst (operation_log_snapshot (with_replica_id 7))))"
  have run: "cm_run fixed_ser fixed_de [Call_Snapshot, Call_Insert 0 ''a'' [1]] (with_replica_id 7) = Some m"
    by (simp add: m_def)
  have eng: "cm_engines m = [] \<and> get_operation_log m = [Insert ''a'' [1] 1 7]"
    by (simp add: m_def cm_insert_def engine_for_key_def with_replica_id_def operation_log_snapshot_def Let_def
        set_engine_def get_operation_log_def all_engines_def lww_eval)
  then have "snd (operation_log_snapshot m) = get_operation_log m"
    by (intro snapshot_never_stale [OF run]) simp
  with run eng show ?thesis by blast
qed

text \<open>C11.
  Stores converge.  Two nodes that registered the same prefixes with the same strategies and
  merged the same operations, in batches of any size, order and repetition, read the same
  value for every key, in last-writer-wins and in rate-limit namespaces alike.
\<close>

theorem store_convergence:
  assumes "cm_run ser de regs (with_replica_id r) = Some a" "list_all is_register regs"
    and "cm_run ser de regs' (with_replica_id r') = Some b" "list_all is_register regs'"
    and "cm_layout a = cm_layout b"
    and "set (concat (map snd batches)) = set (concat (map snd batches'))"
    and "store_history_ok de a (set (concat (map snd batches)))"
  shows "cm_get ser (cm_merges ser de batches a) k = cm_get ser (cm_merges ser de batches' b) k"
proof -
  let ?H = "concat (map snd batches)" and ?H' = "concat (map snd batches')"
  let ?a = "cm_merges ser de batches a" and ?b = "cm_merges ser de batches' b"
  note lay = cm_layout_strategies [OF assms(5)]
  have dflt: "eng_strategy (cm_default_engine a) = eng_strategy (cm_default_engine b)"
    by (simp add: cm_default_strategy [OF assms(1,2)] cm_default_strategy [OF assms(3,4)])
  have okb: "store_history_ok de b (set ?H')"
    using assms(6,7) store_history_ok_cong [OF lay [OF dflt]] by simp
  have ra: "store_repr de ?a ?H \<and> map fst (cm_engines ?a) = map fst (cm_engines a) \<and>
      map eng_strategy (all_engines ?a) = map eng_strategy (all_engines a)"
    using cm_merges_repr [OF cm_fresh_repr [OF cm_fresh [OF assms(1,2)]], of de batches ser] assms(7) by simp
  have rb: "store_repr de ?b ?H' \<and> map fst (cm_engines ?b) = map fst (cm_engines b) \<and>
      map eng_strategy (all_engines ?b) = map eng_strategy (all_engines b)"
    using cm_merges_repr [OF cm_fresh_repr [OF cm_fresh [OF assms(3,4)]], of de batches' ser] okb by simp
  let ?i = "cm_route a k"
  have len: "length (cm_engines ?a) = length (cm_engines a)" "length (cm_engines ?b) = length (cm_engines a)"
    using ra rb lay(1) [OF dflt] by (metis length_map)+
  have rt: "cm_route ?a x = cm_route a x" "cm_route ?b x = cm_route a x" for x
    using ra rb lay(1) [OF dflt] by (simp_all add: cm_route_cong [of ?a a] cm_route_cong [of ?b a])
  have strat: "eng_strategy (all_engines ?a ! ?i) = eng_strategy (all_engines a ! ?i)"
    "eng_strategy (all_engines ?b ! ?i) = eng_strategy (all_engines a ! ?i)"
    using ra rb lay(2) [OF dflt] len by (metis cm_route_le length_all_engines less_Suc_eq_le nth_map)+
  have "eng_get ser (all_engines ?a ! ?i) = eng_get ser (all_engines ?b ! ?i)"
  proof (rule eng_repr_get)
    show "eng_repr de (cm_clock ?a) (all_engines ?a ! ?i) (routed_to ?a ?i ?H)"
      using ra len by (simp add: store_repr_def)
    show "eng_repr de (cm_clock ?b) (all_engines ?b ! ?i) (routed_to ?b ?i ?H')"
      using rb len by (simp add: store_repr_def)
    show "set (routed_to ?a ?i ?H) = set (routed_to ?b ?i ?H')"
      using assms(6) by (simp add: routed_to_def rt)
    have "set (routed_to ?a ?i ?H) = {op \<in> set ?H. cm_route a (op_key op) = ?i}"
      by (auto simp: routed_to_def rt)
    with assms(7) show "eng_history_ok de (eng_strategy (all_engines ?a ! ?i)) (set (routed_to ?a ?i ?H))"
      by (simp add: strat store_history_ok_def)
  qed (simp add: strat)
  then show ?thesis by (simp add: cm_get_nth rt)
qed

lemma single_insert_history_ok: "rl_history_ok fixed_de {Insert k (ec_encode e c) t r}"
proof -
  have st: "rl_states fixed_de [Insert k (ec_encode e c) t r] =
      [Live (from_live_point \<lparr>lp_value = EpochCount e c, lp_version = (t, r)\<rparr>)]"
    by (simp add: raw_insert_value)
  have "rl_history_ok fixed_de (set [Insert k (ec_encode e c) t r])"
  proof (rule rl_history_okI)
    show "state_wf s" if "op \<in> set [Insert k (ec_encode e c) t r]" "operation_state fixed_de op = Some s" for op s
    proof -
      from that have "s \<in> set (rl_states fixed_de [Insert k (ec_encode e c) t r])"
        by (simp add: set_rl_states)
      then show ?thesis unfolding st by (simp add: from_live_point_def front_def after_tombstone_def)
    qed
    show "coherent (rl_points fixed_de (set [Insert k (ec_encode e c) t r]) k')" for k'
      unfolding rl_points_states by (simp add: raw_insert_value from_live_point_def coherent_def)
  qed
  then show ?thesis by simp
qed

lemma demo_store_history: "store_history_ok fixed_de (demo_map r) (set demo_log)"
proof -
  have key: "cm_route (demo_map r) ''w:a'' = 1" "cm_route (demo_map r) ''w:x:1'' = 0"
    by (simp_all add: cm_route_def demo_map_def starts_with_def)
  have "{op \<in> set demo_log. cm_route (demo_map r) (op_key op) = 0} = {Insert ''w:x:1'' (ec_encode 3 4) 6 2}"
    "{op \<in> set demo_log. cm_route (demo_map r) (op_key op) = 1} = {Insert ''w:a'' [1] 5 2}"
    "{op \<in> set demo_log. cm_route (demo_map r) (op_key op) = 2} = {}"
    using key by (auto simp: demo_log_def)
  moreover have "rl_history_ok fixed_de {Insert ''w:x:1'' (ec_encode 3 4) 6 2}"
    by (rule single_insert_history_ok)
  ultimately show ?thesis
    by (auto simp: store_history_ok_def demo_map_def all_engines_def le_Suc_eq numeral_2_eq_2 op_ids_unique_def
        nth_Cons')
qed

theorem store_convergence_witness:
  "cm_get fixed_ser (cm_merges fixed_ser fixed_de [(0, demo_log)] (demo_map 7)) ''w:x:1'' =
   cm_get fixed_ser (cm_merges fixed_ser fixed_de [(3, [demo_log ! 1]), (4, rev demo_log)] (demo_map 8)) ''w:x:1''"
proof (rule store_convergence [OF demo_run demo_registers demo_run demo_registers])
  show "cm_layout (demo_map 7) = cm_layout (demo_map 8)"
    by (simp add: cm_layout_def demo_map_def)
  show "set (concat (map snd [(0, demo_log)])) = set (concat (map snd [(3, [demo_log ! 1]), (4, rev demo_log)]))"
    by (auto simp: demo_log_def)
  show "store_history_ok fixed_de (demo_map 7) (set (concat (map snd [(0, demo_log)])))"
    using demo_store_history by simp
qed

text \<open>
  Registration is one-shot.  Once a prefix has been registered on a reachable map, a second
  registration fails at any later point, whatever the strategy and the calls in between.
\<close>

theorem second_registration_fails:
  assumes "cm_run ser de calls (with_replica_id r) = Some m"
    and "register_merge_strategy p s m = Some m1" and "cm_run ser de later m1 = Some m2"
  shows "register_merge_strategy p s' m2 = None"
proof -
  have inv: "engines_inv m1 \<and> table_ok (map fst (cm_engines m1))"
    using cm_run_inv [OF assms(1) cm_new_inv] cm_exec_inv [of m ser de "Call_Register p s" m1]
      table_ok_register [OF assms(2)] assms(2) by simp
  have "p \<in> set (map fst (cm_engines m1))"
    using assms(2) by (auto simp: register_merge_strategy_def split: if_splits)
  with inv have "engines_inv m1 \<and> table_ok (map fst (cm_engines m1)) \<and> p \<in> set (map fst (cm_engines m1))"
    by simp
  then have "engines_inv m2 \<and> table_ok (map fst (cm_engines m2)) \<and> p \<in> set (map fst (cm_engines m2))"
    by (rule cm_run_invariant [OF assms(3)]) (elim conjE, rule cm_exec_keeps_prefix)
  then show ?thesis by (auto simp: register_merge_strategy_def)
qed

theorem second_registration_fails_witness:
  "register_merge_strategy ''w:'' EpochMaxWins
     (fst (cm_insert fixed_ser fixed_de 0 ''w:a'' [1] (demo_map 7))) = None"
proof (rule second_registration_fails [of fixed_ser fixed_de "[]" 7])
  show "cm_run fixed_ser fixed_de [] (with_replica_id 7) = Some (with_replica_id 7)" by simp
  show "register_merge_strategy ''w:'' LastWriterWins (with_replica_id 7) =
      Some ((with_replica_id 7)\<lparr>cm_engines := [(''w:'', Lww_Handle (lww_new 7))]\<rparr>)"
    by (simp add: register_merge_strategy_def with_replica_id_def)
  show "cm_run fixed_ser fixed_de [Call_Register ''w:x:'' EpochMaxWins, Call_Insert 0 ''w:a'' [1]]
      ((with_replica_id 7)\<lparr>cm_engines := [(''w:'', Lww_Handle (lww_new 7))]\<rparr>) =
      Some (fst (cm_insert fixed_ser fixed_de 0 ''w:a'' [1] (demo_map 7)))"
    by (simp add: register_merge_strategy_def with_replica_id_def demo_map_def lamport_new_def)
qed

end
