(* ===== verification/Watermark.thy ===== *)
theory Watermark
  imports Lww_Network Rate_Limit_Properties
begin

text \<open>
  Model of \<open>crdt_kv/watermark.rs\<close>: the op-ids a peer has acknowledged, per key, which the
  sender uses to skip what the peer already holds.  The versions of a watermark are a finite
  map; merging acknowledgements is a join (interpretation \<open>wm_lattice\<close>).
\<close>

section \<open>Watermarks\<close>

type_synonym crdt_watermark = "(string \<times> version) list"

definition wm_new :: crdt_watermark where
  "wm_new = []"

definition wm_raise :: "string \<Rightarrow> version \<Rightarrow> crdt_watermark \<Rightarrow> crdt_watermark" where
  "wm_raise key ident versions =
     (case map_of versions key of
        Some existing \<Rightarrow> AList.update key (max existing ident) versions
      | None \<Rightarrow> AList.update key ident versions)"

definition from_ops :: "operation list \<Rightarrow> crdt_watermark" where
  "from_ops ops =
     foldl (\<lambda>versions op. wm_raise (op_key op) (op_timestamp op, op_replica_id op) versions) [] ops"

definition wm_get :: "crdt_watermark \<Rightarrow> string \<Rightarrow> version option" where
  "wm_get w key = map_of w key"

definition allows :: "crdt_watermark \<Rightarrow> operation \<Rightarrow> bool" where
  "allows w op =
     (case wm_get w (op_key op) of
        Some acked \<Rightarrow> (op_timestamp op, op_replica_id op) > acked
      | None \<Rightarrow> True)"

definition merge_max_owned :: "crdt_watermark \<Rightarrow> (string \<times> version) list \<Rightarrow> crdt_watermark" where
  "merge_max_owned w pairs = foldl (\<lambda>versions (key, ident). wm_raise key ident versions) w pairs"

definition merge_max :: "crdt_watermark \<Rightarrow> crdt_watermark \<Rightarrow> crdt_watermark" where
  "merge_max w other = foldl (\<lambda>versions (key, ident). wm_raise key ident versions) w other"

definition wm_iter :: "crdt_watermark \<Rightarrow> (string \<times> version) list" where
  "wm_iter w = w"

definition wm_is_empty :: "crdt_watermark \<Rightarrow> bool" where
  "wm_is_empty w \<longleftrightarrow> w = []"

definition wm_from_iter :: "(string \<times> version) list \<Rightarrow> crdt_watermark" where
  "wm_from_iter pairs = merge_max_owned wm_new pairs"

section \<open>Merging acknowledgements is a join\<close>

type_synonym acked_map = "string \<Rightarrow> version option"

fun ack_join :: "'v::linorder option \<Rightarrow> 'v option \<Rightarrow> 'v option" where
  "ack_join None b = b"
| "ack_join (Some a) None = Some a"
| "ack_join (Some a) (Some b) = Some (max a b)"

lemma ack_join_None_right [simp]: "ack_join a None = a"
  by (cases a) simp_all

lemma ack_join_assoc: "ack_join (ack_join a b) c = ack_join a (ack_join b c)"
  by (cases a; cases b; cases c) (simp_all add: max.assoc)

lemma ack_join_comm: "ack_join a b = ack_join b a"
  by (cases a; cases b) (simp_all add: max.commute)

lemma ack_join_idem: "ack_join a a = a"
  by (cases a) simp_all

definition wm_join :: "acked_map \<Rightarrow> acked_map \<Rightarrow> acked_map" where
  "wm_join f g = (\<lambda>k. ack_join (f k) (g k))"

interpretation wm_lattice: join_semilattice_on "UNIV :: acked_map set" wm_join
proof (unfold_locales, goal_cases)
  case 2 then show ?case by (simp add: wm_join_def ack_join_assoc)
next
  case (3 a b) then show ?case unfolding wm_join_def by (intro ext ack_join_comm)
qed (simp_all add: wm_join_def ack_join_idem)

lemma wm_get_raise: "wm_get (wm_raise key ident w) k = (if k = key then ack_join (wm_get w k) (Some ident) else wm_get w k)"
  by (simp add: wm_get_def wm_raise_def split: option.splits)

lemma distinct_raise: "distinct (map fst w) \<Longrightarrow> distinct (map fst (wm_raise key ident w))"
  by (simp add: wm_raise_def distinct_update split: option.splits)

text \<open>The maximum of the identifiers a list of pairs gives a key.\<close>

definition pairs_max :: "(string \<times> 'v::linorder) list \<Rightarrow> string \<Rightarrow> 'v option" where
  "pairs_max pairs k = foldl (\<lambda>a (key, ident). if key = k then ack_join a (Some ident) else a) None pairs"

lemma pairs_max_Nil [simp]: "pairs_max [] k = None"
  by (simp add: pairs_max_def)

lemma pairs_max_snoc:
  "pairs_max (pairs @ [(key, ident)]) k =
     (if key = k then ack_join (pairs_max pairs k) (Some ident) else pairs_max pairs k)"
  by (simp add: pairs_max_def)

lemma wm_get_foldl:
  "wm_get (foldl (\<lambda>versions (key, ident). wm_raise key ident versions) w pairs) k =
     foldl (\<lambda>a (key, ident). if key = k then ack_join a (Some ident) else a) (wm_get w k) pairs"
  by (induction pairs arbitrary: w) (auto simp: wm_get_raise)

lemma foldl_ack_join:
  "foldl (\<lambda>a (key, ident). if key = k then ack_join a (Some ident) else a) a pairs = ack_join a (pairs_max pairs k)"
proof (induction pairs arbitrary: a rule: rev_induct)
  case Nil
  then show ?case by simp
next
  case (snoc x pairs)
  then show ?case by (cases x) (simp add: pairs_max_snoc ack_join_assoc)
qed

lemma pairs_max_distinct: "distinct (map fst w) \<Longrightarrow> pairs_max w k = map_of w k"
proof (induction w rule: rev_induct)
  case Nil
  then show ?case by simp
next
  case (snoc x w)
  obtain key ident where x: "x = (key, ident)" by (cases x)
  have "map_of w key = None" using snoc.prems x by (simp add: map_of_eq_None_iff)
  with snoc x show ?case
    by (cases "key = k") (simp_all add: pairs_max_snoc map_add_def split: option.splits)
qed

lemma wm_get_merge_max_owned: "wm_get (merge_max_owned w pairs) k = ack_join (wm_get w k) (pairs_max pairs k)"
  by (simp add: merge_max_owned_def wm_get_foldl foldl_ack_join)

lemma wm_get_merge_max:
  "distinct (map fst b) \<Longrightarrow> wm_get (merge_max a b) = wm_join (wm_get a) (wm_get b)"
  by (simp add: merge_max_def wm_get_foldl foldl_ack_join pairs_max_distinct wm_join_def fun_eq_iff)
    (simp add: wm_get_def)

lemma distinct_foldl_raise:
  "distinct (map fst w) \<Longrightarrow>
   distinct (map fst (foldl (\<lambda>versions (key, ident). wm_raise key ident versions) w pairs))"
  by (induction pairs arbitrary: w) (auto simp: distinct_raise)

lemma from_ops_pairs: "from_ops ops = merge_max_owned wm_new (map (\<lambda>op. (op_key op, op_version op)) ops)"
  unfolding from_ops_def merge_max_owned_def wm_new_def op_version_def
  by (simp add: foldl_map)

lemma distinct_from_ops: "distinct (map fst (from_ops ops))"
  by (simp add: from_ops_pairs merge_max_owned_def wm_new_def distinct_foldl_raise)

lemma ack_join_ge: "ack_join a (Some b) = Some v \<Longrightarrow> b \<le> v" "ack_join (Some b) a = Some v \<Longrightarrow> b \<le> v"
  by (cases a; auto)+

lemma ack_join_choice: "ack_join a (Some b) = Some v \<Longrightarrow> v \<noteq> b \<Longrightarrow> a = Some v"
  by (cases a) (auto simp: max_def split: if_splits)

lemma ack_join_Some [simp]: "ack_join a (Some b) \<noteq> None"
  by (cases a) simp_all

lemma from_ops_snoc:
  "wm_get (from_ops (ops @ [op])) k =
     (if k = op_key op then ack_join (wm_get (from_ops ops) k) (Some (op_version op)) else wm_get (from_ops ops) k)"
  by (simp add: from_ops_def wm_get_raise op_version_def)

lemma from_ops_Nil [simp]: "wm_get (from_ops []) k = None"
  by (simp add: from_ops_def wm_get_def)

lemma from_ops_None: "wm_get (from_ops ops) k = None \<longleftrightarrow> k \<notin> op_key ` set ops"
  by (induction ops rule: rev_induct) (simp_all add: from_ops_snoc image_iff)

lemma from_ops_in: "wm_get (from_ops ops) k = Some v \<Longrightarrow> \<exists>op \<in> set ops. op_key op = k \<and> op_version op = v"
proof (induction ops rule: rev_induct)
  case (snoc op ops)
  then show ?case
    using ack_join_choice [of "wm_get (from_ops ops) k" "op_version op" v]
    by (cases "k = op_key op"; cases "v = op_version op") (simp_all add: from_ops_snoc)
qed simp

lemma from_ops_ge:
  "wm_get (from_ops ops) k = Some v \<Longrightarrow> op \<in> set ops \<Longrightarrow> op_key op = k \<Longrightarrow> op_version op \<le> v"
proof (induction ops arbitrary: v rule: rev_induct)
  case (snoc x ops)
  show ?case
  proof (cases "op = x")
    case True
    with snoc.prems show ?thesis by (simp add: from_ops_snoc ack_join_ge(1))
  next
    case False
    with snoc.prems have op: "op \<in> set ops" by simp
    then obtain u where u: "wm_get (from_ops ops) k = Some u"
      using from_ops_None [of ops k] snoc.prems(3) by (cases "wm_get (from_ops ops) k") auto
    from snoc.IH [OF u op snoc.prems(3)] have "op_version op \<le> u" .
    moreover have "u \<le> v"
      using snoc.prems(1) u ack_join_ge(2) [of u "Some (op_version x)" v]
      by (cases "k = op_key x") (simp_all add: from_ops_snoc)
    ultimately show ?thesis by (rule order.trans)
  qed
qed simp

section \<open>Properties\<close>

lemma wm_get_new [simp]: "wm_get wm_new = (\<lambda>_. None)"
  by (simp add: wm_get_def wm_new_def fun_eq_iff)

lemma wm_join_new [simp]: "wm_join (\<lambda>_. None) f = f"
  by (simp add: wm_join_def)

lemma distinct_from_iter: "distinct (map fst (wm_from_iter pairs))"
  by (simp add: wm_from_iter_def merge_max_owned_def wm_new_def distinct_foldl_raise)

lemma wm_get_merges:
  "wm_get (foldl merge_max w (map wm_from_iter acks)) =
     foldl wm_join (wm_get w) (map (wm_get \<circ> wm_from_iter) acks)"
  by (induction acks arbitrary: w) (simp_all add: wm_get_merge_max distinct_from_iter)

lemma wm_get_merges_joins:
  "acks \<noteq> [] \<Longrightarrow> Some (wm_get (foldl merge_max wm_new (map wm_from_iter acks))) =
     joins wm_join (map (wm_get \<circ> wm_from_iter) acks)"
  unfolding wm_get_merges by (cases acks) (simp_all add: joins_Cons)

text \<open>
  Acknowledgements may arrive late, out of order and repeatedly.  The send watermark after any
  sequence of acknowledgements depends only on which acknowledgements arrived, and it never
  falls below one of them.
\<close>

theorem acks_in_any_order:
  assumes "set acks = set acks'"
  shows "wm_get (foldl merge_max wm_new (map wm_from_iter acks)) =
           wm_get (foldl merge_max wm_new (map wm_from_iter acks')) \<and>
         (\<forall>a \<in> set acks. \<forall>k v. wm_get (wm_from_iter a) k = Some v \<longrightarrow>
            (\<exists>u \<ge> v. wm_get (foldl merge_max wm_new (map wm_from_iter acks)) k = Some u))"
proof (cases "acks = []")
  case True
  with assms show ?thesis by simp
next
  case False
  let ?w = "wm_get (foldl merge_max wm_new (map wm_from_iter acks))"
  have ne: "acks' \<noteq> []" using False assms by auto
  have "joins wm_join (map (wm_get \<circ> wm_from_iter) acks) = joins wm_join (map (wm_get \<circ> wm_from_iter) acks')"
    by (rule wm_lattice.joins_set_eq) (use assms in auto)
  then have eq: "?w = wm_get (foldl merge_max wm_new (map wm_from_iter acks'))"
    by (metis False ne wm_get_merges_joins option.inject)
  have "\<exists>u \<ge> v. ?w k = Some u" if a: "a \<in> set acks" "wm_get (wm_from_iter a) k = Some v" for a k v
  proof -
    have "wm_lattice.below (wm_get (wm_from_iter a)) ?w"
      by (rule wm_lattice.joins_upper [OF _ wm_get_merges_joins [OF False, symmetric]]) (use a(1) in auto)
    then have "ack_join (wm_get (wm_from_iter a) k) (?w k) = ?w k"
      unfolding wm_lattice.below_def wm_join_def by (rule fun_cong)
    then obtain u where u: "?w k = Some u" "ack_join (Some v) (Some u) = Some u"
      using a(2) by (cases "?w k") simp_all
    from ack_join_ge(2) [OF u(2)] u(1) show ?thesis by blast
  qed
  with eq show ?thesis by simp
qed

theorem acks_in_any_order_witness:
  "wm_get (foldl merge_max wm_new (map wm_from_iter [[(''k'', (3, 1))], [(''k'', (5, 2))]])) =
   wm_get (foldl merge_max wm_new (map wm_from_iter [[(''k'', (5, 2))], [(''k'', (3, 1))], [(''k'', (5, 2))]]))"
  using acks_in_any_order [of "[[(''k'', (3, 1))], [(''k'', (5, 2))]]"
      "[[(''k'', (5, 2))], [(''k'', (3, 1))], [(''k'', (5, 2))]]"] by auto

text \<open>C12.
  Delta gossip loses no last-writer-wins update.  When the peer holds, for every acknowledged
  key, the operation it acknowledged, merging only the operations the watermark allows gives
  the peer the same reads as merging the whole log.
\<close>

theorem delta_gossip_complete:
  assumes "lww_repr c e H" and "op_ids_unique (set H \<union> set ops)"
    and "\<forall>k v. wm_get acked k = Some v \<longrightarrow> (\<exists>op \<in> set H. op_key op = k \<and> op_version op = v)"
    and "lww_apply_remote_ops now (filter (allows acked) ops) (c, e) = ((c1, e1), cs1)"
    and "lww_apply_remote_ops now ops (c, e) = ((c2, e2), cs2)"
  shows "lww_get e1 k = lww_get e2 k"
proof -
  let ?D = "H @ filter (allows acked) ops" and ?F = "H @ ops"
  have uD: "op_ids_unique (set ?D)" and uF: "op_ids_unique (set ?F)"
    by (rule op_ids_unique_subset [OF assms(2)]; auto)+
  have rD: "lww_repr c1 e1 ?D"
    by (rule lww_remote_repr(1) [OF assms(1) _ assms(4)]) (use uD in simp)
  have rF: "lww_repr c2 e2 ?F"
    by (rule lww_remote_repr(1) [OF assms(1,2,5)])
  have "lww_value ?D k = lww_value ?F k"
  proof (cases "lww_value ?F k")
    case None
    then have "lww_value ?D k = None" unfolding lww_value_None by auto
    with None show ?thesis by simp
  next
    case (Some x)
    then obtain w where w: "w \<in> set ?F" "op_key w = k" "x = lww_elem w" by (rule lww_value_in)
    have top: "op_version op \<le> op_version w" if "op \<in> set ?F" "op_key op = k" for op
      using lww_value_ge [OF Some that] w(3) by (simp add: lww_elem_def)
    have "w \<in> set ?D"
    proof (rule ccontr)
      assume nw: "w \<notin> set ?D"
      with w(1) have "w \<in> set ops" "\<not> allows acked w" by auto
      then obtain v where v: "wm_get acked k = Some v" "op_version w \<le> v"
        using w(2) by (auto simp: allows_def op_version_def not_less split: option.splits)
      with assms(3) obtain op where op: "op \<in> set H" "op_key op = k" "op_version op = v" by blast
      with top [of op] v(2) have "op_version op = op_version w" by simp
      with op_ids_uniqueD [OF uF _ w(1)] op(1) nw show False by auto
    qed
    then have "lww_value ?D k = Some (lww_elem w)"
      by (rule lww_value_eqI [OF uD _ w(2)]) (use top in auto)
    with Some w(3) show ?thesis by simp
  qed
  then show ?thesis
    by (simp add: lww_repr_get [OF rD] lww_repr_get [OF rF] lww_spec_get_def)
qed

theorem delta_gossip_complete_witness:
  "\<exists>c1 e1 cs1 c2 e2 cs2.
     lww_apply_remote_ops 0 (filter (allows (from_ops demo_history)) (Insert ''k'' [8] 2 2 # demo_history)) demo_engine
       = ((c1, e1), cs1) \<and>
     lww_apply_remote_ops 0 (Insert ''k'' [8] 2 2 # demo_history) demo_engine = ((c2, e2), cs2) \<and>
     filter (allows (from_ops demo_history)) (Insert ''k'' [8] 2 2 # demo_history) = [Insert ''k'' [8] 2 2] \<and>
     lww_get e1 ''k'' = lww_get e2 ''k''"
proof -
  let ?ops = "Insert ''k'' [8] 2 2 # demo_history" and ?w = "from_ops demo_history"
  obtain c1 e1 cs1 where a: "lww_apply_remote_ops 0 (filter (allows ?w) ?ops) demo_engine = ((c1, e1), cs1)"
    by (metis prod.exhaust)
  obtain c2 e2 cs2 where b: "lww_apply_remote_ops 0 ?ops demo_engine = ((c2, e2), cs2)"
    by (metis prod.exhaust)
  have uniq: "op_ids_unique (set demo_history \<union> set ?ops)"
    by (auto simp: demo_history_def op_ids_unique_def op_version_def)
  have filt: "filter (allows ?w) ?ops = [Insert ''k'' [8] 2 2]"
    by (simp add: demo_history_def from_ops_def wm_raise_def allows_def wm_get_def)
  have "lww_get e1 ''k'' = lww_get e2 ''k''"
    by (rule delta_gossip_complete [OF demo_engine_repr uniq, of ?w 0 c1 e1 cs1 c2 e2 cs2])
      (use from_ops_in [of demo_history] a b in auto)
  with a b filt show ?thesis by blast
qed

section \<open>Rate-limit keys\<close>

lemma older_greater_point_kept:
  assumes "lp_version q < lp_version p" and "lp_value p < lp_value q"
  shows "state_merge (Live \<lparr>live_points = [p], shard_tombstone = None\<rparr>) (Live \<lparr>live_points = [q], shard_tombstone = None\<rparr>)
           = Some (Live \<lparr>live_points = [q, p], shard_tombstone = None\<rparr>)"
    and "newest_live_version \<lparr>live_points = [q, p], shard_tombstone = None\<rparr> = Some (lp_version p)"
proof -
  have "compare_epoch_count (lp_value q) (lp_value p) = VW_Local" "\<not> lp_version p \<le> lp_version q"
    "lp_version q \<le> lp_version p" "\<not> lp_version p < lp_version q"
    using assms by (simp_all add: compare_epoch_count_order)
  then show "state_merge (Live \<lparr>live_points = [p], shard_tombstone = None\<rparr>) (Live \<lparr>live_points = [q], shard_tombstone = None\<rparr>)
           = Some (Live \<lparr>live_points = [q, p], shard_tombstone = None\<rparr>)"
    and "newest_live_version \<lparr>live_points = [q, p], shard_tombstone = None\<rparr> = Some (lp_version p)"
    by (simp_all add: state_merge_def shard_live_points_after_def after_tombstone_def shard_merged_def
        sort_newest_first_def newest_live_version_def frontier_scan_Cons assms(2) insort_key.simps)
qed

text \<open>C13.
  The watermark can hide a rate-limit update.  Let a key's log hold one counter, and let an
  older but greater counter be merged into it.  Compaction keeps the op-id of the newest
  counter while the payload, and the value it decodes to, change: a peer that acknowledged
  the first form is not sent the second.
\<close>

theorem watermark_hides_rate_limit_update:
  assumes "EpochCount e1 c1 < EpochCount e2 c2" and "(t2, r2) < (t1, r1)"
    and "shard_codec ser de 2" and "decode_shard de (ec_encode e1 c1) = None"
    and "decode_shard de (ec_encode e2 c2) = None"
  shows "\<exists>v v'. compact_operations ser de [Insert key (ec_encode e1 c1) t1 r1] = Some (Insert key v t1 r1) \<and>
                compact_operations ser de [Insert key (ec_encode e1 c1) t1 r1, Insert key (ec_encode e2 c2) t2 r2]
                  = Some (Insert key v' t1 r1) \<and>
                rl_decode de v = Some (EpochCount e1 c1) \<and> rl_decode de v' = Some (EpochCount e2 c2) \<and>
                \<not> allows (from_ops [Insert key v t1 r1]) (Insert key v' t1 r1)"
proof -
  let ?a = "Insert key (ec_encode e1 c1) t1 r1" and ?b = "Insert key (ec_encode e2 c2) t2 r2"
  let ?p = "\<lparr>lp_value = EpochCount e1 c1, lp_version = (t1, r1)\<rparr>"
    and ?q = "\<lparr>lp_value = EpochCount e2 c2, lp_version = (t2, r2)\<rparr>"
  let ?s = "\<lparr>live_points = [?p], shard_tombstone = None\<rparr>" and ?s' = "\<lparr>live_points = [?q, ?p], shard_tombstone = None\<rparr>"
  have st: "operation_state de ?a = Some (Live (from_live_point ?p))" "operation_state de ?b = Some (Live (from_live_point ?q))"
    by (simp_all add: state_from_insert_value_def assms(4,5) decode_raw_encode from_live_point_def)
  have ord: "compare_epoch_count (EpochCount e2 c2) (EpochCount e1 c1) = VW_Local"
    using assms(1) by (simp add: compare_epoch_count_order)
  note merge = older_greater_point_kept [of ?q ?p, simplified live_point.select_convs, OF assms(2,1)]
  obtain v where v: "ser ?s = Some v" "de v = Some ?s"
    using assms(3) unfolding shard_codec_def by (metis (no_types, lifting) length_Cons list.distinct(1)
        list.size(3) numeral_2_eq_2 rate_limit_shard.select_convs(1) le_SucI le_refl)
  obtain v' where v': "ser ?s' = Some v'" "de v' = Some ?s'"
    using assms(3) unfolding shard_codec_def by (metis (no_types, lifting) length_Cons list.distinct(1)
        list.size(3) numeral_2_eq_2 rate_limit_shard.select_convs(1) le_refl)
  have "compact_operations ser de [?a] = Some (Insert key v t1 r1)"
    by (simp add: compact_operations_def st from_live_point_def newest_live_version_def encode_shard_def v del: operation_state.simps)
  moreover have "compact_operations ser de [?a, ?b] = Some (Insert key v' t1 r1)"
    by (simp add: compact_operations_def st from_live_point_def merge encode_shard_def v' del: operation_state.simps)
  moreover have "rl_decode de v = Some (EpochCount e1 c1)" "rl_decode de v' = Some (EpochCount e2 c2)"
    by (simp_all add: rl_decode_def decode_shard_def v v' current_value_def keep_greater_def ord)
  moreover have "\<not> allows (from_ops [Insert key v t1 r1]) (Insert key v' t1 r1)"
    by (simp add: allows_def from_ops_def wm_raise_def wm_get_def)
  ultimately show ?thesis by blast
qed

theorem watermark_hides_rate_limit_update_witness:
  "\<exists>v v'. compact_operations fixed_ser fixed_de [Insert ''rl:x'' (ec_encode 1 5) 4 1] = Some (Insert ''rl:x'' v 4 1) \<and>
     compact_operations fixed_ser fixed_de [Insert ''rl:x'' (ec_encode 1 5) 4 1, Insert ''rl:x'' (ec_encode 2 9) 3 2]
       = Some (Insert ''rl:x'' v' 4 1) \<and>
     \<not> allows (from_ops [Insert ''rl:x'' v 4 1]) (Insert ''rl:x'' v' 4 1)"
proof -
  have "EpochCount 1 5 < EpochCount 2 9" and "(3, 2) < (4 :: u64, 1 :: replica_id)"
    by (simp_all add: less_epoch_count_def)
  moreover have "shard_codec fixed_ser fixed_de 2"
    using fixed_codec by (simp add: shard_codec_def)
  ultimately show ?thesis
    using watermark_hides_rate_limit_update [of 1 5 2 9 3 2 4 1 fixed_ser fixed_de "''rl:x''"]
    by (metis fixed_de_raw length_ec_encode)
qed

end
