(* ===== verification/Chunk_Transport.thy ===== *)
theory Chunk_Transport
  imports Smg_Prelude
begin

text \<open>
  Models of \<open>transport/limits.rs\<close>, \<open>transport/chunking.rs\<close> and \<open>transport/chunk_assembler.rs\<close>:
  a sender splits an oversized value into chunks and packs them into frames; the receiver
  collects chunks per (peer, key) and generation under a bound on memory.

  A method of the assembler is one atomic step.  The memory of one slot of the chunk vector
  (\<open>size_of::<Option<Bytes>>()\<close>) is the parameter \<open>slot\<close>.  The eviction loops of
  \<open>enforce_bounds\<close> carry fuel: each turn removes an assembly, so the number of assemblies is
  enough, and the lemmas show that the bound holds when the loops end.
\<close>

section \<open>Limits\<close>

definition MAX_MESSAGE_SIZE :: nat where
  "MAX_MESSAGE_SIZE = 10 * 1024 * 1024"

definition STREAM_CHUNK_OVERHEAD_MARGIN :: nat where
  "STREAM_CHUNK_OVERHEAD_MARGIN = 64 * 1024"

definition MAX_STREAM_CHUNK_BYTES :: nat where
  "MAX_STREAM_CHUNK_BYTES = MAX_MESSAGE_SIZE - STREAM_CHUNK_OVERHEAD_MARGIN"

definition DEFAULT_MAX_CHUNKS_PER_BATCH :: nat where
  "DEFAULT_MAX_CHUNKS_PER_BATCH = 5"

section \<open>Chunking\<close>

record stream_entry =
  en_key :: string
  en_generation :: u64
  en_chunk_index :: u32
  en_total_chunks :: u32
  en_data :: bytes

type_synonym stream_batch = "stream_entry list"

text \<open>\<open>fetch_add\<close> returns the old counter and wraps.\<close>

definition next_generation :: "u64 \<Rightarrow> u64 \<times> u64" where
  "next_generation counter = (counter, counter + 1)"

definition div_ceil :: "nat \<Rightarrow> nat \<Rightarrow> nat" where
  "div_ceil a b = a div b + (if a mod b = 0 then 0 else 1)"

definition chunk_at :: "string \<Rightarrow> u64 \<Rightarrow> bytes \<Rightarrow> nat \<Rightarrow> nat \<Rightarrow> nat \<Rightarrow> stream_entry" where
  "chunk_at key generation val max_chunk_bytes total_chunks index =
     (let start = index * max_chunk_bytes;
          stop = min (start + max_chunk_bytes) (length val)
      in \<lparr>en_key = key, en_generation = generation, en_chunk_index = of_nat index,
          en_total_chunks = of_nat total_chunks, en_data = take (stop - start) (drop start val)\<rparr>)"

text \<open>The failed assertion on a zero chunk size is \<open>None\<close>.\<close>

definition chunk_value :: "string \<Rightarrow> u64 \<Rightarrow> bytes \<Rightarrow> nat \<Rightarrow> stream_entry list option" where
  "chunk_value key generation val max_chunk_bytes =
     (if max_chunk_bytes = 0 then None
      else if length val \<le> max_chunk_bytes
      then Some [\<lparr>en_key = key, en_generation = generation, en_chunk_index = 0,
                  en_total_chunks = 1, en_data = val\<rparr>]
      else let total_chunks = div_ceil (length val) max_chunk_bytes
           in Some (map (chunk_at key generation val max_chunk_bytes total_chunks) [0..<total_chunks]))"

fun pack_entries ::
    "nat \<Rightarrow> nat \<Rightarrow> stream_entry list \<Rightarrow> stream_batch list \<Rightarrow> stream_entry list \<Rightarrow> nat \<Rightarrow> stream_batch list" where
  "pack_entries max_chunks max_bytes [] out current current_bytes =
     (if current \<noteq> [] then out @ [current] else out)"
| "pack_entries max_chunks max_bytes (entry # entries) out current current_bytes =
     (let entry_bytes = length (en_data entry);
          at_count_cap = (max_chunks \<le> length current);
          would_exceed_bytes = (current \<noteq> [] \<and> max_bytes < current_bytes + entry_bytes)
      in if at_count_cap \<or> would_exceed_bytes
         then pack_entries max_chunks max_bytes entries (out @ [current]) [entry] entry_bytes
         else pack_entries max_chunks max_bytes entries out (current @ [entry]) (current_bytes + entry_bytes))"

definition build_stream_batches :: "stream_entry list \<Rightarrow> nat \<Rightarrow> nat \<Rightarrow> stream_batch list" where
  "build_stream_batches entries max_chunks_per_batch max_bytes_per_batch =
     (if max_chunks_per_batch = 0 \<or> max_bytes_per_batch = 0 \<or> entries = [] then []
      else pack_entries max_chunks_per_batch max_bytes_per_batch entries [] [] 0)"

section \<open>The assembler\<close>

definition DEFAULT_MAX_CONCURRENT_ASSEMBLIES :: nat where
  "DEFAULT_MAX_CONCURRENT_ASSEMBLIES = 20"

definition DEFAULT_MAX_ASSEMBLER_BYTES :: nat where
  "DEFAULT_MAX_ASSEMBLER_BYTES = 512 * 1024 * 1024"

definition MAX_TOTAL_CHUNKS :: u32 where
  "MAX_TOTAL_CHUNKS = 1024"

type_synonym assembly_key = "string \<times> string"

record assembly_state =
  as_generation :: u64
  as_received_count :: u32
  as_chunks :: "bytes option list"
  as_created_at :: nat

record chunk_assembler =
  ca_assemblies :: "(assembly_key \<times> assembly_state) list"
  ca_max_concurrent :: nat
  ca_max_bytes :: nat

definition assembly_new :: "nat \<Rightarrow> u64 \<Rightarrow> u32 \<Rightarrow> assembly_state" where
  "assembly_new now generation tot =
     \<lparr>as_generation = generation, as_received_count = 0,
      as_chunks = replicate (unat tot) None, as_created_at = now\<rparr>"

definition is_complete :: "assembly_state \<Rightarrow> bool" where
  "is_complete s \<longleftrightarrow> unat (as_received_count s) = length (as_chunks s)"

fun flatten_options :: "'a option list \<Rightarrow> 'a list" where
  "flatten_options [] = []"
| "flatten_options (None # xs) = flatten_options xs"
| "flatten_options (Some x # xs) = x # flatten_options xs"

definition bytes_held :: "nat \<Rightarrow> assembly_state \<Rightarrow> nat" where
  "bytes_held slot s =
     sum_list (map length (flatten_options (as_chunks s))) + length (as_chunks s) * slot"

definition assemble :: "assembly_state \<Rightarrow> bytes list" where
  "assemble s = flatten_options (as_chunks s)"

definition with_limits :: "nat \<Rightarrow> nat \<Rightarrow> chunk_assembler" where
  "with_limits max_concurrent max_bytes =
     \<lparr>ca_assemblies = [], ca_max_concurrent = max_concurrent, ca_max_bytes = max_bytes\<rparr>"

definition assembler_new :: chunk_assembler where
  "assembler_new = with_limits DEFAULT_MAX_CONCURRENT_ASSEMBLIES DEFAULT_MAX_ASSEMBLER_BYTES"

definition incomplete :: "chunk_assembler \<Rightarrow> (assembly_key \<times> assembly_state) list" where
  "incomplete a = filter (\<lambda>(_, s). \<not> is_complete s) (ca_assemblies a)"

definition incomplete_count :: "chunk_assembler \<Rightarrow> nat" where
  "incomplete_count a = length (incomplete a)"

definition incomplete_bytes :: "nat \<Rightarrow> chunk_assembler \<Rightarrow> nat" where
  "incomplete_bytes slot a = sum_list (map (\<lambda>(_, s). bytes_held slot s) (incomplete a))"

text \<open>\<open>DashMap::remove_if\<close>.\<close>

definition remove_if :: "assembly_key \<Rightarrow> (assembly_state \<Rightarrow> bool) \<Rightarrow> chunk_assembler \<Rightarrow> chunk_assembler" where
  "remove_if key P a =
     (case map_of (ca_assemblies a) key of
        None \<Rightarrow> a
      | Some s \<Rightarrow> if P s then a\<lparr>ca_assemblies := AList.delete key (ca_assemblies a)\<rparr> else a)"

definition try_evict_stale :: "assembly_key \<Rightarrow> u64 \<Rightarrow> chunk_assembler \<Rightarrow> chunk_assembler" where
  "try_evict_stale key gen a = remove_if key (\<lambda>s. as_generation s = gen \<and> \<not> is_complete s) a"

definition oldest_incomplete :: "chunk_assembler \<Rightarrow> (assembly_key \<times> u64) option" where
  "oldest_incomplete a =
     map_option (\<lambda>(k, s). (k, as_generation s)) (min_by_key (\<lambda>(_, s). as_created_at s) (incomplete a))"

definition largest_incomplete :: "nat \<Rightarrow> chunk_assembler \<Rightarrow> (assembly_key \<times> u64) option" where
  "largest_incomplete slot a =
     map_option (\<lambda>(k, s). (k, as_generation s)) (max_by_key (\<lambda>(_, s). bytes_held slot s) (incomplete a))"

fun evict_over_count :: "nat \<Rightarrow> chunk_assembler \<Rightarrow> chunk_assembler" where
  "evict_over_count 0 a = a"
| "evict_over_count (Suc fuel) a =
     (if ca_max_concurrent a < incomplete_count a
      then case oldest_incomplete a of
             None \<Rightarrow> a
           | Some (k, gen) \<Rightarrow> evict_over_count fuel (try_evict_stale k gen a)
      else a)"

fun evict_over_bytes :: "nat \<Rightarrow> nat \<Rightarrow> chunk_assembler \<Rightarrow> chunk_assembler" where
  "evict_over_bytes slot 0 a = a"
| "evict_over_bytes slot (Suc fuel) a =
     (if ca_max_bytes a < incomplete_bytes slot a
      then case largest_incomplete slot a of
             None \<Rightarrow> a
           | Some (k, gen) \<Rightarrow> evict_over_bytes slot fuel (try_evict_stale k gen a)
      else a)"

definition enforce_bounds :: "nat \<Rightarrow> chunk_assembler \<Rightarrow> chunk_assembler" where
  "enforce_bounds slot a =
     (let a1 = evict_over_count (length (ca_assemblies a)) a
      in evict_over_bytes slot (length (ca_assemblies a1)) a1)"

definition record_chunk :: "u32 \<Rightarrow> bytes \<Rightarrow> assembly_state \<Rightarrow> assembly_state" where
  "record_chunk index data s =
     s\<lparr>as_received_count :=
         (if as_chunks s ! unat index = None then as_received_count s + 1 else as_received_count s),
       as_chunks := (as_chunks s)[unat index := Some data]\<rparr>"

text \<open>The assembly the chunk goes to: the entry, a fresh one for a newer generation, or none.\<close>

definition assembly_for ::
    "nat \<Rightarrow> assembly_key \<Rightarrow> u64 \<Rightarrow> u32 \<Rightarrow> chunk_assembler \<Rightarrow> assembly_state option" where
  "assembly_for now asm_key generation tot a =
     (let entry = (case map_of (ca_assemblies a) asm_key of
                     Some s \<Rightarrow> s
                   | None \<Rightarrow> assembly_new now generation tot)
      in if as_generation entry < generation then Some (assembly_new now generation tot)
         else if generation < as_generation entry then None
         else if length (as_chunks entry) \<noteq> unat tot then None
         else Some entry)"

definition receive_chunk ::
    "nat \<Rightarrow> nat \<Rightarrow> string \<Rightarrow> string \<Rightarrow> u64 \<Rightarrow> u32 \<Rightarrow> u32 \<Rightarrow> bytes \<Rightarrow> chunk_assembler \<Rightarrow>
     chunk_assembler \<times> bytes list option" where
  "receive_chunk slot now peer_id key generation index tot data a =
     (if tot = 0 \<or> MAX_TOTAL_CHUNKS < tot \<or> tot \<le> index then (a, None)
      else
        case assembly_for now (peer_id, key) generation tot a of
          None \<Rightarrow> (a, None)
        | Some s \<Rightarrow>
            let s' = record_chunk index data s;
                a1 = a\<lparr>ca_assemblies := AList.update (peer_id, key) s' (ca_assemblies a)\<rparr>
            in if \<not> is_complete s' then (enforce_bounds slot a1, None)
               else (a1\<lparr>ca_assemblies := AList.delete (peer_id, key) (ca_assemblies a1)\<rparr>, Some (assemble s')))"

definition collect_expired :: "nat \<Rightarrow> nat \<Rightarrow> chunk_assembler \<Rightarrow> assembly_key list" where
  "collect_expired now timeout a =
     map fst (filter (\<lambda>(_, s). timeout \<le> now - as_created_at s \<and> \<not> is_complete s) (ca_assemblies a))"

definition remove_stale :: "nat \<Rightarrow> assembly_key list \<Rightarrow> nat \<Rightarrow> chunk_assembler \<Rightarrow> chunk_assembler" where
  "remove_stale now keys timeout a =
     foldl (\<lambda>a key. remove_if key (\<lambda>s. timeout \<le> now - as_created_at s \<and> \<not> is_complete s) a) a keys"

definition assembler_gc :: "nat \<Rightarrow> nat \<Rightarrow> chunk_assembler \<Rightarrow> chunk_assembler" where
  "assembler_gc now timeout a = remove_stale now (collect_expired now timeout a) timeout a"

definition drop_pending :: "string \<Rightarrow> string \<Rightarrow> chunk_assembler \<Rightarrow> chunk_assembler" where
  "drop_pending peer_id key a = a\<lparr>ca_assemblies := AList.delete (peer_id, key) (ca_assemblies a)\<rparr>"

section \<open>Frames\<close>

definition frame_ok :: "nat \<Rightarrow> nat \<Rightarrow> stream_batch \<Rightarrow> bool" where
  "frame_ok max_chunks max_bytes b \<longleftrightarrow>
     b \<noteq> [] \<and> length b \<le> max_chunks \<and>
     (length b = 1 \<or> sum_list (map (\<lambda>e. length (en_data e)) b) \<le> max_bytes)"

lemma concat_pack_entries: "concat (pack_entries n b es out cur cb) = concat out @ cur @ es"
  by (induction es arbitrary: out cur cb) (simp_all add: Let_def)

lemma pack_entries_ok:
  assumes "0 < n" "\<forall>x \<in> set out. frame_ok n b x" "cur = [] \<or> frame_ok n b cur"
    and "cb = sum_list (map (\<lambda>e. length (en_data e)) cur)"
  shows "\<forall>x \<in> set (pack_entries n b es out cur cb). frame_ok n b x"
  using assms(2-)
proof (induction es arbitrary: out cur cb)
  case Nil
  then show ?case by auto
next
  case (Cons e es)
  show ?case
  proof (cases "n \<le> length cur \<or> cur \<noteq> [] \<and> b < cb + length (en_data e)")
    case True
    with assms(1) Cons.prems have "\<forall>x \<in> set (out @ [cur]). frame_ok n b x" by auto
    moreover have "frame_ok n b [e]" using assms(1) by (simp add: frame_ok_def)
    ultimately have "\<forall>x \<in> set (pack_entries n b es (out @ [cur]) [e] (length (en_data e))). frame_ok n b x"
      by (intro Cons.IH) simp_all
    with True show ?thesis by (simp add: Let_def)
  next
    case False
    with Cons.prems assms(1) have "frame_ok n b (cur @ [e])" by (auto simp: frame_ok_def)
    then have "\<forall>x \<in> set (pack_entries n b es out (cur @ [e]) (cb + length (en_data e))). frame_ok n b x"
      by (intro Cons.IH) (use Cons.prems in simp_all)
    with False show ?thesis by (auto simp: Let_def)
  qed
qed

section \<open>Splitting a value\<close>

lemma concat_slices: "concat (map (\<lambda>i. take m (drop (i * m) v)) [0..<n]) = take (n * m) v"
  by (induction n) (simp_all add: take_add [symmetric] add.commute)

lemma div_ceil_mult: "div_ceil l m * m = l div m * m + (if l mod m = 0 then 0 else m)"
  by (simp add: div_ceil_def algebra_simps)

lemma div_ceil_covers:
  assumes "0 < m"
  shows "l \<le> div_ceil l m * m"
proof (cases "l mod m = 0")
  case True
  with div_mult_mod_eq [of l m] show ?thesis by (simp add: div_ceil_mult)
next
  case False
  have "l = l div m * m + l mod m" by simp
  also have "\<dots> \<le> l div m * m + m" using mod_less_divisor [OF assms, of l] by linarith
  finally show ?thesis using False by (simp add: div_ceil_mult)
qed

lemma chunk_at_data:
  "en_data (chunk_at key g v m n i) = take m (drop (i * m) v)"
  by (cases "i * m + m \<le> length v") (simp_all add: chunk_at_def Let_def min_def)

lemma chunk_value_split:
  assumes "chunk_value key g v m = Some cs" "m < length v"
  shows "cs = map (chunk_at key g v m (length cs)) [0..<length cs]"
    and "length cs = div_ceil (length v) m" "concat (map en_data cs) = v"
proof -
  have m: "0 < m" and cs: "cs = map (chunk_at key g v m (div_ceil (length v) m)) [0..<div_ceil (length v) m]"
    using assms by (auto simp: chunk_value_def Let_def split: if_splits)
  then show len: "length cs = div_ceil (length v) m" by simp
  with cs show "cs = map (chunk_at key g v m (length cs)) [0..<length cs]" by simp
  show "concat (map en_data cs) = v"
    using div_ceil_covers [OF m, of "length v"]
    by (simp add: cs comp_def chunk_at_data concat_slices)
qed

section \<open>Bounded assembly\<close>

definition received :: "bytes option list \<Rightarrow> nat" where
  "received cs = length (flatten_options cs)"

lemma flatten_options_filter: "flatten_options cs = map the (filter (\<lambda>x. x \<noteq> None) cs)"
  by (induction cs rule: flatten_options.induct) auto

lemma received_le: "received cs \<le> length cs"
  by (simp add: received_def flatten_options_filter)

lemma received_full: "received cs = length cs \<longleftrightarrow> None \<notin> set cs"
proof (induction cs rule: flatten_options.induct)
  case (2 xs)
  then show ?case using received_le [of xs] by (simp add: received_def)
qed (auto simp: received_def)

lemma received_update:
  "i < length cs \<Longrightarrow> received (cs[i := Some d]) = (if cs ! i = None then Suc (received cs) else received cs)"
proof (induction cs arbitrary: i)
  case (Cons c cs)
  then show ?case by (cases i; cases c) (auto simp: received_def)
qed simp

text \<open>Between calls every stored assembly is incomplete and counts its chunks exactly.\<close>

definition state_ok :: "assembly_state \<Rightarrow> bool" where
  "state_ok s \<longleftrightarrow>
     unat (as_received_count s) = received (as_chunks s) \<and> length (as_chunks s) \<le> 1024 \<and> \<not> is_complete s"

definition assembler_wf :: "chunk_assembler \<Rightarrow> bool" where
  "assembler_wf a \<longleftrightarrow>
     distinct (map fst (ca_assemblies a)) \<and> (\<forall>x \<in> set (ca_assemblies a). state_ok (snd x))"

definition assembler_ok :: "nat \<Rightarrow> chunk_assembler \<Rightarrow> bool" where
  "assembler_ok slot a \<longleftrightarrow>
     assembler_wf a \<and> incomplete_count a \<le> ca_max_concurrent a \<and> incomplete_bytes slot a \<le> ca_max_bytes a"

lemma incomplete_all: "assembler_wf a \<Longrightarrow> incomplete a = ca_assemblies a"
  by (simp add: incomplete_def assembler_wf_def state_ok_def filter_id_conv case_prod_unfold)

definition same_limits :: "chunk_assembler \<Rightarrow> chunk_assembler \<Rightarrow> bool" where
  "same_limits a b \<longleftrightarrow> ca_max_concurrent a = ca_max_concurrent b \<and> ca_max_bytes a = ca_max_bytes b"

lemma length_delete_present: "k \<in> fst ` set m \<Longrightarrow> length (AList.delete k m) < length m"
  by (induction m) (auto intro: le_less_trans [OF length_delete_le])

lemma assembler_wf_delete:
  assumes "assembler_wf a"
  shows "assembler_wf (a\<lparr>ca_assemblies := AList.delete k (ca_assemblies a)\<rparr>)"
  using assms by (auto simp: assembler_wf_def distinct_fst_filter AList.delete_eq)

lemma evict_shrinks:
  assumes "assembler_wf a" "(k, s) \<in> set (ca_assemblies a)"
  shows "assembler_wf (try_evict_stale k (as_generation s) a)"
    and "length (ca_assemblies (try_evict_stale k (as_generation s) a)) < length (ca_assemblies a)"
    and "same_limits (try_evict_stale k (as_generation s) a) a"
proof -
  have "map_of (ca_assemblies a) k = Some s" "\<not> is_complete s"
    using assms by (auto simp: assembler_wf_def state_ok_def)
  then have ev: "try_evict_stale k (as_generation s) a = a\<lparr>ca_assemblies := AList.delete k (ca_assemblies a)\<rparr>"
    by (simp add: try_evict_stale_def remove_if_def)
  show "assembler_wf (try_evict_stale k (as_generation s) a)"
    unfolding ev by (rule assembler_wf_delete [OF assms(1)])
  show "length (ca_assemblies (try_evict_stale k (as_generation s) a)) < length (ca_assemblies a)"
    unfolding ev using assms(2) by (force intro!: length_delete_present)
  show "same_limits (try_evict_stale k (as_generation s) a) a"
    by (simp add: ev same_limits_def)
qed

lemma evict_over_count_ok:
  assumes "assembler_wf a" "length (ca_assemblies a) \<le> fuel"
  shows "assembler_wf (evict_over_count fuel a) \<and> same_limits (evict_over_count fuel a) a \<and>
         incomplete_count (evict_over_count fuel a) \<le> ca_max_concurrent a"
  using assms
proof (induction fuel arbitrary: a)
  case 0
  then show ?case by (simp add: incomplete_count_def incomplete_def same_limits_def)
next
  case (Suc fuel)
  show ?case
  proof (cases "ca_max_concurrent a < incomplete_count a")
    case False
    then show ?thesis using Suc.prems(1) by (simp add: same_limits_def)
  next
    case True
    then obtain k s where ks: "min_by_key (\<lambda>(_, s). as_created_at s) (incomplete a) = Some (k, s)"
      by (cases "min_by_key (\<lambda>(_, s). as_created_at s) (incomplete a)") (auto simp: incomplete_count_def)
    note sh = evict_shrinks [OF Suc.prems(1), of k s]
    have mem: "(k, s) \<in> set (ca_assemblies a)"
      using min_by_key_in [OF ks] by (simp add: incomplete_all [OF Suc.prems(1)])
    have "length (ca_assemblies (try_evict_stale k (as_generation s) a)) \<le> fuel"
      using sh(2) [OF mem] Suc.prems(2) by simp
    from Suc.IH [OF sh(1) [OF mem] this] True ks sh(3) [OF mem] show ?thesis
      by (simp add: oldest_incomplete_def same_limits_def)
  qed
qed

lemma evict_over_bytes_ok:
  assumes "assembler_wf a" "length (ca_assemblies a) \<le> fuel"
  shows "assembler_wf (evict_over_bytes slot fuel a) \<and> same_limits (evict_over_bytes slot fuel a) a \<and>
         incomplete_bytes slot (evict_over_bytes slot fuel a) \<le> ca_max_bytes a \<and>
         incomplete_count (evict_over_bytes slot fuel a) \<le> incomplete_count a"
  using assms
proof (induction fuel arbitrary: a)
  case 0
  then show ?case by (simp add: incomplete_count_def incomplete_bytes_def incomplete_def same_limits_def)
next
  case (Suc fuel)
  show ?case
  proof (cases "ca_max_bytes a < incomplete_bytes slot a")
    case False
    then show ?thesis using Suc.prems(1) by (simp add: same_limits_def)
  next
    case True
    then obtain k s where ks: "max_by_key (\<lambda>(_, s). bytes_held slot s) (incomplete a) = Some (k, s)"
      by (cases "max_by_key (\<lambda>(_, s). bytes_held slot s) (incomplete a)") (auto simp: incomplete_bytes_def)
    note sh = evict_shrinks [OF Suc.prems(1), of k s]
    have mem: "(k, s) \<in> set (ca_assemblies a)"
      using max_by_key_in [OF ks] by (simp add: incomplete_all [OF Suc.prems(1)])
    let ?b = "try_evict_stale k (as_generation s) a"
    have "length (ca_assemblies ?b) \<le> fuel"
      using sh(2) [OF mem] Suc.prems(2) by simp
    note IH = Suc.IH [OF sh(1) [OF mem] this]
    have "incomplete_count ?b \<le> incomplete_count a"
      using sh(1,2) [OF mem] Suc.prems(1) by (simp add: incomplete_count_def incomplete_all)
    with IH True ks sh(3) [OF mem] show ?thesis
      by (auto simp: largest_incomplete_def same_limits_def)
  qed
qed

lemma enforce_bounds_ok:
  assumes "assembler_wf a"
  shows "assembler_ok slot (enforce_bounds slot a) \<and> same_limits (enforce_bounds slot a) a"
proof -
  let ?a1 = "evict_over_count (length (ca_assemblies a)) a"
  note c = evict_over_count_ok [OF assms order.refl]
  then have "assembler_wf ?a1" by simp
  from evict_over_bytes_ok [OF this order.refl, of slot] c show ?thesis
    unfolding enforce_bounds_def Let_def assembler_ok_def same_limits_def by auto
qed

lemma assembler_wf_update:
  assumes "assembler_wf a" "state_ok s"
  shows "assembler_wf (a\<lparr>ca_assemblies := AList.update k s (ca_assemblies a)\<rparr>)"
proof -
  have "set (AList.update k s m) \<subseteq> insert (k, s) (set m)" for m :: "(assembly_key \<times> assembly_state) list"
    by (induction m) auto
  with assms show ?thesis
    by (fastforce simp: assembler_wf_def distinct_update)
qed

lemma delete_update_list: "AList.delete k (AList.update k v m) = AList.delete k m"
  by (induction m) auto

lemma delete_bounds:
  assumes "assembler_ok slot a"
  shows "assembler_ok slot (a\<lparr>ca_assemblies := AList.delete k (ca_assemblies a)\<rparr>)"
proof -
  have len: "length (AList.delete k m) \<le> length m" and
    sum: "sum_list (map f (AList.delete k m)) \<le> sum_list (map f m)"
    for m :: "(assembly_key \<times> assembly_state) list" and f :: "_ \<Rightarrow> nat"
    by (induction m) (auto simp: le_SucI trans_le_add2)
  have wf: "assembler_wf a" using assms by (simp add: assembler_ok_def)
  let ?a = "a\<lparr>ca_assemblies := AList.delete k (ca_assemblies a)\<rparr>"
  have "incomplete_count ?a \<le> incomplete_count a" "incomplete_bytes slot ?a \<le> incomplete_bytes slot a"
    using len sum by (simp_all add: incomplete_count_def incomplete_bytes_def
        incomplete_all [OF wf] incomplete_all [OF assembler_wf_delete [OF wf]])
  with assms assembler_wf_delete [OF wf, of k] show ?thesis
    by (simp add: assembler_ok_def)
qed

lemma assembly_new_ok: "received (as_chunks (assembly_new now g tot)) = 0"
  by (simp add: assembly_new_def received_def flatten_options_filter)

lemma record_chunk_ok:
  assumes "unat (as_received_count s) = received (as_chunks s)" "unat i < length (as_chunks s)"
    and "length (as_chunks s) \<le> 1024"
  shows "unat (as_received_count (record_chunk i d s)) = received (as_chunks (record_chunk i d s))"
    and "length (as_chunks (record_chunk i d s)) = length (as_chunks s)"
proof -
  have "unat (as_received_count s + 1) = Suc (unat (as_received_count s))"
    if "as_chunks s ! unat i = None"
  proof -
    have "received (as_chunks s) \<noteq> length (as_chunks s)"
      using that assms(2) by (metis nth_mem received_full)
    then have "received (as_chunks s) < 1024" using received_le [of "as_chunks s"] assms(3) by linarith
    then show ?thesis using assms(1) by (simp add: unat_word_ariths)
  qed
  then show "unat (as_received_count (record_chunk i d s)) = received (as_chunks (record_chunk i d s))"
    using assms(1,2) by (simp add: record_chunk_def received_update)
  show "length (as_chunks (record_chunk i d s)) = length (as_chunks s)"
    by (simp add: record_chunk_def)
qed

lemma assembly_for_ok:
  assumes "assembler_wf a" "assembly_for now key g tot a = Some s"
  shows "unat (as_received_count s) = received (as_chunks s)" "length (as_chunks s) = unat tot"
proof -
  have new: "unat (as_received_count (assembly_new now g tot)) = received (as_chunks (assembly_new now g tot))"
    "length (as_chunks (assembly_new now g tot)) = unat tot"
    by (simp_all add: assembly_new_ok) (simp_all add: assembly_new_def)
  have old: "unat (as_received_count s') = received (as_chunks s')" if "map_of (ca_assemblies a) key = Some s'" for s'
    using assms(1) map_of_SomeD [OF that] by (auto simp: assembler_wf_def state_ok_def)
  show "unat (as_received_count s) = received (as_chunks s)" "length (as_chunks s) = unat tot"
    using assms(2) new old
    by (auto simp: assembly_for_def Let_def split: if_splits option.splits)
qed

lemma receive_chunk_ok:
  assumes ok: "assembler_ok slot a" and rc: "receive_chunk slot now p k g i tot d a = (a', r)"
  shows "assembler_ok slot a' \<and> same_limits a' a"
proof (cases "(tot = 0 \<or> MAX_TOTAL_CHUNKS < tot \<or> tot \<le> i) \<or> assembly_for now (p, k) g tot a = None")
  case True
  with assms show ?thesis by (auto simp: receive_chunk_def same_limits_def split: if_splits)
next
  case False
  then obtain s where some: "assembly_for now (p, k) g tot a = Some s" by auto
  have wf: "assembler_wf a" using ok by (simp add: assembler_ok_def)
  have tot: "unat tot \<le> 1024" "unat i < unat tot"
    using False by (auto simp: MAX_TOTAL_CHUNKS_def not_less not_le word_le_nat_alt word_less_nat_alt)
  let ?s = "record_chunk i d s"
  let ?a1 = "a\<lparr>ca_assemblies := AList.update (p, k) ?s (ca_assemblies a)\<rparr>"
  have rs: "unat (as_received_count ?s) = received (as_chunks ?s)" "length (as_chunks ?s) = unat tot"
    using record_chunk_ok [of s i d] assembly_for_ok [OF wf some] tot by simp_all
  have res: "(a', r) = (if \<not> is_complete ?s then (enforce_bounds slot ?a1, None)
      else (?a1\<lparr>ca_assemblies := AList.delete (p, k) (ca_assemblies ?a1)\<rparr>, Some (assemble ?s)))"
    using rc False some by (simp add: receive_chunk_def Let_def)
  show ?thesis
  proof (cases "is_complete ?s")
    case True
    with res have "a' = a\<lparr>ca_assemblies := AList.delete (p, k) (ca_assemblies a)\<rparr>"
      by (simp add: delete_update_list)
    with delete_bounds [OF ok, of "(p, k)"] show ?thesis by (simp add: same_limits_def)
  next
    case False
    with rs tot have "state_ok ?s" by (simp add: state_ok_def)
    from enforce_bounds_ok [OF assembler_wf_update [OF wf this]] res False show ?thesis
      by (simp add: same_limits_def)
  qed
qed

section \<open>Reassembly\<close>

text \<open>The assembly that holds the chunks with indices in \<open>S\<close>.\<close>

definition partial_assembly :: "nat \<Rightarrow> u64 \<Rightarrow> stream_entry list \<Rightarrow> nat set \<Rightarrow> assembly_state" where
  "partial_assembly now g cs S =
     \<lparr>as_generation = g, as_received_count = of_nat (card (S \<inter> {0..<length cs})),
      as_chunks = map (\<lambda>i. if i \<in> S then Some (en_data (cs ! i)) else None) [0..<length cs],
      as_created_at = now\<rparr>"

lemma received_map:
  "received (map (\<lambda>i. if i \<in> S then Some (f i) else None) [0..<n]) = card (S \<inter> {0..<n})"
proof (induction n)
  case (Suc n)
  have "S \<inter> {0..<Suc n} = (if n \<in> S then insert n (S \<inter> {0..<n}) else S \<inter> {0..<n})"
    by (auto simp: less_Suc_eq)
  with Suc show ?case by (simp add: received_def flatten_options_filter)
qed (simp add: received_def)

lemma partial_complete:
  assumes "length cs \<le> 1024"
  shows "is_complete (partial_assembly now g cs S) \<longleftrightarrow> {0..<length cs} \<subseteq> S"
proof -
  have le: "card (S \<inter> {0..<length cs}) \<le> length cs"
    by (metis card_atLeastLessThan card_mono diff_zero finite_atLeastLessThan inf_le2)
  then have "unat (of_nat (card (S \<inter> {0..<length cs})) :: u32) = card (S \<inter> {0..<length cs})"
    using assms by (simp add: unat_of_nat)
  moreover have "card (S \<inter> {0..<length cs}) = length cs \<longleftrightarrow> {0..<length cs} \<subseteq> S"
    by (metis Int_absorb1 Int_lower2 card_atLeastLessThan card_subset_eq diff_zero finite_atLeastLessThan inf.absorb_iff2)
  ultimately show ?thesis by (simp add: is_complete_def partial_assembly_def)
qed

lemma partial_record:
  assumes "length cs \<le> 1024" "i < length cs"
  shows "record_chunk (of_nat i) (en_data (cs ! i)) (partial_assembly now g cs S) =
         partial_assembly now g cs (insert i S)"
proof -
  have u: "unat (of_nat i :: u32) = i" using assms by (simp add: unat_of_nat)
  have "insert i S \<inter> {0..<length cs} = insert i (S \<inter> {0..<length cs})" using assms(2) by auto
  then have "card (insert i S \<inter> {0..<length cs}) =
      (if i \<in> S then card (S \<inter> {0..<length cs}) else Suc (card (S \<inter> {0..<length cs})))"
    using assms(2) by (simp add: card_insert_if)
  then show ?thesis
    using assms(2) by (auto simp: record_chunk_def partial_assembly_def u intro!: nth_equalityI simp: nth_list_update)
qed

lemma partial_empty: "partial_assembly now g cs {} = assembly_new now g (of_nat (length cs))"
  if "length cs \<le> 1024"
  using that by (simp add: partial_assembly_def assembly_new_def unat_of_nat map_replicate_const)

lemma assemble_full:
  assumes "{0..<length cs} \<subseteq> S"
  shows "assemble (partial_assembly now g cs S) = map en_data cs"
proof -
  have "map (\<lambda>i. if i \<in> S then Some (en_data (cs ! i)) else None) [0..<length cs] = map (Some \<circ> en_data) cs"
    by (rule nth_equalityI) (use assms in auto)
  moreover have "flatten_options (map (Some \<circ> f) xs) = map f xs" for f :: "stream_entry \<Rightarrow> bytes" and xs
    by (induction xs) simp_all
  ultimately show ?thesis by (simp add: assemble_def partial_assembly_def)
qed

lemma bytes_held_partial: "bytes_held slot (partial_assembly now g cs S) \<le> sum_list (map (length \<circ> en_data) cs) + length cs * slot"
proof -
  have le: "sum_list (map length (flatten_options (map (\<lambda>i. if i \<in> S then Some (en_data (cs ! i)) else None) is)))
      \<le> sum_list (map (\<lambda>i. length (en_data (cs ! i))) is)" for "is"
    by (induction "is") auto
  have "map (\<lambda>i. length (en_data (cs ! i))) [0..<length cs] = map (length \<circ> en_data) cs"
    by (rule nth_equalityI) simp_all
  then show ?thesis
    using le [of "[0..<length cs]"] by (simp add: bytes_held_def partial_assembly_def)
qed

text \<open>Room for one more assembly of the value.\<close>

definition room_for :: "nat \<Rightarrow> stream_entry list \<Rightarrow> chunk_assembler \<Rightarrow> bool" where
  "room_for slot cs a \<longleftrightarrow>
     assembler_wf a \<and> length (ca_assemblies a) < ca_max_concurrent a \<and>
     incomplete_bytes slot a + sum_list (map (length \<circ> en_data) cs) + length cs * slot \<le> ca_max_bytes a"

definition with_partial :: "assembly_key \<Rightarrow> assembly_state \<Rightarrow> chunk_assembler \<Rightarrow> chunk_assembler" where
  "with_partial key s a = a\<lparr>ca_assemblies := ca_assemblies a @ [(key, s)]\<rparr>"

lemma update_last: "k \<notin> fst ` set m \<Longrightarrow> AList.update k v (m @ [(k, w)]) = m @ [(k, v)]"
  by (induction m) auto

lemma update_fresh: "k \<notin> fst ` set m \<Longrightarrow> AList.update k v m = m @ [(k, v)]"
  by (induction m) auto

lemma delete_last: "k \<notin> fst ` set m \<Longrightarrow> AList.delete k (m @ [(k, w)]) = m"
  by (induction m) auto

lemma enforce_within:
  assumes "incomplete_count a \<le> ca_max_concurrent a" "incomplete_bytes slot a \<le> ca_max_bytes a"
  shows "enforce_bounds slot a = a"
proof -
  have "evict_over_count n a = a" for n using assms(1) by (cases n) simp_all
  moreover have "evict_over_bytes slot n a = a" for n using assms(2) by (cases n) simp_all
  ultimately show ?thesis by (simp add: enforce_bounds_def)
qed

lemma enforce_room:
  assumes "room_for slot cs a" "bytes_held slot s \<le> sum_list (map (length \<circ> en_data) cs) + length cs * slot"
  shows "enforce_bounds slot (with_partial key s a) = with_partial key s a"
proof (rule enforce_within)
  have wf: "incomplete a = ca_assemblies a" using assms(1) by (simp add: room_for_def incomplete_all)
  have inc: "incomplete (with_partial key s a) = ca_assemblies a @ (if is_complete s then [] else [(key, s)])"
    using wf by (simp add: with_partial_def incomplete_def)
  show "incomplete_count (with_partial key s a) \<le> ca_max_concurrent (with_partial key s a)"
    using assms(1) inc by (simp add: incomplete_count_def room_for_def) (simp add: with_partial_def)
  show "incomplete_bytes slot (with_partial key s a) \<le> ca_max_bytes (with_partial key s a)"
    using assms inc wf by (simp add: incomplete_bytes_def room_for_def) (simp add: with_partial_def)
qed

section \<open>Delivery\<close>

definition receive_entry ::
    "nat \<Rightarrow> string \<Rightarrow> nat \<times> stream_entry \<Rightarrow> chunk_assembler \<Rightarrow> chunk_assembler \<times> bytes list option" where
  "receive_entry slot peer te a =
     receive_chunk slot (fst te) peer (en_key (snd te)) (en_generation (snd te)) (en_chunk_index (snd te))
       (en_total_chunks (snd te)) (en_data (snd te)) a"

fun deliver ::
    "nat \<Rightarrow> string \<Rightarrow> (nat \<times> stream_entry) list \<Rightarrow> chunk_assembler \<Rightarrow> chunk_assembler \<times> bytes list option list" where
  "deliver slot peer [] a = (a, [])"
| "deliver slot peer (te # tes) a =
     (case receive_entry slot peer te a of
        (a1, r) \<Rightarrow> (case deliver slot peer tes a1 of (a2, rs) \<Rightarrow> (a2, r # rs)))"

lemma deliver_append:
  "deliver slot peer (xs @ ys) a =
     (let (a1, rs) = deliver slot peer xs a; (a2, rs') = deliver slot peer ys a1 in (a2, rs @ rs'))"
  by (induction xs arbitrary: a) (simp_all split: prod.splits)

definition holding :: "assembly_key \<Rightarrow> u64 \<Rightarrow> stream_entry list \<Rightarrow> chunk_assembler \<Rightarrow> nat \<Rightarrow> nat set \<Rightarrow> chunk_assembler" where
  "holding key g cs a t S = (if S = {} then a else with_partial key (partial_assembly t g cs S) a)"

lemma receive_step:
  assumes room: "room_for slot cs a" and fresh: "(p, k) \<notin> fst ` set (ca_assemblies a)"
    and cs: "cs = map (chunk_at k g v m (length cs)) [0..<length cs]" "length cs \<le> 1024" "i < length cs"
  shows "receive_entry slot p (now, cs ! i) (holding (p, k) g cs a t S) =
     (if {0..<length cs} \<subseteq> insert i S then (a, Some (map en_data cs))
      else (holding (p, k) g cs a (if S = {} then now else t) (insert i S), None))"
proof -
  let ?n = "length cs"
  let ?t = "if S = {} then now else t"
  have un: "unat (of_nat ?n :: u32) = ?n" "unat (of_nat i :: u32) = i" using cs by (simp_all add: unat_of_nat)
  have e: "en_key (cs ! i) = k" "en_generation (cs ! i) = g" "en_chunk_index (cs ! i) = of_nat i"
    "en_total_chunks (cs ! i) = of_nat ?n"
    using arg_cong [OF cs(1), of "\<lambda>l. l ! i"] cs(3) by (simp_all add: chunk_at_def Let_def)
  have guard: "\<not> ((of_nat ?n :: u32) = 0 \<or> MAX_TOTAL_CHUNKS < of_nat ?n \<or> of_nat ?n \<le> (of_nat i :: u32))"
    using cs un by (auto simp: MAX_TOTAL_CHUNKS_def word_le_nat_alt word_less_nat_alt unat_eq_0 [symmetric] simp del: unat_eq_0)
  have asm: "assembly_for now (p, k) g (of_nat ?n) (holding (p, k) g cs a t S) = Some (partial_assembly ?t g cs S)"
  proof (cases "S = {}")
    case True
    have "map_of (ca_assemblies a) (p, k) = None" using fresh by (simp add: map_of_eq_None_iff)
    with True show ?thesis
      using partial_empty [OF cs(2), of now g]
      by (simp add: assembly_for_def holding_def) (simp add: assembly_new_def un)
  next
    case False
    have "map_of (ca_assemblies a @ [((p, k), x)]) (p, k) = Some x" for x
      using fresh by (simp add: map_add_def map_of_eq_None_iff split: option.splits) (metis fst_conv image_eqI map_of_SomeD)
    with False show ?thesis
      by (simp add: assembly_for_def holding_def with_partial_def) (simp add: partial_assembly_def un)
  qed
  have upd: "(holding (p, k) g cs a t S)\<lparr>ca_assemblies :=
      AList.update (p, k) x (ca_assemblies (holding (p, k) g cs a t S))\<rparr> = with_partial (p, k) x a" for x
    using fresh by (simp add: holding_def with_partial_def update_last update_fresh)
  have del: "AList.delete (p, k) (ca_assemblies (with_partial (p, k) x a)) = ca_assemblies a" for x
    using fresh by (simp add: with_partial_def delete_last)
  have clr: "(with_partial (p, k) x a)\<lparr>ca_assemblies := ca_assemblies a\<rparr> = a" for x
    by (simp add: with_partial_def)
  let ?s = "partial_assembly ?t g cs (insert i S)"
  have "receive_entry slot p (now, cs ! i) (holding (p, k) g cs a t S) =
      (if \<not> is_complete ?s then (enforce_bounds slot (with_partial (p, k) ?s a), None) else (a, Some (assemble ?s)))"
    using guard by (simp add: receive_entry_def e receive_chunk_def asm partial_record [OF cs(2,3)] upd del clr Let_def)
  then show ?thesis
    using partial_complete [OF cs(2)] assemble_full enforce_room [OF room bytes_held_partial]
    by (simp add: holding_def)
qed

definition chunk_no :: "nat \<times> stream_entry \<Rightarrow> nat" where
  "chunk_no te = unat (en_chunk_index (snd te))"

lemma chunk_no_nth:
  assumes "cs = map (chunk_at k g v m (length cs)) [0..<length cs]" "length cs \<le> 1024" "x \<in> set cs"
  shows "chunk_no (t, x) < length cs \<and> cs ! chunk_no (t, x) = x"
proof -
  obtain i where i: "i < length cs" "x = cs ! i" using assms(3) by (metis in_set_conv_nth)
  have "en_chunk_index (cs ! i) = of_nat i"
    using arg_cong [OF assms(1), of "\<lambda>l. l ! i"] i(1) by (simp add: chunk_at_def Let_def)
  with i assms(2) show ?thesis by (simp add: chunk_no_def unat_of_nat)
qed

lemma deliver_partial:
  assumes room: "room_for slot cs a" and fresh: "(p, k) \<notin> fst ` set (ca_assemblies a)"
    and cs: "cs = map (chunk_at k g v m (length cs)) [0..<length cs]" "length cs \<le> 1024"
    and "snd ` set tes \<subseteq> set cs" "\<not> {0..<length cs} \<subseteq> S \<union> chunk_no ` set tes"
  shows "\<exists>t'. deliver slot p tes (holding (p, k) g cs a t S) =
     (holding (p, k) g cs a t' (S \<union> chunk_no ` set tes), replicate (length tes) None)"
  using assms(5,6)
proof (induction tes arbitrary: t S)
  case Nil
  then show ?case by auto
next
  case (Cons te tes)
  obtain now x where te: "te = (now, x)" by (cases te)
  have x: "chunk_no te < length cs" "cs ! chunk_no te = x"
    using chunk_no_nth [OF cs, of x now] Cons.prems(1) te by auto
  have nf: "\<not> {0..<length cs} \<subseteq> insert (chunk_no te) S" using Cons.prems(2) by auto
  obtain t1 where step: "receive_entry slot p te (holding (p, k) g cs a t S) =
      (holding (p, k) g cs a t1 (insert (chunk_no te) S), None)"
    using receive_step [OF room fresh cs x(1), of now t S] x(2) nf by (simp add: te)
  have "\<exists>t'. deliver slot p tes (holding (p, k) g cs a t1 (insert (chunk_no te) S)) =
     (holding (p, k) g cs a t' (insert (chunk_no te) S \<union> chunk_no ` set tes), replicate (length tes) None)"
    by (rule Cons.IH) (use Cons.prems in auto)
  with step show ?case by auto
qed

section \<open>Properties\<close>

text \<open>C14.
  Chunks reassemble.  Let an oversized value be split into at most 1024 chunks and let the
  receiver have room for it.  When the chunks arrive in any order and with repetitions, no
  arrival before the last missing one returns anything, that arrival returns fragments whose
  concatenation is the value, and the assembler is left as it was.
\<close>

theorem chunks_reassemble:
  assumes "chunk_value k g v m = Some cs" "m < length v" "length cs \<le> 1024"
    and "room_for slot cs a" "(p, k) \<notin> fst ` set (ca_assemblies a)"
    and "insert x (snd ` set tes) = set cs" "x \<notin> snd ` set tes"
  shows "deliver slot p (tes @ [(now, x)]) a = (a, replicate (length tes) None @ [Some (map en_data cs)]) \<and>
         concat (map en_data cs) = v"
proof -
  note sp = chunk_value_split [OF assms(1,2)]
  have mem: "x \<in> set cs" "snd ` set tes \<subseteq> set cs" using assms(6) by auto
  note x = chunk_no_nth [OF sp(1) assms(3) mem(1), of now]
  have te: "cs ! chunk_no te = snd te" "chunk_no te < length cs" if "te \<in> set tes" for te
    using chunk_no_nth [OF sp(1) assms(3), of "snd te" "fst te"] mem(2) that by auto
  have "chunk_no (now, x) \<notin> chunk_no ` set tes"
  proof
    assume "chunk_no (now, x) \<in> chunk_no ` set tes"
    then obtain te where t: "te \<in> set tes" "chunk_no te = chunk_no (now, x)" by auto
    from te(1) [OF t(1)] t(2) x have "snd te = x" by simp
    with t(1) assms(7) show False by auto
  qed
  then have nf: "\<not> {0..<length cs} \<subseteq> {} \<union> chunk_no ` set tes" using x by auto
  obtain t where pre: "deliver slot p tes a =
      (holding (p, k) g cs a t (chunk_no ` set tes), replicate (length tes) None)"
    using deliver_partial [OF assms(4,5) sp(1) assms(3) mem(2) nf, of 0] by (auto simp: holding_def [of _ _ _ _ 0])
  have "{0..<length cs} \<subseteq> insert (chunk_no (now, x)) (chunk_no ` set tes)"
  proof
    fix i assume "i \<in> {0..<length cs}"
    then have i: "i < length cs" by simp
    then have "cs ! i \<in> insert x (snd ` set tes)" using assms(6) by simp
    then consider "cs ! i = x" | te where "te \<in> set tes" "cs ! i = snd te" by auto
    moreover have "en_chunk_index (cs ! i) = of_nat i"
      using arg_cong [OF sp(1), of "\<lambda>l. l ! i"] i by (simp add: chunk_at_def Let_def)
    then have "unat (en_chunk_index (cs ! i)) = i" using i assms(3) by (simp add: unat_of_nat)
    ultimately show "i \<in> insert (chunk_no (now, x)) (chunk_no ` set tes)"
      by cases (auto simp: chunk_no_def image_iff)
  qed
  then have "receive_entry slot p (now, x) (holding (p, k) g cs a t (chunk_no ` set tes)) = (a, Some (map en_data cs))"
    using receive_step [OF assms(4,5) sp(1) assms(3), of "chunk_no (now, x)" now t "chunk_no ` set tes"] x by simp
  with pre sp(3) show ?thesis by (simp add: deliver_append)
qed

definition demo_chunks :: "stream_entry list" where
  "demo_chunks = map (chunk_at ''td:a'' 9 [1, 2, 3, 4, 5] 2 3) [0, 1, 2]"

theorem chunks_reassemble_witness:
  "chunk_value ''td:a'' 9 [1, 2, 3, 4, 5] 2 = Some demo_chunks \<and>
   deliver 32 ''peer'' [(0, demo_chunks ! 2), (1, demo_chunks ! 0), (2, demo_chunks ! 2), (3, demo_chunks ! 1)] assembler_new
     = (assembler_new, [None, None, None, Some [[1, 2], [3, 4], [5]]])"
proof -
  have dc: "div_ceil (length [1::u8, 2, 3, 4, 5]) 2 = 3" by (simp add: div_ceil_def)
  have upt: "[0..<3] = [0, 1, 2::nat]" by (simp add: numeral_3_eq_3 numeral_2_eq_2)
  have cv: "chunk_value ''td:a'' 9 [1, 2, 3, 4, 5] 2 = Some demo_chunks"
    unfolding chunk_value_def dc Let_def upt by (simp add: demo_chunks_def)
  have data: "map en_data demo_chunks = [[1, 2], [3, 4], [5]]"
    by (simp add: demo_chunks_def chunk_at_def)
  have room: "room_for 32 demo_chunks assembler_new"
    by (simp add: room_for_def assembler_new_def with_limits_def assembler_wf_def incomplete_bytes_def incomplete_def
        demo_chunks_def chunk_at_def DEFAULT_MAX_CONCURRENT_ASSEMBLIES_def DEFAULT_MAX_ASSEMBLER_BYTES_def)
  have "deliver 32 ''peer'' ([(0, demo_chunks ! 2), (1, demo_chunks ! 0), (2, demo_chunks ! 2)] @ [(3, demo_chunks ! 1)])
      assembler_new = (assembler_new,
      replicate (length [(0::nat, demo_chunks ! 2), (1, demo_chunks ! 0), (2, demo_chunks ! 2)]) None
        @ [Some (map en_data demo_chunks)]) \<and> concat (map en_data demo_chunks) = [1, 2, 3, 4, 5]"
  proof (rule chunks_reassemble [OF cv _ _ room])
    have nth: "demo_chunks = [demo_chunks ! 0, demo_chunks ! 1, demo_chunks ! 2]"
      by (simp add: demo_chunks_def)
    show "insert (demo_chunks ! 1) (snd ` set [(0, demo_chunks ! 2), (1, demo_chunks ! 0), (2, demo_chunks ! 2)])
        = set demo_chunks"
      unfolding arg_cong [OF nth, of set] by auto
    show "demo_chunks ! 1 \<notin> snd ` set [(0, demo_chunks ! 2), (1, demo_chunks ! 0), (2, demo_chunks ! 2)]"
      by (simp add: demo_chunks_def chunk_at_def)
  qed (simp_all add: demo_chunks_def assembler_new_def with_limits_def)
  with cv data show ?thesis by (simp add: numeral_3_eq_3)
qed

datatype assembler_call =
    Asm_Chunk nat string string u64 u32 u32 bytes
  | Asm_Gc nat nat
  | Asm_Drop string string

fun assembler_exec :: "nat \<Rightarrow> chunk_assembler \<Rightarrow> assembler_call \<Rightarrow> chunk_assembler" where
  "assembler_exec slot a (Asm_Chunk now p k g i tot d) = fst (receive_chunk slot now p k g i tot d a)"
| "assembler_exec slot a (Asm_Gc now timeout) = assembler_gc now timeout a"
| "assembler_exec slot a (Asm_Drop p k) = drop_pending p k a"

lemma remove_if_ok:
  "assembler_ok slot a \<Longrightarrow> assembler_ok slot (remove_if k P a) \<and> same_limits (remove_if k P a) a"
  using delete_bounds [of slot a k] by (simp add: remove_if_def same_limits_def split: option.splits)

lemma remove_stale_ok:
  "assembler_ok slot a \<Longrightarrow> assembler_ok slot (remove_stale now keys timeout a) \<and> same_limits (remove_stale now keys timeout a) a"
proof (induction keys arbitrary: a)
  case Nil
  then show ?case by (simp add: remove_stale_def same_limits_def)
next
  case (Cons k keys)
  from Cons.IH [OF conjunct1 [OF remove_if_ok [OF Cons.prems]]] remove_if_ok [OF Cons.prems] show ?case
    by (simp add: remove_stale_def same_limits_def)
qed

lemma assembler_exec_ok:
  assumes "assembler_ok slot a"
  shows "assembler_ok slot (assembler_exec slot a c) \<and> same_limits (assembler_exec slot a c) a"
proof (cases c)
  case (Asm_Chunk now p k g i tot d)
  with receive_chunk_ok [OF assms prod.collapse [symmetric]] show ?thesis by simp
next
  case (Asm_Gc now timeout)
  with remove_stale_ok [OF assms] show ?thesis by (simp add: assembler_gc_def)
next
  case (Asm_Drop p k)
  with delete_bounds [OF assms] show ?thesis by (simp add: drop_pending_def same_limits_def)
qed

text \<open>C15.
  The assembler is bounded against its peers.  Whatever chunks, garbage collections and drops
  arrive, the number of partial assemblies and the memory they hold stay within the limits,
  and no assembly has more than 1024 slots, whatever total a header advertised.
\<close>

theorem assembler_bounded:
  "let a = foldl (assembler_exec slot) (with_limits max_concurrent max_bytes) calls
   in incomplete_count a \<le> max_concurrent \<and> incomplete_bytes slot a \<le> max_bytes \<and>
      list_all (\<lambda>(_, s). length (as_chunks s) \<le> 1024) (ca_assemblies a)"
proof -
  have "assembler_ok slot (foldl (assembler_exec slot) (with_limits max_concurrent max_bytes) calls) \<and>
      same_limits (foldl (assembler_exec slot) (with_limits max_concurrent max_bytes) calls)
        (with_limits max_concurrent max_bytes)"
  proof (induction calls rule: rev_induct)
    case Nil
    then show ?case
      by (simp add: assembler_ok_def assembler_wf_def with_limits_def incomplete_count_def incomplete_bytes_def
          incomplete_def same_limits_def)
  next
    case (snoc c calls)
    then show ?case using assembler_exec_ok by (auto simp: same_limits_def)
  qed
  then show ?thesis
    by (auto simp: Let_def assembler_ok_def same_limits_def with_limits_def assembler_wf_def state_ok_def list_all_iff)
qed

text \<open>
  Frames keep every entry in order and stay within the caps: the concatenation of the batches
  is the list of entries, every batch is non-empty and holds at most the maximal number of
  entries, and its payload is within the byte cap unless it is a single entry.
\<close>

theorem stream_frames_bounded:
  assumes "0 < max_chunks" "0 < max_bytes"
  shows "concat (build_stream_batches es max_chunks max_bytes) = es \<and>
         list_all (frame_ok max_chunks max_bytes) (build_stream_batches es max_chunks max_bytes)"
  using assms pack_entries_ok [OF assms(1), of "[]" max_bytes "[]" 0 es]
  by (simp add: build_stream_batches_def concat_pack_entries list_all_iff)

theorem stream_frames_bounded_witness:
  "concat (build_stream_batches demo_chunks 5 4) = demo_chunks \<and>
   list_all (frame_ok 5 4) (build_stream_batches demo_chunks 5 4)"
  by (rule stream_frames_bounded) simp_all

end
