(* ===== verification/Mesh_Kv.thy ===== *)
theory Mesh_Kv
  imports Router_Properties Chunk_Transport
begin

text \<open>
  Model of \<open>kv.rs\<close>: the node-wide store with its namespaces, subscriptions, drain callbacks and
  the collection of one gossip round.

  A bounded \<open>mpsc\<close> channel is its capacity, its queue and whether the receiver is alive;
  \<open>try_send\<close> either appends or fails.  A drain callback belongs to the application: it is a
  function on the application's state \<open>'w\<close>.  The \<open>blake3\<close> hash is a parameter.  A failed
  \<open>assert!\<close> is \<open>None\<close>.
\<close>

section \<open>Channels\<close>

datatype sink_error = Full | Closed

record 'm channel =
  ch_capacity :: nat
  ch_queue :: "'m list"
  ch_open :: bool

definition channel_new :: "nat \<Rightarrow> 'm channel" where
  "channel_new capacity = \<lparr>ch_capacity = capacity, ch_queue = [], ch_open = True\<rparr>"

definition try_send :: "'m \<Rightarrow> 'm channel \<Rightarrow> 'm channel \<times> (sink_error + unit)" where
  "try_send msg ch =
     (if \<not> ch_open ch then (ch, Inl Closed)
      else if ch_capacity ch \<le> length (ch_queue ch) then (ch, Inl Full)
      else (ch\<lparr>ch_queue := ch_queue ch @ [msg]\<rparr>, Inr ()))"

section \<open>Types\<close>

datatype stream_routing = Broadcast | Targeted

record stream_config =
  sc_max_buffer_bytes :: nat
  sc_routing :: stream_routing

type_synonym subscription_event = "string \<times> bytes list option"

type_synonym subscriber_registry = "(string \<times> subscription_event channel list) list"

type_synonym 'w drain_fn = "'w \<Rightarrow> 'w \<times> (string \<times> bytes) list"

type_synonym 'w drain_registry = "(string \<times> 'w drain_fn) list"

record crdt_namespace =
  cn_prefix :: string
  cn_merge_strategy :: merge_strategy

record stream_namespace =
  sn_prefix :: string
  sn_routing :: stream_routing
  sn_max_buffer_bytes :: nat
  sn_targeted_buffer :: "(string \<times> string \<times> bytes) list"
  sn_targeted_buffer_bytes :: nat

record round_batch =
  rb_targeted_entries :: "(string \<times> string \<times> bytes) list"
  rb_drain_entries :: "(string \<times> bytes) list"
  rb_crdt_ops :: "operation list"

record 'w mesh_kv =
  mk_store :: crdt_or_map
  mk_configured_prefixes :: "string list"
  mk_stream_namespaces :: "stream_namespace list"
  mk_subscribers :: subscriber_registry
  mk_drains :: "'w drain_registry"
  mk_chunk_assembler :: chunk_assembler
  mk_server_name :: string
  mk_replica_id :: u64

section \<open>Registries\<close>

definition sub_register :: "string \<Rightarrow> subscription_event channel \<Rightarrow> subscriber_registry \<Rightarrow> subscriber_registry" where
  "sub_register p tx reg =
     AList.update p ((case map_of reg p of None \<Rightarrow> [] | Some txs \<Rightarrow> txs) @ [tx]) reg"

definition notify :: "string \<Rightarrow> bytes list option \<Rightarrow> subscriber_registry \<Rightarrow> subscriber_registry" where
  "notify key val reg =
     map (\<lambda>(p, txs). (p, if starts_with p key then map (\<lambda>tx. fst (try_send (key, val) tx)) txs else txs)) reg"

definition drain_register :: "string \<Rightarrow> 'w drain_fn \<Rightarrow> 'w drain_registry \<Rightarrow> 'w drain_registry option" where
  "drain_register p drain reg =
     (if map_of reg p \<noteq> None then None else Some (AList.update p drain reg))"

definition drain_remove :: "string \<Rightarrow> 'w drain_registry \<Rightarrow> 'w drain_registry" where
  "drain_remove p reg = AList.delete p reg"

fun drain_all :: "'w drain_registry \<Rightarrow> 'w \<Rightarrow> 'w \<times> (string \<times> bytes) list" where
  "drain_all [] w = (w, [])"
| "drain_all ((p, drain) # reg) w =
     (case drain w of (w1, entries) \<Rightarrow>
        (case drain_all reg w1 of (w2, rest) \<Rightarrow> (w2, entries @ rest)))"

definition subscriber_capacity_for_prefix :: "string \<Rightarrow> nat" where
  "subscriber_capacity_for_prefix p =
     (if p = ''worker:'' then 1000
      else if p = ''policy:'' then 100
      else if p = ''rl:'' then 100
      else if p = ''config:'' then 100
      else if p = ''td:'' then 50
      else if p = ''tree:req:'' then 100
      else if p = ''tree:page:'' then 32
      else 100)"

section \<open>Stream namespaces\<close>

text \<open>Oldest entries are dropped while the buffer is over its limit.\<close>

fun evict_oldest ::
    "nat \<Rightarrow> (string \<times> string \<times> bytes) list \<Rightarrow> nat \<Rightarrow> (string \<times> string \<times> bytes) list \<times> nat" where
  "evict_oldest limit [] held = ([], held)"
| "evict_oldest limit (e # buf) held =
     (if limit < held then evict_oldest limit buf (held - length (snd (snd e))) else (e # buf, held))"

definition publish_to :: "string \<Rightarrow> string \<Rightarrow> bytes \<Rightarrow> stream_namespace \<Rightarrow> stream_namespace option" where
  "publish_to peer_id key val ns =
     (if sn_routing ns \<noteq> Targeted \<or> \<not> starts_with (sn_prefix ns) key then None
      else
        let buf = sn_targeted_buffer ns @ [(peer_id, key, val)];
            held = sn_targeted_buffer_bytes ns + length val;
            (buf', held') = evict_oldest (sn_max_buffer_bytes ns) buf held
        in Some (ns\<lparr>sn_targeted_buffer := buf', sn_targeted_buffer_bytes := held'\<rparr>))"

definition drain_targeted_buffer :: "stream_namespace \<Rightarrow> stream_namespace \<times> (string \<times> string \<times> bytes) list" where
  "drain_targeted_buffer ns =
     (ns\<lparr>sn_targeted_buffer := [], sn_targeted_buffer_bytes := 0\<rparr>, sn_targeted_buffer ns)"

definition register_drain ::
    "stream_namespace \<Rightarrow> 'w drain_fn \<Rightarrow> 'w mesh_kv \<Rightarrow> 'w mesh_kv option" where
  "register_drain ns drain mk =
     (if sn_routing ns \<noteq> Broadcast then None
      else map_option (\<lambda>reg. mk\<lparr>mk_drains := reg\<rparr>) (drain_register (sn_prefix ns) drain (mk_drains mk)))"

text \<open>Dropping the handle of a registered drain.\<close>

definition drain_handle_drop :: "string \<Rightarrow> 'w mesh_kv \<Rightarrow> 'w mesh_kv" where
  "drain_handle_drop p mk = mk\<lparr>mk_drains := drain_remove p (mk_drains mk)\<rparr>"

section \<open>CRDT namespaces\<close>

definition ns_put ::
    "shard_ser \<Rightarrow> shard_de \<Rightarrow> instant \<Rightarrow> crdt_namespace \<Rightarrow> string \<Rightarrow> bytes \<Rightarrow> 'w mesh_kv \<Rightarrow> 'w mesh_kv option" where
  "ns_put ser de now ns key val mk =
     (if \<not> starts_with (cn_prefix ns) key then None
      else
        let store = fst (cm_insert ser de now key val (mk_store mk));
            canonical = cm_get ser store key
        in Some (mk\<lparr>mk_store := store,
                    mk_subscribers := notify key (map_option (\<lambda>v. [v]) canonical) (mk_subscribers mk)\<rparr>))"

definition ns_get :: "shard_ser \<Rightarrow> crdt_namespace \<Rightarrow> string \<Rightarrow> 'w mesh_kv \<Rightarrow> bytes option option" where
  "ns_get ser ns key mk =
     (if \<not> starts_with (cn_prefix ns) key then None else Some (cm_get ser (mk_store mk) key))"

definition ns_delete ::
    "shard_ser \<Rightarrow> shard_de \<Rightarrow> instant \<Rightarrow> crdt_namespace \<Rightarrow> string \<Rightarrow> 'w mesh_kv \<Rightarrow> 'w mesh_kv option" where
  "ns_delete ser de now ns key mk =
     (if \<not> starts_with (cn_prefix ns) key then None
      else Some (mk\<lparr>mk_store := fst (cm_remove ser de now key (mk_store mk)),
                    mk_subscribers := notify key None (mk_subscribers mk)\<rparr>))"

definition ns_keys :: "crdt_namespace \<Rightarrow> string \<Rightarrow> 'w mesh_kv \<Rightarrow> string list" where
  "ns_keys ns sub_prefix mk =
     filter (starts_with (cn_prefix ns @ sub_prefix)) (cm_keys (mk_store mk))"

definition subscribe :: "string \<Rightarrow> string \<Rightarrow> 'w mesh_kv \<Rightarrow> 'w mesh_kv" where
  "subscribe ns_prefix sub_prefix mk =
     mk\<lparr>mk_subscribers :=
          sub_register (ns_prefix @ sub_prefix) (channel_new (subscriber_capacity_for_prefix ns_prefix))
            (mk_subscribers mk)\<rparr>"

section \<open>The node\<close>

text \<open>The identifier is the first eight bytes of the hash.\<close>

definition derive_replica_id :: "(bytes \<Rightarrow> bytes) \<Rightarrow> string \<Rightarrow> u64" where
  "derive_replica_id blake3 server_name =
     u64_from_le_bytes (take 8 (blake3 (map of_char server_name)))"

text \<open>
  \<open>replica\<close> is the fresh identifier of the store.  The registration of \<open>config:\<close> on the new
  map cannot fail.
\<close>

definition mesh_new :: "(bytes \<Rightarrow> bytes) \<Rightarrow> replica_id \<Rightarrow> string \<Rightarrow> 'w mesh_kv" where
  "mesh_new blake3 replica server_name =
     \<lparr>mk_store = the (register_merge_strategy ''config:'' LastWriterWins (with_replica_id replica)),
      mk_configured_prefixes = [''config:''], mk_stream_namespaces = [], mk_subscribers = [],
      mk_drains = [], mk_chunk_assembler = assembler_new, mk_server_name = server_name,
      mk_replica_id = derive_replica_id blake3 server_name\<rparr>"

definition configs_namespace :: crdt_namespace where
  "configs_namespace = \<lparr>cn_prefix = ''config:'', cn_merge_strategy = LastWriterWins\<rparr>"

definition mesh_gc_tombstones :: "instant \<Rightarrow> 'w mesh_kv \<Rightarrow> 'w mesh_kv \<times> nat" where
  "mesh_gc_tombstones now mk =
     (case cm_gc_tombstones now (mk_store mk) of (store, n) \<Rightarrow> (mk\<lparr>mk_store := store\<rparr>, n))"

definition notify_subscribers :: "string \<Rightarrow> bytes list option \<Rightarrow> 'w mesh_kv \<Rightarrow> 'w mesh_kv" where
  "notify_subscribers key val mk = mk\<lparr>mk_subscribers := notify key val (mk_subscribers mk)\<rparr>"

definition configure_crdt_prefix ::
    "string \<Rightarrow> merge_strategy \<Rightarrow> 'w mesh_kv \<Rightarrow> ('w mesh_kv \<times> crdt_namespace) option" where
  "configure_crdt_prefix p strategy mk =
     (if p \<in> set (mk_configured_prefixes mk) then None
      else map_option (\<lambda>store.
             (mk\<lparr>mk_configured_prefixes := p # mk_configured_prefixes mk, mk_store := store\<rparr>,
              \<lparr>cn_prefix = p, cn_merge_strategy = strategy\<rparr>))
           (register_merge_strategy p strategy (mk_store mk)))"

definition configure_stream_prefix ::
    "string \<Rightarrow> stream_config \<Rightarrow> 'w mesh_kv \<Rightarrow> ('w mesh_kv \<times> stream_namespace) option" where
  "configure_stream_prefix p config mk =
     (if p \<in> set (mk_configured_prefixes mk) then None
      else
        let ns = \<lparr>sn_prefix = p, sn_routing = sc_routing config, sn_max_buffer_bytes = sc_max_buffer_bytes config,
                  sn_targeted_buffer = [], sn_targeted_buffer_bytes = 0\<rparr>
        in Some (mk\<lparr>mk_configured_prefixes := p # mk_configured_prefixes mk,
                    mk_stream_namespaces := mk_stream_namespaces mk @ [ns]\<rparr>, ns))"

definition is_prefix_configured :: "string \<Rightarrow> 'w mesh_kv \<Rightarrow> bool" where
  "is_prefix_configured p mk \<longleftrightarrow> p \<in> set (mk_configured_prefixes mk)"

definition collect_round_batch :: "'w mesh_kv \<Rightarrow> 'w \<Rightarrow> ('w mesh_kv \<times> 'w) \<times> round_batch" where
  "collect_round_batch mk w =
     (let drained = map drain_targeted_buffer (mk_stream_namespaces mk);
          (w', drain_entries) = drain_all (mk_drains mk) w;
          (store, crdt_ops) = operation_log_snapshot (mk_store mk)
      in ((mk\<lparr>mk_stream_namespaces := map fst drained, mk_store := store\<rparr>, w'),
          \<lparr>rb_targeted_entries = concat (map snd drained), rb_drain_entries = drain_entries,
           rb_crdt_ops = crdt_ops\<rparr>))"

definition notify_changes :: "crdt_change list \<Rightarrow> subscriber_registry \<Rightarrow> subscriber_registry" where
  "notify_changes cs reg =
     foldl (\<lambda>reg change. notify (change_key change) (map_option (\<lambda>v. [v]) (change_value change)) reg) reg cs"

definition merge_crdt_ops ::
    "shard_ser \<Rightarrow> shard_de \<Rightarrow> instant \<Rightarrow> operation list \<Rightarrow> 'w mesh_kv \<Rightarrow> 'w mesh_kv" where
  "merge_crdt_ops ser de now ops mk =
     (case cm_merge ser de now ops (mk_store mk) of
        (store, report) \<Rightarrow>
          mk\<lparr>mk_store := store, mk_subscribers := notify_changes report (mk_subscribers mk)\<rparr>)"

section \<open>Properties\<close>

definition buffered_bytes :: "(string \<times> string \<times> bytes) list \<Rightarrow> nat" where
  "buffered_bytes buf = sum_list (map (\<lambda>(_, _, val). length val) buf)"

definition buffer_ok :: "stream_namespace \<Rightarrow> bool" where
  "buffer_ok ns \<longleftrightarrow> sn_targeted_buffer_bytes ns = buffered_bytes (sn_targeted_buffer ns)"

lemma evict_oldest_suffix:
  assumes "evict_oldest limit buf held = (buf', held')" "held = buffered_bytes buf"
  shows "held' = buffered_bytes buf' \<and> held' \<le> limit \<and>
         (\<exists>dropped. buf = dropped @ buf' \<and> (dropped = [] \<or> limit < buffered_bytes (last dropped # buf')))"
  using assms
proof (induction limit buf held rule: evict_oldest.induct)
  case (1 limit held)
  then show ?case by (simp add: buffered_bytes_def)
next
  case (2 limit e buf held)
  show ?case
  proof (cases "limit < held")
    case False
    with 2(2,3) show ?thesis by auto
  next
    case True
    have held: "held - length (snd (snd e)) = buffered_bytes buf"
      using 2(3) by (simp add: buffered_bytes_def case_prod_unfold)
    from 2(1) [OF True _ held] 2(2) True obtain dropped where
      d: "held' = buffered_bytes buf'" "held' \<le> limit" "buf = dropped @ buf'"
        "dropped = [] \<or> limit < buffered_bytes (last dropped # buf')" by auto
    have "e # buf = (e # dropped) @ buf' \<and> (e # dropped = [] \<or> limit < buffered_bytes (last (e # dropped) # buf'))"
      using d True 2(3) by (cases "dropped = []") simp_all
    with d(1,2) show ?thesis by blast
  qed
qed

text \<open>C16.
  A targeted buffer keeps the newest entries.  After a publish the byte counter is exact and
  within the limit, and the buffer is the longest suffix of the old buffer with the new entry
  that fits: what was dropped is a prefix, and one entry less would have been over the limit.
\<close>

theorem publish_keeps_newest:
  assumes "publish_to peer_id key val ns = Some ns'" and "buffer_ok ns"
  shows "buffer_ok ns' \<and> sn_targeted_buffer_bytes ns' \<le> sn_max_buffer_bytes ns \<and>
         (\<exists>dropped. sn_targeted_buffer ns @ [(peer_id, key, val)] = dropped @ sn_targeted_buffer ns' \<and>
            (dropped = [] \<or> sn_max_buffer_bytes ns < buffered_bytes (last dropped # sn_targeted_buffer ns')))"
proof -
  let ?buf = "sn_targeted_buffer ns @ [(peer_id, key, val)]"
  obtain buf' held' where ev: "evict_oldest (sn_max_buffer_bytes ns) ?buf
      (sn_targeted_buffer_bytes ns + length val) = (buf', held')" by force
  have "ns' = ns\<lparr>sn_targeted_buffer := buf', sn_targeted_buffer_bytes := held'\<rparr>"
    using assms(1) ev by (simp add: publish_to_def Let_def split: if_splits)
  moreover have "sn_targeted_buffer_bytes ns + length val = buffered_bytes ?buf"
    using assms(2) by (simp add: buffer_ok_def buffered_bytes_def)
  ultimately show ?thesis
    using evict_oldest_suffix [OF ev] by (simp add: buffer_ok_def)
qed

definition demo_stream :: stream_namespace where
  "demo_stream = \<lparr>sn_prefix = ''tree:'', sn_routing = Targeted, sn_max_buffer_bytes = 3,
     sn_targeted_buffer = [(''p'', ''tree:1'', [1, 1]), (''q'', ''tree:2'', [2])], sn_targeted_buffer_bytes = 3\<rparr>"

theorem publish_keeps_newest_witness:
  "\<exists>ns'. publish_to ''p'' ''tree:3'' [3, 3] demo_stream = Some ns' \<and> buffer_ok ns' \<and>
     sn_targeted_buffer ns' = [(''q'', ''tree:2'', [2]), (''p'', ''tree:3'', [3, 3])]"
proof -
  let ?ns = "demo_stream\<lparr>sn_targeted_buffer := [(''q'', ''tree:2'', [2]), (''p'', ''tree:3'', [3, 3])],
    sn_targeted_buffer_bytes := 3\<rparr>"
  have "publish_to ''p'' ''tree:3'' [3, 3] demo_stream = Some ?ns"
    by (simp add: publish_to_def demo_stream_def starts_with_def)
  moreover have "buffer_ok demo_stream"
    by (simp add: buffer_ok_def buffered_bytes_def demo_stream_def)
  ultimately show ?thesis
    using publish_keeps_newest by fastforce
qed

text \<open>A subscriber that replays its events; the value is the concatenation of the fragments.\<close>

fun replay_events :: "subscription_event list \<Rightarrow> (string \<Rightarrow> bytes option) \<Rightarrow> (string \<Rightarrow> bytes option)" where
  "replay_events [] view = view"
| "replay_events ((k, frags) # evs) view = replay_events evs (view(k := map_option concat frags))"

definition change_event :: "crdt_change \<Rightarrow> subscription_event" where
  "change_event c = (change_key c, map_option (\<lambda>v. [v]) (change_value c))"

lemma replay_change_events: "replay_events (map change_event cs) view = replay_changes cs view"
  by (induction cs arbitrary: view) (simp_all add: change_event_def option.map_comp comp_def option.map_ident)

lemma replay_changes_filter:
  "P k \<Longrightarrow> replay_changes (filter (P \<circ> change_key) cs) view k = replay_changes cs view k"
proof (induction cs arbitrary: view)
  case (Cons c cs)
  show ?case
  proof (cases "P (change_key c)")
    case True
    with Cons show ?thesis by simp
  next
    case False
    with Cons.prems have "change_key c \<noteq> k" by auto
    then have "replay_changes cs (view(change_key c := change_value c)) k = replay_changes cs view k"
      by (intro replay_changes_cong) simp
    with Cons False show ?thesis by simp
  qed
qed simp

definition send_all :: "'m list \<Rightarrow> 'm channel \<Rightarrow> 'm channel" where
  "send_all ms ch = foldl (\<lambda>ch m. fst (try_send m ch)) ch ms"

lemma send_all_room:
  "ch_open ch \<Longrightarrow> length (ch_queue ch) + length ms \<le> ch_capacity ch \<Longrightarrow>
   send_all ms ch = ch\<lparr>ch_queue := ch_queue ch @ ms\<rparr>"
proof (induction ms arbitrary: ch)
  case (Cons m ms)
  then have "fst (try_send m ch) = ch\<lparr>ch_queue := ch_queue ch @ [m]\<rparr>" by (simp add: try_send_def)
  with Cons show ?case by (simp add: send_all_def)
qed (simp add: send_all_def)

lemma notify_changes_map:
  "notify_changes cs reg =
     map (\<lambda>(p, txs). (p, map (send_all (map change_event (filter (starts_with p \<circ> change_key) cs))) txs)) reg"
proof (induction cs arbitrary: reg)
  case Nil
  then show ?case by (simp add: notify_changes_def send_all_def case_prod_unfold)
next
  case (Cons c cs)
  have "notify_changes (c # cs) reg =
      notify_changes cs (notify (change_key c) (map_option (\<lambda>v. [v]) (change_value c)) reg)"
    by (simp add: notify_changes_def)
  also have "\<dots> = map (\<lambda>(p, txs). (p, map (send_all (map change_event (filter (starts_with p \<circ> change_key) cs))) txs))
      (notify (change_key c) (map_option (\<lambda>v. [v]) (change_value c)) reg)"
    by (rule Cons.IH)
  also have "\<dots> = map (\<lambda>(p, txs). (p, map (send_all (map change_event (filter (starts_with p \<circ> change_key) (c # cs)))) txs)) reg"
    by (simp add: notify_def case_prod_unfold send_all_def change_event_def comp_def)
  finally show ?case .
qed

text \<open>C17.
  A subscriber follows the merged store.  When a node whose store is reachable merges remote
  operations and a subscriber of prefix \<open>p\<close> has room for the report, replaying the events its
  channel received turns its copy of the store into the merged store, for every key of the
  prefix.
\<close>

theorem subscriber_follows_merge:
  assumes "cm_run ser de calls (with_replica_id r) = Some (mk_store mk)"
    and "(p, txs) \<in> set (mk_subscribers mk)" and "ch \<in> set txs" and "ch_open ch"
    and "length (ch_queue ch) + length (snd (cm_merge ser de now ops (mk_store mk))) \<le> ch_capacity ch"
  shows "\<exists>txs' ch' evs. (p, txs') \<in> set (mk_subscribers (merge_crdt_ops ser de now ops mk)) \<and> ch' \<in> set txs' \<and>
           ch_queue ch' = ch_queue ch @ evs \<and>
           (\<forall>k. starts_with p k \<longrightarrow> replay_events evs (cm_get ser (mk_store mk)) k =
              cm_get ser (mk_store (merge_crdt_ops ser de now ops mk)) k)"
proof -
  obtain store report where mg: "cm_merge ser de now ops (mk_store mk) = (store, report)" by force
  let ?evs = "map change_event (filter (starts_with p \<circ> change_key) report)"
  have store: "mk_store (merge_crdt_ops ser de now ops mk) = store"
    and subs: "mk_subscribers (merge_crdt_ops ser de now ops mk) = notify_changes report (mk_subscribers mk)"
    by (simp_all add: merge_crdt_ops_def mg)
  have "length (ch_queue ch) + length ?evs \<le> ch_capacity ch"
    using assms(5) length_filter_le [of "starts_with p \<circ> change_key" report]
    unfolding mg snd_conv length_map by linarith
  then have "send_all ?evs ch = ch\<lparr>ch_queue := ch_queue ch @ ?evs\<rparr>"
    using assms(4) by (intro send_all_room)
  moreover have "(p, map (send_all ?evs) txs) \<in> set (notify_changes report (mk_subscribers mk))"
    unfolding notify_changes_map using assms(2) by (force simp: case_prod_unfold)
  moreover have "replay_events ?evs (cm_get ser (mk_store mk)) k = cm_get ser store k" if "starts_with p k" for k
  proof -
    have "replay_changes report (cm_get ser (mk_store mk)) = cm_get ser store"
      using cm_run_inv [OF assms(1) cm_new_inv] cm_merge_effect(5) [OF mg] by blast
    then show ?thesis
      by (simp add: replay_change_events replay_changes_filter [where P = "starts_with p", OF that])
  qed
  moreover have "send_all ?evs ch \<in> set (map (send_all ?evs) txs)"
    using assms(3) by simp
  ultimately show ?thesis
    unfolding store subs
    by (intro exI [of _ "map (send_all ?evs) txs"] exI [of _ "send_all ?evs ch"] exI [of _ ?evs]) simp
qed

definition demo_mesh :: "unit mesh_kv" where
  "demo_mesh = subscribe ''config:'' [] (mesh_new (\<lambda>b. b) 7 ''node'')"

lemma demo_mesh_store:
  "cm_run fixed_ser fixed_de [Call_Register ''config:'' LastWriterWins] (with_replica_id 7) = Some (mk_store demo_mesh)"
  by (simp add: demo_mesh_def subscribe_def mesh_new_def register_merge_strategy_def with_replica_id_def)

lemma demo_mesh_report:
  "snd (cm_merge fixed_ser fixed_de 0 [Insert ''config:a'' [1] 5 2] (mk_store demo_mesh)) =
     [\<lparr>change_key = ''config:a'', change_value = Some [1]\<rparr>]"
  by (simp add: demo_mesh_def subscribe_def mesh_new_def register_merge_strategy_def with_replica_id_def
      cm_merge_def starts_with_def all_engines_def lww_eval)

theorem subscriber_follows_merge_witness:
  "\<exists>txs' ch' evs.
     (''config:'', txs') \<in> set (mk_subscribers (merge_crdt_ops fixed_ser fixed_de 0 [Insert ''config:a'' [1] 5 2] demo_mesh)) \<and>
     ch' \<in> set txs' \<and> ch_queue ch' = evs \<and>
     replay_events evs (cm_get fixed_ser (mk_store demo_mesh)) ''config:a'' =
       cm_get fixed_ser (mk_store (merge_crdt_ops fixed_ser fixed_de 0 [Insert ''config:a'' [1] 5 2] demo_mesh)) ''config:a''"
proof -
  have sub: "(''config:'', [channel_new 100]) \<in> set (mk_subscribers demo_mesh)"
    by (simp add: demo_mesh_def subscribe_def mesh_new_def sub_register_def subscriber_capacity_for_prefix_def)
  have "length (ch_queue (channel_new 100 :: subscription_event channel)) +
      length (snd (cm_merge fixed_ser fixed_de 0 [Insert ''config:a'' [1] 5 2] (mk_store demo_mesh)))
      \<le> ch_capacity (channel_new 100 :: subscription_event channel)"
    unfolding demo_mesh_report by (simp add: channel_new_def)
  from subscriber_follows_merge [OF demo_mesh_store sub _ _ this] show ?thesis
    by (force simp: channel_new_def starts_with_def)
qed

end
