(* ===== verification/Peer_Stream.thy ===== *)
theory Peer_Stream
  imports Mesh_Kv Watermark
begin

text \<open>
  Models of \<open>transport/crdt_batch.rs\<close>, \<open>transport/sync_stream.rs\<close> and
  \<open>transport/peer_stream.rs\<close>: the wire form of operations and acknowledgements, the frames one
  gossip round sends to a peer, and what an inbound frame does to the node.

  The text form of a replica id is printed and parsed by the \<open>uuid\<close> crate: \<open>show_id\<close> and
  \<open>parse_id\<close> are parameters, and \<open>uuid_text\<close> states that parsing inverts printing and that no
  id prints as the empty string.  The source of frame numbers is a parameter \<open>next_seq\<close> on the
  caller's state.  The \<open>Arc\<close> of a round batch is a batch with an identity, so \<open>Arc::ptr_eq\<close> is
  equality of identities.
\<close>

section \<open>Wire types\<close>

type_synonym show_id = "replica_id \<Rightarrow> string"
type_synonym parse_id = "string \<Rightarrow> replica_id option"

record crdt_op_msg =
  po_key :: string
  po_value :: bytes
  po_tombstone :: bool
  po_timestamp :: u64
  po_replica_id :: string

type_synonym crdt_batch = "crdt_op_msg list"

record crdt_key_version =
  ck_key :: string
  ck_version :: u64
  ck_replica_id :: string

type_synonym crdt_ack = "crdt_key_version list"

datatype message_type =
    IncrementalUpdate | SnapshotRequest | SnapshotChunk | SnapshotComplete
  | MT_Ack | MT_Nack | MT_Heartbeat | MT_StreamBatch | MT_CrdtBatch | MT_CrdtAck

datatype payload =
    PL_Ack bool
  | PL_StreamBatch stream_batch
  | PL_CrdtBatch crdt_batch
  | PL_CrdtAck crdt_ack
  | PL_Legacy

record stream_message =
  sm_type :: message_type
  sm_payload :: "payload option"
  sm_sequence :: u64
  sm_peer_id :: string

section \<open>Operations and acknowledgements on the wire\<close>

fun op_to_proto :: "show_id \<Rightarrow> operation \<Rightarrow> crdt_op_msg" where
  "op_to_proto show_id (Insert key val timestamp replica) =
     \<lparr>po_key = key, po_value = val, po_tombstone = False, po_timestamp = timestamp,
      po_replica_id = show_id replica\<rparr>"
| "op_to_proto show_id (Remove key timestamp replica) =
     \<lparr>po_key = key, po_value = [], po_tombstone = True, po_timestamp = timestamp,
      po_replica_id = show_id replica\<rparr>"

definition proto_to_op :: "parse_id \<Rightarrow> crdt_op_msg \<Rightarrow> operation option" where
  "proto_to_op parse_id op =
     (case parse_id (po_replica_id op) of
        None \<Rightarrow> None
      | Some replica \<Rightarrow>
          Some (if po_tombstone op then Remove (po_key op) (po_timestamp op) replica
                else Insert (po_key op) (po_value op) (po_timestamp op) replica))"

definition estimated_op_size :: "crdt_op_msg \<Rightarrow> nat" where
  "estimated_op_size op = length (po_key op) + length (po_value op) + length (po_replica_id op) + 24"

fun pack_ops ::
    "show_id \<Rightarrow> nat \<Rightarrow> operation list \<Rightarrow> crdt_batch list \<Rightarrow> crdt_batch \<Rightarrow> nat \<Rightarrow> crdt_batch list" where
  "pack_ops show_id max_bytes [] out current current_bytes =
     (if current \<noteq> [] then out @ [current] else out)"
| "pack_ops show_id max_bytes (op # ops) out current current_bytes =
     (let proto = op_to_proto show_id op; size_op = estimated_op_size proto
      in if current \<noteq> [] \<and> max_bytes < current_bytes + size_op
         then pack_ops show_id max_bytes ops (out @ [current]) [proto] size_op
         else pack_ops show_id max_bytes ops out (current @ [proto]) (current_bytes + size_op))"

definition build_crdt_batches :: "show_id \<Rightarrow> operation list \<Rightarrow> nat \<Rightarrow> crdt_batch list" where
  "build_crdt_batches show_id ops max_bytes = pack_ops show_id max_bytes ops [] [] 0"

definition wrap_crdt_batch :: "crdt_batch \<Rightarrow> u64 \<Rightarrow> string \<Rightarrow> stream_message" where
  "wrap_crdt_batch batch sequence self_name =
     \<lparr>sm_type = MT_CrdtBatch, sm_payload = Some (PL_CrdtBatch batch), sm_sequence = sequence,
      sm_peer_id = self_name\<rparr>"

definition watermark_to_crdt_ack :: "show_id \<Rightarrow> crdt_watermark \<Rightarrow> crdt_ack" where
  "watermark_to_crdt_ack show_id watermark =
     map (\<lambda>(key, (version, replica)). \<lparr>ck_key = key, ck_version = version, ck_replica_id = show_id replica\<rparr>)
       (wm_iter watermark)"

definition ack_entry :: "parse_id \<Rightarrow> crdt_key_version \<Rightarrow> (string \<times> version) option" where
  "ack_entry parse_id entry =
     (if ck_replica_id entry = [] then Some (ck_key entry, (ck_version entry, replica_id_MAX))
      else case parse_id (ck_replica_id entry) of
             None \<Rightarrow> None
           | Some replica \<Rightarrow> Some (ck_key entry, (ck_version entry, replica)))"

definition crdt_ack_to_watermark :: "parse_id \<Rightarrow> crdt_ack \<Rightarrow> crdt_watermark" where
  "crdt_ack_to_watermark parse_id ack = wm_from_iter (List.map_filter (ack_entry parse_id) ack)"

definition wrap_crdt_ack :: "show_id \<Rightarrow> crdt_watermark \<Rightarrow> u64 \<Rightarrow> string \<Rightarrow> stream_message" where
  "wrap_crdt_ack show_id watermark sequence self_name =
     \<lparr>sm_type = MT_CrdtAck, sm_payload = Some (PL_CrdtAck (watermark_to_crdt_ack show_id watermark)),
      sm_sequence = sequence, sm_peer_id = self_name\<rparr>"

definition dispatch_crdt_batch ::
    "shard_ser \<Rightarrow> shard_de \<Rightarrow> parse_id \<Rightarrow> instant \<Rightarrow> crdt_batch \<Rightarrow> 'w mesh_kv \<Rightarrow> 'w mesh_kv \<times> crdt_watermark" where
  "dispatch_crdt_batch ser de parse_id now batch mk =
     (let ops = List.map_filter (proto_to_op parse_id) batch
      in if ops = [] then (mk, wm_new) else (merge_crdt_ops ser de now ops mk, from_ops ops))"

section \<open>Stream batches of a peer\<close>

text \<open>Every published value takes its own generation tag.\<close>

fun chunk_entries :: "(string \<times> bytes) list \<Rightarrow> u64 \<Rightarrow> stream_entry list \<times> u64" where
  "chunk_entries [] counter = ([], counter)"
| "chunk_entries ((key, val) # kvs) counter =
     (case next_generation counter of (generation, counter1) \<Rightarrow>
        (case chunk_entries kvs counter1 of (entries, counter2) \<Rightarrow>
           (the (chunk_value key generation val MAX_STREAM_CHUNK_BYTES) @ entries, counter2)))"

definition build_peer_stream_batches :: "round_batch \<Rightarrow> string \<Rightarrow> u64 \<Rightarrow> stream_batch list \<times> u64" where
  "build_peer_stream_batches rb peer_id counter =
     (let (broadcast, counter1) = chunk_entries (rb_drain_entries rb) counter;
          targets = (if peer_id \<noteq> []
                     then map snd (filter (\<lambda>(target, _). target = peer_id) (rb_targeted_entries rb)) else []);
          (targeted, counter2) = chunk_entries targets counter1;
          entries = broadcast @ targeted
      in (if entries = [] then []
          else build_stream_batches entries DEFAULT_MAX_CHUNKS_PER_BATCH MAX_STREAM_CHUNK_BYTES, counter2))"

definition wrap_stream_batch :: "stream_batch \<Rightarrow> u64 \<Rightarrow> string \<Rightarrow> stream_message" where
  "wrap_stream_batch batch sequence self_name =
     \<lparr>sm_type = MT_StreamBatch, sm_payload = Some (PL_StreamBatch batch), sm_sequence = sequence,
      sm_peer_id = self_name\<rparr>"

definition build_heartbeat :: "u64 \<Rightarrow> string \<Rightarrow> stream_message" where
  "build_heartbeat sequence self_name =
     \<lparr>sm_type = MT_Heartbeat, sm_payload = None, sm_sequence = sequence, sm_peer_id = self_name\<rparr>"

definition dispatch_stream_entry ::
    "nat \<Rightarrow> instant \<Rightarrow> string \<Rightarrow> 'w mesh_kv \<Rightarrow> stream_entry \<Rightarrow> 'w mesh_kv" where
  "dispatch_stream_entry slot now peer_id mk entry =
     (if en_total_chunks entry = 1
      then notify_subscribers (en_key entry) (Some [en_data entry])
             (mk\<lparr>mk_chunk_assembler := drop_pending peer_id (en_key entry) (mk_chunk_assembler mk)\<rparr>)
      else
        case receive_chunk slot now peer_id (en_key entry) (en_generation entry) (en_chunk_index entry)
               (en_total_chunks entry) (en_data entry) (mk_chunk_assembler mk) of
          (assembler, assembled) \<Rightarrow>
            let mk1 = mk\<lparr>mk_chunk_assembler := assembler\<rparr>
            in (case assembled of
                  None \<Rightarrow> mk1
                | Some fragments \<Rightarrow> notify_subscribers (en_key entry) (Some fragments) mk1))"

definition dispatch_stream_batch ::
    "nat \<Rightarrow> instant \<Rightarrow> string \<Rightarrow> stream_batch \<Rightarrow> 'w mesh_kv \<Rightarrow> 'w mesh_kv" where
  "dispatch_stream_batch slot now peer_id entries mk =
     foldl (dispatch_stream_entry slot now peer_id) mk entries"

section \<open>One end of a stream\<close>

datatype round_outcome = RO_Sent | RO_Closed

type_synonym round_arc = "nat \<times> round_batch"

datatype sender_tick = SkipPeerUnknown | SkipBatchUnchanged | Emit "stream_batch list"

definition plan_sender_tick ::
    "round_arc option \<Rightarrow> round_arc \<Rightarrow> string option \<Rightarrow> u64 \<Rightarrow> sender_tick \<times> u64" where
  "plan_sender_tick last_batch current learned_peer counter =
     (case learned_peer of
        None \<Rightarrow> (SkipPeerUnknown, counter)
      | Some peer_id \<Rightarrow>
          if peer_id = [] then (SkipPeerUnknown, counter)
          else if (case last_batch of None \<Rightarrow> False | Some last_arc \<Rightarrow> fst last_arc = fst current)
          then (SkipBatchUnchanged, counter)
          else (case build_peer_stream_batches (snd current) peer_id counter of
                  (batches, counter') \<Rightarrow> (Emit batches, counter')))"

text \<open>
  Queue frames until one is refused: a full channel drops the rest of the round, a closed one
  ends the stream (\<open>True\<close>).
\<close>

fun send_frames ::
    "('q \<Rightarrow> u64 \<times> 'q) \<Rightarrow> (u64 \<Rightarrow> stream_message) list \<Rightarrow> 'q \<Rightarrow> stream_message channel \<Rightarrow>
     ('q \<times> stream_message channel) \<times> bool" where
  "send_frames next_seq [] q sink = ((q, sink), False)"
| "send_frames next_seq (frame # frames) q sink =
     (case next_seq q of (sequence, q1) \<Rightarrow>
        (case try_send (frame sequence) sink of
           (sink1, Inr _) \<Rightarrow> send_frames next_seq frames q1 sink1
         | (sink1, Inl Full) \<Rightarrow> ((q1, sink1), False)
         | (sink1, Inl Closed) \<Rightarrow> ((q1, sink1), True)))"

record 'q sender =
  sd_last_stream_batch :: "round_arc option"
  sd_counter :: u64
  sd_seq :: 'q
  sd_sink :: "stream_message channel"

definition send_round ::
    "show_id \<Rightarrow> ('q \<Rightarrow> u64 \<times> 'q) \<Rightarrow> round_arc \<Rightarrow> string option \<Rightarrow> crdt_watermark \<Rightarrow> string \<Rightarrow>
     'q sender \<Rightarrow> 'q sender \<times> round_outcome" where
  "send_round show_id next_seq arc peer acked self_name s =
     (let (tick, counter) = plan_sender_tick (sd_last_stream_batch s) arc peer (sd_counter s);
          (last_batch, batches) =
            (case tick of Emit bs \<Rightarrow> (Some arc, bs) | _ \<Rightarrow> (sd_last_stream_batch s, []));
          ((q1, sink1), closed) =
            send_frames next_seq (map (\<lambda>b n. wrap_stream_batch b n self_name) batches) (sd_seq s) (sd_sink s);
          s1 = s\<lparr>sd_last_stream_batch := last_batch, sd_counter := counter, sd_seq := q1, sd_sink := sink1\<rparr>
      in if closed then (s1, RO_Closed)
         else
           let crdt_ops = filter (allows acked) (rb_crdt_ops (snd arc));
               ((q2, sink2), closed2) =
                 send_frames next_seq
                   (map (\<lambda>b n. wrap_crdt_batch b n self_name)
                      (build_crdt_batches show_id crdt_ops MAX_STREAM_CHUNK_BYTES)) q1 sink1
           in (s1\<lparr>sd_seq := q2, sd_sink := sink2\<rparr>, if closed2 then RO_Closed else RO_Sent))"

datatype frame =
    F_Continue
  | F_Heartbeat
  | F_Ack "bool option" u64
  | F_Nack u64

record ('w, 'q) stream_end =
  se_mesh :: "'w mesh_kv option"
  se_acked :: crdt_watermark
  se_seq :: 'q
  se_sink :: "stream_message channel"

definition handle_frame ::
    "shard_ser \<Rightarrow> shard_de \<Rightarrow> show_id \<Rightarrow> parse_id \<Rightarrow> nat \<Rightarrow> instant \<Rightarrow> ('q \<Rightarrow> u64 \<times> 'q) \<Rightarrow> string \<Rightarrow>
     stream_message \<Rightarrow> ('w, 'q) stream_end \<Rightarrow> ('w, 'q) stream_end \<times> frame" where
  "handle_frame ser de show_id parse_id slot now next_seq self_name msg s =
     (case sm_type msg of
        MT_Heartbeat \<Rightarrow> (s, F_Heartbeat)
      | MT_Ack \<Rightarrow>
          (s, F_Ack (case sm_payload msg of Some (PL_Ack success) \<Rightarrow> Some success | _ \<Rightarrow> None) (sm_sequence msg))
      | MT_Nack \<Rightarrow> (s, F_Nack (sm_sequence msg))
      | MT_StreamBatch \<Rightarrow>
          (case (se_mesh s, sm_payload msg) of
             (Some mk, Some (PL_StreamBatch entries)) \<Rightarrow>
               (s\<lparr>se_mesh := Some (dispatch_stream_batch slot now (sm_peer_id msg) entries mk)\<rparr>, F_Continue)
           | _ \<Rightarrow> (s, F_Continue))
      | MT_CrdtBatch \<Rightarrow>
          (case (se_mesh s, sm_payload msg) of
             (Some mk, Some (PL_CrdtBatch batch)) \<Rightarrow>
               (case dispatch_crdt_batch ser de parse_id now batch mk of
                  (mk', ack) \<Rightarrow>
                    let s1 = s\<lparr>se_mesh := Some mk'\<rparr>
                    in if wm_is_empty ack then (s1, F_Continue)
                       else (case next_seq (se_seq s1) of
                               (sequence, q1) \<Rightarrow>
                                 (s1\<lparr>se_seq := q1,
                                     se_sink := fst (try_send (wrap_crdt_ack show_id ack sequence self_name) (se_sink s1))\<rparr>,
                                  F_Continue)))
           | _ \<Rightarrow> (s, F_Continue))
      | MT_CrdtAck \<Rightarrow>
          (case sm_payload msg of
             Some (PL_CrdtAck ack) \<Rightarrow>
               (s\<lparr>se_acked := merge_max (se_acked s) (crdt_ack_to_watermark parse_id ack)\<rparr>, F_Continue)
           | _ \<Rightarrow> (s, F_Continue))
      | _ \<Rightarrow> (s, F_Continue))"

section \<open>Wire round trips\<close>

definition uuid_text :: "show_id \<Rightarrow> parse_id \<Rightarrow> bool" where
  "uuid_text show_id parse_id \<longleftrightarrow> (\<forall>r. parse_id (show_id r) = Some r \<and> show_id r \<noteq> [])"

lemma proto_roundtrip: "uuid_text show_id parse_id \<Longrightarrow> proto_to_op parse_id (op_to_proto show_id op) = Some op"
  by (cases op) (simp_all add: uuid_text_def proto_to_op_def)

lemma protos_roundtrip:
  "uuid_text show_id parse_id \<Longrightarrow> List.map_filter (proto_to_op parse_id) (map (op_to_proto show_id) ops) = ops"
  by (induction ops) (simp_all add: proto_roundtrip map_filter_simps)

lemma ack_entries_roundtrip:
  "uuid_text show_id parse_id \<Longrightarrow> List.map_filter (ack_entry parse_id) (watermark_to_crdt_ack show_id w) = w"
  by (induction w)
    (auto simp: watermark_to_crdt_ack_def wm_iter_def ack_entry_def uuid_text_def map_filter_simps)

lemma ack_roundtrip:
  assumes "uuid_text show_id parse_id" "distinct (map fst w)"
  shows "wm_get (crdt_ack_to_watermark parse_id (watermark_to_crdt_ack show_id w)) = wm_get w"
  using assms(2)
  by (simp add: crdt_ack_to_watermark_def ack_entries_roundtrip [OF assms(1)] wm_from_iter_def
      wm_get_merge_max_owned pairs_max_distinct fun_eq_iff) (simp add: wm_get_def)

definition frame_fits :: "show_id \<Rightarrow> nat \<Rightarrow> operation list \<Rightarrow> bool" where
  "frame_fits show_id max_bytes ops \<longleftrightarrow> ops \<noteq> [] \<and>
     (sum_list (map (estimated_op_size \<circ> op_to_proto show_id) ops) \<le> max_bytes \<or> length ops = 1)"

lemma pack_ops_groups:
  assumes "cur = [] \<or> frame_fits show_id max_bytes cur"
    and "bytes = sum_list (map (estimated_op_size \<circ> op_to_proto show_id) cur)"
  shows "\<exists>groups. pack_ops show_id max_bytes ops out (map (op_to_proto show_id) cur) bytes =
            out @ map (map (op_to_proto show_id)) groups \<and>
           concat groups = cur @ ops \<and> list_all (frame_fits show_id max_bytes) groups"
  using assms
proof (induction ops arbitrary: out cur bytes)
  case Nil
  show ?case
    using Nil by (cases "cur = []") (auto intro: exI [of _ "[]"] exI [of _ "[cur]"])
next
  case (Cons op ops)
  let ?size = "estimated_op_size (op_to_proto show_id op)"
  show ?case
  proof (cases "cur \<noteq> [] \<and> max_bytes < bytes + ?size")
    case True
    have "frame_fits show_id max_bytes [op]" by (simp add: frame_fits_def)
    then obtain groups where
      "pack_ops show_id max_bytes ops (out @ [map (op_to_proto show_id) cur]) (map (op_to_proto show_id) [op]) ?size =
         (out @ [map (op_to_proto show_id) cur]) @ map (map (op_to_proto show_id)) groups"
      "concat groups = [op] @ ops" "list_all (frame_fits show_id max_bytes) groups"
      using Cons.IH [of "[op]" ?size "out @ [map (op_to_proto show_id) cur]"] by auto
    with True Cons.prems(1) show ?thesis
      by (intro exI [of _ "cur # groups"]) (simp add: Let_def)
  next
    case False
    have "frame_fits show_id max_bytes (cur @ [op])"
      using False Cons.prems(2) by (cases "cur = []") (simp_all add: frame_fits_def comp_def)
    then show ?thesis
      using Cons.IH [of "cur @ [op]" "bytes + ?size" out] Cons.prems(2) False
      by (simp add: Let_def) blast
  qed
qed

lemma build_crdt_batches_groups:
  obtains groups where "build_crdt_batches show_id ops max_bytes = map (map (op_to_proto show_id)) groups"
    "concat groups = ops" "list_all (frame_fits show_id max_bytes) groups"
  using pack_ops_groups [of "[]" show_id max_bytes 0 ops "[]"]
  by (auto simp: build_crdt_batches_def)

text \<open>C18.
  Operations survive the wire.  Whatever the byte limit, the frames built for a list of
  operations, decoded in order, give back exactly that list: nothing is lost, reordered or
  repeated at a frame boundary.  No frame is empty, and a frame over the limit holds a single
  operation.
\<close>

theorem crdt_frames_roundtrip:
  assumes "uuid_text show_id parse_id"
  shows "concat (map (List.map_filter (proto_to_op parse_id)) (build_crdt_batches show_id ops max_bytes)) = ops \<and>
         list_all (\<lambda>b. b \<noteq> [] \<and> (sum_list (map estimated_op_size b) \<le> max_bytes \<or> length b = 1))
           (build_crdt_batches show_id ops max_bytes)"
proof -
  obtain groups where g: "build_crdt_batches show_id ops max_bytes = map (map (op_to_proto show_id)) groups"
      "concat groups = ops" "list_all (frame_fits show_id max_bytes) groups"
    by (rule build_crdt_batches_groups)
  have "concat (map (List.map_filter (proto_to_op parse_id)) (map (map (op_to_proto show_id)) groups)) = concat groups"
    by (simp add: comp_def protos_roundtrip [OF assms])
  moreover have "list_all (\<lambda>b. b \<noteq> [] \<and> (sum_list (map estimated_op_size b) \<le> max_bytes \<or> length b = 1))
      (map (map (op_to_proto show_id)) groups)"
    using g(3) by (simp add: list_all_iff frame_fits_def comp_def)
  ultimately show ?thesis using g(1,2) by simp
qed

text \<open>A text form with the two laws: the bits of the id, least significant first.\<close>

definition bits_text :: show_id where
  "bits_text r = map (\<lambda>i. if bit r i then CHR ''1'' else CHR ''0'') [0..<128]"

definition text_bits :: parse_id where
  "text_bits t = Some (horner_sum of_bool 2 (map (\<lambda>c. c = CHR ''1'') t))"

lemma bits_text_uuid: "uuid_text bits_text text_bits"
proof -
  have "horner_sum of_bool 2 (map (\<lambda>c. c = CHR ''1'') (bits_text r)) = r" for r :: replica_id
  proof -
    have "map (\<lambda>c. c = CHR ''1'') (bits_text r) = map (bit r) [0..<128]"
      by (simp add: bits_text_def)
    then show ?thesis by (simp only: horner_sum_bit_eq_take_bit) (simp add: take_bit_word_eq_self)
  qed
  then show ?thesis by (simp add: uuid_text_def text_bits_def bits_text_def)
qed

theorem crdt_frames_roundtrip_witness:
  "concat (map (List.map_filter (proto_to_op text_bits))
      (build_crdt_batches bits_text [Insert ''k'' [1, 2] 5 2, Remove ''k'' 6 2] 10)) =
     [Insert ''k'' [1, 2] 5 2, Remove ''k'' 6 2] \<and>
   length (build_crdt_batches bits_text [Insert ''k'' [1, 2] 5 2, Remove ''k'' 6 2] 10) = 2"
  using crdt_frames_roundtrip [OF bits_text_uuid, of "[Insert ''k'' [1, 2] 5 2, Remove ''k'' 6 2]" 10]
  by (simp add: build_crdt_batches_def estimated_op_size_def)


section \<open>A delivered and acknowledged round\<close>

text \<open>Both ends handle the frames of a channel in order.\<close>

definition handle_frames ::
    "shard_ser \<Rightarrow> shard_de \<Rightarrow> show_id \<Rightarrow> parse_id \<Rightarrow> nat \<Rightarrow> instant \<Rightarrow> ('q \<Rightarrow> u64 \<times> 'q) \<Rightarrow> string \<Rightarrow>
     stream_message list \<Rightarrow> ('w, 'q) stream_end \<Rightarrow> ('w, 'q) stream_end" where
  "handle_frames ser de show_id parse_id slot now next_seq self_name msgs s =
     foldl (\<lambda>s msg. fst (handle_frame ser de show_id parse_id slot now next_seq self_name msg s)) s msgs"

lemma handle_frames_append:
  "handle_frames ser de sh pa slot now nx me (xs @ ys) s =
     handle_frames ser de sh pa slot now nx me ys (handle_frames ser de sh pa slot now nx me xs s)"
  by (simp add: handle_frames_def)

lemma send_frames_room:
  assumes "ch_open sink" "length (ch_queue sink) + length frames \<le> ch_capacity sink"
  shows "\<exists>q' msgs. send_frames nx frames q sink = ((q', sink\<lparr>ch_queue := ch_queue sink @ msgs\<rparr>), False) \<and>
           list_all2 (\<lambda>f m. \<exists>n. m = f n) frames msgs"
  using assms
proof (induction frames arbitrary: q sink)
  case Nil
  then show ?case by (simp add: exI [of _ "[]"])
next
  case (Cons f frames)
  obtain n q1 where nx: "nx q = (n, q1)" by force
  let ?sink = "sink\<lparr>ch_queue := ch_queue sink @ [f n]\<rparr>"
  have send: "try_send (f n) sink = (?sink, Inr ())"
    using Cons.prems by (simp add: try_send_def)
  obtain q' msgs where "send_frames nx frames q1 ?sink = ((q', ?sink\<lparr>ch_queue := ch_queue ?sink @ msgs\<rparr>), False)"
      "list_all2 (\<lambda>f m. \<exists>n. m = f n) frames msgs"
    using Cons.IH [of ?sink q1] Cons.prems by auto
  then show ?case
    by (intro exI [of _ q'] exI [of _ "f n # msgs"]) (auto simp: nx send)
qed

lemma not_allows_iff: "\<not> allows w op \<longleftrightarrow> (\<exists>v. wm_get w (op_key op) = Some v \<and> op_version op \<le> v)"
  by (simp add: allows_def op_version_def not_less del: less_eq_prod_def split: option.split)

lemma not_allows_merge:
  assumes "distinct (map fst b)" "\<not> allows a op \<or> \<not> allows b op"
  shows "\<not> allows (merge_max a b) op"
proof -
  have "wm_get (merge_max a b) (op_key op) = ack_join (wm_get a (op_key op)) (wm_get b (op_key op))"
    using assms(1) by (simp add: wm_get_merge_max wm_join_def)
  moreover have "\<exists>v. ack_join x y = Some v \<and> u \<le> v"
    if "(\<exists>v. x = Some v \<and> u \<le> v) \<or> (\<exists>v. y = Some v \<and> u \<le> v)" for x y :: "version option" and u
    using that by (cases x; cases y) (auto simp: le_max_iff_disj simp del: less_eq_prod_def)
  ultimately show ?thesis using assms(2) unfolding not_allows_iff by metis
qed

lemma not_allows_from_ops:
  assumes "op \<in> set ops"
  shows "\<not> allows (from_ops ops) op"
proof -
  obtain v where "wm_get (from_ops ops) (op_key op) = Some v"
    using from_ops_None [of ops "op_key op"] assms by (cases "wm_get (from_ops ops) (op_key op)") auto
  then show ?thesis using from_ops_ge [OF _ assms refl] unfolding not_allows_iff by blast
qed

lemma not_allows_ack:
  assumes "uuid_text show_id parse_id" "op \<in> set ops \<or> \<not> allows w op"
  shows "\<not> allows (merge_max w (crdt_ack_to_watermark parse_id (watermark_to_crdt_ack show_id (from_ops ops)))) op"
proof -
  have "wm_get (crdt_ack_to_watermark parse_id (watermark_to_crdt_ack show_id (from_ops ops))) = wm_get (from_ops ops)"
    using ack_roundtrip [OF assms(1) distinct_from_ops] .
  then have "allows (crdt_ack_to_watermark parse_id (watermark_to_crdt_ack show_id (from_ops ops))) op =
      allows (from_ops ops) op"
    by (simp add: allows_def)
  then show ?thesis
    using assms(2) not_allows_from_ops [of op ops]
    by (intro not_allows_merge) (auto simp: crdt_ack_to_watermark_def distinct_from_iter)
qed


lemma handle_crdt_batch:
  assumes "uuid_text show_id parse_id" "se_mesh r = Some mk" "ops \<noteq> []"
    and "ch_open (se_sink r)" "length (ch_queue (se_sink r)) < ch_capacity (se_sink r)"
    and "msg = wrap_crdt_batch (map (op_to_proto show_id) ops) n peer"
  shows "\<exists>q k. fst (handle_frame ser de show_id parse_id slot now nx me msg r) =
           r\<lparr>se_mesh := Some (merge_crdt_ops ser de now ops mk), se_seq := q,
             se_sink := (se_sink r)\<lparr>ch_queue := ch_queue (se_sink r) @ [wrap_crdt_ack show_id (from_ops ops) k me]\<rparr>\<rparr>"
proof -
  obtain k q where nx: "nx (se_seq r) = (k, q)" by force
  have "from_ops ops \<noteq> []"
    using from_ops_None [of ops "op_key (hd ops)"] assms(3) by (auto simp: wm_get_def)
  then show ?thesis
    using assms(2-)
    by (intro exI [of _ q] exI [of _ k])
      (simp add: handle_frame_def wrap_crdt_batch_def dispatch_crdt_batch_def protos_roundtrip [OF assms(1)]
        wm_is_empty_def nx try_send_def)
qed

lemma handle_crdt_batches:
  assumes "uuid_text show_id parse_id" "se_mesh r = Some mk" "list_all (\<lambda>g. g \<noteq> []) groups"
    and "ch_open (se_sink r)" "length (ch_queue (se_sink r)) + length groups \<le> ch_capacity (se_sink r)"
    and "list_all2 (\<lambda>g m. \<exists>n. m = wrap_crdt_batch (map (op_to_proto show_id) g) n peer) groups msgs"
  shows "\<exists>acks. ch_queue (se_sink (handle_frames ser de show_id parse_id slot now nx me msgs r)) =
             ch_queue (se_sink r) @ acks \<and>
           list_all2 (\<lambda>g m. \<exists>n. m = wrap_crdt_ack show_id (from_ops g) n me) groups acks"
  using assms
proof (induction groups arbitrary: msgs r mk)
  case Nil
  then show ?case by (simp add: handle_frames_def)
next
  case (Cons g groups)
  obtain m ms n where msgs: "msgs = m # ms" and m: "m = wrap_crdt_batch (map (op_to_proto show_id) g) n peer"
    and ms: "list_all2 (\<lambda>g m. \<exists>n. m = wrap_crdt_batch (map (op_to_proto show_id) g) n peer) groups ms"
    using Cons.prems(6) by (auto simp: list_all2_Cons1)
  have room: "length (ch_queue (se_sink r)) < ch_capacity (se_sink r)" and g: "g \<noteq> []"
    and gs: "list_all (\<lambda>g. g \<noteq> []) groups"
    using Cons.prems(3,5) by simp_all
  obtain q k where r1: "fst (handle_frame ser de show_id parse_id slot now nx me m r) =
      r\<lparr>se_mesh := Some (merge_crdt_ops ser de now g mk), se_seq := q,
        se_sink := (se_sink r)\<lparr>ch_queue := ch_queue (se_sink r) @ [wrap_crdt_ack show_id (from_ops g) k me]\<rparr>\<rparr>"
    (is "_ = ?r1")
    using handle_crdt_batch [OF Cons.prems(1,2) g Cons.prems(4) room m] by blast
  have "\<exists>acks. ch_queue (se_sink (handle_frames ser de show_id parse_id slot now nx me ms ?r1)) =
             ch_queue (se_sink ?r1) @ acks \<and>
           list_all2 (\<lambda>g m. \<exists>n. m = wrap_crdt_ack show_id (from_ops g) n me) groups acks"
    using Cons.prems(4,5) by (intro Cons.IH [OF Cons.prems(1) _ gs _ _ ms]) simp_all
  then obtain acks where "ch_queue (se_sink (handle_frames ser de show_id parse_id slot now nx me ms ?r1)) =
             ch_queue (se_sink ?r1) @ acks"
      "list_all2 (\<lambda>g m. \<exists>n. m = wrap_crdt_ack show_id (from_ops g) n me) groups acks"
    by blast
  then show ?case
    by (intro exI [of _ "wrap_crdt_ack show_id (from_ops g) k me # acks"])
      (auto simp: msgs handle_frames_def r1)
qed

lemma handle_stream_batches:
  assumes "se_mesh r = Some mk" "list_all2 (\<lambda>b m. \<exists>n. m = wrap_stream_batch b n peer) batches msgs"
  shows "\<exists>mk'. handle_frames ser de show_id parse_id slot now nx me msgs r = r\<lparr>se_mesh := Some mk'\<rparr>"
  using assms
proof (induction batches arbitrary: msgs r mk)
  case Nil
  then show ?case by (intro exI [of _ mk]) (simp add: handle_frames_def)
next
  case (Cons b batches)
  then obtain m ms n where msgs: "msgs = m # ms" and m: "m = wrap_stream_batch b n peer"
    and ms: "list_all2 (\<lambda>b m. \<exists>n. m = wrap_stream_batch b n peer) batches ms"
    by (auto simp: list_all2_Cons1)
  let ?r1 = "r\<lparr>se_mesh := Some (dispatch_stream_batch slot now peer b mk)\<rparr>"
  have "fst (handle_frame ser de show_id parse_id slot now nx me m r) = ?r1"
    using Cons.prems(1) by (simp add: handle_frame_def m wrap_stream_batch_def)
  moreover obtain mk' where "handle_frames ser de show_id parse_id slot now nx me ms ?r1 = ?r1\<lparr>se_mesh := Some mk'\<rparr>"
    using Cons.IH [OF _ ms, of ?r1] by auto
  ultimately show ?case
    by (intro exI [of _ mk']) (simp add: msgs handle_frames_def)
qed

lemma handle_crdt_acks:
  assumes "uuid_text show_id parse_id"
    and "list_all2 (\<lambda>g m. \<exists>n. m = wrap_crdt_ack show_id (from_ops g) n peer) groups acks"
    and "op \<in> set (concat groups) \<or> \<not> allows (se_acked e) op"
  shows "\<not> allows (se_acked (handle_frames ser de show_id parse_id slot now nx me acks e)) op"
  using assms(2,3)
proof (induction groups arbitrary: acks e)
  case Nil
  then show ?case by (simp add: handle_frames_def)
next
  case (Cons g groups)
  then obtain m ms n where acks: "acks = m # ms" and m: "m = wrap_crdt_ack show_id (from_ops g) n peer"
    and ms: "list_all2 (\<lambda>g m. \<exists>n. m = wrap_crdt_ack show_id (from_ops g) n peer) groups ms"
    by (auto simp: list_all2_Cons1)
  let ?e1 = "e\<lparr>se_acked := merge_max (se_acked e)
    (crdt_ack_to_watermark parse_id (watermark_to_crdt_ack show_id (from_ops g)))\<rparr>"
  have e1: "fst (handle_frame ser de show_id parse_id slot now nx me m e) = ?e1"
    by (simp add: handle_frame_def m wrap_crdt_ack_def)
  have "op \<in> set (concat groups) \<or> \<not> allows (se_acked ?e1) op"
    using Cons.prems(2) not_allows_ack [OF assms(1), of op g "se_acked e"] by auto
  from Cons.IH [OF ms this] show ?case
    by (simp add: acks handle_frames_def e1)
qed


definition fresh_batches :: "round_arc \<Rightarrow> string \<Rightarrow> 'q sender \<Rightarrow> stream_batch list" where
  "fresh_batches arc peer s =
     (case fst (plan_sender_tick (sd_last_stream_batch s) arc (Some peer) (sd_counter s)) of
        Emit bs \<Rightarrow> bs | _ \<Rightarrow> [])"

lemma plan_after_emit:
  assumes "plan_sender_tick last_batch arc (Some peer) c = (tick, c')"
    and "last' = (case tick of Emit _ \<Rightarrow> Some arc | _ \<Rightarrow> last_batch)"
  shows "(\<forall>bs. fst (plan_sender_tick last' arc (Some peer) d) \<noteq> Emit bs) \<and>
         snd (plan_sender_tick last' arc (Some peer) d) = d"
  using assms by (auto simp: plan_sender_tick_def split: if_splits prod.splits option.splits)

lemma send_round_room:
  assumes "ch_open (sd_sink s)"
    and "length (ch_queue (sd_sink s)) + length (fresh_batches arc peer s) +
         length (build_crdt_batches show_id (filter (allows acked) (rb_crdt_ops (snd arc))) MAX_STREAM_CHUNK_BYTES)
         \<le> ch_capacity (sd_sink s)"
  shows "\<exists>last' c q smsgs cmsgs. send_round show_id nx arc (Some peer) acked me s =
       (s\<lparr>sd_last_stream_batch := last', sd_counter := c, sd_seq := q,
          sd_sink := (sd_sink s)\<lparr>ch_queue := ch_queue (sd_sink s) @ smsgs @ cmsgs\<rparr>\<rparr>, RO_Sent) \<and>
     list_all2 (\<lambda>b m. \<exists>n. m = wrap_stream_batch b n me) (fresh_batches arc peer s) smsgs \<and>
     list_all2 (\<lambda>b m. \<exists>n. m = wrap_crdt_batch b n me)
       (build_crdt_batches show_id (filter (allows acked) (rb_crdt_ops (snd arc))) MAX_STREAM_CHUNK_BYTES) cmsgs \<and>
     (\<forall>d. (\<forall>bs. fst (plan_sender_tick last' arc (Some peer) d) \<noteq> Emit bs) \<and>
          snd (plan_sender_tick last' arc (Some peer) d) = d)"
proof -
  let ?crdt = "build_crdt_batches show_id (filter (allows acked) (rb_crdt_ops (snd arc))) MAX_STREAM_CHUNK_BYTES"
  obtain tick c where tick: "plan_sender_tick (sd_last_stream_batch s) arc (Some peer) (sd_counter s) = (tick, c)"
    by force
  let ?last = "case tick of Emit _ \<Rightarrow> Some arc | _ \<Rightarrow> sd_last_stream_batch s"
  have split: "(case tick of Emit bs \<Rightarrow> (Some arc, bs) | _ \<Rightarrow> (sd_last_stream_batch s, [])) =
      (?last, fresh_batches arc peer s)"
    by (simp add: fresh_batches_def tick split: sender_tick.split)
  obtain q1 smsgs where s1: "send_frames nx (map (\<lambda>b n. wrap_stream_batch b n me) (fresh_batches arc peer s))
        (sd_seq s) (sd_sink s) = ((q1, (sd_sink s)\<lparr>ch_queue := ch_queue (sd_sink s) @ smsgs\<rparr>), False)"
      and l1: "list_all2 (\<lambda>f m. \<exists>n. m = f n) (map (\<lambda>b n. wrap_stream_batch b n me) (fresh_batches arc peer s)) smsgs"
    using send_frames_room [of "sd_sink s" "map (\<lambda>b n. wrap_stream_batch b n me) (fresh_batches arc peer s)" nx "sd_seq s"]
      assms by auto
  have len: "length smsgs = length (fresh_batches arc peer s)"
    using list_all2_lengthD [OF l1] by simp
  let ?sink = "(sd_sink s)\<lparr>ch_queue := ch_queue (sd_sink s) @ smsgs\<rparr>"
  obtain q2 cmsgs where s2: "send_frames nx (map (\<lambda>b n. wrap_crdt_batch b n me) ?crdt) q1 ?sink =
        ((q2, ?sink\<lparr>ch_queue := ch_queue ?sink @ cmsgs\<rparr>), False)"
      and l2: "list_all2 (\<lambda>f m. \<exists>n. m = f n) (map (\<lambda>b n. wrap_crdt_batch b n me) ?crdt) cmsgs"
    using send_frames_room [of ?sink "map (\<lambda>b n. wrap_crdt_batch b n me) ?crdt" nx q1] assms len by auto
  have eq: "send_round show_id nx arc (Some peer) acked me s =
       (s\<lparr>sd_last_stream_batch := ?last, sd_counter := c, sd_seq := q2,
          sd_sink := (sd_sink s)\<lparr>ch_queue := ch_queue (sd_sink s) @ smsgs @ cmsgs\<rparr>\<rparr>, RO_Sent)"
    by (simp add: send_round_def tick split s1 s2)
  show ?thesis
    by (rule exI [of _ ?last], rule exI [of _ c], rule exI [of _ q2], rule exI [of _ smsgs], rule exI [of _ cmsgs])
      (use eq l1 l2 plan_after_emit [OF tick refl] in \<open>simp add: list_all2_map1\<close>)
qed

lemma send_round_idle:
  assumes "\<forall>d. (\<forall>bs. fst (plan_sender_tick (sd_last_stream_batch s) arc (Some peer) d) \<noteq> Emit bs) \<and>
               snd (plan_sender_tick (sd_last_stream_batch s) arc (Some peer) d) = d"
    and "filter (allows acked) (rb_crdt_ops (snd arc)) = []"
  shows "send_round show_id nx arc (Some peer) acked me s = (s, RO_Sent)"
proof -
  obtain tick c where tick: "plan_sender_tick (sd_last_stream_batch s) arc (Some peer) (sd_counter s) = (tick, c)"
    by force
  with assms(1) have "c = sd_counter s" "\<forall>bs. tick \<noteq> Emit bs"
    by (metis snd_conv, metis fst_conv)
  then show ?thesis
    using assms(2) by (cases tick) (simp_all add: send_round_def tick build_crdt_batches_def)
qed

text \<open>C19.
  A delivered round silences the sender.  When the frames of a round find room in the sender's
  channel, the peer handles them and has room for its acknowledgements, and the sender handles
  those, then every operation of the round is covered by the sender's watermark, and the next
  tick over the same round queues nothing at all and changes nothing.
\<close>

theorem round_quiesces:
  assumes "uuid_text show_id parse_id"
    and "ch_open (sd_sink s)" and "ch_queue (sd_sink s) = []"
    and "length (fresh_batches (i, rb) peer s) +
         length (build_crdt_batches show_id (filter (allows (se_acked e)) (rb_crdt_ops rb)) MAX_STREAM_CHUNK_BYTES)
         \<le> ch_capacity (sd_sink s)"
    and "se_mesh r = Some mk" and "ch_open (se_sink r)" and "ch_queue (se_sink r) = []"
    and "length (build_crdt_batches show_id (filter (allows (se_acked e)) (rb_crdt_ops rb)) MAX_STREAM_CHUNK_BYTES)
         \<le> ch_capacity (se_sink r)"
    and "s1 = fst (send_round show_id nx (i, rb) (Some peer) (se_acked e) me s)"
    and "r1 = handle_frames ser de show_id parse_id slot now nx' peer (ch_queue (sd_sink s1)) r"
    and "e1 = handle_frames ser de show_id parse_id slot now nx me (ch_queue (se_sink r1)) e"
    and "s2 = s1\<lparr>sd_sink := (sd_sink s1)\<lparr>ch_queue := []\<rparr>\<rparr>"
  shows "filter (allows (se_acked e1)) (rb_crdt_ops rb) = [] \<and>
         send_round show_id nx (i, rb) (Some peer) (se_acked e1) me s2 = (s2, RO_Sent)"
proof -
  let ?new = "filter (allows (se_acked e)) (rb_crdt_ops rb)"
  obtain groups where g: "build_crdt_batches show_id ?new MAX_STREAM_CHUNK_BYTES = map (map (op_to_proto show_id)) groups"
      "concat groups = ?new" "list_all (frame_fits show_id MAX_STREAM_CHUNK_BYTES) groups"
    by (rule build_crdt_batches_groups)
  obtain last' c q smsgs cmsgs where sent: "send_round show_id nx (i, rb) (Some peer) (se_acked e) me s =
       (s\<lparr>sd_last_stream_batch := last', sd_counter := c, sd_seq := q,
          sd_sink := (sd_sink s)\<lparr>ch_queue := ch_queue (sd_sink s) @ smsgs @ cmsgs\<rparr>\<rparr>, RO_Sent)"
     and sm: "list_all2 (\<lambda>b m. \<exists>n. m = wrap_stream_batch b n me) (fresh_batches (i, rb) peer s) smsgs"
     and cm: "list_all2 (\<lambda>b m. \<exists>n. m = wrap_crdt_batch b n me) (map (map (op_to_proto show_id)) groups) cmsgs"
     and idle: "\<forall>d. (\<forall>bs. fst (plan_sender_tick last' (i, rb) (Some peer) d) \<noteq> Emit bs) \<and>
          snd (plan_sender_tick last' (i, rb) (Some peer) d) = d"
    using send_round_room [of s "(i, rb)" peer show_id "se_acked e" nx me] assms(2-4) g(1) by auto
  obtain mk' where r0: "handle_frames ser de show_id parse_id slot now nx' peer smsgs r = r\<lparr>se_mesh := Some mk'\<rparr>"
    using handle_stream_batches [OF assms(5) sm] by blast
  have r1: "r1 = handle_frames ser de show_id parse_id slot now nx' peer cmsgs (r\<lparr>se_mesh := Some mk'\<rparr>)"
    using assms(3) by (simp add: assms(9,10) sent handle_frames_append r0)
  have "\<exists>acks. ch_queue (se_sink r1) = ch_queue (se_sink (r\<lparr>se_mesh := Some mk'\<rparr>)) @ acks \<and>
           list_all2 (\<lambda>g m. \<exists>n. m = wrap_crdt_ack show_id (from_ops g) n peer) groups acks"
    unfolding r1 using assms(6-8) g(1,3) cm
    by (intro handle_crdt_batches [OF assms(1)])
      (auto simp: list_all2_map1 frame_fits_def list_all_iff)
  then obtain acks where acks: "ch_queue (se_sink r1) = acks"
      and al: "list_all2 (\<lambda>g m. \<exists>n. m = wrap_crdt_ack show_id (from_ops g) n peer) groups acks"
    using assms(7) by auto
  have "\<not> allows (se_acked e1) op" if "op \<in> set (rb_crdt_ops rb)" for op
    unfolding assms(11) acks
    by (rule handle_crdt_acks [OF assms(1) al]) (use that g(2) in simp)
  then have none: "filter (allows (se_acked e1)) (rb_crdt_ops rb) = []"
    by (simp add: filter_empty_conv)
  have "sd_last_stream_batch s2 = last'"
    by (simp add: assms(9,12) sent)
  with none idle show ?thesis by (simp add: send_round_idle)
qed


definition demo_seq :: "nat \<Rightarrow> u64 \<times> nat" where
  "demo_seq q = (of_nat q, Suc q)"

definition demo_sender :: "nat sender" where
  "demo_sender = \<lparr>sd_last_stream_batch = None, sd_counter = 1, sd_seq = 0, sd_sink = channel_new 4\<rparr>"

definition demo_round :: round_batch where
  "demo_round = \<lparr>rb_targeted_entries = [], rb_drain_entries = [], rb_crdt_ops = [Insert ''config:a'' [1] 5 2]\<rparr>"

definition demo_end :: "unit mesh_kv option \<Rightarrow> (unit, nat) stream_end" where
  "demo_end mk = \<lparr>se_mesh = mk, se_acked = wm_new, se_seq = 0, se_sink = channel_new 4\<rparr>"

definition demo_sent :: "nat sender" where
  "demo_sent = fst (send_round bits_text demo_seq (0, demo_round) (Some ''b'') (se_acked (demo_end None)) ''a'' demo_sender)"

definition demo_received :: "(unit, nat) stream_end" where
  "demo_received = handle_frames fixed_ser fixed_de bits_text text_bits 24 0 demo_seq ''b''
     (ch_queue (sd_sink demo_sent)) (demo_end (Some demo_mesh))"

definition demo_acked :: "(unit, nat) stream_end" where
  "demo_acked = handle_frames fixed_ser fixed_de bits_text text_bits 24 0 demo_seq ''a''
     (ch_queue (se_sink demo_received)) (demo_end None)"

lemma demo_batches:
  "build_crdt_batches bits_text (filter (allows (se_acked (demo_end None))) (rb_crdt_ops demo_round)) MAX_STREAM_CHUNK_BYTES =
     [[op_to_proto bits_text (Insert ''config:a'' [1] 5 2)]]"
  by (simp add: demo_round_def demo_end_def allows_def wm_get_def wm_new_def build_crdt_batches_def)

theorem round_quiesces_witness:
  "length (ch_queue (sd_sink demo_sent)) = 1 \<and>
   filter (allows (se_acked demo_acked)) (rb_crdt_ops demo_round) = [] \<and>
   send_round bits_text demo_seq (0, demo_round) (Some ''b'') (se_acked demo_acked) ''a''
       (demo_sent\<lparr>sd_sink := (sd_sink demo_sent)\<lparr>ch_queue := []\<rparr>\<rparr>) =
     (demo_sent\<lparr>sd_sink := (sd_sink demo_sent)\<lparr>ch_queue := []\<rparr>\<rparr>, RO_Sent)"
proof -
  have fresh: "fresh_batches (0, demo_round) ''b'' demo_sender = []"
    by (simp add: fresh_batches_def plan_sender_tick_def demo_sender_def demo_round_def build_peer_stream_batches_def)
  have "length (ch_queue (sd_sink demo_sent)) = 1"
    using demo_batches
    by (simp add: demo_sent_def send_round_def plan_sender_tick_def demo_sender_def build_peer_stream_batches_def
        channel_new_def)
      (simp add: demo_round_def demo_seq_def try_send_def)
  moreover have "filter (allows (se_acked demo_acked)) (rb_crdt_ops demo_round) = [] \<and>
   send_round bits_text demo_seq (0, demo_round) (Some ''b'') (se_acked demo_acked) ''a''
       (demo_sent\<lparr>sd_sink := (sd_sink demo_sent)\<lparr>ch_queue := []\<rparr>\<rparr>) =
     (demo_sent\<lparr>sd_sink := (sd_sink demo_sent)\<lparr>ch_queue := []\<rparr>\<rparr>, RO_Sent)"
    by (rule round_quiesces [OF bits_text_uuid, where s = demo_sender and r = "demo_end (Some demo_mesh)",
          OF _ _ _ _ _ _ _ demo_sent_def demo_received_def demo_acked_def refl])
      (simp_all add: fresh demo_batches, simp_all add: demo_sender_def demo_end_def channel_new_def)
  ultimately show ?thesis by blast
qed

text \<open>
  A full subscriber loses the update for good.  A subscriber whose channel is full when a batch
  arrives receives none of its events, yet the batch is merged and acknowledged whole: the
  sender's watermark then covers every operation of the batch, so no later round sends them to
  this node again.
\<close>

theorem full_subscriber_misses_update:
  assumes "uuid_text show_id parse_id" and "ops \<noteq> []"
    and "(p, txs) \<in> set (mk_subscribers mk)" and "ch \<in> set txs" and "ch_capacity ch \<le> length (ch_queue ch)"
    and "dispatch_crdt_batch ser de parse_id now (map (op_to_proto show_id) ops) mk = (mk', ack)"
  shows "mk_store mk' = fst (cm_merge ser de now ops (mk_store mk)) \<and>
         (\<exists>txs'. (p, txs') \<in> set (mk_subscribers mk') \<and> ch \<in> set txs') \<and>
         (\<forall>op \<in> set ops. \<not> allows (merge_max acked
            (crdt_ack_to_watermark parse_id (watermark_to_crdt_ack show_id ack))) op)"
proof -
  obtain store report where mg: "cm_merge ser de now ops (mk_store mk) = (store, report)" by force
  have mk': "mk' = merge_crdt_ops ser de now ops mk" and ack: "ack = from_ops ops"
    using assms(2,6) by (simp_all add: dispatch_crdt_batch_def protos_roundtrip [OF assms(1)])
  let ?evs = "map change_event (filter (starts_with p \<circ> change_key) report)"
  have "fst (try_send m ch) = ch" for m
    using assms(5) by (simp add: try_send_def)
  then have "send_all evs ch = ch" for evs
    by (induction evs) (simp_all add: send_all_def)
  then have "ch \<in> set (map (send_all ?evs) txs)"
    using assms(4) by (metis image_eqI set_map)
  moreover have "(p, map (send_all ?evs) txs) \<in> set (mk_subscribers mk')"
    unfolding mk' using assms(3) by (force simp: merge_crdt_ops_def mg notify_changes_map)
  moreover have "mk_store mk' = store"
    by (simp add: mk' merge_crdt_ops_def mg)
  ultimately show ?thesis
    using not_allows_ack [OF assms(1)] by (auto simp: mg ack)
qed

theorem full_subscriber_misses_update_witness:
  "let full = \<lparr>ch_capacity = 0, ch_queue = [], ch_open = True\<rparr>;
       mk = demo_mesh\<lparr>mk_subscribers := [(''config:'', [full])]\<rparr>;
       res = dispatch_crdt_batch fixed_ser fixed_de text_bits 0
               (map (op_to_proto bits_text) [Insert ''config:a'' [1] 5 2]) mk
   in (\<exists>txs'. (''config:'', txs') \<in> set (mk_subscribers (fst res)) \<and> full \<in> set txs') \<and>
      (\<forall>op \<in> set [Insert ''config:a'' [1] 5 2]. \<not> allows (merge_max wm_new
         (crdt_ack_to_watermark text_bits (watermark_to_crdt_ack bits_text (snd res)))) op)"
  using full_subscriber_misses_update [OF bits_text_uuid _ _ _ _ surjective_pairing,
      where ops = "[Insert ''config:a'' [1] 5 2]" and p = "''config:''"
        and txs = "[\<lparr>ch_capacity = 0, ch_queue = [], ch_open = True\<rparr>]"
        and ch = "\<lparr>ch_capacity = 0, ch_queue = [], ch_open = True\<rparr>"
        and mk = "demo_mesh\<lparr>mk_subscribers := [(''config:'', [\<lparr>ch_capacity = 0, ch_queue = [], ch_open = True\<rparr>])]\<rparr>"
        and ser = fixed_ser and de = fixed_de and now = 0 and acked = wm_new]
  unfolding Let_def by simp

end
