(* ===== verification/Sched_Slots.thy ===== *)
theory Sched_Slots
  imports Rust_Text
begin

text \<open>
  Models of \<open>middleware/scheduler/class.rs\<close> and \<open>middleware/scheduler/slots.rs\<close>: the four
  service classes and the pool of admission slots whose per-class counts are packed into one
  64-bit word.

  A four-element array indexed by class is the type \<open>lanes\<close>.  The methods of the pool are
  modelled twice: as functions on the pool, for callers that see a method as one step, and as
  the steps of a machine in which any number of callers interleave their atomic reads and
  compare-and-swaps, capacity and reservations change under them and a weak exchange may fail
  for no reason.  Header and option names are byte strings; only ASCII white space is trimmed.
\<close>

section \<open>Service classes\<close>

datatype prio_class = Bulk | Default | Interactive | System

fun class_index :: "prio_class \<Rightarrow> nat" where
  "class_index Bulk = 0"
| "class_index Default = 1"
| "class_index Interactive = 2"
| "class_index System = 3"

lemma class_index_inj [simp]: "class_index a = class_index b \<longleftrightarrow> a = b"
  by (cases a; cases b) simp_all

instantiation prio_class :: linorder
begin

definition less_eq_prio_class :: "prio_class \<Rightarrow> prio_class \<Rightarrow> bool" where
  "a \<le> b \<longleftrightarrow> class_index a \<le> class_index b"

definition less_prio_class :: "prio_class \<Rightarrow> prio_class \<Rightarrow> bool" where
  "a < b \<longleftrightarrow> class_index a < class_index b"

instance
  by standard (auto simp: less_eq_prio_class_def less_prio_class_def)

end

definition ALL_classes :: "prio_class list" where
  "ALL_classes = [Bulk, Default, Interactive, System]"

fun as_str :: "prio_class \<Rightarrow> string" where
  "as_str Bulk = ''bulk''"
| "as_str Default = ''default''"
| "as_str Interactive = ''interactive''"
| "as_str System = ''system''"

definition class_lookup :: "string \<Rightarrow> prio_class option" where
  "class_lookup v =
     (let trimmed = trim v in find (\<lambda>class. eq_ignore_ascii_case trimmed (as_str class)) ALL_classes)"

definition parse_header :: "string \<Rightarrow> prio_class" where
  "parse_header v = (case class_lookup v of Some class \<Rightarrow> class | None \<Rightarrow> Default)"

datatype unknown_class_name = UnknownClassName string

definition parse_name :: "string \<Rightarrow> unknown_class_name + prio_class" where
  "parse_name v = (case class_lookup v of Some class \<Rightarrow> Inr class | None \<Rightarrow> Inl (UnknownClassName (trim v)))"

section \<open>Lanes\<close>

datatype 'a lanes = Lanes 'a 'a 'a 'a

fun lane :: "'a lanes \<Rightarrow> prio_class \<Rightarrow> 'a" where
  "lane (Lanes b d i s) Bulk = b"
| "lane (Lanes b d i s) Default = d"
| "lane (Lanes b d i s) Interactive = i"
| "lane (Lanes b d i s) System = s"

fun set_lane :: "prio_class \<Rightarrow> 'a \<Rightarrow> 'a lanes \<Rightarrow> 'a lanes" where
  "set_lane Bulk x (Lanes b d i s) = Lanes x d i s"
| "set_lane Default x (Lanes b d i s) = Lanes b x i s"
| "set_lane Interactive x (Lanes b d i s) = Lanes b d x s"
| "set_lane System x (Lanes b d i s) = Lanes b d i x"

definition lanes_of :: "(prio_class \<Rightarrow> 'a) \<Rightarrow> 'a lanes" where
  "lanes_of f = Lanes (f Bulk) (f Default) (f Interactive) (f System)"

fun lane_list :: "'a lanes \<Rightarrow> 'a list" where
  "lane_list (Lanes b d i s) = [b, d, i, s]"

lemma lane_set_lane [simp]: "lane (set_lane c x l) d = (if c = d then x else lane l d)"
  by (cases l; cases c; cases d) simp_all

lemma lane_lanes_of [simp]: "lane (lanes_of f) c = f c"
  by (cases c) (simp_all add: lanes_of_def)

lemma lanes_eqI: "(\<And>c. lane l c = lane m c) \<Longrightarrow> l = m"
  by (cases l; cases m) (metis lane.simps)

lemma lane_list_map: "lane_list l = map (lane l) ALL_classes"
  by (cases l) (simp add: ALL_classes_def)

definition lanes_total :: "u16 lanes \<Rightarrow> nat" where
  "lanes_total l = sum_list (map unat (lane_list l))"

section \<open>Packed counts\<close>

unbundle bit_operations_syntax

definition unpack :: "u64 \<Rightarrow> u16 lanes" where
  "unpack packed =
     Lanes (ucast (packed AND 0xFFFF)) (ucast (drop_bit 16 packed AND 0xFFFF))
       (ucast (drop_bit 32 packed AND 0xFFFF)) (ucast (drop_bit 48 packed AND 0xFFFF))"

fun pack :: "u16 lanes \<Rightarrow> u64" where
  "pack (Lanes b d i s) =
     ucast b OR push_bit 16 (ucast d) OR push_bit 32 (ucast i) OR push_bit 48 (ucast s)"

definition slots_available_to :: "u16 lanes \<Rightarrow> u16 lanes \<Rightarrow> u16 \<Rightarrow> prio_class \<Rightarrow> u16" where
  "slots_available_to counts reserved capacity class =
     (let used_total = foldl saturating_add 0 (lane_list counts);
          unavailable_to_us = foldl saturating_add 0
            (map (\<lambda>c. saturating_sub (lane reserved c) (lane counts c)) (filter (\<lambda>c. class < c) ALL_classes))
      in saturating_sub (saturating_sub capacity used_total) unavailable_to_us)"

section \<open>The slot pool\<close>

record slot_pool =
  sp_capacity :: u16
  sp_inflight_packed :: u64
  sp_reserved :: "u16 lanes"

definition slot_pool_new :: "u16 \<Rightarrow> u16 lanes \<Rightarrow> slot_pool" where
  "slot_pool_new capacity reserved = \<lparr>sp_capacity = capacity, sp_inflight_packed = 0, sp_reserved = reserved\<rparr>"

definition inflight :: "prio_class \<Rightarrow> slot_pool \<Rightarrow> u16" where
  "inflight class pool = lane (unpack (sp_inflight_packed pool)) class"

definition set_capacity :: "u16 \<Rightarrow> slot_pool \<Rightarrow> slot_pool \<times> u16" where
  "set_capacity new_capacity pool = (pool\<lparr>sp_capacity := new_capacity\<rparr>, sp_capacity pool)"

definition pool_reserved :: "prio_class \<Rightarrow> slot_pool \<Rightarrow> u16" where
  "pool_reserved class pool = lane (sp_reserved pool) class"

definition set_reserved :: "prio_class \<Rightarrow> u16 \<Rightarrow> slot_pool \<Rightarrow> slot_pool" where
  "set_reserved class new_reserved pool = pool\<lparr>sp_reserved := set_lane class new_reserved (sp_reserved pool)\<rparr>"

definition snapshot_reserved :: "slot_pool \<Rightarrow> u16 lanes" where
  "snapshot_reserved pool = lanes_of (lane (sp_reserved pool))"

text \<open>One pass of the two acquire loops and of the release loop, from the word that was read.\<close>

definition acquire_pass :: "prio_class \<Rightarrow> u64 \<Rightarrow> u16 \<Rightarrow> u16 lanes \<Rightarrow> u64 option" where
  "acquire_pass class cur capacity reserved =
     (let counts = unpack cur
      in if slots_available_to counts reserved capacity class = 0 then None
         else Some (pack (set_lane class (saturating_add (lane counts class) 1) counts)))"

definition acquire_ignoring_pass :: "prio_class \<Rightarrow> u64 \<Rightarrow> u16 \<Rightarrow> u64 option" where
  "acquire_ignoring_pass class cur capacity =
     (let counts = unpack cur; used_total = foldl saturating_add 0 (lane_list counts)
      in if capacity \<le> used_total then None
         else Some (pack (set_lane class (saturating_add (lane counts class) 1) counts)))"

definition release_pass :: "prio_class \<Rightarrow> u64 \<Rightarrow> u64 option" where
  "release_pass class cur =
     (let counts = unpack cur
      in if lane counts class = 0 then None else Some (pack (set_lane class (lane counts class - 1) counts)))"

definition try_acquire :: "prio_class \<Rightarrow> slot_pool \<Rightarrow> slot_pool \<times> bool" where
  "try_acquire class pool =
     (case acquire_pass class (sp_inflight_packed pool) (sp_capacity pool) (snapshot_reserved pool) of
        None \<Rightarrow> (pool, False)
      | Some new \<Rightarrow> (pool\<lparr>sp_inflight_packed := new\<rparr>, True))"

definition try_acquire_ignoring_reservations :: "prio_class \<Rightarrow> slot_pool \<Rightarrow> slot_pool \<times> bool" where
  "try_acquire_ignoring_reservations class pool =
     (case acquire_ignoring_pass class (sp_inflight_packed pool) (sp_capacity pool) of
        None \<Rightarrow> (pool, False)
      | Some new \<Rightarrow> (pool\<lparr>sp_inflight_packed := new\<rparr>, True))"

definition release :: "prio_class \<Rightarrow> slot_pool \<Rightarrow> slot_pool" where
  "release class pool =
     (case release_pass class (sp_inflight_packed pool) of
        None \<Rightarrow> pool
      | Some new \<Rightarrow> pool\<lparr>sp_inflight_packed := new\<rparr>)"

section \<open>Facts about the packed word\<close>

lemma low_lane: "(0xFFFF :: u64) = mask 16"
  by (simp add: mask_eq_exp_minus_1)

lemma unpack_pack [simp]: "unpack (pack l) = l"
proof (cases l)
  case (Lanes b d i s)
  have "ucast (pack l AND mask 16) = b" "ucast (drop_bit 16 (pack l) AND mask 16) = d"
    "ucast (drop_bit 32 (pack l) AND mask 16) = i" "ucast (drop_bit 48 (pack l) AND mask 16) = s"
    unfolding Lanes by (rule bit_word_eqI; auto simp: bit_simps dest: bit_imp_le_length)+
  then show ?thesis by (simp add: unpack_def low_lane Lanes)
qed

lemma pack_unpack [simp]: "pack (unpack p) = p"
proof (rule bit_word_eqI)
  fix n
  assume n: "n < LENGTH(64)"
  consider "n < 16" | "16 \<le> n" "n < 32" | "32 \<le> n" "n < 48" | "48 \<le> n" using n by linarith
  then show "bit (pack (unpack p)) n = bit p n"
    using n by cases (auto simp: unpack_def low_lane bit_simps)
qed


lemma unat_fold_saturating_add:
  "unat (foldl saturating_add a xs) = min (unat a + sum_list (map unat xs)) (2 ^ LENGTH('a) - 1)"
  for a :: "'a::len word"
proof (induction xs arbitrary: a)
  case Nil
  show ?case using unat_below [of a] by (simp add: min_def less_Suc_eq_le [symmetric])
next
  case (Cons x xs)
  have "min (min (k + l) m + n) m = min (k + (l + n)) m" for k l m n :: nat by linarith
  then show ?case
    by (simp only: foldl_Cons Cons.IH unat_saturating_add list.map sum_list.Cons)
qed

text \<open>Slots that classes above \<open>class\<close> have reserved and do not use.\<close>

definition held_above :: "u16 lanes \<Rightarrow> u16 lanes \<Rightarrow> prio_class \<Rightarrow> nat" where
  "held_above reserved counts class =
     sum_list (map (\<lambda>c. unat (lane reserved c) - unat (lane counts c)) (filter (\<lambda>c. class < c) ALL_classes))"

lemma unat_slots_available_to:
  "unat (slots_available_to counts reserved capacity class) =
     unat capacity - lanes_total counts - held_above reserved counts class"
proof -
  have cap: "unat capacity \<le> 2 ^ 16 - 1" using unat_below [of capacity] by simp
  have held: "unat (foldl saturating_add 0
      (map (\<lambda>c. saturating_sub (lane reserved c) (lane counts c)) (filter (\<lambda>c. class < c) ALL_classes))) =
      min (held_above reserved counts class) (2 ^ 16 - 1)"
    by (simp add: unat_fold_saturating_add held_above_def comp_def word_facts)
  have used: "unat (foldl saturating_add 0 (lane_list counts)) = min (lanes_total counts) (2 ^ 16 - 1)"
    by (simp add: unat_fold_saturating_add lanes_total_def)
  show ?thesis
    unfolding slots_available_to_def Let_def unat_saturating_sub held used using cap by linarith
qed

lemma lanes_total_set_lane: "lanes_total (set_lane c x l) + unat (lane l c) = lanes_total l + unat x"
  by (cases l; cases c) (simp_all add: lanes_total_def)

lemma lane_le_total: "unat (lane l c) \<le> lanes_total l"
  by (cases l; cases c) (simp_all add: lanes_total_def)

lemma unat_u16_inc: "unat (x :: u16) < unat (y :: u16) \<Longrightarrow> unat (saturating_add x 1) = unat x + 1"
  using unat_below [of y] by (simp add: word_facts)

lemma acquire_pass_SomeD:
  assumes "acquire_pass class cur capacity reserved = Some new"
  shows "lanes_total (unpack cur) + held_above reserved (unpack cur) class < unat capacity"
    and "unat (lane (unpack new) c) = unat (lane (unpack cur) c) + (if c = class then 1 else 0)"
    and "lanes_total (unpack new) = lanes_total (unpack cur) + 1"
proof -
  have "slots_available_to (unpack cur) reserved capacity class \<noteq> 0"
    and new: "new = pack (set_lane class (saturating_add (lane (unpack cur) class) 1) (unpack cur))"
    using assms by (auto simp: acquire_pass_def Let_def split: if_splits)
  then show room: "lanes_total (unpack cur) + held_above reserved (unpack cur) class < unat capacity"
    using unat_slots_available_to [of "unpack cur" reserved capacity "class"] by (simp add: unat_eq_zero [symmetric])
  then have inc: "unat (saturating_add (lane (unpack cur) class) 1) = unat (lane (unpack cur) class) + 1"
    using lane_le_total [of "unpack cur" "class"] by (intro unat_u16_inc [of _ capacity]) linarith
  then show "unat (lane (unpack new) c) = unat (lane (unpack cur) c) + (if c = class then 1 else 0)"
    by (simp add: new)
  show "lanes_total (unpack new) = lanes_total (unpack cur) + 1"
    using lanes_total_set_lane [of "class" "saturating_add (lane (unpack cur) class) 1" "unpack cur"] inc
    by (simp add: new)
qed

lemma acquire_ignoring_pass_SomeD:
  assumes "acquire_ignoring_pass class cur capacity = Some new"
  shows "lanes_total (unpack cur) < unat capacity"
    and "unat (lane (unpack new) c) = unat (lane (unpack cur) c) + (if c = class then 1 else 0)"
    and "lanes_total (unpack new) = lanes_total (unpack cur) + 1"
proof -
  have room': "foldl saturating_add 0 (lane_list (unpack cur)) < capacity"
    and new: "new = pack (set_lane class (saturating_add (lane (unpack cur) class) 1) (unpack cur))"
    using assms by (auto simp: acquire_ignoring_pass_def Let_def not_le split: if_splits)
  have "min (lanes_total (unpack cur)) (2 ^ 16 - 1) < unat capacity"
    using room' by (simp add: word_less_nat_alt unat_fold_saturating_add lanes_total_def)
  then show room: "lanes_total (unpack cur) < unat capacity"
    using unat_below [of capacity] by simp
  then have inc: "unat (saturating_add (lane (unpack cur) class) 1) = unat (lane (unpack cur) class) + 1"
    using lane_le_total [of "unpack cur" "class"] by (intro unat_u16_inc [of _ capacity]) linarith
  then show "unat (lane (unpack new) c) = unat (lane (unpack cur) c) + (if c = class then 1 else 0)"
    by (simp add: new)
  show "lanes_total (unpack new) = lanes_total (unpack cur) + 1"
    using lanes_total_set_lane [of "class" "saturating_add (lane (unpack cur) class) 1" "unpack cur"] inc
    by (simp add: new)
qed

lemma release_pass_SomeD:
  assumes "release_pass class cur = Some new"
  shows "unat (lane (unpack new) c) + (if c = class then 1 else 0) = unat (lane (unpack cur) c)"
    and "lanes_total (unpack new) + 1 = lanes_total (unpack cur)"
proof -
  have pos: "lane (unpack cur) class \<noteq> 0"
    and new: "new = pack (set_lane class (lane (unpack cur) class - 1) (unpack cur))"
    using assms by (auto simp: release_pass_def Let_def split: if_splits)
  then have dec: "unat (lane (unpack cur) class - 1) + 1 = unat (lane (unpack cur) class)"
    by (simp add: unat_minus_one) (metis Suc_pred unat_gt_0)
  then show "unat (lane (unpack new) c) + (if c = class then 1 else 0) = unat (lane (unpack cur) c)"
    by (simp add: new)
  show "lanes_total (unpack new) + 1 = lanes_total (unpack cur)"
    using lanes_total_set_lane [of "class" "lane (unpack cur) class - 1" "unpack cur"] dec by (simp add: new)
qed

lemma release_pass_None: "release_pass class cur = None \<longleftrightarrow> lane (unpack cur) class = 0"
  by (simp add: release_pass_def Let_def)


section \<open>Racing callers\<close>

text \<open>
  A caller is idle, or it has read the packed word and is about to read the capacity, or it is
  reading the reservations one atomic at a time, or it has read everything and is about to
  exchange, or it is releasing.  \<open>guarded\<close> tells \<open>try_acquire\<close> from
  \<open>try_acquire_ignoring_reservations\<close>.  Each caller keeps the classes of the permits it holds.
\<close>

datatype pc =
    P_idle
  | P_read_capacity bool prio_class u64
  | P_read_reserved prio_class u64 u16 "u16 list"
  | P_exchange bool prio_class u64 u16 "u16 lanes"
  | P_release prio_class u64

record race =
  rc_pool :: slot_pool
  rc_callers :: "(pc \<times> prio_class list) list"

definition set_caller :: "nat \<Rightarrow> pc \<Rightarrow> prio_class list \<Rightarrow> race \<Rightarrow> race" where
  "set_caller i pc held s = s\<lparr>rc_callers := (rc_callers s)[i := (pc, held)]\<rparr>"

definition set_packed :: "u64 \<Rightarrow> race \<Rightarrow> race" where
  "set_packed new s = s\<lparr>rc_pool := (rc_pool s)\<lparr>sp_inflight_packed := new\<rparr>\<rparr>"

definition caller_at :: "nat \<Rightarrow> pc \<Rightarrow> prio_class list \<Rightarrow> race \<Rightarrow> bool" where
  "caller_at i pc held s \<longleftrightarrow> i < length (rc_callers s) \<and> rc_callers s ! i = (pc, held)"

definition exchange_pass :: "bool \<Rightarrow> prio_class \<Rightarrow> u64 \<Rightarrow> u16 \<Rightarrow> u16 lanes \<Rightarrow> u64 option" where
  "exchange_pass guarded class cur capacity reserved =
     (if guarded then acquire_pass class cur capacity reserved else acquire_ignoring_pass class cur capacity)"

text \<open>
  No capacity above \<open>limit\<close> is published.  With \<open>fixed\<close>, capacity and reservations never change
  and every acquire honours the reservations.
\<close>

inductive race_step :: "nat \<Rightarrow> bool \<Rightarrow> race \<Rightarrow> race \<Rightarrow> bool" for limit :: nat and fixed :: bool where
  start_acquire: "caller_at i P_idle held s \<Longrightarrow> guarded \<or> \<not> fixed \<Longrightarrow>
    race_step limit fixed s (set_caller i (P_read_capacity guarded class (sp_inflight_packed (rc_pool s))) held s)"
| read_capacity_guarded: "caller_at i (P_read_capacity True class cur) held s \<Longrightarrow>
    race_step limit fixed s (set_caller i (P_read_reserved class cur (sp_capacity (rc_pool s)) []) held s)"
| read_capacity_ignoring: "caller_at i (P_read_capacity False class cur) held s \<Longrightarrow>
    race_step limit fixed s (set_caller i (P_exchange False class cur (sp_capacity (rc_pool s)) res) held s)"
| read_lane: "caller_at i (P_read_reserved class cur cap rs) held s \<Longrightarrow> length rs < 4 \<Longrightarrow>
    race_step limit fixed s
      (set_caller i (P_read_reserved class cur cap (rs @ [lane_list (sp_reserved (rc_pool s)) ! length rs])) held s)"
| snapshot_done: "caller_at i (P_read_reserved class cur cap [b, d, j, y]) held s \<Longrightarrow>
    race_step limit fixed s (set_caller i (P_exchange True class cur cap (Lanes b d j y)) held s)"
| refused: "caller_at i (P_exchange guarded class cur cap res) held s \<Longrightarrow>
    exchange_pass guarded class cur cap res = None \<Longrightarrow> race_step limit fixed s (set_caller i P_idle held s)"
| exchanged: "caller_at i (P_exchange guarded class cur cap res) held s \<Longrightarrow>
    exchange_pass guarded class cur cap res = Some new \<Longrightarrow> sp_inflight_packed (rc_pool s) = cur \<Longrightarrow>
    race_step limit fixed s (set_packed new (set_caller i P_idle (class # held) s))"
| exchange_failed: "caller_at i (P_exchange guarded class cur cap res) held s \<Longrightarrow>
    race_step limit fixed s (set_caller i (P_read_capacity guarded class (sp_inflight_packed (rc_pool s))) held s)"
| start_release: "caller_at i P_idle held s \<Longrightarrow> class \<in> set held \<Longrightarrow>
    race_step limit fixed s (set_caller i (P_release class (sp_inflight_packed (rc_pool s))) held s)"
| release_nothing: "caller_at i (P_release class cur) held s \<Longrightarrow> release_pass class cur = None \<Longrightarrow>
    race_step limit fixed s (set_caller i P_idle (remove1 class held) s)"
| released: "caller_at i (P_release class cur) held s \<Longrightarrow> release_pass class cur = Some new \<Longrightarrow>
    sp_inflight_packed (rc_pool s) = cur \<Longrightarrow>
    race_step limit fixed s (set_packed new (set_caller i P_idle (remove1 class held) s))"
| release_failed: "caller_at i (P_release class cur) held s \<Longrightarrow>
    race_step limit fixed s (set_caller i (P_release class (sp_inflight_packed (rc_pool s))) held s)"
| capacity_changes: "\<not> fixed \<Longrightarrow> unat capacity \<le> limit \<Longrightarrow>
    race_step limit fixed s (s\<lparr>rc_pool := fst (set_capacity capacity (rc_pool s))\<rparr>)"
| reservation_changes: "\<not> fixed \<Longrightarrow>
    race_step limit fixed s (s\<lparr>rc_pool := set_reserved class new_reserved (rc_pool s)\<rparr>)"

definition race_init :: "nat \<Rightarrow> u16 \<Rightarrow> u16 lanes \<Rightarrow> race" where
  "race_init n capacity reserved =
     \<lparr>rc_pool = slot_pool_new capacity reserved, rc_callers = replicate n (P_idle, [])\<rparr>"

definition permits_held :: "race \<Rightarrow> prio_class \<Rightarrow> nat" where
  "permits_held s c = sum_list (map (\<lambda>(_, held). count_list held c) (rc_callers s))"

fun pc_ok :: "nat \<Rightarrow> pc \<times> prio_class list \<Rightarrow> bool" where
  "pc_ok limit (P_read_reserved class cur cap rs, held) \<longleftrightarrow> unat cap \<le> limit"
| "pc_ok limit (P_exchange guarded class cur cap res, held) \<longleftrightarrow> unat cap \<le> limit"
| "pc_ok limit (P_release class cur, held) \<longleftrightarrow> class \<in> set held \<and> lane (unpack cur) class \<noteq> 0"
| "pc_ok limit (_, held) \<longleftrightarrow> True"

definition race_inv :: "nat \<Rightarrow> race \<Rightarrow> bool" where
  "race_inv limit s \<longleftrightarrow>
     unat (sp_capacity (rc_pool s)) \<le> limit \<and>
     (\<forall>c. unat (inflight c (rc_pool s)) = permits_held s c) \<and>
     lanes_total (unpack (sp_inflight_packed (rc_pool s))) \<le> limit \<and>
     list_all (pc_ok limit) (rc_callers s)"

lemma permits_held_set_caller:
  assumes "caller_at i pc held s"
  shows "permits_held (set_caller i pc' held' s) c + count_list held c = permits_held s c + count_list held' c"
proof -
  let ?f = "\<lambda>(_ :: pc, held). count_list held c"
  have i: "i < length (map ?f (rc_callers s))" "map ?f (rc_callers s) ! i = count_list held c"
    using assms by (simp_all add: caller_at_def)
  have "count_list held c \<le> sum_list (map ?f (rc_callers s))"
    using i by (metis elem_le_sum_list)
  then show ?thesis
    using i by (simp add: permits_held_def set_caller_def map_update sum_list_update)
qed

lemma permits_held_same_list:
  "caller_at i pc held s \<Longrightarrow> permits_held (set_caller i pc' held s) c = permits_held s c"
  using permits_held_set_caller [of i pc held s pc' held c] by simp

lemma set_packed_simps [simp]:
  "rc_callers (set_packed new s) = rc_callers s" "sp_capacity (rc_pool (set_packed new s)) = sp_capacity (rc_pool s)"
  "sp_inflight_packed (rc_pool (set_packed new s)) = new" "sp_reserved (rc_pool (set_packed new s)) = sp_reserved (rc_pool s)"
  by (simp_all add: set_packed_def)

lemma permits_held_set_packed [simp]: "permits_held (set_packed new s) c = permits_held s c"
  by (simp add: permits_held_def set_packed_def)

lemma permits_held_member:
  assumes "caller_at i pc held s" "c \<in> set held"
  shows "0 < permits_held s c"
proof -
  have "0 < count_list held c" using assms(2) count_list_0_iff [of held c] by (metis gr0I)
  moreover have "map (\<lambda>(_, held). count_list held c) (rc_callers s) ! i = count_list held c"
    "i < length (map (\<lambda>(_, held). count_list held c) (rc_callers s))"
    using assms(1) by (simp_all add: caller_at_def)
  ultimately show ?thesis
    unfolding permits_held_def by (metis elem_le_sum_list order.strict_trans2)
qed

lemma pcs_ok_set_caller:
  "list_all (pc_ok limit) (rc_callers s) \<Longrightarrow> pc_ok limit (pc, held) \<Longrightarrow>
   list_all (pc_ok limit) (rc_callers (set_caller i pc held s))"
  by (auto simp: list_all_iff set_caller_def dest!: set_update_subset_insert [THEN subsetD])

lemma pc_ok_at: "list_all (pc_ok limit) (rc_callers s) \<Longrightarrow> caller_at i pc held s \<Longrightarrow> pc_ok limit (pc, held)"
  by (auto simp: list_all_iff caller_at_def dest: nth_mem)

lemma rc_pool_set_caller [simp]: "rc_pool (set_caller i pc held s) = rc_pool s"
  by (simp add: set_caller_def)

lemma exchange_pass_SomeD:
  assumes "exchange_pass guarded class cur capacity reserved = Some new"
  shows "lanes_total (unpack cur) < unat capacity"
    and "unat (lane (unpack new) c) = unat (lane (unpack cur) c) + (if c = class then 1 else 0)"
    and "lanes_total (unpack new) = lanes_total (unpack cur) + 1"
  using assms acquire_pass_SomeD [of "class" cur capacity reserved new]
    acquire_ignoring_pass_SomeD [of "class" cur capacity new]
  by (cases guarded; simp add: exchange_pass_def)+

lemma race_inv_local:
  assumes "race_inv limit s" "caller_at i pc held s" "pc_ok limit (pc', held)"
  shows "race_inv limit (set_caller i pc' held s)"
  using assms by (simp add: race_inv_def permits_held_same_list pcs_ok_set_caller)

lemma race_inv_change:
  assumes "race_inv limit s" "caller_at i pc held s" "pc_ok limit (pc', held')"
    and "\<forall>c. unat (lane (unpack new) c) + count_list held c =
           unat (lane (unpack (sp_inflight_packed (rc_pool s))) c) + count_list held' c"
    and "lanes_total (unpack new) \<le> limit"
  shows "race_inv limit (set_packed new (set_caller i pc' held' s))"
proof -
  have "unat (lane (unpack new) c) = permits_held (set_caller i pc' held' s) c" for c
    using permits_held_set_caller [OF assms(2), of pc' held' c] assms(1,4)
    by (simp add: race_inv_def inflight_def) (metis add.commute add_left_imp_eq)
  then show ?thesis
    using assms(1,3,5) pcs_ok_set_caller [of limit s pc' held' i]
    by (simp add: race_inv_def inflight_def)
qed

lemma count_remove1: "x \<in> set xs \<Longrightarrow> count_list (remove1 x xs) y + (if y = x then 1 else 0) = count_list xs y"
  by (induction xs) auto

lemma race_inv_step:
  assumes "race_step limit fixed s s'" "race_inv limit s"
  shows "race_inv limit s'"
  using assms
proof (induction rule: race_step.induct)
  case (exchanged i guarded "class" cur cap res held s new)
  have "unat cap \<le> limit"
    using exchanged.prems pc_ok_at [OF _ exchanged.hyps(1), of limit] by (simp add: race_inv_def)
  then show ?case
    using exchange_pass_SomeD [OF exchanged.hyps(2)] exchanged.hyps(3)
    by (intro race_inv_change [OF exchanged.prems exchanged.hyps(1)]) auto
next
  case (released i "class" cur held s new)
  have "class \<in> set held"
    using released.prems pc_ok_at [OF _ released.hyps(1), of limit] by (simp add: race_inv_def)
  then have "unat (lane (unpack new) c) + count_list held c =
      unat (lane (unpack cur) c) + count_list (remove1 class held) c" for c
    using release_pass_SomeD(1) [OF released.hyps(2), of c] count_remove1 [of "class" held c] by linarith
  moreover have "lanes_total (unpack new) \<le> limit"
    using release_pass_SomeD(2) [OF released.hyps(2)] released.hyps(3) released.prems by (simp add: race_inv_def)
  ultimately show ?case
    using released.hyps(3) by (intro race_inv_change [OF released.prems released.hyps(1)]) simp_all
next
  case (release_nothing i "class" cur held s)
  then show ?case
    using pc_ok_at [OF _ release_nothing.hyps(1), of limit] by (simp add: race_inv_def release_pass_None)
next
  case (start_release i held s "class")
  have "unat (inflight class (rc_pool s)) \<noteq> 0"
    using start_release permits_held_member [OF start_release.hyps] by (simp add: race_inv_def)
  then show ?case
    using start_release by (intro race_inv_local [OF _ start_release.hyps(1)]) (auto simp: inflight_def)
next
  case (release_failed i "class" cur held s)
  have held: "class \<in> set held"
    using release_failed.prems pc_ok_at [OF _ release_failed.hyps(1), of limit] by (simp add: race_inv_def)
  have "unat (inflight class (rc_pool s)) \<noteq> 0"
    using release_failed permits_held_member [OF release_failed.hyps held] by (simp add: race_inv_def)
  then show ?case
    using release_failed held by (intro race_inv_local [OF _ release_failed.hyps(1)]) (auto simp: inflight_def)
next
  case (read_lane i "class" cur cap rs held s)
  then show ?case
    using pc_ok_at [OF _ read_lane.hyps(1), of limit] by (intro race_inv_local) (auto simp: race_inv_def)
next
  case (snapshot_done i "class" cur cap b d j y held s)
  then show ?case
    using pc_ok_at [OF _ snapshot_done.hyps(1), of limit] by (intro race_inv_local) (auto simp: race_inv_def)
next
  case (start_acquire i held s guarded "class")
  then show ?case by (intro race_inv_local) simp_all
next
  case (read_capacity_guarded i "class" cur held s)
  then show ?case by (intro race_inv_local) (simp_all add: race_inv_def)
next
  case (read_capacity_ignoring i "class" cur held s res)
  then show ?case by (intro race_inv_local) (simp_all add: race_inv_def)
next
  case (refused i guarded "class" cur cap res held s)
  then show ?case by (intro race_inv_local) simp_all
next
  case (exchange_failed i guarded "class" cur cap res held s)
  then show ?case by (intro race_inv_local) simp_all
next
  case (capacity_changes capacity s)
  then show ?case by (simp add: race_inv_def inflight_def permits_held_def set_capacity_def)
next
  case (reservation_changes s "class" new_reserved)
  then show ?case by (simp add: race_inv_def inflight_def permits_held_def set_reserved_def)
qed


lemma race_inv_init:
  assumes "unat capacity \<le> limit"
  shows "race_inv limit (race_init n capacity reserved)"
proof -
  have zero: "unpack 0 = Lanes 0 0 0 0" by (simp add: unpack_def)
  have "lane (unpack 0) c = 0" for c by (cases c) (simp_all add: zero)
  then show ?thesis
    using assms
    by (simp add: race_inv_def race_init_def slot_pool_new_def inflight_def permits_held_def lanes_total_def zero
        list_all_iff sum_list_replicate_nat)
qed

section \<open>Properties\<close>

text \<open>C21.
  No slot is lost or minted by racing callers.  Whatever way any number of callers interleave
  their reads, exchanges and releases, and however capacity and reservations change under them,
  every lane of the packed word is the number of permits of its class that the callers hold, and
  the total never exceeds the greatest capacity that was ever published.
\<close>

theorem slot_race_safe:
  assumes "(race_step limit fixed)\<^sup>*\<^sup>* (race_init n capacity reserved) s" and "unat capacity \<le> limit"
  shows "(\<forall>c. unat (inflight c (rc_pool s)) = permits_held s c) \<and>
         lanes_total (unpack (sp_inflight_packed (rc_pool s))) \<le> limit"
proof -
  have "race_inv limit s"
    using assms(1) by (induction rule: rtranclp_induct) (auto intro: race_inv_init [OF assms(2)] race_inv_step)
  then show ?thesis by (simp add: race_inv_def)
qed

definition demo_race :: "nat \<Rightarrow> race" where
  "demo_race k =
     (let s0 = race_init 2 1 (Lanes 0 0 0 0);
          s1 = set_caller 0 (P_read_capacity False Bulk 0) [] s0;
          s2 = set_caller 0 (P_exchange False Bulk 0 1 (Lanes 0 0 0 0)) [] s1
      in if k = 0 then s0 else if k = 1 then s1 else if k = 2 then s2
         else set_packed 1 (set_caller 0 P_idle [Bulk] s2))"

lemma demo_race_steps:
  "race_step 1 False (demo_race 0) (demo_race 1)" "race_step 1 False (demo_race 1) (demo_race 2)"
  "race_step 1 False (demo_race 2) (demo_race 3)"
proof -
  have packed: "sp_inflight_packed (rc_pool (demo_race k)) = (if k < 3 then 0 else 1)"
    and cap: "sp_capacity (rc_pool (demo_race k)) = 1" for k
    by (auto simp: demo_race_def race_init_def slot_pool_new_def Let_def)
  show "race_step 1 False (demo_race 0) (demo_race 1)"
    using race_step.start_acquire [of 0 "[]" "demo_race 0" False False 1 Bulk] packed [of 0]
    by (simp add: demo_race_def caller_at_def race_init_def slot_pool_new_def)
  show "race_step 1 False (demo_race 1) (demo_race 2)"
    using race_step.read_capacity_ignoring [of 0 Bulk 0 "[]" "demo_race 1" 1 False "Lanes 0 0 0 0"] cap [of 1]
    by (simp add: demo_race_def caller_at_def race_init_def set_caller_def slot_pool_new_def)
  have "exchange_pass False Bulk 0 1 (Lanes 0 0 0 0) = Some 1"
    by (simp add: exchange_pass_def acquire_ignoring_pass_def unpack_def saturating_add_def)
  then show "race_step 1 False (demo_race 2) (demo_race 3)"
    using race_step.exchanged [of 0 False Bulk 0 1 "Lanes 0 0 0 0" "[]" "demo_race 2" 1 1 False] packed [of 2]
    by (simp add: demo_race_def caller_at_def race_init_def set_caller_def)
qed

theorem slot_race_safe_witness:
  "(race_step 1 False)\<^sup>*\<^sup>* (race_init 2 1 (Lanes 0 0 0 0)) (demo_race 3) \<and>
   unat (inflight Bulk (rc_pool (demo_race 3))) = permits_held (demo_race 3) Bulk \<and>
   permits_held (demo_race 3) Bulk = 1 \<and>
   lanes_total (unpack (sp_inflight_packed (rc_pool (demo_race 3)))) \<le> 1"
proof -
  have run: "(race_step 1 False)\<^sup>*\<^sup>* (race_init 2 1 (Lanes 0 0 0 0)) (demo_race 3)"
    using demo_race_steps by (auto simp: demo_race_def [of 0] intro: rtranclp.rtrancl_into_rtrancl)
  have "permits_held (demo_race 3) Bulk = 1"
    by (simp add: demo_race_def permits_held_def set_caller_def race_init_def numeral_2_eq_2)
  then show ?thesis
    using run slot_race_safe [OF run] by simp
qed


text \<open>With fixed settings, every read is of the one capacity and the one set of reservations.\<close>

fun pc_fixed :: "u16 \<Rightarrow> u16 lanes \<Rightarrow> pc \<Rightarrow> bool" where
  "pc_fixed capacity reserved (P_read_capacity guarded class cur) \<longleftrightarrow> guarded"
| "pc_fixed capacity reserved (P_read_reserved class cur cap rs) \<longleftrightarrow>
     cap = capacity \<and> rs = take (length rs) (lane_list reserved)"
| "pc_fixed capacity reserved (P_exchange guarded class cur cap res) \<longleftrightarrow> guarded \<and> cap = capacity \<and> res = reserved"
| "pc_fixed capacity reserved _ \<longleftrightarrow> True"

definition system_room :: "u16 lanes \<Rightarrow> u64 \<Rightarrow> nat" where
  "system_room reserved packed =
     lanes_total (unpack packed) + (unat (lane reserved System) - unat (lane (unpack packed) System))"

definition fixed_inv :: "u16 \<Rightarrow> u16 lanes \<Rightarrow> race \<Rightarrow> bool" where
  "fixed_inv capacity reserved s \<longleftrightarrow>
     sp_capacity (rc_pool s) = capacity \<and> sp_reserved (rc_pool s) = reserved \<and>
     list_all (pc_fixed capacity reserved \<circ> fst) (rc_callers s) \<and>
     system_room reserved (sp_inflight_packed (rc_pool s)) \<le> unat capacity"

lemma fixed_inv_local:
  assumes "fixed_inv capacity reserved s" "pc_fixed capacity reserved pc"
  shows "fixed_inv capacity reserved (set_caller i pc held s)"
proof -
  have "list_all (pc_fixed capacity reserved \<circ> fst) (rc_callers (set_caller i pc held s))"
    using assms by (auto simp: fixed_inv_def list_all_iff set_caller_def dest!: set_update_subset_insert [THEN subsetD])
  then show ?thesis using assms by (simp add: fixed_inv_def)
qed

lemma fixed_inv_packed:
  assumes "fixed_inv capacity reserved s" "system_room reserved new \<le> unat capacity"
  shows "fixed_inv capacity reserved (set_packed new s)"
  using assms by (simp add: fixed_inv_def)

lemma pc_fixed_at:
  "fixed_inv capacity reserved s \<Longrightarrow> caller_at i pc held s \<Longrightarrow> pc_fixed capacity reserved pc"
  by (auto simp: fixed_inv_def list_all_iff caller_at_def dest!: nth_mem)

lemma system_room_acquire:
  assumes "acquire_pass class cur capacity reserved = Some new"
  shows "system_room reserved new \<le> unat capacity \<or> system_room reserved new \<le> system_room reserved cur"
proof (cases "class = System")
  case True
  then show ?thesis
    using acquire_pass_SomeD(1,3) [OF assms] acquire_pass_SomeD(2) [OF assms, of System]
    by (simp add: system_room_def) linarith
next
  case False
  then have "unat (lane reserved System) - unat (lane (unpack cur) System) \<le> held_above reserved (unpack cur) class"
    by (cases "class") (simp_all add: held_above_def ALL_classes_def less_prio_class_def)
  then show ?thesis
    using acquire_pass_SomeD(1,3) [OF assms] acquire_pass_SomeD(2) [OF assms, of System] False
    by (simp add: system_room_def)
qed

lemma fixed_inv_step:
  assumes "race_step limit True s s'" "fixed_inv capacity reserved s"
  shows "fixed_inv capacity reserved s'"
  using assms
proof (induction rule: race_step.induct)
  case (exchanged i guarded "class" cur cap res held s new)
  have "acquire_pass class cur capacity reserved = Some new"
    using pc_fixed_at [OF exchanged.prems exchanged.hyps(1)] exchanged.hyps(2) by (simp add: exchange_pass_def)
  from system_room_acquire [OF this] show ?case
    using exchanged by (intro fixed_inv_packed fixed_inv_local) (auto simp: fixed_inv_def)
next
  case (released i "class" cur held s new)
  have "system_room reserved new \<le> system_room reserved cur"
    using release_pass_SomeD(2) [OF released.hyps(2)] release_pass_SomeD(1) [OF released.hyps(2), of System]
    by (cases "class = System") (simp_all add: system_room_def)
  then show ?case
    using released by (intro fixed_inv_packed fixed_inv_local) (auto simp: fixed_inv_def)
next
  case (read_lane i "class" cur cap rs held s)
  have "pc_fixed capacity reserved (P_read_reserved class cur cap rs)"
    by (rule pc_fixed_at [OF read_lane.prems read_lane.hyps(1)])
  moreover have "length (lane_list reserved) = 4" "sp_reserved (rc_pool s) = reserved"
    using read_lane.prems by (cases reserved; simp add: fixed_inv_def)+
  ultimately show ?case
    using read_lane by (intro fixed_inv_local) (simp_all add: take_Suc_conv_app_nth)
next
  case (snapshot_done i "class" cur cap b d j y held s)
  have "cap = capacity" "Lanes b d j y = reserved"
    using pc_fixed_at [OF snapshot_done.prems snapshot_done.hyps(1)] by (cases reserved; simp)+
  then show ?case
    using snapshot_done.prems by (intro fixed_inv_local) simp_all
next
  case (read_capacity_guarded i "class" cur held s)
  then show ?case by (intro fixed_inv_local) (simp_all add: fixed_inv_def)
next
  case (read_capacity_ignoring i "class" cur held s res)
  then show ?case using pc_fixed_at [OF read_capacity_ignoring.prems read_capacity_ignoring.hyps(1)] by simp
next
  case (exchange_failed i guarded "class" cur cap res held s)
  then show ?case
    using pc_fixed_at [OF exchange_failed.prems exchange_failed.hyps(1)] by (intro fixed_inv_local) simp_all
qed (simp_all add: fixed_inv_local)



end
