(* ===== verification/Sched_Queue.thy ===== *)
theory Sched_Queue
  imports Sched_Slots "HOL-Library.Sublist"
begin

text \<open>
  Models of \<open>middleware/scheduler/queue.rs\<close> and \<open>middleware/scheduler/inflight.rs\<close>: the waiters
  of one class and the handle of one admitted request.

  A cancellation token and the sending half of a oneshot channel are numbers; which tokens have
  fired is an argument of the operations that look.  An atomic cell that is only read and
  exchanged is a field, and a compare-and-swap on it is one step.
\<close>

section \<open>Waiters and the class queue\<close>

type_synonym token = nat

record waiter =
  w_class :: prio_class
  w_queued_at :: nat
  w_cancel :: token
  w_request_id :: string
  w_permit_tx :: nat

definition waiter_new :: "nat \<Rightarrow> prio_class \<Rightarrow> token \<Rightarrow> string \<Rightarrow> nat \<Rightarrow> waiter" where
  "waiter_new now class cancel request_id permit_tx =
     \<lparr>w_class = class, w_queued_at = now, w_cancel = cancel, w_request_id = request_id, w_permit_tx = permit_tx\<rparr>"

record fifo_class_queue =
  fq_waiters :: "waiter list"
  fq_max :: nat

definition fifo_new :: "nat \<Rightarrow> fifo_class_queue" where
  "fifo_new max_depth = \<lparr>fq_waiters = [], fq_max = max_depth\<rparr>"

definition try_enqueue :: "waiter \<Rightarrow> fifo_class_queue \<Rightarrow> fifo_class_queue \<times> (waiter + unit)" where
  "try_enqueue w q =
     (if fq_max q \<le> length (fq_waiters q) then (q, Inl w)
      else (q\<lparr>fq_waiters := fq_waiters q @ [w]\<rparr>, Inr ()))"

definition pop_eligible :: "fifo_class_queue \<Rightarrow> fifo_class_queue \<times> waiter option" where
  "pop_eligible q =
     (case fq_waiters q of [] \<Rightarrow> (q, None) | w # ws \<Rightarrow> (q\<lparr>fq_waiters := ws\<rparr>, Some w))"

definition head_age :: "nat \<Rightarrow> fifo_class_queue \<Rightarrow> nat option" where
  "head_age now q = (case fq_waiters q of [] \<Rightarrow> None | w # _ \<Rightarrow> Some (now - w_queued_at w))"

definition depth :: "fifo_class_queue \<Rightarrow> nat" where
  "depth q = length (fq_waiters q)"

definition queue_capacity :: "fifo_class_queue \<Rightarrow> nat" where
  "queue_capacity q = fq_max q"

definition drop_cancelled_head :: "(token \<Rightarrow> bool) \<Rightarrow> fifo_class_queue \<Rightarrow> fifo_class_queue" where
  "drop_cancelled_head is_cancelled q = q\<lparr>fq_waiters := dropWhile (\<lambda>w. is_cancelled (w_cancel w)) (fq_waiters q)\<rparr>"

section \<open>The queue contract\<close>

text \<open>
  What the scheduler relies on when it calls a class queue through the trait object: which
  waiters are in it, and in what order they leave.  The clients run any sequence of calls and
  keep what was accepted, handed out and reaped.
\<close>

datatype queue_call = Q_enqueue waiter | Q_pop | Q_drop_cancelled | Q_fire token

record 'q queue_log =
  ql_queue :: 'q
  ql_fired :: "token set"
  ql_accepted :: "waiter list"
  ql_left :: "(waiter \<times> bool) list"

fun queue_exec ::
    "(waiter \<Rightarrow> 'q \<Rightarrow> 'q \<times> (waiter + unit)) \<Rightarrow> ('q \<Rightarrow> 'q \<times> waiter option) \<Rightarrow>
     ((token \<Rightarrow> bool) \<Rightarrow> 'q \<Rightarrow> 'q) \<Rightarrow> ('q \<Rightarrow> waiter list) \<Rightarrow> queue_call \<Rightarrow> 'q queue_log \<Rightarrow> 'q queue_log" where
  "queue_exec enq pop reap content (Q_enqueue w) l =
     (case enq w (ql_queue l) of
        (q, Inr _) \<Rightarrow> l\<lparr>ql_queue := q, ql_accepted := ql_accepted l @ [w]\<rparr>
      | (q, Inl _) \<Rightarrow> l\<lparr>ql_queue := q\<rparr>)"
| "queue_exec enq pop reap content Q_pop l =
     (case pop (ql_queue l) of
        (q, Some w) \<Rightarrow> l\<lparr>ql_queue := q, ql_left := ql_left l @ [(w, True)]\<rparr>
      | (q, None) \<Rightarrow> l\<lparr>ql_queue := q\<rparr>)"
| "queue_exec enq pop reap content Q_drop_cancelled l =
     (let q = reap (\<lambda>t. t \<in> ql_fired l) (ql_queue l); before = content (ql_queue l)
      in l\<lparr>ql_queue := q,
           ql_left := ql_left l @ map (\<lambda>w. (w, False)) (take (length before - length (content q)) before)\<rparr>)"
| "queue_exec enq pop reap content (Q_fire t) l = l\<lparr>ql_fired := insert t (ql_fired l)\<rparr>"

definition log_ok :: "('q \<Rightarrow> waiter list) \<Rightarrow> 'q queue_log \<Rightarrow> bool" where
  "log_ok content l \<longleftrightarrow>
     ql_accepted l = map fst (ql_left l) @ content (ql_queue l) \<and>
     (\<forall>w. (w, False) \<in> set (ql_left l) \<longrightarrow> w_cancel w \<in> ql_fired l)"

locale class_queue =
  fixes enq :: "waiter \<Rightarrow> 'q \<Rightarrow> 'q \<times> (waiter + unit)"
    and pop :: "'q \<Rightarrow> 'q \<times> waiter option"
    and reap :: "(token \<Rightarrow> bool) \<Rightarrow> 'q \<Rightarrow> 'q"
    and size_of :: "'q \<Rightarrow> nat"
    and limit_of :: "'q \<Rightarrow> nat"
    and content :: "'q \<Rightarrow> waiter list"
  assumes size_content: "size_of q = length (content q)"
    and enq_room: "length (content q) < limit_of q \<Longrightarrow>
      \<exists>q'. enq w q = (q', Inr ()) \<and> content q' = content q @ [w] \<and> limit_of q' = limit_of q"
    and enq_full: "limit_of q \<le> length (content q) \<Longrightarrow> enq w q = (q, Inl w)"
    and pop_empty: "content q = [] \<Longrightarrow> pop q = (q, None)"
    and pop_head: "content q = w # ws \<Longrightarrow>
      \<exists>q'. pop q = (q', Some w) \<and> content q' = ws \<and> limit_of q' = limit_of q"
    and reap_content: "content (reap c q) = dropWhile (\<lambda>w. c (w_cancel w)) (content q)"
    and reap_limit: "limit_of (reap c q) = limit_of q"
begin

lemma exec_bounded:
  assumes "size_of (ql_queue l) \<le> limit_of (ql_queue l)"
  shows "size_of (ql_queue (queue_exec enq pop reap content call l)) \<le> limit_of (ql_queue l) \<and>
         limit_of (ql_queue (queue_exec enq pop reap content call l)) = limit_of (ql_queue l)"
proof (cases call)
  case (Q_enqueue w)
  show ?thesis
    using assms enq_room [of "ql_queue l" w] enq_full [of "ql_queue l" w]
    by (cases "length (content (ql_queue l)) < limit_of (ql_queue l)") (auto simp: Q_enqueue size_content)
next
  case Q_pop
  show ?thesis
    using assms pop_empty [of "ql_queue l"] pop_head [of "ql_queue l"]
    by (cases "content (ql_queue l)") (auto simp: Q_pop size_content)
next
  case Q_drop_cancelled
  have "length (dropWhile (\<lambda>w. w_cancel w \<in> ql_fired l) (content (ql_queue l))) \<le> length (content (ql_queue l))"
    by (rule length_dropWhile_le)
  with assms show ?thesis
    by (simp add: Q_drop_cancelled size_content reap_content reap_limit Let_def)
qed (use assms in simp)

lemma exec_log_ok:
  assumes "log_ok content l"
  shows "log_ok content (queue_exec enq pop reap content call l)"
proof (cases call)
  case (Q_enqueue w)
  show ?thesis
    using assms enq_room [of "ql_queue l" w] enq_full [of "ql_queue l" w]
    by (cases "length (content (ql_queue l)) < limit_of (ql_queue l)") (auto simp: Q_enqueue log_ok_def)
next
  case Q_pop
  show ?thesis
    using assms pop_empty [of "ql_queue l"] pop_head [of "ql_queue l"]
    by (cases "content (ql_queue l)") (auto simp: Q_pop log_ok_def)
next
  case Q_drop_cancelled
  let ?before = "content (ql_queue l)" and ?P = "\<lambda>w. w_cancel w \<in> ql_fired l"
  have "length ?before - length (dropWhile ?P ?before) = length (takeWhile ?P ?before)"
    by (metis add_diff_cancel_right' length_append takeWhile_dropWhile_id)
  then have "take (length ?before - length (dropWhile ?P ?before)) ?before = takeWhile ?P ?before"
    by (simp add: takeWhile_eq_take [symmetric])
  then show ?thesis
    using assms
    by (auto simp: Q_drop_cancelled log_ok_def reap_content Let_def comp_def dest: set_takeWhileD)
next
  case (Q_fire t)
  then show ?thesis using assms by (auto simp: log_ok_def)
qed

lemma run_ok:
  assumes "log_ok content l" "size_of (ql_queue l) \<le> limit_of (ql_queue l)"
  shows "log_ok content (foldl (\<lambda>l call. queue_exec enq pop reap content call l) l calls) \<and>
         size_of (ql_queue (foldl (\<lambda>l call. queue_exec enq pop reap content call l) l calls)) \<le> limit_of (ql_queue l)"
  using assms
proof (induction calls arbitrary: l)
  case (Cons call calls)
  then show ?case
    using Cons.IH [of "queue_exec enq pop reap content call l"] exec_bounded [of l call] exec_log_ok [of l call]
    by simp
qed simp

end

interpretation fifo: class_queue try_enqueue pop_eligible drop_cancelled_head depth queue_capacity fq_waiters
  by unfold_locales
    (simp_all add: try_enqueue_def pop_eligible_def drop_cancelled_head_def depth_def queue_capacity_def)


section \<open>Handles of admitted requests\<close>

record inflight_handle =
  ih_class :: prio_class
  ih_request_id :: string
  ih_admitted_at :: nat
  ih_first_byte_at :: u64
  ih_cancelled :: bool

definition PREEMPTED_SENTINEL :: u64 where
  "PREEMPTED_SENTINEL = u64_max"

definition handle_new :: "nat \<Rightarrow> prio_class \<Rightarrow> string \<Rightarrow> inflight_handle" where
  "handle_new now class request_id =
     \<lparr>ih_class = class, ih_request_id = request_id, ih_admitted_at = now, ih_first_byte_at = 0, ih_cancelled = False\<rparr>"

definition handle_cancel :: "inflight_handle \<Rightarrow> inflight_handle" where
  "handle_cancel h = h\<lparr>ih_cancelled := True\<rparr>"

definition is_preemptible :: "inflight_handle \<Rightarrow> bool" where
  "is_preemptible h \<longleftrightarrow> ih_first_byte_at h = 0"

definition try_mark_preempted :: "inflight_handle \<Rightarrow> inflight_handle \<times> bool" where
  "try_mark_preempted h =
     (if ih_first_byte_at h = 0 then (h\<lparr>ih_first_byte_at := PREEMPTED_SENTINEL\<rparr>, True) else (h, False))"

definition clamp :: "'a::linorder \<Rightarrow> 'a \<Rightarrow> 'a \<Rightarrow> 'a" where
  "clamp lo hi x = (if x < lo then lo else if hi < x then hi else x)"

definition try_mark_first_byte :: "u64 \<Rightarrow> inflight_handle \<Rightarrow> inflight_handle \<times> bool" where
  "try_mark_first_byte now_ms h =
     (let v = clamp 1 (PREEMPTED_SENTINEL - 1) now_ms
      in if ih_first_byte_at h = 0 then (h\<lparr>ih_first_byte_at := v\<rparr>, True) else (h, False))"

text \<open>The scheduler cancels a victim only when its mark won.\<close>

definition preempt :: "inflight_handle \<Rightarrow> inflight_handle \<times> bool" where
  "preempt h = (case try_mark_preempted h of (h', won) \<Rightarrow> (if won then handle_cancel h' else h', won))"

section \<open>Properties\<close>

text \<open>
  A class queue serves in arrival order and forgets nobody.  For every sequence of enqueues,
  pops, token firings and head collections on a new queue of depth \<open>m\<close>: the accepted waiters, in
  the order they arrived, are those that left followed by those still queued; those handed out
  are in arrival order; one that left without being handed out had fired its token; and the
  queue never holds more than \<open>m\<close>.
\<close>

theorem fifo_service_order:
  "let l = foldl (\<lambda>l call. queue_exec try_enqueue pop_eligible drop_cancelled_head fq_waiters call l)
             \<lparr>ql_queue = fifo_new m, ql_fired = {}, ql_accepted = [], ql_left = []\<rparr> calls
   in ql_accepted l = map fst (ql_left l) @ fq_waiters (ql_queue l) \<and>
      subseq (map fst (filter snd (ql_left l))) (ql_accepted l) \<and>
      list_all (\<lambda>(w, handed_out). handed_out \<or> w_cancel w \<in> ql_fired l) (ql_left l) \<and>
      depth (ql_queue l) \<le> m"
proof -
  let ?l0 = "\<lparr>ql_queue = fifo_new m, ql_fired = {}, ql_accepted = [], ql_left = []\<rparr>"
  define l where "l = foldl (\<lambda>l call. queue_exec try_enqueue pop_eligible drop_cancelled_head fq_waiters call l) ?l0 calls"
  have "log_ok fq_waiters ?l0" "depth (ql_queue ?l0) \<le> queue_capacity (ql_queue ?l0)"
    by (simp_all add: log_ok_def fifo_new_def depth_def)
  from fifo.run_ok [OF this, of calls]
  have ok: "log_ok fq_waiters l" and "depth (ql_queue l) \<le> m"
    by (simp_all add: l_def queue_capacity_def fifo_new_def)
  moreover have "subseq (map fst (filter snd (ql_left l))) (ql_accepted l)"
    using ok subseq_map [OF subseq_filter_left [of snd "ql_left l"], of fst]
    by (simp add: log_ok_def list_emb_prefix)
  moreover have "list_all (\<lambda>(w, handed_out). handed_out \<or> w_cancel w \<in> ql_fired l) (ql_left l)"
  proof -
    have "b \<or> w_cancel w \<in> ql_fired l" if "(w, b) \<in> set (ql_left l)" for w b
      using ok that by (cases b) (simp_all add: log_ok_def)
    then show ?thesis by (auto simp: list_all_iff)
  qed
  ultimately show ?thesis
    unfolding l_def [symmetric] Let_def by (simp add: log_ok_def)
qed

text \<open>Both sides of the race over one handle, in any order.\<close>

datatype handle_call = H_preempt | H_first_byte u64

fun handle_exec :: "handle_call \<Rightarrow> inflight_handle \<Rightarrow> inflight_handle \<times> bool" where
  "handle_exec H_preempt h = preempt h"
| "handle_exec (H_first_byte now_ms) h = try_mark_first_byte now_ms h"

fun handle_run :: "handle_call list \<Rightarrow> inflight_handle \<Rightarrow> inflight_handle \<times> bool list" where
  "handle_run [] h = (h, [])"
| "handle_run (c # cs) h =
     (case handle_exec c h of (h1, won) \<Rightarrow> case handle_run cs h1 of (h2, wons) \<Rightarrow> (h2, won # wons))"

lemma first_byte_value: "clamp 1 (PREEMPTED_SENTINEL - 1) x \<noteq> 0" "clamp 1 (PREEMPTED_SENTINEL - 1) x \<noteq> PREEMPTED_SENTINEL"
  for x :: u64
proof -
  have "(1 :: u64) \<le> PREEMPTED_SENTINEL - 1" "PREEMPTED_SENTINEL - 1 < PREEMPTED_SENTINEL"
    by (simp_all add: PREEMPTED_SENTINEL_def u64_max_def word_le_nat_alt word_less_nat_alt unat_all_ones)
  then show "clamp 1 (PREEMPTED_SENTINEL - 1) x \<noteq> 0" "clamp 1 (PREEMPTED_SENTINEL - 1) x \<noteq> PREEMPTED_SENTINEL"
    by (auto simp: clamp_def not_less)
qed

lemma handle_run_settled:
  "ih_first_byte_at h \<noteq> 0 \<Longrightarrow> handle_run calls h = (h, replicate (length calls) False)"
proof (induction calls)
  case (Cons c calls)
  then show ?case
    by (cases c) (simp_all add: preempt_def try_mark_preempted_def try_mark_first_byte_def)
qed simp

text \<open>C25.
  A request is preempted or streams, never both.  Whatever order preemptions and first bytes
  reach a fresh handle in, exactly the first call wins and every later one loses; the handle is
  cancelled if and only if a preemption won, and then its cell holds the sentinel; a first byte,
  whatever its time, leaves the cell neither unset nor at the sentinel.
\<close>

theorem preemption_excludes_first_byte:
  assumes "handle_run (c # calls) (handle_new now class request_id) = (h, wons)"
  shows "wons = True # replicate (length calls) False \<and> \<not> is_preemptible h \<and>
         (ih_cancelled h \<longleftrightarrow> c = H_preempt) \<and> (ih_first_byte_at h = PREEMPTED_SENTINEL \<longleftrightarrow> c = H_preempt)"
proof -
  obtain h1 where exec: "handle_exec c (handle_new now class request_id) = (h1, True)"
    and h1: "ih_first_byte_at h1 \<noteq> 0" "ih_cancelled h1 \<longleftrightarrow> c = H_preempt"
      "ih_first_byte_at h1 = PREEMPTED_SENTINEL \<longleftrightarrow> c = H_preempt"
    using first_byte_value
    by (cases c) (auto simp: handle_new_def preempt_def try_mark_preempted_def try_mark_first_byte_def
        handle_cancel_def Let_def, simp_all add: PREEMPTED_SENTINEL_def u64_max_def)
  show ?thesis
    using assms h1 by (auto simp: exec handle_run_settled is_preemptible_def)
qed

theorem preemption_excludes_first_byte_witness:
  "snd (handle_run [H_first_byte 0, H_preempt] (handle_new 5 Bulk ''r'')) = [True, False] \<and>
   \<not> ih_cancelled (fst (handle_run [H_first_byte 0, H_preempt] (handle_new 5 Bulk ''r'')))"
  using preemption_excludes_first_byte [OF surjective_pairing, of "H_first_byte 0" "[H_preempt]" 5 Bulk "''r''"]
  by simp

end
