(* ===== verification/Rust_Float.thy ===== *)
theory Rust_Float
  imports Smg_Prelude "HOL-Library.Log_Nat"
begin

text \<open>
  The part of \<open>f64\<close> arithmetic the gateway uses.  A value is not-a-number, an infinity or a
  rational; the two zeros are one value, since no code here tells them apart.  Every operation is
  the exact one followed by rounding to the nearest double, ties to even: the result is a
  multiple of the unit in the last place \<open>2^e\<close>, where \<open>e\<close> leaves 53 significant bits and is at
  least \<open>-1074\<close>, and overflows to an infinity.
\<close>

datatype f64 = F_nan | F_inf bool | F_fin rat

definition exp2 :: "int \<Rightarrow> rat" where
  "exp2 e = (if 0 \<le> e then 2 ^ nat e else 1 / 2 ^ nat (- e))"

text \<open>The binary logarithm of a positive rational, rounded down.\<close>

definition ilog2 :: "rat \<Rightarrow> int" where
  "ilog2 x =
     (case quotient_of x of (p, q) \<Rightarrow>
        let k = int (floorlog 2 (nat p)) - int (floorlog 2 (nat q)) in if exp2 k \<le> x then k else k - 1)"

definition round_half_even :: "rat \<Rightarrow> int" where
  "round_half_even y =
     (let f = \<lfloor>y\<rfloor>; d = y - of_int f
      in if d < 1 / 2 then f else if 1 / 2 < d then f + 1 else if even f then f else f + 1)"

definition ulp_exp :: "rat \<Rightarrow> int" where
  "ulp_exp x = max (- 1074) (ilog2 \<bar>x\<bar> - 52)"

definition f64_round :: "rat \<Rightarrow> f64" where
  "f64_round x =
     (if x = 0 then F_fin 0
      else let v = of_int (round_half_even (x / exp2 (ulp_exp x))) * exp2 (ulp_exp x)
           in if exp2 1024 \<le> \<bar>v\<bar> then F_inf (x < 0) else F_fin v)"

definition f64_of_nat :: "nat \<Rightarrow> f64" where
  "f64_of_nat n = f64_round (of_nat n)"

fun f64_neg :: "f64 \<Rightarrow> f64" where
  "f64_neg F_nan = F_nan"
| "f64_neg (F_inf neg) = F_inf (\<not> neg)"
| "f64_neg (F_fin x) = F_fin (- x)"

fun f64_add :: "f64 \<Rightarrow> f64 \<Rightarrow> f64" where
  "f64_add (F_fin x) (F_fin y) = f64_round (x + y)"
| "f64_add (F_inf a) (F_inf b) = (if a = b then F_inf a else F_nan)"
| "f64_add (F_inf a) (F_fin y) = F_inf a"
| "f64_add (F_fin x) (F_inf b) = F_inf b"
| "f64_add _ _ = F_nan"

definition f64_sub :: "f64 \<Rightarrow> f64 \<Rightarrow> f64" where
  "f64_sub x y = f64_add x (f64_neg y)"

fun f64_mul :: "f64 \<Rightarrow> f64 \<Rightarrow> f64" where
  "f64_mul (F_fin x) (F_fin y) = f64_round (x * y)"
| "f64_mul (F_inf a) (F_inf b) = F_inf (a \<noteq> b)"
| "f64_mul (F_inf a) (F_fin y) = (if y = 0 then F_nan else F_inf (a \<noteq> (y < 0)))"
| "f64_mul (F_fin x) (F_inf b) = (if x = 0 then F_nan else F_inf ((x < 0) \<noteq> b))"
| "f64_mul _ _ = F_nan"

text \<open>Division by zero is not reached with a negative zero, so its result has the dividend's sign.\<close>

fun f64_div :: "f64 \<Rightarrow> f64 \<Rightarrow> f64" where
  "f64_div (F_fin x) (F_fin y) =
     (if y = 0 then (if x = 0 then F_nan else F_inf (x < 0)) else f64_round (x / y))"
| "f64_div (F_inf a) (F_fin y) = F_inf (a \<noteq> (y < 0))"
| "f64_div (F_fin x) (F_inf b) = F_fin 0"
| "f64_div _ _ = F_nan"

fun f64_le :: "f64 \<Rightarrow> f64 \<Rightarrow> bool" where
  "f64_le (F_fin x) (F_fin y) \<longleftrightarrow> x \<le> y"
| "f64_le (F_inf a) (F_inf b) \<longleftrightarrow> a \<or> \<not> b"
| "f64_le (F_inf a) (F_fin y) \<longleftrightarrow> a"
| "f64_le (F_fin x) (F_inf b) \<longleftrightarrow> \<not> b"
| "f64_le _ _ \<longleftrightarrow> False"

fun f64_lt :: "f64 \<Rightarrow> f64 \<Rightarrow> bool" where
  "f64_lt (F_fin x) (F_fin y) \<longleftrightarrow> x < y"
| "f64_lt (F_inf a) (F_inf b) \<longleftrightarrow> a \<and> \<not> b"
| "f64_lt (F_inf a) (F_fin y) \<longleftrightarrow> a"
| "f64_lt (F_fin x) (F_inf b) \<longleftrightarrow> \<not> b"
| "f64_lt _ _ \<longleftrightarrow> False"

text \<open>\<open>min\<close> and \<open>max\<close> return the other operand when one is not a number.\<close>

definition f64_min :: "f64 \<Rightarrow> f64 \<Rightarrow> f64" where
  "f64_min x y = (if x = F_nan then y else if y = F_nan then x else if f64_le x y then x else y)"

definition f64_max :: "f64 \<Rightarrow> f64 \<Rightarrow> f64" where
  "f64_max x y = (if x = F_nan then y else if y = F_nan then x else if f64_le x y then y else x)"

fun f64_ceil :: "f64 \<Rightarrow> f64" where
  "f64_ceil (F_fin x) = F_fin (of_int \<lceil>x\<rceil>)"
| "f64_ceil x = x"

fun is_finite :: "f64 \<Rightarrow> bool" where
  "is_finite (F_fin x) \<longleftrightarrow> True"
| "is_finite _ \<longleftrightarrow> False"

text \<open>A float-to-integer cast saturates at the bounds and sends not-a-number to zero.\<close>

fun f64_as_u32 :: "f64 \<Rightarrow> nat" where
  "f64_as_u32 F_nan = 0"
| "f64_as_u32 (F_inf neg) = (if neg then 0 else 2 ^ 32 - 1)"
| "f64_as_u32 (F_fin x) = min (nat (if x < 0 then 0 else \<lfloor>x\<rfloor>)) (2 ^ 32 - 1)"

fun f64_as_u64 :: "f64 \<Rightarrow> u64" where
  "f64_as_u64 F_nan = 0"
| "f64_as_u64 (F_inf neg) = (if neg then 0 else u64_max)"
| "f64_as_u64 (F_fin x) = (if x < 0 then 0 else if 2 ^ 64 \<le> \<lfloor>x\<rfloor> then u64_max else word_of_int \<lfloor>x\<rfloor>)"

text \<open>An integer cast to a float is rounded; \<open>Duration::as_secs_f64\<close> adds the whole seconds and
  the nanoseconds divided by \<open>10^9\<close>.\<close>

definition f64_of_int :: "int \<Rightarrow> f64" where
  "f64_of_int n = f64_round (of_int n)"

definition as_secs_f64 :: "nat \<Rightarrow> f64" where
  "as_secs_f64 ns =
     f64_add (f64_of_nat (ns div 1000000000)) (f64_div (f64_of_nat (ns mod 1000000000)) (F_fin 1000000000))"

section \<open>Facts\<close>

lemma exp2_pos [simp]: "0 < exp2 e"
  by (simp add: exp2_def)

lemma exp2_0 [simp]: "exp2 0 = 1"
  by (simp add: exp2_def)

lemma round_half_even_int [simp]: "round_half_even (of_int n) = n"
  by (simp add: round_half_even_def)

lemma round_half_even_nonneg: "0 \<le> y \<Longrightarrow> 0 \<le> round_half_even y"
  by (auto simp: round_half_even_def Let_def)

lemma f64_round_nonneg:
  assumes "0 \<le> x"
  shows "f64_le (F_fin 0) (f64_round x)"
proof -
  have "0 \<le> round_half_even (x / exp2 (ulp_exp x))"
    using assms by (intro round_half_even_nonneg divide_nonneg_nonneg) (simp_all add: less_imp_le)
  then show ?thesis
    using assms by (auto simp: f64_round_def Let_def less_imp_le)
qed

text \<open>An integer of at most 53 bits is a double.\<close>

lemma exp2_add: "exp2 (a + int n) = exp2 a * 2 ^ n"
proof (cases "0 \<le> a")
  case True
  then show ?thesis by (simp add: exp2_def nat_add_distrib power_add)
next
  case False
  show ?thesis
  proof (cases "0 \<le> a + int n")
    case True
    then have "n = nat (a + int n) + nat (- a)" using False by linarith
    then have "(2 :: rat) ^ n = 2 ^ nat (a + int n) * 2 ^ nat (- a)" by (metis power_add)
    then show ?thesis using True False by (simp add: exp2_def)
  next
    case neg: False
    then have "nat (- a) = nat (- (a + int n)) + n" using False by linarith
    then have "(2 :: rat) ^ nat (- a) = 2 ^ nat (- (a + int n)) * 2 ^ n" by (metis power_add)
    then show ?thesis using neg False by (simp add: exp2_def)
  qed
qed

lemma exp2_int_multiple:
  assumes "e \<le> 0"
  shows "of_int n / exp2 e = (of_int (n * 2 ^ nat (- e)) :: rat)"
  using assms by (simp add: exp2_def)


lemma ilog2_int_le:
  assumes "0 < n" "n < 2 ^ m"
  shows "ilog2 (of_int n) < int m"
proof -
  have "floorlog 2 (nat n) \<le> m"
    using assms by (intro floorlog_leI) (auto simp: nat_less_iff)
  moreover have "floorlog 2 (nat 1) = 1"
    by (simp add: floorlog_def)
  ultimately show ?thesis
    by (simp add: ilog2_def Let_def)
qed

lemma f64_round_int:
  assumes "\<bar>n\<bar> < 2 ^ 53"
  shows "f64_round (of_int n) = F_fin (of_int n)"
proof (cases "n = 0")
  case False
  have "ilog2 (of_int \<bar>n\<bar>) < 53"
    using ilog2_int_le [of "\<bar>n\<bar>" 53] assms False by simp
  then have "ulp_exp (of_int n) \<le> 0"
    by (simp add: ulp_exp_def)
  then have "round_half_even (of_int n / exp2 (ulp_exp (of_int n))) = n * 2 ^ nat (- ulp_exp (of_int n))"
    by (simp only: exp2_int_multiple round_half_even_int)
  moreover have "of_int (n * 2 ^ nat (- ulp_exp (of_int n))) * exp2 (ulp_exp (of_int n)) = (of_int n :: rat)"
    using \<open>ulp_exp (of_int n) \<le> 0\<close> by (simp add: exp2_def)
  moreover have "\<not> exp2 1024 \<le> \<bar>of_int n :: rat\<bar>"
  proof -
    have "\<bar>of_int n :: rat\<bar> < 2 ^ 53"
      using assms by (metis of_int_abs of_int_less_iff of_int_numeral of_int_power)
    also have "(2 :: rat) ^ 53 \<le> exp2 1024"
      by (simp add: exp2_def power_increasing)
    finally show ?thesis by simp
  qed
  ultimately show ?thesis
    using False unfolding f64_round_def Let_def by (simp only: of_int_eq_0_iff if_False)
qed (simp add: f64_round_def)

lemma f64_of_nat_exact: "n < 2 ^ 53 \<Longrightarrow> f64_of_nat n = F_fin (of_nat n)"
  using f64_round_int [of "int n"] by (simp add: f64_of_nat_def)

lemma f64_of_nat_nonneg: "f64_le (F_fin 0) (f64_of_nat n)"
  by (simp add: f64_of_nat_def f64_round_nonneg)

lemma f64_le_refl [simp]: "f64_le x x \<longleftrightarrow> x \<noteq> F_nan"
  by (cases x) simp_all

lemma f64_le_trans: "f64_le x y \<Longrightarrow> f64_le y z \<Longrightarrow> f64_le x z"
  by (cases x; cases y; cases z) auto

lemma f64_not_le: "x \<noteq> F_nan \<Longrightarrow> y \<noteq> F_nan \<Longrightarrow> \<not> f64_le x y \<longleftrightarrow> f64_lt y x"
  by (cases x; cases y) auto

lemma f64_round_not_nan [simp]: "f64_round x \<noteq> F_nan"
  by (simp add: f64_round_def Let_def)

lemma f64_min_le: "y \<noteq> F_nan \<Longrightarrow> f64_le (f64_min x y) y"
  by (cases x; cases y) (auto simp: f64_min_def)

lemma f64_max_ge: "y \<noteq> F_nan \<Longrightarrow> f64_le y (f64_max x y)"
  by (cases x; cases y) (auto simp: f64_max_def)

section \<open>Rounding is monotone and idempotent\<close>

lemma abs_exp2 [simp]: "\<bar>exp2 e\<bar> = exp2 e"
  using exp2_pos [of e] by linarith

lemma exp2_diff: "exp2 (int a - int b) = 2 ^ a / 2 ^ b"
proof (cases "b \<le> a")
  case True
  then show ?thesis
    by (simp add: exp2_def power_diff of_nat_diff [symmetric] del: of_nat_diff)
next
  case False
  then have "nat (- (int a - int b)) = b - a" by simp
  then show ?thesis using False by (simp add: exp2_def power_diff)
qed

lemma exp2_Suc: "exp2 (k + 1) = 2 * exp2 k"
  using exp2_add [of k 1] by simp

lemma exp2_mono: "a \<le> b \<Longrightarrow> exp2 a \<le> exp2 b"
proof -
  assume "a \<le> b"
  then have "exp2 b = exp2 a * 2 ^ nat (b - a)" using exp2_add [of a "nat (b - a)"] by simp
  moreover have "exp2 a * 1 \<le> exp2 a * 2 ^ nat (b - a)"
    by (intro mult_left_mono) (simp_all add: less_imp_le)
  ultimately show "exp2 a \<le> exp2 b" by simp
qed

lemma ilog2_bracket:
  assumes "0 < x"
  shows "exp2 (ilog2 x) \<le> x" "x < exp2 (ilog2 x + 1)"
proof -
  obtain p q where pq: "quotient_of x = (p, q)" by (cases "quotient_of x")
  have x: "x = of_int p / of_int q" and q: "0 < q"
    using pq by (auto intro: quotient_of_div quotient_of_denom_pos)
  have p: "0 < p" using assms q by (simp add: x zero_less_divide_iff)
  let ?a = "floorlog 2 (nat p)" and ?b = "floorlog 2 (nat q)"
  let ?k = "int ?a - int ?b"
  have "2 ^ (?a - 1) \<le> nat p \<and> nat p < 2 ^ ?a" "2 ^ (?b - 1) \<le> nat q \<and> nat q < 2 ^ ?b"
    using floorlog_bounds [of "nat p" 2] floorlog_bounds [of "nat q" 2] p q by simp_all
  moreover have "?a \<noteq> 0" "?b \<noteq> 0" using p q by (simp_all add: floorlog_eq_zero_iff)
  ultimately have nb: "2 ^ ?a \<le> 2 * nat p" "nat p < 2 ^ ?a" "2 ^ ?b \<le> 2 * nat q" "nat q < 2 ^ ?b"
    by (simp_all add: power_eq_if)
  have b: "(2 :: rat) ^ ?a \<le> 2 * of_int p" "of_int p < (2 :: rat) ^ ?a"
    "(2 :: rat) ^ ?b \<le> 2 * of_int q" "of_int q < (2 :: rat) ^ ?b"
    using nb p q unfolding of_nat_le_iff [where 'a = rat, symmetric] of_nat_less_iff [where 'a = rat, symmetric]
    by simp_all
  have qr: "(0 :: rat) < of_int q" and pr: "(0 :: rat) < of_int p" using p q by simp_all
  have hi: "x < exp2 (?k + 1)"
  proof -
    have "of_int p * (2 :: rat) ^ ?b < 2 ^ ?a * (2 * of_int q)"
      using b pr qr by (intro mult_less_le_imp_less) auto
    then have "x < 2 * (2 ^ ?a / 2 ^ ?b)" using qr by (simp add: x field_simps)
    then show ?thesis by (simp only: exp2_Suc exp2_diff)
  qed
  have lo: "exp2 (?k - 1) \<le> x"
  proof -
    have "(2 :: rat) ^ ?a * of_int q \<le> 2 * of_int p * 2 ^ ?b"
      using b pr qr by (intro mult_mono) auto
    then have "2 ^ ?a / 2 ^ ?b / 2 \<le> x" using qr by (simp add: x field_simps)
    moreover have "exp2 ?k = 2 * exp2 (?k - 1)" using exp2_Suc [of "?k - 1"] by simp
    then have "exp2 (?k - 1) = 2 ^ ?a / 2 ^ ?b / 2" by (simp add: exp2_diff)
    ultimately show ?thesis by simp
  qed
  have "ilog2 x = (if exp2 ?k \<le> x then ?k else ?k - 1)"
    by (simp add: ilog2_def pq Let_def)
  then show "exp2 (ilog2 x) \<le> x" "x < exp2 (ilog2 x + 1)"
    using hi lo by auto
qed

lemma ilog2_mono: "0 < x \<Longrightarrow> x \<le> y \<Longrightarrow> ilog2 x \<le> ilog2 y"
proof (rule ccontr)
  assume xy: "0 < x" "x \<le> y" and "\<not> ilog2 x \<le> ilog2 y"
  then have "exp2 (ilog2 y + 1) \<le> exp2 (ilog2 x)" by (intro exp2_mono) simp
  also have "\<dots> \<le> y" using ilog2_bracket(1) [OF xy(1)] xy(2) by simp
  also have "y < exp2 (ilog2 y + 1)" using ilog2_bracket(2) xy by simp
  finally show False by simp
qed

lemma round_half_even_mono:
  assumes "x \<le> y"
  shows "round_half_even x \<le> round_half_even y"
proof (cases "\<lfloor>x\<rfloor> = \<lfloor>y\<rfloor>")
  case True
  then show ?thesis using assms by (auto simp: round_half_even_def Let_def)
next
  case False
  then have "\<lfloor>x\<rfloor> + 1 \<le> \<lfloor>y\<rfloor>" using assms floor_mono [OF assms] by linarith
  moreover have "round_half_even x \<le> \<lfloor>x\<rfloor> + 1" "\<lfloor>y\<rfloor> \<le> round_half_even y"
    by (auto simp: round_half_even_def Let_def)
  ultimately show ?thesis by linarith
qed

lemma round_half_even_neg: "round_half_even (- y) = - round_half_even y"
proof (cases "y = of_int \<lfloor>y\<rfloor>")
  case True
  then show ?thesis by (metis of_int_minus round_half_even_int)
next
  case False
  then have "\<lfloor>- y\<rfloor> = - \<lfloor>y\<rfloor> - 1"
    by (simp add: floor_minus ceiling_altdef)
  then show ?thesis
    by (auto simp: round_half_even_def Let_def)
qed

lemma exp2_ge_multiple:
  assumes "u \<le> k"
  shows "exp2 k / exp2 u = of_int (2 ^ nat (k - u))"
proof -
  have "exp2 k = exp2 u * 2 ^ nat (k - u)" using exp2_add [of u "nat (k - u)"] assms by simp
  then show ?thesis using exp2_pos [of u] by (simp add: less_le)
qed

definition round_to :: "int \<Rightarrow> rat \<Rightarrow> rat" where
  "round_to e x = of_int (round_half_even (x / exp2 e)) * exp2 e"

lemma round_to_mono: "x \<le> y \<Longrightarrow> round_to e x \<le> round_to e y"
  unfolding round_to_def
  by (intro mult_right_mono of_int_le_iff [THEN iffD2] round_half_even_mono divide_right_mono) (simp_all add: less_imp_le)

lemma round_to_multiple: "x = of_int m * exp2 e \<Longrightarrow> round_to e x = x"
  using exp2_pos [of e] by (simp add: round_to_def less_le)

lemma round_to_exp2: "e \<le> k \<Longrightarrow> round_to e (exp2 k) = exp2 k"
  using exp2_ge_multiple [of e k] exp2_pos [of e]
  by (intro round_to_multiple [of _ "2 ^ nat (k - e)"]) (simp add: field_simps)

lemma round_to_neg: "round_to e (- x) = - round_to e x"
  by (simp add: round_to_def round_half_even_neg)

definition rounded :: "rat \<Rightarrow> rat" where
  "rounded x = (if x = 0 then 0 else round_to (ulp_exp x) x)"

lemma rounded_neg: "rounded (- x) = - rounded x"
  by (simp add: rounded_def round_to_neg ulp_exp_def)

lemma rounded_nonneg: "0 \<le> x \<Longrightarrow> 0 \<le> rounded x"
  using round_to_mono [of 0 x "ulp_exp x"] round_to_multiple [of 0 0 "ulp_exp x"] by (simp add: rounded_def)

lemma rounded_mono_pos:
  assumes "0 < x" "x \<le> y"
  shows "rounded x \<le> rounded y"
proof (cases "ulp_exp x = ulp_exp y")
  case True
  then show ?thesis using assms by (simp add: rounded_def round_to_mono)
next
  case False
  have y: "0 < y" using assms by simp
  have log: "ilog2 x \<le> ilog2 y" using ilog2_mono assms by blast
  then have lt: "ilog2 x < ilog2 y" "- 1074 < ilog2 y - 52"
    using False assms y by (auto simp: ulp_exp_def)
  have "x \<le> exp2 (ilog2 y)"
    using ilog2_bracket(2) [OF assms(1)] exp2_mono [of "ilog2 x + 1" "ilog2 y"] lt by simp
  moreover have "ulp_exp x \<le> ilog2 y" "ulp_exp y \<le> ilog2 y"
    using lt assms y by (auto simp: ulp_exp_def)
  ultimately have "rounded x \<le> exp2 (ilog2 y)" "exp2 (ilog2 y) \<le> rounded y"
    using round_to_mono [of x "exp2 (ilog2 y)" "ulp_exp x"] round_to_exp2
      round_to_mono [of "exp2 (ilog2 y)" y "ulp_exp y"] ilog2_bracket(1) [OF y] assms y
    by (simp_all add: rounded_def)
  then show ?thesis by simp
qed

lemma rounded_mono: "x \<le> y \<Longrightarrow> rounded x \<le> rounded y"
proof -
  assume xy: "x \<le> y"
  consider "0 < x" | "x \<le> 0" "0 \<le> y" | "y < 0" by linarith
  then show ?thesis
  proof cases
    case 1
    then show ?thesis using xy by (rule rounded_mono_pos)
  next
    case 2
    then show ?thesis using rounded_nonneg [of y] rounded_nonneg [of "- x"] by (simp add: rounded_neg)
  next
    case 3
    then show ?thesis using rounded_mono_pos [of "- y" "- x"] xy by (simp add: rounded_neg)
  qed
qed

lemma f64_round_rounded:
  "f64_round x = (if exp2 1024 \<le> \<bar>rounded x\<bar> then F_inf (x < 0) else F_fin (rounded x))"
  using exp2_pos [of 1024] by (simp add: f64_round_def rounded_def round_to_def Let_def not_le)

lemma f64_round_mono: "x \<le> y \<Longrightarrow> f64_le (f64_round x) (f64_round y)"
proof -
  assume xy: "x \<le> y"
  have m: "rounded x \<le> rounded y" using xy by (rule rounded_mono)
  have s: "x < 0 \<Longrightarrow> rounded x \<le> 0" "0 \<le> x \<Longrightarrow> 0 \<le> rounded x"
    "y < 0 \<Longrightarrow> rounded y \<le> 0" "0 \<le> y \<Longrightarrow> 0 \<le> rounded y"
    using rounded_nonneg rounded_neg [of x] rounded_neg [of y]
    by (metis le_minus_iff less_imp_le minus_zero neg_0_le_iff_le)+
  show ?thesis
    using m s xy exp2_pos [of 1024]
    by (cases "x < 0"; cases "y < 0") (auto simp: f64_round_rounded abs_if split: if_splits)
qed

lemma rounded_multiple:
  assumes "x = of_int m * exp2 e" "\<bar>m\<bar> \<le> 2 ^ 53" "- 1074 \<le> e"
  shows "rounded x = x"
proof (cases "x = 0")
  case False
  then have m: "m \<noteq> 0" using assms(1) by auto
  have ax: "\<bar>x\<bar> = of_int \<bar>m\<bar> * exp2 e" by (simp add: assms(1) abs_mult)
  show ?thesis
  proof (cases "\<bar>m\<bar> = 2 ^ 53")
    case True
    then have "\<bar>x\<bar> = exp2 (e + 53)" using exp2_add [of e 53] by (simp add: ax)
    moreover have "ilog2 (exp2 (e + 53)) \<le> e + 53"
    proof (rule ccontr)
      assume "\<not> ilog2 (exp2 (e + 53)) \<le> e + 53"
      then have "exp2 (e + 53 + 1) \<le> exp2 (ilog2 (exp2 (e + 53)))" by (intro exp2_mono) simp
      also have "\<dots> \<le> exp2 (e + 53)" by (rule ilog2_bracket(1)) simp
      finally show False using exp2_pos [of "e + 53"] by (simp only: exp2_Suc)
    qed
    ultimately have "ulp_exp x \<le> e + 53"
      using assms(3) by (simp add: ulp_exp_def)
    then have "round_to (ulp_exp x) \<bar>x\<bar> = \<bar>x\<bar>"
      using \<open>\<bar>x\<bar> = exp2 (e + 53)\<close> by (simp add: round_to_exp2)
    then show ?thesis
      using False round_to_neg [of "ulp_exp x" x] by (cases "0 \<le> x") (simp_all add: rounded_def)
  next
    case below: False
    have "\<bar>x\<bar> < exp2 (e + 53)"
    proof -
      have "\<bar>m\<bar> < 2 ^ 53" using below assms(2) by linarith
      then have "(of_int \<bar>m\<bar> :: rat) < of_int (2 ^ 53)" by (simp only: of_int_less_iff)
      then have "of_int \<bar>m\<bar> * exp2 e < 2 ^ 53 * exp2 e" by (intro mult_strict_right_mono) simp_all
      then show ?thesis using exp2_add [of e 53] by (simp add: ax)
    qed
    then have "ilog2 \<bar>x\<bar> < e + 53"
    proof -
      assume lt: "\<bar>x\<bar> < exp2 (e + 53)"
      show ?thesis
      proof (rule ccontr)
        assume "\<not> ?thesis"
        then have "exp2 (e + 53) \<le> exp2 (ilog2 \<bar>x\<bar>)" by (intro exp2_mono) simp
        then show False using ilog2_bracket(1) [of "\<bar>x\<bar>"] False lt by simp
      qed
    qed
    then have ulp: "ulp_exp x \<le> e" using assms(3) by (simp add: ulp_exp_def)
    have "exp2 e = exp2 (ulp_exp x) * 2 ^ nat (e - ulp_exp x)"
      using exp2_add [of "ulp_exp x" "nat (e - ulp_exp x)"] ulp by simp
    then have "x = of_int (m * 2 ^ nat (e - ulp_exp x)) * exp2 (ulp_exp x)"
      by (simp add: assms(1) mult.commute)
    then have "round_to (ulp_exp x) x = x" by (rule round_to_multiple)
    then show ?thesis by (simp add: rounded_def)
  qed
qed (simp add: rounded_def)

lemma rounded_idem: "rounded (rounded x) = rounded x"
proof (cases "x = 0")
  case False
  let ?e = "ulp_exp x" and ?m = "round_half_even (x / exp2 (ulp_exp x))"
  have "\<bar>x\<bar> < exp2 (ilog2 \<bar>x\<bar> + 1)" using ilog2_bracket(2) [of "\<bar>x\<bar>"] False by simp
  also have "\<dots> \<le> exp2 (?e + 53)" by (intro exp2_mono) (simp add: ulp_exp_def)
  finally have "\<bar>x\<bar> < 2 ^ 53 * exp2 ?e" using exp2_add [of ?e 53] by (simp add: mult.commute)
  then have "\<bar>x / exp2 ?e\<bar> \<le> of_int (2 ^ 53)" using exp2_pos [of ?e] by (simp add: field_simps)
  then have "x / exp2 ?e \<le> of_int (2 ^ 53)" "of_int (- (2 ^ 53)) \<le> x / exp2 ?e"
    unfolding abs_le_iff of_int_minus by linarith+
  then have "?m \<le> 2 ^ 53" "- (2 ^ 53) \<le> ?m"
    using round_half_even_mono round_half_even_int by metis+
  then show ?thesis
    using False by (intro rounded_multiple [of _ ?m ?e]) (auto simp: rounded_def round_to_def ulp_exp_def)
qed (simp add: rounded_def)

text \<open>A value of the type that a computation can produce.\<close>

fun f64_ok :: "f64 \<Rightarrow> bool" where
  "f64_ok (F_fin x) \<longleftrightarrow> f64_round x = F_fin x"
| "f64_ok _ \<longleftrightarrow> True"

lemma f64_round_ok: "f64_ok (f64_round x)"
  by (simp add: f64_round_rounded rounded_idem)

lemma f64_of_nat_ok: "f64_ok (f64_of_nat n)"
  by (simp add: f64_of_nat_def f64_round_ok)

lemma f64_round_le_ok: "f64_ok (F_fin y) \<Longrightarrow> x \<le> y \<Longrightarrow> f64_le (f64_round x) (F_fin y)"
  using f64_round_mono [of x y] by simp

lemma f64_round_ge_ok: "f64_ok (F_fin x) \<Longrightarrow> x \<le> y \<Longrightarrow> f64_le (F_fin x) (f64_round y)"
  using f64_round_mono [of x y] by simp

lemma f64_ok_int: "\<bar>n\<bar> < 2 ^ 53 \<Longrightarrow> f64_ok (F_fin (of_int n))"
  by (simp add: f64_round_int)

lemma f64_ok_0 [simp]: "f64_ok (F_fin 0)"
  by (simp add: f64_round_def)

lemma f64_add_ok [simp]: "f64_ok (f64_add x y)"
  by (cases x; cases y) (simp_all add: f64_round_ok)

lemma f64_sub_ok [simp]: "f64_ok (f64_sub x y)"
  by (simp add: f64_sub_def)

lemma f64_min_ok: "f64_ok x \<Longrightarrow> f64_ok y \<Longrightarrow> f64_ok (f64_min x y)"
  by (simp add: f64_min_def)

lemma f64_max_ok: "f64_ok x \<Longrightarrow> f64_ok y \<Longrightarrow> f64_ok (f64_max x y)"
  by (simp add: f64_max_def)

lemma f64_sub_le:
  assumes "f64_le x c" "f64_le (F_fin 0) t" "f64_ok c" "is_finite c" "is_finite t" "is_finite x"
  shows "f64_le (f64_sub x t) c"
proof -
  obtain a b d where "x = F_fin a" "t = F_fin b" "c = F_fin d"
    using assms(4-6) by (metis is_finite.elims(2))
  then show ?thesis
    using assms f64_round_le_ok [of d "a - b"] by (simp add: f64_sub_def)
qed

lemma f64_sub_nonneg:
  assumes "f64_le t x" "is_finite t" "is_finite x"
  shows "f64_le (F_fin 0) (f64_sub x t)"
proof -
  obtain a b where "x = F_fin a" "t = F_fin b"
    using assms(2,3) by (metis is_finite.elims(2))
  then show ?thesis
    using assms(1) f64_round_nonneg [of "a - b"] by (simp add: f64_sub_def)
qed

text \<open>Between zero and a finite bound everything is finite.\<close>

lemma f64_between_finite: "f64_le (F_fin 0) x \<Longrightarrow> f64_le x c \<Longrightarrow> is_finite c \<Longrightarrow> is_finite x"
  by (cases x; cases c) auto

lemma f64_add_nonneg: "f64_le (F_fin 0) x \<Longrightarrow> f64_le (F_fin 0) y \<Longrightarrow> f64_le (F_fin 0) (f64_add x y)"
  by (cases x; cases y) (auto simp: f64_round_nonneg)

lemma f64_mul_nonneg: "f64_le (F_fin 0) x \<Longrightarrow> f64_lt (F_fin 0) y \<Longrightarrow> f64_le (F_fin 0) (f64_mul x y) \<or> f64_mul x y = F_nan"
  by (cases x; cases y) (auto simp: f64_round_nonneg)

lemma f64_div_nonneg: "0 \<le> x \<Longrightarrow> 0 < y \<Longrightarrow> f64_le (F_fin 0) (f64_div (F_fin x) (F_fin y))"
  by (auto simp: f64_round_nonneg)

lemma as_secs_f64_nonneg: "f64_le (F_fin 0) (as_secs_f64 ns)"
proof -
  have small: "f64_of_nat (ns mod 1000000000) = F_fin (of_nat (ns mod 1000000000))"
    by (rule f64_of_nat_exact) (rule less_trans [OF mod_less_divisor], simp_all)
  show ?thesis
    unfolding as_secs_f64_def small
    by (intro f64_add_nonneg f64_of_nat_nonneg f64_div_nonneg) simp_all
qed

lemma f64_min_nonneg: "f64_le (F_fin 0) x \<or> x = F_nan \<Longrightarrow> f64_le (F_fin 0) y \<Longrightarrow> f64_le (F_fin 0) (f64_min x y)"
  by (cases x; cases y) (auto simp: f64_min_def)

lemma f64_max_0: "x \<noteq> F_nan \<Longrightarrow> f64_le x c \<Longrightarrow> f64_le (F_fin 0) c \<Longrightarrow> f64_le (f64_max x (F_fin 0)) c \<and> f64_le (F_fin 0) (f64_max x (F_fin 0))"
  by (cases x; cases c) (auto simp: f64_max_def)

lemma f64_of_nat_finite:
  assumes "n < 2 ^ 64"
  shows "is_finite (f64_of_nat n)"
proof -
  have "rounded (of_nat n) \<le> rounded (exp2 64)"
    using assms by (intro rounded_mono) (simp add: exp2_def less_imp_le of_nat_less_numeral_power_cancel_iff [THEN iffD2])
  also have "\<dots> = exp2 64"
    by (rule rounded_multiple [of _ 1 64]) simp_all
  also have "\<dots> < exp2 1024"
    by (simp add: exp2_def)
  finally show ?thesis
    using rounded_nonneg [of "of_nat n"] by (simp add: f64_of_nat_def f64_round_rounded)
qed

end
