(* ===== verification/Sched_Config.thy ===== *)
theory Sched_Config
  imports Sched_Queue Rust_Float
begin

text \<open>
  Models of \<open>middleware/scheduler/config.rs\<close>, \<open>policy.rs\<close>, the settings half of \<open>state.rs\<close>, the
  class resolution of \<open>admission.rs\<close>, and \<open>error.rs\<close>: what an operator configures, which class a
  request gets and how a refusal reaches the client.

  Durations and instants are nanoseconds.  Reading and parsing the YAML file belongs to the
  file system and to \<open>serde_yaml\<close>: it is a parameter that returns the parsed document or a reason.
\<close>

section \<open>Configuration\<close>

record class_config =
  cc_reserved_floor :: u16
  cc_reserved_per_slot :: f64
  cc_queue_size :: u32
  cc_queue_timeout_secs :: u64
  cc_starvation_threshold_secs :: u64
  cc_can_preempt :: bool

fun default_for :: "prio_class \<Rightarrow> class_config" where
  "default_for System =
     \<lparr>cc_reserved_floor = 32, cc_reserved_per_slot = F_fin 0, cc_queue_size = 64, cc_queue_timeout_secs = 30,
      cc_starvation_threshold_secs = 5, cc_can_preempt = True\<rparr>"
| "default_for Interactive =
     \<lparr>cc_reserved_floor = 128, cc_reserved_per_slot = F_fin (1 / 4), cc_queue_size = 256, cc_queue_timeout_secs = 30,
      cc_starvation_threshold_secs = 5, cc_can_preempt = True\<rparr>"
| "default_for Default =
     \<lparr>cc_reserved_floor = 0, cc_reserved_per_slot = f64_round (1 / 10), cc_queue_size = 512, cc_queue_timeout_secs = 60,
      cc_starvation_threshold_secs = 30, cc_can_preempt = False\<rparr>"
| "default_for Bulk =
     \<lparr>cc_reserved_floor = 0, cc_reserved_per_slot = F_fin 0, cc_queue_size = 1024, cc_queue_timeout_secs = 300,
      cc_starvation_threshold_secs = 120, cc_can_preempt = False\<rparr>"

definition from_secs :: "u64 \<Rightarrow> nat" where
  "from_secs s = unat s * 1000000000"

record class_runtime_config =
  rt_queue_timeout :: nat
  rt_starvation_threshold :: nat
  rt_can_preempt :: bool

definition from_class_config :: "class_config \<Rightarrow> class_runtime_config" where
  "from_class_config cfg =
     \<lparr>rt_queue_timeout = from_secs (cc_queue_timeout_secs cfg),
      rt_starvation_threshold = from_secs (cc_starvation_threshold_secs cfg),
      rt_can_preempt = cc_can_preempt cfg\<rparr>"

record tenant_policy =
  tp_max_class :: prio_class

record priority_scheduler_yaml =
  yaml_classes :: "(prio_class \<times> class_config) list"
  yaml_tenant_policies :: "(string \<times> tenant_policy) list"

datatype settings_validation_error =
    ZeroQueueTimeout prio_class
  | ZeroStarvationThreshold prio_class
  | InvalidReservedPerSlot prio_class

record scheduler_settings =
  ss_enabled :: bool
  ss_default_max_class :: prio_class
  ss_classes :: "class_config lanes"
  ss_tenant_policies :: "(string \<times> tenant_policy) list"
  ss_tenant_metric_top_n :: u32

definition class_config_of :: "scheduler_settings \<Rightarrow> prio_class \<Rightarrow> class_config" where
  "class_config_of settings class = lane (ss_classes settings) class"

definition check_class :: "prio_class \<Rightarrow> class_config \<Rightarrow> settings_validation_error option" where
  "check_class class cfg =
     (if cc_queue_timeout_secs cfg = 0 then Some (ZeroQueueTimeout class)
      else if cc_starvation_threshold_secs cfg = 0 then Some (ZeroStarvationThreshold class)
      else if \<not> is_finite (cc_reserved_per_slot cfg) \<or> f64_lt (cc_reserved_per_slot cfg) (F_fin 0)
      then Some (InvalidReservedPerSlot class)
      else None)"

fun check_classes :: "class_config lanes \<Rightarrow> prio_class list \<Rightarrow> settings_validation_error option" where
  "check_classes classes [] = None"
| "check_classes classes (class # rest) =
     (case check_class class (lane classes class) of
        Some e \<Rightarrow> Some e
      | None \<Rightarrow> check_classes classes rest)"

definition from_cli_and_yaml ::
    "bool \<Rightarrow> prio_class \<Rightarrow> u32 \<Rightarrow> priority_scheduler_yaml option \<Rightarrow> settings_validation_error + scheduler_settings" where
  "from_cli_and_yaml enabled default_max_class tenant_metric_top_n yaml =
     (let built_in = lanes_of default_for;
          classes = (case yaml of
                       None \<Rightarrow> built_in
                     | Some y \<Rightarrow> foldl (\<lambda>cs (class, cfg). set_lane class cfg cs) built_in (yaml_classes y))
      in case check_classes classes ALL_classes of
           Some e \<Rightarrow> Inl e
         | None \<Rightarrow>
             Inr \<lparr>ss_enabled = enabled, ss_default_max_class = default_max_class, ss_classes = classes,
                  ss_tenant_policies = (case yaml of None \<Rightarrow> [] | Some y \<Rightarrow> yaml_tenant_policies y),
                  ss_tenant_metric_top_n = tenant_metric_top_n\<rparr>)"

section \<open>Start-up settings\<close>

record router_config =
  rcfg_default_max_class :: string
  rcfg_config_path :: "string option"
  rcfg_tenant_metric_top_n :: u32

record scheduler_config_error =
  ce_field :: string
  ce_value :: string
  ce_reason :: string

definition file_error :: "router_config \<Rightarrow> string \<Rightarrow> scheduler_config_error" where
  "file_error rcfg reason =
     \<lparr>ce_field = ''priority_scheduler_config'',
      ce_value = (case rcfg_config_path rcfg of Some path \<Rightarrow> path | None \<Rightarrow> []), ce_reason = reason\<rparr>"

definition load_yaml ::
    "(string \<Rightarrow> string + priority_scheduler_yaml) \<Rightarrow> string option \<Rightarrow> string + priority_scheduler_yaml option" where
  "load_yaml read_file path =
     (case path of
        None \<Rightarrow> Inr None
      | Some p \<Rightarrow> (case read_file p of Inl reason \<Rightarrow> Inl reason | Inr y \<Rightarrow> Inr (Some y)))"

text \<open>
  The text of an error is written by \<open>thiserror\<close>; \<open>show_class_error\<close> and \<open>show_settings_error\<close>
  stand for it.
\<close>

definition settings_from_config ::
    "(unknown_class_name \<Rightarrow> string) \<Rightarrow> (settings_validation_error \<Rightarrow> string) \<Rightarrow>
     (string \<Rightarrow> string + priority_scheduler_yaml) \<Rightarrow> router_config \<Rightarrow> scheduler_config_error + scheduler_settings" where
  "settings_from_config show_class_error show_settings_error read_file rcfg =
     (case parse_name (rcfg_default_max_class rcfg) of
        Inl e \<Rightarrow> Inl \<lparr>ce_field = ''priority_scheduler_default_max_class'',
                      ce_value = rcfg_default_max_class rcfg, ce_reason = show_class_error e\<rparr>
      | Inr default_max_class \<Rightarrow>
          (case load_yaml read_file (rcfg_config_path rcfg) of
             Inl reason \<Rightarrow> Inl (file_error rcfg reason)
           | Inr yaml \<Rightarrow>
               (case from_cli_and_yaml True default_max_class (rcfg_tenant_metric_top_n rcfg) yaml of
                  Inl e \<Rightarrow> Inl (file_error rcfg (show_settings_error e))
                | Inr settings \<Rightarrow> Inr settings)))"

section \<open>Tenant policies and class resolution\<close>

record static_resolver =
  sr_policies :: "(string \<times> tenant_policy) list"
  sr_default :: tenant_policy

definition from_settings :: "scheduler_settings \<Rightarrow> static_resolver" where
  "from_settings settings =
     \<lparr>sr_policies = map (\<lambda>(key, cfg). (key, \<lparr>tp_max_class = tp_max_class cfg\<rparr>)) (ss_tenant_policies settings),
      sr_default = \<lparr>tp_max_class = ss_default_max_class settings\<rparr>\<rparr>"

definition policy :: "static_resolver \<Rightarrow> string \<Rightarrow> tenant_policy" where
  "policy resolver tenant =
     (case map_of (sr_policies resolver) tenant of Some p \<Rightarrow> p | None \<Rightarrow> sr_default resolver)"

record resolved_priority =
  rp_effective :: prio_class
  rp_requested :: prio_class
  rp_unknown :: bool

text \<open>The header is absent when it is missing or not visible ASCII.\<close>

definition resolve_priority :: "string option \<Rightarrow> static_resolver \<Rightarrow> string \<Rightarrow> resolved_priority" where
  "resolve_priority raw resolver tenant =
     (let requested = (case raw of Some v \<Rightarrow> parse_header v | None \<Rightarrow> Default);
          unknown = (case map_option trim raw of
                       None \<Rightarrow> False
                     | Some v \<Rightarrow> v \<noteq> [] \<and> \<not> eq_ignore_ascii_case v ''default'' \<and> requested = Default);
          max_class = tp_max_class (policy resolver tenant)
      in \<lparr>rp_effective = min requested max_class, rp_requested = requested, rp_unknown = unknown\<rparr>)"

section \<open>Refusals\<close>

datatype rejection_reason = QueueFull | QueueTimeout | Preempted | ClientCancelled

definition rejection_outcome :: "rejection_reason \<Rightarrow> string" where
  "rejection_outcome reason =
     (case reason of
        QueueFull \<Rightarrow> ''rejected_queue_full''
      | QueueTimeout \<Rightarrow> ''rejected_queue_timeout''
      | Preempted \<Rightarrow> ''preempted''
      | ClientCancelled \<Rightarrow> ''client_cancelled'')"


datatype scheduler_error = SE_QueueFull | SE_QueueTimeout | SE_Preempted | SE_ClientCancelled

fun error_from_reason :: "rejection_reason \<Rightarrow> scheduler_error" where
  "error_from_reason QueueFull = SE_QueueFull"
| "error_from_reason QueueTimeout = SE_QueueTimeout"
| "error_from_reason Preempted = SE_Preempted"
| "error_from_reason ClientCancelled = SE_ClientCancelled"

fun error_status :: "scheduler_error \<Rightarrow> nat" where
  "error_status SE_QueueFull = 429"
| "error_status SE_QueueTimeout = 503"
| "error_status SE_Preempted = 503"
| "error_status SE_ClientCancelled = 499"

fun error_code :: "scheduler_error \<Rightarrow> string" where
  "error_code SE_QueueFull = ''scheduler_queue_full''"
| "error_code SE_QueueTimeout = ''scheduler_queue_timeout''"
| "error_code SE_Preempted = ''scheduler_preempted''"
| "error_code SE_ClientCancelled = ''scheduler_client_cancelled''"

definition SHED_RETRY_AFTER_SECS :: nat where
  "SHED_RETRY_AFTER_SECS = 2"

datatype header = RetryAfter nat | XSmgPreempted

text \<open>The headers a refusal adds to the standard error body.\<close>

fun error_headers :: "scheduler_error \<Rightarrow> header list" where
  "error_headers SE_QueueFull = [RetryAfter SHED_RETRY_AFTER_SECS]"
| "error_headers SE_QueueTimeout = [RetryAfter SHED_RETRY_AFTER_SECS]"
| "error_headers SE_Preempted = [RetryAfter 1, XSmgPreempted]"
| "error_headers SE_ClientCancelled = []"

section \<open>Properties\<close>

lemma lane_overrides:
  "distinct (map fst ovr) \<Longrightarrow>
   lane (foldl (\<lambda>cs (class, cfg). set_lane class cfg cs) cs ovr) c =
     (case map_of ovr c of Some cfg \<Rightarrow> cfg | None \<Rightarrow> lane cs c)"
proof (induction ovr arbitrary: cs)
  case (Cons x ovr)
  obtain k cfg where x: "x = (k, cfg)" by force
  have "map_of ovr k = None" using Cons.prems by (simp add: x map_of_eq_None_iff)
  with Cons show ?case by (auto simp: x split: option.split)
qed simp

definition configured :: "priority_scheduler_yaml \<Rightarrow> prio_class \<Rightarrow> class_config" where
  "configured y c = (case map_of (yaml_classes y) c of Some cfg \<Rightarrow> cfg | None \<Rightarrow> default_for c)"

lemma check_classes_first:
  "check_classes classes cs = (case find (\<lambda>c. check_class c (lane classes c) \<noteq> None) cs of
     None \<Rightarrow> None | Some c \<Rightarrow> check_class c (lane classes c))"
  by (induction cs) (auto split: option.splits)

lemma check_all_classes:
  assumes "check_classes classes ALL_classes = r"
  shows "(r = None \<and> (\<forall>c. check_class c (lane classes c) = None)) \<or>
         (\<exists>c. r = check_class c (lane classes c) \<and> r \<noteq> None \<and> (\<forall>d. d < c \<longrightarrow> check_class d (lane classes d) = None))"
proof -
  have all: "(\<forall>c. P c) \<longleftrightarrow> P Bulk \<and> P Default \<and> P Interactive \<and> P System" for P
    by (metis prio_class.exhaust)
  have ex: "(\<exists>c. P c) \<longleftrightarrow> P Bulk \<or> P Default \<or> P Interactive \<or> P System" for P
    by (metis prio_class.exhaust)
  show ?thesis
    using assms unfolding all ex
    by (auto simp: ALL_classes_def less_prio_class_def split: option.splits)
qed

text \<open>
  Settings are the built-in classes with the file's overrides, and are refused exactly when a
  class is invalid.  When the file is accepted, every class has its override or its default, and
  a positive queue timeout, a positive starvation threshold and a finite non-negative share;
  when it is refused, the error is that of the lowest invalid class.
\<close>

theorem settings_validation_exact:
  assumes "distinct (map fst (yaml_classes y))"
  shows "case from_cli_and_yaml enabled max_class n (Some y) of
           Inr settings \<Rightarrow> (\<forall>c. class_config_of settings c = configured y c \<and>
             0 < rt_queue_timeout (from_class_config (configured y c)) \<and>
             0 < rt_starvation_threshold (from_class_config (configured y c)) \<and>
             (\<exists>share. cc_reserved_per_slot (configured y c) = F_fin share \<and> 0 \<le> share))
         | Inl e \<Rightarrow> (\<exists>c. check_class c (configured y c) = Some e \<and>
             (\<forall>d. d < c \<longrightarrow> check_class d (configured y d) = None))"
proof -
  let ?cs = "foldl (\<lambda>cs (class, cfg). set_lane class cfg cs) (lanes_of default_for) (yaml_classes y)"
  have lanes: "lane ?cs c = configured y c" for c
    unfolding configured_def using lane_overrides [OF assms] by (simp split: option.split)
  have valid: "0 < rt_queue_timeout (from_class_config cfg) \<and> 0 < rt_starvation_threshold (from_class_config cfg) \<and>
      (\<exists>share. cc_reserved_per_slot cfg = F_fin share \<and> 0 \<le> share)" if "check_class c cfg = None" for c cfg
    using that
    by (cases "cc_reserved_per_slot cfg")
      (auto simp: check_class_def from_class_config_def from_secs_def unat_gt_0 split: if_splits)
  consider "check_classes ?cs ALL_classes = None" "\<And>c. check_class c (configured y c) = None"
    | c e where "check_classes ?cs ALL_classes = Some e" "check_class c (configured y c) = Some e"
        "\<forall>d. d < c \<longrightarrow> check_class d (configured y d) = None"
    using check_all_classes [OF refl, of ?cs] unfolding lanes by (metis not_None_eq)
  then show ?thesis
  proof cases
    case 1
    then show ?thesis
      using valid [OF 1(2)] by (simp add: from_cli_and_yaml_def class_config_of_def lanes)
  next
    case 2
    then show ?thesis
      by (auto simp: from_cli_and_yaml_def)
  qed
qed

theorem settings_validation_exact_witness:
  "case from_cli_and_yaml True System 10
      (Some \<lparr>yaml_classes = [(Default, (default_for Default)\<lparr>cc_queue_timeout_secs := 0\<rparr>)], yaml_tenant_policies = []\<rparr>) of
     Inr settings \<Rightarrow> False
   | Inl e \<Rightarrow> e = ZeroQueueTimeout Default"
  using settings_validation_exact [of "\<lparr>yaml_classes = [(Default, (default_for Default)\<lparr>cc_queue_timeout_secs := 0\<rparr>)],
      yaml_tenant_policies = []\<rparr>" True System 10]
  by (auto simp: from_cli_and_yaml_def ALL_classes_def check_class_def lanes_of_def)

lemma lower_as_str [simp]: "map to_ascii_lowercase (as_str c) = as_str c"
  by (cases c) (simp_all add: to_ascii_lowercase_def less_eq_char_def)

lemma as_str_inj [simp]: "as_str c = as_str d \<longleftrightarrow> c = d"
  by (cases c; cases d) simp_all

lemma find_class_iff:
  assumes "\<And>a b. P a \<Longrightarrow> P b \<Longrightarrow> a = b"
  shows "find P ALL_classes = Some c \<longleftrightarrow> P c"
proof
  assume "P c"
  then have "P d \<longleftrightarrow> d = c" for d using assms by blast
  then show "find P ALL_classes = Some c" by (cases c) (simp_all add: ALL_classes_def)
qed (auto simp: find_Some_iff)

lemma eq_ignore_as_str_unique: "eq_ignore_ascii_case t (as_str a) \<Longrightarrow> eq_ignore_ascii_case t (as_str b) \<Longrightarrow> a = b"
  by (simp add: eq_ignore_ascii_case_def)

lemma class_lookup_iff: "class_lookup v = Some c \<longleftrightarrow> eq_ignore_ascii_case (trim v) (as_str c)"
  unfolding class_lookup_def Let_def by (rule find_class_iff) (rule eq_ignore_as_str_unique)

text \<open>
  No request promotes itself.  The class a request runs under is the smaller of the class its
  header names, whatever its case and padding (\<open>Default\<close> when it names none), and the tenant's
  greatest class; and the value is reported as unknown exactly when the header is not blank and
  names no class.
\<close>

theorem tenant_clamp:
  "rp_effective (resolve_priority raw resolver tenant) =
     min (rp_requested (resolve_priority raw resolver tenant)) (tp_max_class (policy resolver tenant)) \<and>
   (rp_requested (resolve_priority raw resolver tenant) = c \<longleftrightarrow>
      (\<exists>v. raw = Some v \<and> eq_ignore_ascii_case (trim v) (as_str c)) \<or>
      (c = Default \<and> (\<nexists>v d. raw = Some v \<and> eq_ignore_ascii_case (trim v) (as_str d)))) \<and>
   (rp_unknown (resolve_priority raw resolver tenant) \<longleftrightarrow>
      (\<exists>v. raw = Some v \<and> trim v \<noteq> [] \<and> (\<nexists>d. eq_ignore_ascii_case (trim v) (as_str d))))"
proof (cases raw)
  case None
  then show ?thesis by (auto simp: resolve_priority_def)
next
  case (Some v)
  show ?thesis
  proof (cases "class_lookup v")
    case None
    then have no: "\<not> eq_ignore_ascii_case (trim v) (as_str d)" for d
      using class_lookup_iff [of v d] by simp
    have "rp_requested (resolve_priority raw resolver tenant) = Default"
      "rp_unknown (resolve_priority raw resolver tenant) \<longleftrightarrow> trim v \<noteq> []"
      "rp_effective (resolve_priority raw resolver tenant) = min Default (tp_max_class (policy resolver tenant))"
      using None no [of Default] by (simp_all add: resolve_priority_def parse_header_def Some)
    with no show ?thesis by (auto simp: Some)
  next
    case (Some d)
    then have names: "eq_ignore_ascii_case (trim v) (as_str c) \<longleftrightarrow> c = d" for c
      using class_lookup_iff [of v c] by auto
    have "rp_requested (resolve_priority raw resolver tenant) = d"
      "\<not> rp_unknown (resolve_priority raw resolver tenant)"
      "rp_effective (resolve_priority raw resolver tenant) = min d (tp_max_class (policy resolver tenant))"
      using Some names [of Default] by (auto simp: resolve_priority_def parse_header_def \<open>raw = Some v\<close>)
    with names show ?thesis by (auto simp: \<open>raw = Some v\<close>)
  qed
qed


theorem tenant_clamp_witness:
  "rp_effective (resolve_priority (Some '' system '') \<lparr>sr_policies = [], sr_default = \<lparr>tp_max_class = Interactive\<rparr>\<rparr> ''t'') =
     Interactive"
  using tenant_clamp [of "Some '' system ''" "\<lparr>sr_policies = [], sr_default = \<lparr>tp_max_class = Interactive\<rparr>\<rparr>" "''t''" System]
  by (simp add: trim_def is_space_def eq_ignore_ascii_case_def to_ascii_lowercase_def less_eq_char_def policy_def
      min_def less_eq_prio_class_def)

end
