(* ===== verification/Sched_Engine.thy ===== *)
theory Sched_Engine
  imports Sched_Config
begin

text \<open>
  Model of \<open>middleware/scheduler/engine.rs\<close>: the admission scheduler over the slot pool, the four
  class queues and the registry of admitted requests.

  A permit is the request id of its handle, which lives in the registry while the permit does;
  ids are unique (\<open>next_registry_id\<close>), so the registry is keyed by permits.  What the oneshot
  channels hold is \<open>sch_delivered\<close>; \<open>hung_up\<close> says which receivers are gone, and \<open>gone\<close> which go
  between the check and the send.  The stored wake-up of the \<open>Notify\<close> is a flag.  Every method is
  one step that reads the clock once.  An asynchronous admission is a sequence of steps: the
  synchronous start, the polls while a preempted slot is awaited, and the exit from the queue.
\<close>

section \<open>Reservations\<close>

definition desired_reservations :: "u16 lanes \<Rightarrow> f64 lanes \<Rightarrow> u16 \<Rightarrow> u16 lanes" where
  "desired_reservations reserved_floor per_slot capacity =
     lanes_of (\<lambda>class.
       let share = f64_ceil (f64_mul (lane per_slot class) (f64_of_nat (unat capacity)));
           slots = (if is_finite share \<and> f64_le (F_fin 0) share then f64_as_u32 share else 0)
       in word_of_nat (min (max (unat (lane reserved_floor class)) slots) (unat capacity)))"

definition clamp_reservations_to_capacity :: "u16 lanes \<Rightarrow> u16 \<Rightarrow> u16 lanes" where
  "clamp_reservations_to_capacity desired capacity =
     (let desired_total = lanes_total desired
      in if desired_total \<le> unat capacity then desired
         else
           let out = lanes_of (\<lambda>class. word_of_nat (unat (lane desired class) * unat capacity div desired_total));
               reserved_total = lanes_total out
           in if 0 < unat capacity \<and> unat capacity \<le> reserved_total
              then (case max_by_key (lane out) ALL_classes of
                      Some largest \<Rightarrow> set_lane largest (saturating_sub (lane out largest) 1) out
                    | None \<Rightarrow> out)
              else out)"

section \<open>The scheduler\<close>

record scheduler =
  sch_slot_pool :: slot_pool
  sch_class_queues :: "fifo_class_queue lanes"
  sch_inflight_registry :: "(string \<times> inflight_handle) list"
  sch_release_notify :: bool
  sch_class_config :: "class_runtime_config lanes"
  sch_reserved_floor :: "u16 lanes"
  sch_reserved_per_slot :: "f64 lanes"
  sch_delivered :: "(nat \<times> string) list"

datatype scheduler_init_error = ReservationsExceedCapacity nat u16

definition queue_for :: "scheduler_settings \<Rightarrow> prio_class \<Rightarrow> fifo_class_queue" where
  "queue_for settings class = fifo_new (unat (cc_queue_size (class_config_of settings class)))"

definition scheduler_new :: "scheduler_settings \<Rightarrow> u16 \<Rightarrow> scheduler_init_error + scheduler" where
  "scheduler_new settings capacity =
     (let reserved_floor = lanes_of (\<lambda>c. cc_reserved_floor (class_config_of settings c));
          reserved_per_slot = lanes_of (\<lambda>c. cc_reserved_per_slot (class_config_of settings c));
          desired = desired_reservations reserved_floor reserved_per_slot capacity
      in if unat capacity < lanes_total desired
         then Inl (ReservationsExceedCapacity (lanes_total desired) capacity)
         else Inr \<lparr>sch_slot_pool = slot_pool_new capacity desired,
                   sch_class_queues = lanes_of (queue_for settings),
                   sch_inflight_registry = [], sch_release_notify = False,
                   sch_class_config = lanes_of (\<lambda>c. from_class_config (class_config_of settings c)),
                   sch_reserved_floor = reserved_floor, sch_reserved_per_slot = reserved_per_slot,
                   sch_delivered = []\<rparr>)"

definition register_inflight :: "nat \<Rightarrow> prio_class \<Rightarrow> string \<Rightarrow> scheduler \<Rightarrow> scheduler" where
  "register_inflight now class request_id s =
     s\<lparr>sch_inflight_registry := AList.update request_id (handle_new now class request_id) (sch_inflight_registry s)\<rparr>"

definition acquire_inflight :: "nat \<Rightarrow> prio_class \<Rightarrow> string \<Rightarrow> scheduler \<Rightarrow> scheduler \<times> bool" where
  "acquire_inflight now class request_id s =
     (case try_acquire class (sch_slot_pool s) of
        (_, False) \<Rightarrow> (s, False)
      | (pool, True) \<Rightarrow> (register_inflight now class request_id (s\<lparr>sch_slot_pool := pool\<rparr>), True))"

definition notify_one :: "scheduler \<Rightarrow> scheduler" where
  "notify_one s = s\<lparr>sch_release_notify := True\<rparr>"

definition release_slot :: "prio_class \<Rightarrow> scheduler \<Rightarrow> scheduler" where
  "release_slot class s = s\<lparr>sch_slot_pool := release class (sch_slot_pool s)\<rparr>"

text \<open>Dropping a permit.\<close>

definition release_inflight :: "string \<Rightarrow> scheduler \<Rightarrow> scheduler" where
  "release_inflight request_id s =
     (case map_of (sch_inflight_registry s) request_id of
        None \<Rightarrow> s
      | Some handle \<Rightarrow>
          notify_one (release_slot (ih_class handle)
            (s\<lparr>sch_inflight_registry := AList.delete request_id (sch_inflight_registry s)\<rparr>)))"

definition find_preemption_victim :: "prio_class \<Rightarrow> scheduler \<Rightarrow> inflight_handle option" where
  "find_preemption_victim waiter_class s =
     max_by_key (\<lambda>h. (3 - class_index (ih_class h), ih_admitted_at h))
       (filter (\<lambda>h. ih_class h < waiter_class \<and> is_preemptible h) (map snd (sch_inflight_registry s)))"

section \<open>Handing slots to waiters\<close>

definition set_queue :: "prio_class \<Rightarrow> fifo_class_queue \<Rightarrow> scheduler \<Rightarrow> scheduler" where
  "set_queue class q s = s\<lparr>sch_class_queues := set_lane class q (sch_class_queues s)\<rparr>"

definition queue_of :: "prio_class \<Rightarrow> scheduler \<Rightarrow> fifo_class_queue" where
  "queue_of class s = lane (sch_class_queues s) class"

definition send_permit :: "(nat \<Rightarrow> bool) \<Rightarrow> waiter \<Rightarrow> scheduler \<Rightarrow> scheduler" where
  "send_permit gone w s =
     (if gone (w_permit_tx w) then release_inflight (w_request_id w) s
      else s\<lparr>sch_delivered := (w_permit_tx w, w_request_id w) # sch_delivered s\<rparr>)"

function send_to_head ::
    "nat \<Rightarrow> (nat \<Rightarrow> bool) \<Rightarrow> (nat \<Rightarrow> bool) \<Rightarrow> prio_class \<Rightarrow> scheduler \<Rightarrow> scheduler \<times> bool" where
  "send_to_head now hung_up gone class s =
     (case pop_eligible (queue_of class s) of
        (_, None) \<Rightarrow> (s, False)
      | (q, Some w) \<Rightarrow>
          if hung_up (w_permit_tx w) then send_to_head now hung_up gone class (set_queue class q s)
          else (send_permit gone w (register_inflight now class (w_request_id w) (set_queue class q s)), True))"
  by pat_completeness auto

termination
  by (relation "measure (\<lambda>(now, hung_up, gone, class, s). depth (queue_of class s))")
    (auto simp: pop_eligible_def set_queue_def queue_of_def depth_def split: list.splits)

declare send_to_head.simps [simp del]

definition reap_head :: "(token \<Rightarrow> bool) \<Rightarrow> prio_class \<Rightarrow> scheduler \<Rightarrow> scheduler" where
  "reap_head fired class s = set_queue class (drop_cancelled_head fired (queue_of class s)) s"

fun starvation_pass ::
    "nat \<Rightarrow> (token \<Rightarrow> bool) \<Rightarrow> (nat \<Rightarrow> bool) \<Rightarrow> (nat \<Rightarrow> bool) \<Rightarrow> prio_class list \<Rightarrow> scheduler \<Rightarrow> scheduler \<times> bool" where
  "starvation_pass now fired hung_up gone [] s = (s, False)"
| "starvation_pass now fired hung_up gone (class # rest) s =
     (let s = reap_head fired class s
      in case head_age now (queue_of class s) of
           None \<Rightarrow> starvation_pass now fired hung_up gone rest s
         | Some age \<Rightarrow>
             if age \<le> rt_starvation_threshold (lane (sch_class_config s) class)
             then starvation_pass now fired hung_up gone rest s
             else case try_acquire_ignoring_reservations class (sch_slot_pool s) of
                    (_, False) \<Rightarrow> starvation_pass now fired hung_up gone rest s
                  | (pool, True) \<Rightarrow>
                      (case send_to_head now hung_up gone class (s\<lparr>sch_slot_pool := pool\<rparr>) of
                         (s', True) \<Rightarrow> (s', True)
                       | (s', False) \<Rightarrow> starvation_pass now fired hung_up gone rest (release_slot class s')))"

fun priority_pass ::
    "nat \<Rightarrow> (token \<Rightarrow> bool) \<Rightarrow> (nat \<Rightarrow> bool) \<Rightarrow> (nat \<Rightarrow> bool) \<Rightarrow> prio_class list \<Rightarrow> scheduler \<Rightarrow> scheduler \<times> bool" where
  "priority_pass now fired hung_up gone [] s = (s, False)"
| "priority_pass now fired hung_up gone (class # rest) s =
     (let s = reap_head fired class s
      in if depth (queue_of class s) = 0 then priority_pass now fired hung_up gone rest s
         else case try_acquire class (sch_slot_pool s) of
                (_, False) \<Rightarrow> priority_pass now fired hung_up gone rest s
              | (pool, True) \<Rightarrow>
                  (case send_to_head now hung_up gone class (s\<lparr>sch_slot_pool := pool\<rparr>) of
                     (s', True) \<Rightarrow> (s', True)
                   | (s', False) \<Rightarrow> priority_pass now fired hung_up gone rest (release_slot class s')))"

definition wake_next_waiter ::
    "nat \<Rightarrow> (token \<Rightarrow> bool) \<Rightarrow> (nat \<Rightarrow> bool) \<Rightarrow> (nat \<Rightarrow> bool) \<Rightarrow> scheduler \<Rightarrow> scheduler \<times> bool" where
  "wake_next_waiter now fired hung_up gone s =
     (case starvation_pass now fired hung_up gone [Bulk, Default, Interactive] s of
        (s', True) \<Rightarrow> (s', True)
      | (s', False) \<Rightarrow> priority_pass now fired hung_up gone [System, Interactive, Default, Bulk] s')"

section \<open>Capacity changes\<close>

definition apply_new_capacity :: "u16 \<Rightarrow> scheduler \<Rightarrow> scheduler" where
  "apply_new_capacity new_capacity s =
     (let old = sp_capacity (sch_slot_pool s)
      in if new_capacity = old then s
         else
           let desired = desired_reservations (sch_reserved_floor s) (sch_reserved_per_slot s) new_capacity;
               new_reserved = (if unat new_capacity < lanes_total desired
                               then clamp_reservations_to_capacity desired new_capacity else desired);
               set_all = (\<lambda>pool. foldl (\<lambda>pool class. set_reserved class (lane new_reserved class) pool) pool ALL_classes)
           in if old < new_capacity
              then notify_one (s\<lparr>sch_slot_pool := fst (set_capacity new_capacity (set_all (sch_slot_pool s)))\<rparr>)
              else s\<lparr>sch_slot_pool := set_all (fst (set_capacity new_capacity (sch_slot_pool s)))\<rparr>)"


section \<open>Admission\<close>

definition PREEMPTION_WAIT_BUDGET :: nat where
  "PREEMPTION_WAIT_BUDGET = 50000000"

datatype admit_outcome = Admitted string | Rejected rejection_reason

datatype admission = A_done admit_outcome | A_polling nat | A_queued token nat

text \<open>The tokens of callers are even; the child token of one is its successor.\<close>

definition child_token :: "token \<Rightarrow> token" where
  "child_token cancel = Suc cancel"

definition is_cancelled :: "token set \<Rightarrow> token \<Rightarrow> bool" where
  "is_cancelled fired t \<longleftrightarrow> t \<in> fired \<or> (odd t \<and> t - 1 \<in> fired)"

definition admit_enqueue ::
    "nat \<Rightarrow> prio_class \<Rightarrow> string \<Rightarrow> token \<Rightarrow> nat \<Rightarrow> scheduler \<Rightarrow> scheduler \<times> admission" where
  "admit_enqueue now class request_id cancel tx s =
     (case try_enqueue (waiter_new now class (child_token cancel) request_id tx) (queue_of class s) of
        (_, Inl _) \<Rightarrow> (s, A_done (Rejected QueueFull))
      | (q, Inr _) \<Rightarrow> (notify_one (set_queue class q s), A_queued (child_token cancel) tx))"

definition admit ::
    "nat \<Rightarrow> token set \<Rightarrow> prio_class \<Rightarrow> string \<Rightarrow> token \<Rightarrow> nat \<Rightarrow> scheduler \<Rightarrow> scheduler \<times> admission" where
  "admit now fired class request_id cancel tx s =
     (case acquire_inflight now class request_id s of
        (s', True) \<Rightarrow> (s', A_done (Admitted request_id))
      | (_, False) \<Rightarrow>
          if \<not> rt_can_preempt (lane (sch_class_config s) class) then admit_enqueue now class request_id cancel tx s
          else if is_cancelled fired cancel then (s, A_done (Rejected ClientCancelled))
          else case find_preemption_victim class s of
                 None \<Rightarrow> admit_enqueue now class request_id cancel tx s
               | Some victim \<Rightarrow>
                   (case preempt victim of
                      (_, False) \<Rightarrow> admit_enqueue now class request_id cancel tx s
                    | (marked, True) \<Rightarrow>
                        (s\<lparr>sch_inflight_registry :=
                             AList.update (ih_request_id marked) marked (sch_inflight_registry s)\<rparr>,
                         A_polling (now + PREEMPTION_WAIT_BUDGET))))"

text \<open>One turn of \<open>wait_for_slot\<close> and what the admission does with its result.\<close>

definition admit_poll ::
    "nat \<Rightarrow> token set \<Rightarrow> prio_class \<Rightarrow> string \<Rightarrow> token \<Rightarrow> nat \<Rightarrow> nat \<Rightarrow> scheduler \<Rightarrow> scheduler \<times> admission" where
  "admit_poll now fired class request_id cancel tx deadline s =
     (case acquire_inflight now class request_id s of
        (s', True) \<Rightarrow> (s', A_done (Admitted request_id))
      | (_, False) \<Rightarrow>
          if is_cancelled fired cancel then (s, A_done (Rejected ClientCancelled))
          else if deadline \<le> now then admit_enqueue now class request_id cancel tx s
          else (s, A_polling deadline))"

text \<open>
  The exit from the queue: the permit arrives, the sender is dropped without one, the timeout or
  the token fires, or the future itself is dropped.  In the last three the receiver goes, and a
  permit already in it is dropped with it.
\<close>

datatype exit_arm = Arm_permit | Arm_sender_dropped | Arm_timeout | Arm_cancelled | Arm_future_dropped

definition drop_receiver :: "nat \<Rightarrow> scheduler \<Rightarrow> scheduler" where
  "drop_receiver tx s =
     (case map_of (sch_delivered s) tx of
        None \<Rightarrow> s
      | Some request_id \<Rightarrow>
          release_inflight request_id (s\<lparr>sch_delivered := AList.delete tx (sch_delivered s)\<rparr>))"

fun queued_exit :: "exit_arm \<Rightarrow> nat \<Rightarrow> scheduler \<Rightarrow> scheduler \<times> admit_outcome option" where
  "queued_exit Arm_permit tx s =
     (case map_of (sch_delivered s) tx of
        None \<Rightarrow> (s, None)
      | Some request_id \<Rightarrow>
          (notify_one (s\<lparr>sch_delivered := AList.delete tx (sch_delivered s)\<rparr>), Some (Admitted request_id)))"
| "queued_exit Arm_sender_dropped tx s = (notify_one s, Some (Rejected ClientCancelled))"
| "queued_exit Arm_timeout tx s = (notify_one (drop_receiver tx s), Some (Rejected QueueTimeout))"
| "queued_exit Arm_cancelled tx s = (notify_one (drop_receiver tx s), Some (Rejected ClientCancelled))"
| "queued_exit Arm_future_dropped tx s = (notify_one (drop_receiver tx s), None)"

text \<open>The first data frame of the response.\<close>

definition first_data_frame :: "nat \<Rightarrow> string \<Rightarrow> scheduler \<Rightarrow> scheduler \<times> bool" where
  "first_data_frame now request_id s =
     (case map_of (sch_inflight_registry s) request_id of
        None \<Rightarrow> (s, False)
      | Some handle \<Rightarrow>
          (case try_mark_first_byte (word_of_nat ((now - ih_admitted_at handle) div 1000000)) handle of
             (handle', won) \<Rightarrow>
               (s\<lparr>sch_inflight_registry := AList.update request_id handle' (sch_inflight_registry s)\<rparr>, won)))"

section \<open>Queues under the passes\<close>

lemma queue_of_updates [simp]:
  "queue_of c (s\<lparr>sch_slot_pool := pool\<rparr>) = queue_of c s"
  "queue_of c (s\<lparr>sch_inflight_registry := reg\<rparr>) = queue_of c s"
  "queue_of c (s\<lparr>sch_delivered := dl\<rparr>) = queue_of c s"
  "queue_of c (s\<lparr>sch_release_notify := n\<rparr>) = queue_of c s"
  "queue_of c (register_inflight now class rid s) = queue_of c s"
  "queue_of c (notify_one s) = queue_of c s"
  "queue_of c (release_slot class s) = queue_of c s"
  "queue_of c (set_queue d q s) = (if d = c then q else queue_of c s)"
  by (simp_all add: queue_of_def register_inflight_def notify_one_def release_slot_def set_queue_def)

lemma queue_of_release_inflight [simp]: "queue_of c (release_inflight rid s) = queue_of c s"
  by (simp add: release_inflight_def split: option.split)

lemma queue_of_send_permit [simp]: "queue_of c (send_permit gone w s) = queue_of c s"
  by (simp add: send_permit_def)

definition waiting :: "scheduler \<Rightarrow> nat" where
  "waiting s = sum_list (map (\<lambda>c. depth (queue_of c s)) ALL_classes)"

lemma waiting_mono:
  assumes "\<And>c. depth (queue_of c s') \<le> depth (queue_of c s)"
  shows "waiting s' \<le> waiting s"
  using assms by (simp add: waiting_def sum_list_mono)

lemma waiting_less:
  assumes "\<And>c. depth (queue_of c s') \<le> depth (queue_of c s)" "depth (queue_of d s') < depth (queue_of d s)"
  shows "waiting s' < waiting s"
  using assms(1) [of Bulk] assms(1) [of Default] assms(1) [of Interactive] assms(1) [of System] assms(2)
  by (cases d) (simp_all add: waiting_def ALL_classes_def)

lemma send_to_head_queues:
  "send_to_head now hung_up gone class s = (s', sent) \<Longrightarrow>
   (\<forall>c. c \<noteq> class \<longrightarrow> queue_of c s' = queue_of c s) \<and>
   (if sent then depth (queue_of class s') < depth (queue_of class s)
    else fq_waiters (queue_of class s') = [] \<and> list_all (\<lambda>w. hung_up (w_permit_tx w)) (fq_waiters (queue_of class s)))"
proof (induction now hung_up gone "class" s rule: send_to_head.induct)
  case (1 now hung_up gone "class" s)
  show ?case
  proof (cases "fq_waiters (queue_of class s)")
    case Nil
    then show ?thesis using 1(2) by (auto simp: send_to_head.simps pop_eligible_def)
  next
    case (Cons w ws)
    then have pop: "pop_eligible (queue_of class s) = ((queue_of class s)\<lparr>fq_waiters := ws\<rparr>, Some w)"
      by (simp add: pop_eligible_def)
    show ?thesis
    proof (cases "hung_up (w_permit_tx w)")
      case True
      let ?s1 = "set_queue class ((queue_of class s)\<lparr>fq_waiters := ws\<rparr>) s"
      have "send_to_head now hung_up gone class ?s1 = (s', sent)"
        using 1(2) True by (simp add: send_to_head.simps [of now hung_up gone "class" s] pop)
      from 1(1) [OF pop [symmetric] refl True this] show ?thesis
        using True by (simp add: Cons depth_def split: if_splits)
    next
      case False
      then show ?thesis
        using 1(2) by (auto simp: send_to_head.simps [of now hung_up gone "class" s] pop Cons depth_def)
    qed
  qed
qed


definition shrinks :: "bool \<Rightarrow> scheduler \<Rightarrow> scheduler \<Rightarrow> bool" where
  "shrinks strict s s' \<longleftrightarrow> (\<forall>c. depth (queue_of c s') \<le> depth (queue_of c s)) \<and>
     (strict \<longrightarrow> (\<exists>c. depth (queue_of c s') < depth (queue_of c s)))"

lemma shrinks_trans: "shrinks False s t \<Longrightarrow> shrinks strict t u \<Longrightarrow> shrinks strict s u"
  by (auto simp: shrinks_def intro: order.trans order.strict_trans1 order.strict_trans2)

lemma shrinks_waiting: "shrinks True s s' \<Longrightarrow> waiting s' < waiting s"
  by (auto simp: shrinks_def intro: waiting_less)

lemma shrinks_reap: "shrinks False s (reap_head fired class s)"
  by (simp add: shrinks_def reap_head_def drop_cancelled_head_def depth_def length_dropWhile_le)

lemma shrinks_send: "send_to_head now hung_up gone class s = (s', sent) \<Longrightarrow> shrinks sent s s'"
  using send_to_head_queues [of now hung_up gone "class" s s' sent]
  by (cases sent) (auto simp: shrinks_def depth_def less_imp_le, metis less_imp_le order_refl, metis le0 list.size(3) order_refl)

lemma shrinks_pool [simp]:
  "shrinks strict (s\<lparr>sch_slot_pool := pool\<rparr>) s' \<longleftrightarrow> shrinks strict s s'"
  "shrinks strict s (release_slot class s') \<longleftrightarrow> shrinks strict s s'"
  "shrinks strict (release_slot class s) s' \<longleftrightarrow> shrinks strict s s'"
  "shrinks False s s"
  by (simp_all add: shrinks_def)

lemma starvation_pass_shrinks:
  "starvation_pass now fired hung_up gone cs s = (s', sent) \<Longrightarrow> shrinks sent s s'"
proof (induction cs arbitrary: s)
  case (Cons c cs)
  let ?s = "reap_head fired c s"
  have rest: "shrinks sent s s'" if "starvation_pass now fired hung_up gone cs ?s = (s', sent)"
    using shrinks_trans [OF shrinks_reap Cons.IH [OF that]] .
  show ?case
  proof (cases "head_age now (queue_of c ?s)")
    case None
    then show ?thesis using Cons.prems rest by (simp add: Let_def)
  next
    case (Some age)
    obtain pool won where acq: "try_acquire_ignoring_reservations c (sch_slot_pool ?s) = (pool, won)" by force
    show ?thesis
    proof (cases "age \<le> rt_starvation_threshold (lane (sch_class_config ?s) c) \<or> \<not> won")
      case True
      then show ?thesis using Cons.prems rest by (auto simp: Let_def Some acq split: if_splits)
    next
      case False
      obtain s2 ok where send: "send_to_head now hung_up gone c (?s\<lparr>sch_slot_pool := pool\<rparr>) = (s2, ok)" by force
      from shrinks_trans [OF shrinks_reap [of s fired c], of ok s2] shrinks_send [OF send]
      have s2: "shrinks ok s s2" by simp
      show ?thesis
      proof (cases ok)
        case True
        then show ?thesis using Cons.prems s2 False by (simp add: Let_def Some acq send)
      next
        case ok: False
        then have "starvation_pass now fired hung_up gone cs (release_slot c s2) = (s', sent)"
          using Cons.prems False by (simp add: Let_def Some acq send)
        from Cons.IH [OF this] s2 ok show ?thesis using shrinks_trans by simp
      qed
    qed
  qed
qed simp

lemma priority_pass_shrinks:
  "priority_pass now fired hung_up gone cs s = (s', sent) \<Longrightarrow> shrinks sent s s'"
proof (induction cs arbitrary: s)
  case (Cons c cs)
  let ?s = "reap_head fired c s"
  have rest: "shrinks sent s s'" if "priority_pass now fired hung_up gone cs ?s = (s', sent)"
    using shrinks_trans [OF shrinks_reap Cons.IH [OF that]] .
  obtain pool won where acq: "try_acquire c (sch_slot_pool ?s) = (pool, won)" by force
  show ?case
  proof (cases "depth (queue_of c ?s) = 0 \<or> \<not> won")
    case True
    then show ?thesis using Cons.prems rest by (auto simp: Let_def acq split: if_splits)
  next
    case False
    obtain s2 ok where send: "send_to_head now hung_up gone c (?s\<lparr>sch_slot_pool := pool\<rparr>) = (s2, ok)" by force
    from shrinks_trans [OF shrinks_reap [of s fired c], of ok s2] shrinks_send [OF send]
    have s2: "shrinks ok s s2" by simp
    show ?thesis
    proof (cases ok)
      case True
      then show ?thesis using Cons.prems s2 False by (simp add: Let_def acq send)
    next
      case ok: False
      then have "priority_pass now fired hung_up gone cs (release_slot c s2) = (s', sent)"
        using Cons.prems False by (simp add: Let_def acq send)
      from Cons.IH [OF this] s2 ok show ?thesis using shrinks_trans by simp
    qed
  qed
qed simp

lemma wake_shrinks:
  assumes "wake_next_waiter now fired hung_up gone s = (s', sent)"
  shows "shrinks sent s s'"
proof -
  obtain s1 ok where st: "starvation_pass now fired hung_up gone [Bulk, Default, Interactive] s = (s1, ok)" by force
  show ?thesis
  proof (cases ok)
    case True
    then show ?thesis
      using assms starvation_pass_shrinks [OF st] by (auto simp: wake_next_waiter_def st simp del: starvation_pass.simps)
  next
    case False
    then have "priority_pass now fired hung_up gone [System, Interactive, Default, Bulk] s1 = (s', sent)"
      using assms by (simp add: wake_next_waiter_def st del: starvation_pass.simps priority_pass.simps)
    from priority_pass_shrinks [OF this] show ?thesis
      using starvation_pass_shrinks [OF st] False shrinks_trans by simp
  qed
qed

section \<open>The dispatcher\<close>

text \<open>Its loop drains the queues until a pass hands out nothing.\<close>

function drain ::
    "nat \<Rightarrow> (token \<Rightarrow> bool) \<Rightarrow> (nat \<Rightarrow> bool) \<Rightarrow> (nat \<Rightarrow> bool) \<Rightarrow> scheduler \<Rightarrow> scheduler" where
  "drain now fired hung_up gone s =
     (case wake_next_waiter now fired hung_up gone s of
        (s', True) \<Rightarrow> drain now fired hung_up gone s'
      | (s', False) \<Rightarrow> s')"
  by pat_completeness auto

termination
  by (relation "measure (\<lambda>(now, fired, hung_up, gone, s). waiting s)")
    (auto intro!: shrinks_waiting wake_shrinks simp del: starvation_pass.simps priority_pass.simps)

declare drain.simps [simp del]

datatype dispatcher_event = DE_notified | DE_tick | DE_capacity u16

definition dispatcher_step ::
    "nat \<Rightarrow> (token \<Rightarrow> bool) \<Rightarrow> (nat \<Rightarrow> bool) \<Rightarrow> (nat \<Rightarrow> bool) \<Rightarrow> dispatcher_event \<Rightarrow> scheduler \<Rightarrow> scheduler" where
  "dispatcher_step now fired hung_up gone event s =
     (case event of
        DE_notified \<Rightarrow> drain now fired hung_up gone (s\<lparr>sch_release_notify := False\<rparr>)
      | DE_tick \<Rightarrow> drain now fired hung_up gone s
      | DE_capacity new_capacity \<Rightarrow> apply_new_capacity new_capacity s)"


section \<open>What a pass that hands out nothing leaves behind\<close>

lemma release_try_acquire: "try_acquire c pool = (pool', True) \<Longrightarrow> release c pool' = pool"
proof -
  assume acq: "try_acquire c pool = (pool', True)"
  then obtain new where new: "acquire_pass c (sp_inflight_packed pool) (sp_capacity pool) (snapshot_reserved pool) = Some new"
      and pool': "pool' = pool\<lparr>sp_inflight_packed := new\<rparr>"
    by (auto simp: try_acquire_def split: option.splits)
  from acquire_pass_SomeD(2) [OF new, of c] obtain old where old: "release_pass c new = Some old"
    by (cases "release_pass c new") (auto simp: release_pass_None)
  have "lane (unpack old) d = lane (unpack (sp_inflight_packed pool)) d" for d
    using acquire_pass_SomeD(2) [OF new, of d] release_pass_SomeD(1) [OF old, of d]
    by (intro word_unat_eq_iff [THEN iffD2]) simp
  then have "old = sp_inflight_packed pool" by (metis lanes_eqI pack_unpack)
  then show ?thesis by (simp add: release_def pool' old)
qed

lemma release_try_acquire_ignoring:
  "try_acquire_ignoring_reservations c pool = (pool', True) \<Longrightarrow> release c pool' = pool"
proof -
  assume acq: "try_acquire_ignoring_reservations c pool = (pool', True)"
  then obtain new where new: "acquire_ignoring_pass c (sp_inflight_packed pool) (sp_capacity pool) = Some new"
      and pool': "pool' = pool\<lparr>sp_inflight_packed := new\<rparr>"
    by (auto simp: try_acquire_ignoring_reservations_def split: option.splits)
  from acquire_ignoring_pass_SomeD(2) [OF new, of c] obtain old where old: "release_pass c new = Some old"
    by (cases "release_pass c new") (auto simp: release_pass_None)
  have "lane (unpack old) d = lane (unpack (sp_inflight_packed pool)) d" for d
    using acquire_ignoring_pass_SomeD(2) [OF new, of d] release_pass_SomeD(1) [OF old, of d]
    by (intro word_unat_eq_iff [THEN iffD2]) simp
  then have "old = sp_inflight_packed pool" by (metis lanes_eqI pack_unpack)
  then show ?thesis by (simp add: release_def pool' old)
qed

lemma send_to_head_unsent:
  "send_to_head now hung_up gone class s = (s', False) \<Longrightarrow>
   sch_slot_pool s' = sch_slot_pool s \<and> sch_class_config s' = sch_class_config s"
proof (induction now hung_up gone "class" s rule: send_to_head.induct)
  case (1 now hung_up gone "class" s)
  show ?case
  proof (cases "fq_waiters (queue_of class s)")
    case Nil
    then show ?thesis using 1(2) by (auto simp: send_to_head.simps pop_eligible_def)
  next
    case (Cons w ws)
    then have pop: "pop_eligible (queue_of class s) = ((queue_of class s)\<lparr>fq_waiters := ws\<rparr>, Some w)"
      by (simp add: pop_eligible_def)
    then have hung: "hung_up (w_permit_tx w)"
      and rec: "send_to_head now hung_up gone class (set_queue class ((queue_of class s)\<lparr>fq_waiters := ws\<rparr>) s) = (s', False)"
      using 1(2) by (auto simp: send_to_head.simps [of now hung_up gone "class" s] split: if_splits)
    from 1(1) [OF pop [symmetric] refl hung rec] show ?thesis by (simp add: set_queue_def)
  qed
qed

text \<open>The queue of a class after a pass: reaped, and emptied when every waiter had hung up.\<close>

definition reaped :: "(token \<Rightarrow> bool) \<Rightarrow> prio_class \<Rightarrow> scheduler \<Rightarrow> scheduler \<Rightarrow> bool" where
  "reaped fired c s s' \<longleftrightarrow>
     fq_waiters (queue_of c s') = [] \<or> queue_of c s' = drop_cancelled_head fired (queue_of c s)"

definition same_pool :: "scheduler \<Rightarrow> scheduler \<Rightarrow> bool" where
  "same_pool s s' \<longleftrightarrow> sch_slot_pool s' = sch_slot_pool s \<and> sch_class_config s' = sch_class_config s"

lemma same_pool_reap: "same_pool s (reap_head fired c s)"
  by (simp add: same_pool_def reap_head_def set_queue_def)

lemma same_pool_trans: "same_pool s t \<Longrightarrow> same_pool t u \<Longrightarrow> same_pool s u"
  by (simp add: same_pool_def)

lemma drop_cancelled_idem [simp]: "drop_cancelled_head fired (drop_cancelled_head fired q) = drop_cancelled_head fired q"
  by (simp add: drop_cancelled_head_def dropWhile_idem)

lemma queue_of_reap: "queue_of d (reap_head fired c s) = (if c = d then drop_cancelled_head fired (queue_of c s) else queue_of d s)"
  by (simp add: reap_head_def)

definition settled :: "scheduler \<Rightarrow> prio_class \<Rightarrow> bool" where
  "settled s c \<longleftrightarrow> fq_waiters (queue_of c s) = [] \<or> \<not> snd (try_acquire c (sch_slot_pool s))"

definition not_starved :: "nat \<Rightarrow> scheduler \<Rightarrow> prio_class \<Rightarrow> bool" where
  "not_starved now s c \<longleftrightarrow>
     (case head_age now (queue_of c s) of
        None \<Rightarrow> True
      | Some age \<Rightarrow> age \<le> rt_starvation_threshold (lane (sch_class_config s) c) \<or>
                    \<not> snd (try_acquire_ignoring_reservations c (sch_slot_pool s)))"

lemma priority_pass_unsent:
  "priority_pass now fired hung_up gone cs s = (s', False) \<Longrightarrow> distinct cs \<Longrightarrow>
   same_pool s s' \<and> (\<forall>c \<in> set cs. reaped fired c s s' \<and> settled s' c) \<and> (\<forall>c. c \<notin> set cs \<longrightarrow> queue_of c s' = queue_of c s)"
proof (induction cs arbitrary: s)
  case Nil
  then show ?case by (simp add: same_pool_def)
next
  case (Cons c cs)
  let ?s = "reap_head fired c s"
  have dist: "distinct cs" "c \<notin> set cs" using Cons.prems(2) by simp_all
  have step: ?case
    if rec: "priority_pass now fired hung_up gone cs t = (s', False)" and pool: "same_pool s t"
      and here: "reaped fired c s t \<and> settled t c" and others: "\<And>d. d \<noteq> c \<Longrightarrow> queue_of d t = queue_of d s" for t
  proof -
    note IH = Cons.IH [OF rec dist(1)]
    have "queue_of c s' = queue_of c t" using IH dist(2) by blast
    then have "reaped fired c s s' \<and> settled s' c"
      using here IH by (simp add: reaped_def settled_def same_pool_def)
    moreover have "reaped fired d s s' \<and> settled s' d" if "d \<in> set cs" for d
    proof -
      have "queue_of d t = queue_of d s" using that dist(2) by (intro others) auto
      moreover have "reaped fired d t s' \<and> settled s' d" using IH that by blast
      ultimately show ?thesis by (simp add: reaped_def)
    qed
    moreover have "queue_of d s' = queue_of d s" if "d \<notin> set (c # cs)" for d
      using IH that others [of d] by auto
    ultimately show ?thesis using IH pool same_pool_trans by auto
  qed
  obtain pool won where acq: "try_acquire c (sch_slot_pool ?s) = (pool, won)" by force
  show ?case
  proof (cases "depth (queue_of c ?s) = 0 \<or> \<not> won")
    case True
    then have rec: "priority_pass now fired hung_up gone cs ?s = (s', False)"
      using Cons.prems by (auto simp: Let_def acq split: if_splits)
    show ?thesis
      using True acq
      by (intro step [OF rec]) (auto simp: same_pool_reap queue_of_reap reaped_def settled_def depth_def)
  next
    case False
    obtain s2 where send: "send_to_head now hung_up gone c (?s\<lparr>sch_slot_pool := pool\<rparr>) = (s2, False)"
      and rec: "priority_pass now fired hung_up gone cs (release_slot c s2) = (s', False)"
      using Cons.prems False by (auto simp: Let_def acq split: prod.splits bool.splits)
    have "release c pool = sch_slot_pool ?s" using acq False by (intro release_try_acquire) simp
    then have "same_pool s (release_slot c s2)"
      using send_to_head_unsent [OF send] same_pool_reap [of s fired c] by (simp add: same_pool_def release_slot_def)
    then show ?thesis
      using send_to_head_queues [OF send]
      by (intro step [OF rec]) (auto simp: reaped_def settled_def queue_of_reap)
  qed
qed

lemma starvation_pass_unsent:
  "starvation_pass now fired hung_up gone cs s = (s', False) \<Longrightarrow> distinct cs \<Longrightarrow>
   same_pool s s' \<and> (\<forall>c \<in> set cs. reaped fired c s s' \<and> not_starved now s' c) \<and> (\<forall>c. c \<notin> set cs \<longrightarrow> queue_of c s' = queue_of c s)"
proof (induction cs arbitrary: s)
  case Nil
  then show ?case by (simp add: same_pool_def)
next
  case (Cons c cs)
  let ?s = "reap_head fired c s"
  have dist: "distinct cs" "c \<notin> set cs" using Cons.prems(2) by simp_all
  have step: ?case
    if rec: "starvation_pass now fired hung_up gone cs t = (s', False)" and pool: "same_pool s t"
      and here: "reaped fired c s t \<and> not_starved now t c" and others: "\<And>d. d \<noteq> c \<Longrightarrow> queue_of d t = queue_of d s" for t
  proof -
    note IH = Cons.IH [OF rec dist(1)]
    have "queue_of c s' = queue_of c t" using IH dist(2) by blast
    then have "reaped fired c s s' \<and> not_starved now s' c"
      using here IH by (simp add: reaped_def not_starved_def same_pool_def split: option.splits)
    moreover have "reaped fired d s s' \<and> not_starved now s' d" if "d \<in> set cs" for d
    proof -
      have "queue_of d t = queue_of d s" using that dist(2) by (intro others) auto
      moreover have "reaped fired d t s' \<and> not_starved now s' d" using IH that by blast
      ultimately show ?thesis by (simp add: reaped_def)
    qed
    moreover have "queue_of d s' = queue_of d s" if "d \<notin> set (c # cs)" for d
      using IH that others [of d] by auto
    ultimately show ?thesis using IH pool same_pool_trans by auto
  qed
  obtain pool won where acq: "try_acquire_ignoring_reservations c (sch_slot_pool ?s) = (pool, won)" by force
  show ?case
  proof (cases "\<exists>age. head_age now (queue_of c ?s) = Some age \<and>
      \<not> age \<le> rt_starvation_threshold (lane (sch_class_config ?s) c) \<and> won")
    case False
    then have rec: "starvation_pass now fired hung_up gone cs ?s = (s', False)"
      using Cons.prems by (auto simp: Let_def acq split: if_splits option.splits)
    show ?thesis
      using False acq
      by (intro step [OF rec]) (auto simp: same_pool_reap queue_of_reap reaped_def not_starved_def split: option.splits)
  next
    case True
    obtain s2 where send: "send_to_head now hung_up gone c (?s\<lparr>sch_slot_pool := pool\<rparr>) = (s2, False)"
      and rec: "starvation_pass now fired hung_up gone cs (release_slot c s2) = (s', False)"
      using Cons.prems True by (auto simp: Let_def acq split: prod.splits bool.splits)
    have "release c pool = sch_slot_pool ?s" using acq True by (intro release_try_acquire_ignoring) auto
    then have "same_pool s (release_slot c s2)"
      using send_to_head_unsent [OF send] same_pool_reap [of s fired c] by (simp add: same_pool_def release_slot_def)
    then show ?thesis
      using send_to_head_queues [OF send]
      by (intro step [OF rec]) (auto simp: reaped_def not_starved_def head_age_def queue_of_reap)
  qed
qed

lemma wake_unsent:
  assumes "wake_next_waiter now fired hung_up gone s = (s', False)"
  shows "settled s' c" and "c = System \<or> not_starved now s' c"
proof -
  obtain s1 where st: "starvation_pass now fired hung_up gone [Bulk, Default, Interactive] s = (s1, False)"
    and pr: "priority_pass now fired hung_up gone [System, Interactive, Default, Bulk] s1 = (s', False)"
    using assms by (auto simp: wake_next_waiter_def simp del: starvation_pass.simps priority_pass.simps split: prod.splits bool.splits)
  have p: "same_pool s1 s'" "reaped fired c s1 s'" "settled s' c"
    using priority_pass_unsent [OF pr] by (cases c; auto)+
  show "settled s' c" by (rule p(3))
  show "c = System \<or> not_starved now s' c"
  proof (cases "c = System")
    case False
    then have s: "reaped fired c s s1" "not_starved now s1 c"
      using starvation_pass_unsent [OF st] by (cases c; auto)+
    have "fq_waiters (queue_of c s') = [] \<or> queue_of c s' = queue_of c s1"
      using p(2) s(1) by (auto simp: reaped_def drop_cancelled_head_def)
    then show ?thesis
      using s(2) p(1) by (auto simp: not_starved_def same_pool_def head_age_def split: option.splits list.splits)
  qed simp
qed


section \<open>Properties\<close>

text \<open>C22.
  A drain ends and leaves no admissible waiter behind.  The dispatcher's loop terminates
  (the definition of \<open>drain\<close> is total), and after it every class queue is empty or its class has
  no slot available, and every head below \<open>System\<close> is younger than its starvation threshold or
  the pool is full: no waiter sits behind a free slot, whoever hung up or was cancelled meanwhile.
\<close>

theorem drain_work_conserving:
  "settled (drain now fired hung_up gone s) c \<and>
   (c = System \<or> not_starved now (drain now fired hung_up gone s) c)"
proof (induction now fired hung_up gone s rule: drain.induct)
  case (1 now fired hung_up gone s)
  obtain s' sent where wake: "wake_next_waiter now fired hung_up gone s = (s', sent)" by force
  show ?case
  proof (cases sent)
    case True
    then show ?thesis
      using 1 [OF wake [symmetric]] by (simp add: drain.simps [of now fired hung_up gone s] wake)
  next
    case False
    then show ?thesis
      using wake_unsent [of now fired hung_up gone s s' c] wake
      by (simp add: drain.simps [of now fired hung_up gone s])
  qed
qed

text \<open>
  A preemption cancels the cheapest victim.  The chosen request is of a strictly lower class and
  has not produced a byte; no eligible request is of a lower class, and none of the same class
  was admitted later.  There is a victim exactly when there is an eligible request.
\<close>

theorem victim_choice:
  "(case find_preemption_victim waiter_class s of
      None \<Rightarrow> (\<nexists>h. h \<in> snd ` set (sch_inflight_registry s) \<and> ih_class h < waiter_class \<and> is_preemptible h)
    | Some v \<Rightarrow> v \<in> snd ` set (sch_inflight_registry s) \<and> ih_class v < waiter_class \<and> is_preemptible v \<and>
        (\<forall>h \<in> snd ` set (sch_inflight_registry s). ih_class h < waiter_class \<and> is_preemptible h \<longrightarrow>
           ih_class v < ih_class h \<or> (ih_class v = ih_class h \<and> ih_admitted_at h \<le> ih_admitted_at v)))"
proof -
  let ?hs = "filter (\<lambda>h. ih_class h < waiter_class \<and> is_preemptible h) (map snd (sch_inflight_registry s))"
  let ?key = "\<lambda>h. (3 - class_index (ih_class h), ih_admitted_at h)"
  have idx: "class_index c \<le> 3" for c by (cases c) simp_all
  show ?thesis
  proof (cases "find_preemption_victim waiter_class s")
    case None
    then have "?hs = []" by (simp add: find_preemption_victim_def)
    then show ?thesis using None by (auto simp: filter_empty_conv)
  next
    case (Some v)
    then have v: "v \<in> set ?hs" and best: "\<And>h. h \<in> set ?hs \<Longrightarrow> ?key h \<le> ?key v"
      using max_by_key_in max_by_key_ge by (fastforce simp: find_preemption_victim_def)+
    have "ih_class v < ih_class h \<or> (ih_class v = ih_class h \<and> ih_admitted_at h \<le> ih_admitted_at v)"
      if "h \<in> set ?hs" for h
    proof -
      have "3 - class_index (ih_class h) < 3 - class_index (ih_class v) \<or>
          (3 - class_index (ih_class h) \<le> 3 - class_index (ih_class v) \<and> ih_admitted_at h \<le> ih_admitted_at v)"
        using best [OF that] by simp
      then have "class_index (ih_class v) < class_index (ih_class h) \<or>
          (class_index (ih_class v) = class_index (ih_class h) \<and> ih_admitted_at h \<le> ih_admitted_at v)"
        using idx [of "ih_class h"] idx [of "ih_class v"] by linarith
      then show ?thesis by (simp add: less_prio_class_def)
    qed
    then show ?thesis using Some v by auto
  qed
qed

definition demo_scheduler :: scheduler where
  "demo_scheduler =
     \<lparr>sch_slot_pool = \<lparr>sp_capacity = 2, sp_inflight_packed = 2, sp_reserved = Lanes 0 0 0 1\<rparr>,
      sch_class_queues = lanes_of (\<lambda>_. fifo_new 1),
      sch_inflight_registry = [(''a'', handle_new 1 Bulk ''a''), (''b'', handle_new 2 Bulk ''b'')],
      sch_release_notify = False, sch_class_config = lanes_of (\<lambda>c. from_class_config (default_for c)),
      sch_reserved_floor = Lanes 0 0 0 1, sch_reserved_per_slot = lanes_of (\<lambda>_. F_fin 0), sch_delivered = []\<rparr>"

theorem victim_choice_witness:
  "case find_preemption_victim System demo_scheduler of
     None \<Rightarrow> False
   | Some v \<Rightarrow> is_preemptible v \<and> (\<forall>h \<in> snd ` set (sch_inflight_registry demo_scheduler). ih_admitted_at h \<le> ih_admitted_at v)"
  using victim_choice [where waiter_class = System and s = demo_scheduler]
  by (simp add: find_preemption_victim_def demo_scheduler_def handle_new_def is_preemptible_def less_prio_class_def)

lemma unat_word_of_nat_le: "n \<le> unat (w :: u16) \<Longrightarrow> unat (word_of_nat n :: u16) = n"
  using unat_below [of w] by (simp add: unsigned_of_nat take_bit_nat_eq_self)

lemma desired_lane:
  "\<exists>slots. unat (lane (desired_reservations reserved_floor per_slot capacity) c) =
     min (max (unat (lane reserved_floor c)) slots) (unat capacity)"
proof -
  have "unat (word_of_nat (min n (unat capacity)) :: u16) = min n (unat capacity)" for n
    by (rule unat_word_of_nat_le [of _ capacity]) simp
  then show ?thesis
    unfolding desired_reservations_def Let_def lane_lanes_of by blast
qed

lemma desired_bounds:
  "unat (lane (desired_reservations reserved_floor per_slot capacity) c) \<le> unat capacity"
  "min (unat (lane reserved_floor c)) (unat capacity) \<le> unat (lane (desired_reservations reserved_floor per_slot capacity) c)"
  using desired_lane [of reserved_floor per_slot capacity c] by auto

lemma lanes_total_expand:
  "lanes_total l = unat (lane l Bulk) + unat (lane l Default) + unat (lane l Interactive) + unat (lane l System)"
  by (cases l) (simp add: lanes_total_def)

lemma scaled_le:
  assumes "unat capacity < sum_all"
  shows "unat (lane desired c) * unat capacity div sum_all \<le> unat (lane desired c)"
proof -
  have "unat (lane desired c) * unat capacity \<le> unat (lane desired c) * sum_all"
    using assms by (intro mult_le_mono) simp_all
  then show ?thesis using assms by (metis div_le_mono div_mult_self_is_m less_zeroE not_gr_zero)
qed

lemma scaled_total:
  assumes "unat capacity < lanes_total desired"
  defines "out \<equiv> lanes_of (\<lambda>c. word_of_nat (unat (lane desired c) * unat capacity div lanes_total desired) :: u16)"
  shows "unat (lane out c) = unat (lane desired c) * unat capacity div lanes_total desired"
    and "lanes_total out \<le> unat capacity"
proof -
  show lanes: "unat (lane out c) = unat (lane desired c) * unat capacity div lanes_total desired" for c
    using scaled_le [OF assms(1), of desired c] by (simp add: out_def unat_word_of_nat_le)
  let ?t = "lanes_total desired" and ?k = "unat capacity"
  have "lanes_total out * ?t \<le> ?k * ?t"
  proof -
    have part: "(unat (lane desired c) * ?k div ?t) * ?t \<le> unat (lane desired c) * ?k" for c by simp
    have "lanes_total out * ?t \<le> (unat (lane desired Bulk) + unat (lane desired Default) +
        unat (lane desired Interactive) + unat (lane desired System)) * ?k"
      unfolding lanes_total_expand [of out] lanes add_mult_distrib
      using part [of Bulk] part [of Default] part [of Interactive] part [of System] by linarith
    then show ?thesis by (simp add: lanes_total_expand [of desired] mult.commute)
  qed
  then show "lanes_total out \<le> ?k" using assms(1) by simp
qed

lemma lanes_total_dec_largest:
  assumes "max_by_key (lane out) ALL_classes = Some largest" "0 < lanes_total out"
  shows "lanes_total (set_lane largest (saturating_sub (lane out largest) 1) out) = lanes_total out - 1"
    and "unat (lane (set_lane largest (saturating_sub (lane out largest) 1) out) c) \<le> unat (lane out c)"
proof -
  have "lane out c \<le> lane out largest" for c
    by (rule max_by_key_ge [OF assms(1)]) (cases c; simp add: ALL_classes_def)
  then have "unat (lane out c) \<le> unat (lane out largest)" for c by (simp add: word_le_nat_alt)
  then have "0 < unat (lane out largest)"
    using assms(2) unfolding lanes_total_expand by (metis add_is_0 bot_nat_0.not_eq_extremum le_zero_eq)
  then show "lanes_total (set_lane largest (saturating_sub (lane out largest) 1) out) = lanes_total out - 1"
    using lanes_total_set_lane [of largest "saturating_sub (lane out largest) 1" out] by (simp add: word_facts)
  show "unat (lane (set_lane largest (saturating_sub (lane out largest) 1) out) c) \<le> unat (lane out c)"
    by (simp add: word_facts)
qed

lemma clamp_facts:
  "lanes_total (clamp_reservations_to_capacity desired capacity) \<le> unat capacity"
  "unat (lane (clamp_reservations_to_capacity desired capacity) c) \<le> unat (lane desired c)"
  "0 < unat capacity \<Longrightarrow> unat capacity < lanes_total desired \<Longrightarrow>
   lanes_total (clamp_reservations_to_capacity desired capacity) < unat capacity"
proof -
  define res where "res = clamp_reservations_to_capacity desired capacity"
  have "lanes_total res \<le> unat capacity \<and> unat (lane res c) \<le> unat (lane desired c) \<and>
      (0 < unat capacity \<and> unat capacity < lanes_total desired \<longrightarrow> lanes_total res < unat capacity)"
  proof (cases "unat capacity < lanes_total desired")
    case False
    then show ?thesis by (simp add: res_def clamp_reservations_to_capacity_def)
  next
    case True
    define out where "out = lanes_of (\<lambda>c. word_of_nat (unat (lane desired c) * unat capacity div lanes_total desired) :: u16)"
    have out: "lanes_total out \<le> unat capacity" "unat (lane out c) \<le> unat (lane desired c)"
      using scaled_total [OF True] scaled_le [OF True] unfolding out_def by simp_all
    show ?thesis
    proof (cases "0 < unat capacity \<and> unat capacity \<le> lanes_total out")
      case cut: True
      have "max_by_key (lane out) ALL_classes \<noteq> None"
        unfolding max_by_key_None by (simp add: ALL_classes_def)
      then obtain largest where largest: "max_by_key (lane out) ALL_classes = Some largest" by blast
      have "res = set_lane largest (saturating_sub (lane out largest) 1) out"
        using True cut largest by (simp add: res_def clamp_reservations_to_capacity_def Let_def out_def [symmetric])
      moreover have "0 < lanes_total out" using cut by linarith
      ultimately show ?thesis
        using lanes_total_dec_largest(1) [OF largest] lanes_total_dec_largest(2) [OF largest, of c] out cut by simp
    next
      case False
      then have "res = out"
        using True by (auto simp: res_def clamp_reservations_to_capacity_def Let_def out_def [symmetric])
      then show ?thesis using out False by auto
    qed
  qed
  then show "lanes_total (clamp_reservations_to_capacity desired capacity) \<le> unat capacity"
    "unat (lane (clamp_reservations_to_capacity desired capacity) c) \<le> unat (lane desired c)"
    "0 < unat capacity \<Longrightarrow> unat capacity < lanes_total desired \<Longrightarrow>
     lanes_total (clamp_reservations_to_capacity desired capacity) < unat capacity"
    by (simp_all add: res_def)
qed

text \<open>C24.
  Clamped reservations fit the pool and lock nobody out.  However much the classes ask for, the
  clamp gives each at most what it asked for and all together at most the capacity; and when it
  has to cut into a non-empty pool it leaves a slot unreserved, so an idle pool admits every class.
\<close>

theorem clamp_fits_pool:
  "lanes_total (clamp_reservations_to_capacity desired capacity) \<le> unat capacity \<and>
   unat (lane (clamp_reservations_to_capacity desired capacity) c) \<le> unat (lane desired c) \<and>
   (0 < unat capacity \<and> unat capacity < lanes_total desired \<longrightarrow>
      slots_available_to (Lanes 0 0 0 0) (clamp_reservations_to_capacity desired capacity) capacity c \<noteq> 0)"
proof -
  define res where "res = clamp_reservations_to_capacity desired capacity"
  have "held_above res (Lanes 0 0 0 0) c \<le> lanes_total res"
    by (cases c) (simp_all add: held_above_def ALL_classes_def less_prio_class_def lanes_total_expand)
  moreover have "lanes_total (Lanes 0 0 0 0) = 0" by (simp add: lanes_total_def)
  ultimately show ?thesis
    using unat_slots_available_to [of "Lanes 0 0 0 0" res capacity c]
      clamp_facts [where desired = desired and capacity = capacity]
    unfolding res_def by (auto simp: unat_eq_zero [symmetric])
qed

theorem clamp_fits_pool_witness:
  "slots_available_to (Lanes 0 0 0 0) (clamp_reservations_to_capacity (Lanes 0 0 128 32) 4) 4 Bulk \<noteq> 0"
  using clamp_fits_pool [of "Lanes 0 0 128 32" 4 Bulk] by (simp add: lanes_total_def)


definition effective_reservations :: "u16 lanes \<Rightarrow> f64 lanes \<Rightarrow> u16 \<Rightarrow> u16 lanes" where
  "effective_reservations reserved_floor per_slot capacity =
     clamp_reservations_to_capacity (desired_reservations reserved_floor per_slot capacity) capacity"

lemma set_all_reserved:
  "foldl (\<lambda>pool class. set_reserved class (lane new_reserved class) pool) pool ALL_classes = pool\<lparr>sp_reserved := new_reserved\<rparr>"
proof -
  have "set_lane System (lane l System) (set_lane Interactive (lane l Interactive)
      (set_lane Default (lane l Default) (set_lane Bulk (lane l Bulk) old))) = l" for l old :: "u16 lanes"
    by (cases l; cases old) simp
  then show ?thesis by (simp add: ALL_classes_def set_reserved_def)
qed

lemma apply_new_capacity_pool:
  assumes "sp_reserved (sch_slot_pool s) =
      effective_reservations (sch_reserved_floor s) (sch_reserved_per_slot s) (sp_capacity (sch_slot_pool s))"
  shows "sch_slot_pool (apply_new_capacity c s) = (sch_slot_pool s)\<lparr>sp_capacity := c,
           sp_reserved := effective_reservations (sch_reserved_floor s) (sch_reserved_per_slot s) c\<rparr>"
    and "sch_reserved_floor (apply_new_capacity c s) = sch_reserved_floor s"
    and "sch_reserved_per_slot (apply_new_capacity c s) = sch_reserved_per_slot s"
proof -
  have eff: "(if unat c < lanes_total d then clamp_reservations_to_capacity d c else d) =
      clamp_reservations_to_capacity d c" for d
    by (simp add: clamp_reservations_to_capacity_def)
  show "sch_slot_pool (apply_new_capacity c s) = (sch_slot_pool s)\<lparr>sp_capacity := c,
           sp_reserved := effective_reservations (sch_reserved_floor s) (sch_reserved_per_slot s) c\<rparr>"
    using assms
    by (cases "c = sp_capacity (sch_slot_pool s)")
      (simp_all add: apply_new_capacity_def Let_def set_all_reserved set_capacity_def notify_one_def eff
        effective_reservations_def [symmetric])
  show "sch_reserved_floor (apply_new_capacity c s) = sch_reserved_floor s"
    "sch_reserved_per_slot (apply_new_capacity c s) = sch_reserved_per_slot s"
    by (simp_all add: apply_new_capacity_def Let_def notify_one_def)
qed

text \<open>
  Reservations follow the capacity and recover.  After any sequence of capacity changes the
  pool's reservations are those computed from the configured floors and shares for the last
  capacity alone: a dip erodes nothing for good.  They always fit the capacity, and no change
  touches the requests in flight.
\<close>

theorem reservations_recover:
  assumes "scheduler_new settings capacity = Inr s0"
    and "s = foldl (\<lambda>s c. apply_new_capacity c s) s0 changes"
  shows "sch_slot_pool s =
           \<lparr>sp_capacity = last (capacity # changes), sp_inflight_packed = 0,
            sp_reserved = effective_reservations (lanes_of (\<lambda>c. cc_reserved_floor (class_config_of settings c)))
              (lanes_of (\<lambda>c. cc_reserved_per_slot (class_config_of settings c))) (last (capacity # changes))\<rparr> \<and>
         lanes_total (sp_reserved (sch_slot_pool s)) \<le> unat (sp_capacity (sch_slot_pool s))"
proof -
  define fl where "fl = lanes_of (\<lambda>c. cc_reserved_floor (class_config_of settings c))"
  define sh where "sh = lanes_of (\<lambda>c. cc_reserved_per_slot (class_config_of settings c))"
  have "sch_slot_pool (foldl (\<lambda>s c. apply_new_capacity c s) t cs) =
      \<lparr>sp_capacity = last (k # cs), sp_inflight_packed = 0, sp_reserved = effective_reservations fl sh (last (k # cs))\<rparr>"
    if "sch_slot_pool t = \<lparr>sp_capacity = k, sp_inflight_packed = 0, sp_reserved = effective_reservations fl sh k\<rparr>"
      "sch_reserved_floor t = fl" "sch_reserved_per_slot t = sh" for cs k t
    using that
  proof (induction cs arbitrary: t k)
    case (Cons c cs)
    then show ?case
      using Cons.IH [of "apply_new_capacity c t" c] apply_new_capacity_pool [of t c] by simp
  qed simp
  moreover have "sch_slot_pool s0 = \<lparr>sp_capacity = capacity, sp_inflight_packed = 0, sp_reserved = effective_reservations fl sh capacity\<rparr>"
    "sch_reserved_floor s0 = fl" "sch_reserved_per_slot s0 = sh"
    using assms(1)
    by (auto simp: scheduler_new_def Let_def slot_pool_new_def fl_def sh_def effective_reservations_def
        clamp_reservations_to_capacity_def split: if_splits)
  ultimately have "sch_slot_pool s = \<lparr>sp_capacity = last (capacity # changes), sp_inflight_packed = 0,
      sp_reserved = effective_reservations fl sh (last (capacity # changes))\<rparr>"
    unfolding assms(2) by blast
  moreover have "lanes_total (effective_reservations fl sh k) \<le> unat k" for k
    unfolding effective_reservations_def by (rule clamp_facts(1))
  ultimately show ?thesis
    unfolding fl_def sh_def by simp
qed


definition plain_settings :: scheduler_settings where
  "plain_settings =
     \<lparr>ss_enabled = True, ss_default_max_class = System,
      ss_classes = lanes_of (\<lambda>c. (default_for c)\<lparr>cc_reserved_floor := 1, cc_reserved_per_slot := F_fin 0\<rparr>),
      ss_tenant_policies = [], ss_tenant_metric_top_n = 10\<rparr>"

lemma plain_desired:
  "4 \<le> unat capacity \<Longrightarrow> desired_reservations (lanes_of (\<lambda>c. cc_reserved_floor (class_config_of plain_settings c)))
     (lanes_of (\<lambda>c. cc_reserved_per_slot (class_config_of plain_settings c))) capacity = Lanes 1 1 1 1"
proof -
  assume cap: "4 \<le> unat capacity"
  have "f64_mul (F_fin 0) (f64_of_nat (unat capacity)) = F_fin 0"
    using unat_below [of capacity] by (simp add: f64_of_nat_exact f64_round_def)
  then show ?thesis
    using cap by (simp add: desired_reservations_def plain_settings_def class_config_of_def lanes_of_def Let_def)
qed

theorem reservations_recover_witness:
  "\<exists>s0. scheduler_new plain_settings 8 = Inr s0 \<and>
     sp_reserved (sch_slot_pool (foldl (\<lambda>s c. apply_new_capacity c s) s0 [2, 8])) = Lanes 1 1 1 1"
proof -
  obtain s0 where s0: "scheduler_new plain_settings 8 = Inr s0"
    using plain_desired [of 8] by (simp add: scheduler_new_def Let_def lanes_total_def)
  show ?thesis
    using reservations_recover [OF s0 refl, of "[2, 8]"] plain_desired [of 8] s0
    by (simp add: effective_reservations_def clamp_reservations_to_capacity_def lanes_total_def)
qed

end
