(* ===== verification/Sched_World.thy ===== *)
theory Sched_World
  imports Sched_Engine
begin

text \<open>
  The scheduler with its clients: requests arrive, poll, wait, leave, stream and finish while the
  dispatcher drains the queues and capacity changes.  Each step is one method of
  \<open>middleware/scheduler/engine.rs\<close>; the order is arbitrary.  A request is a task with its class,
  its cancellation token, its oneshot channel and the point its admission has reached.
\<close>

section \<open>Tasks\<close>

datatype phase = Ph_polling nat | Ph_queued | Ph_admitted | Ph_over

record task =
  tk_class :: prio_class
  tk_cancel :: token
  tk_tx :: nat
  tk_phase :: phase

record world =
  wd_sched :: scheduler
  wd_fired :: "token set"
  wd_dropped :: "nat set"
  wd_tasks :: "string \<Rightarrow> task option"
  wd_clock :: nat

fun phase_of :: "admission \<Rightarrow> phase" where
  "phase_of (A_done (Admitted _)) = Ph_admitted"
| "phase_of (A_done (Rejected _)) = Ph_over"
| "phase_of (A_polling deadline) = Ph_polling deadline"
| "phase_of (A_queued _ _) = Ph_queued"

fun phase_after :: "admit_outcome option \<Rightarrow> phase" where
  "phase_after (Some (Admitted _)) = Ph_admitted"
| "phase_after _ = Ph_over"

definition set_task :: "string \<Rightarrow> task \<Rightarrow> phase \<Rightarrow> world \<Rightarrow> world" where
  "set_task rid t ph w = w\<lparr>wd_tasks := (wd_tasks w)(rid \<mapsto> t\<lparr>tk_phase := ph\<rparr>)\<rparr>"

definition waiting_ids :: "scheduler \<Rightarrow> string list" where
  "waiting_ids s = concat (map (\<lambda>c. map w_request_id (fq_waiters (queue_of c s))) ALL_classes)"

text \<open>
  The exit arms that need something: the permit has to be there; the sender is dropped without a
  permit only once its waiter has left the queue.
\<close>

definition arm_enabled :: "exit_arm \<Rightarrow> string \<Rightarrow> nat \<Rightarrow> scheduler \<Rightarrow> bool" where
  "arm_enabled arm rid tx s \<longleftrightarrow>
     (case arm of
        Arm_permit \<Rightarrow> map_of (sch_delivered s) tx \<noteq> None
      | Arm_sender_dropped \<Rightarrow> map_of (sch_delivered s) tx = None \<and> rid \<notin> set (waiting_ids s)
      | _ \<Rightarrow> True)"

inductive world_step :: "world \<Rightarrow> world \<Rightarrow> bool" where
  arrives: "wd_tasks w rid = None \<Longrightarrow> (\<forall>r t. wd_tasks w r = Some t \<longrightarrow> tk_tx t \<noteq> tx) \<Longrightarrow> tx \<notin> wd_dropped w \<Longrightarrow>
    admit (wd_clock w) (wd_fired w) class rid cancel tx (wd_sched w) = (s, adm) \<Longrightarrow>
    world_step w (set_task rid \<lparr>tk_class = class, tk_cancel = cancel, tk_tx = tx, tk_phase = Ph_over\<rparr> (phase_of adm)
      (w\<lparr>wd_sched := s\<rparr>))"
| polls: "wd_tasks w rid = Some t \<Longrightarrow> tk_phase t = Ph_polling deadline \<Longrightarrow>
    admit_poll (wd_clock w) (wd_fired w) (tk_class t) rid (tk_cancel t) (tk_tx t) deadline (wd_sched w) = (s, adm) \<Longrightarrow>
    world_step w (set_task rid t (phase_of adm) (w\<lparr>wd_sched := s\<rparr>))"
| leaves_queue: "wd_tasks w rid = Some t \<Longrightarrow> tk_phase t = Ph_queued \<Longrightarrow>
    arm_enabled arm rid (tk_tx t) (wd_sched w) \<Longrightarrow> queued_exit arm (tk_tx t) (wd_sched w) = (s, outcome) \<Longrightarrow>
    world_step w (set_task rid t (phase_after outcome)
      (w\<lparr>wd_sched := s, wd_fired := insert (child_token (tk_cancel t)) (wd_fired w),
         wd_dropped := insert (tk_tx t) (wd_dropped w)\<rparr>))"
| streams: "wd_tasks w rid = Some t \<Longrightarrow> tk_phase t = Ph_admitted \<Longrightarrow>
    first_data_frame (wd_clock w) rid (wd_sched w) = (s, won) \<Longrightarrow> world_step w (w\<lparr>wd_sched := s\<rparr>)"
| finishes: "wd_tasks w rid = Some t \<Longrightarrow> tk_phase t = Ph_admitted \<Longrightarrow>
    world_step w (set_task rid t Ph_over (w\<lparr>wd_sched := release_inflight rid (wd_sched w)\<rparr>))"
| client_leaves: "world_step w (w\<lparr>wd_fired := insert tok (wd_fired w)\<rparr>)"
| dispatches: "world_step w (w\<lparr>wd_sched := dispatcher_step (wd_clock w) (is_cancelled (wd_fired w))
      (\<lambda>tx. tx \<in> wd_dropped w) gone event (wd_sched w)\<rparr>)"
| clock: "wd_clock w \<le> now \<Longrightarrow> world_step w (w\<lparr>wd_clock := now\<rparr>)"

definition world_init :: "scheduler \<Rightarrow> world" where
  "world_init s = \<lparr>wd_sched = s, wd_fired = {}, wd_dropped = {}, wd_tasks = Map.empty, wd_clock = 0\<rparr>"

section \<open>The accounting invariant\<close>

definition count_class :: "prio_class \<Rightarrow> (string \<times> inflight_handle) list \<Rightarrow> nat" where
  "count_class c reg = length (filter (\<lambda>x. ih_class (snd x) = c) reg)"

text \<open>
  The tasks that own a permit: those admitted, and those still queued with a permit in their
  channel.
\<close>

definition owns_permit :: "(string \<Rightarrow> task option) \<Rightarrow> (nat \<times> string) list \<Rightarrow> string \<Rightarrow> bool" where
  "owns_permit tasks dl rid \<longleftrightarrow>
     (\<exists>t. tasks rid = Some t \<and>
        (tk_phase t = Ph_admitted \<or> tk_phase t = Ph_queued \<and> map_of dl (tk_tx t) = Some rid))"

definition waiter_ok :: "(string \<Rightarrow> task option) \<Rightarrow> nat set \<Rightarrow> (nat \<times> string) list \<Rightarrow> prio_class \<Rightarrow> waiter \<Rightarrow> bool" where
  "waiter_ok tasks gone_tx dl c wt \<longleftrightarrow>
     (\<exists>t. tasks (w_request_id wt) = Some t \<and> tk_tx t = w_permit_tx wt \<and> tk_class t = c \<and>
        (tk_phase t = Ph_queued \<and> map_of dl (tk_tx t) = None \<or> tk_phase t = Ph_over \<and> tk_tx t \<in> gone_tx))"

text \<open>
  \<open>extra\<close> is a slot taken for a class and not yet given to anybody, in the middle of a pass.
\<close>

definition slots_match :: "prio_class option \<Rightarrow> scheduler \<Rightarrow> bool" where
  "slots_match extra s \<longleftrightarrow>
     (\<forall>c. unat (inflight c (sch_slot_pool s)) =
        count_class c (sch_inflight_registry s) + (if extra = Some c then 1 else 0))"

definition registry_ok :: "(string \<Rightarrow> task option) \<Rightarrow> scheduler \<Rightarrow> bool" where
  "registry_ok tasks s \<longleftrightarrow>
     distinct (map fst (sch_inflight_registry s)) \<and>
     (\<forall>(rid, h) \<in> set (sch_inflight_registry s). ih_request_id h = rid \<and>
        (\<exists>t. tasks rid = Some t \<and> tk_class t = ih_class h)) \<and>
     (\<forall>rid. rid \<in> fst ` set (sch_inflight_registry s) \<longleftrightarrow> owns_permit tasks (sch_delivered s) rid)"

definition delivered_ok :: "(string \<Rightarrow> task option) \<Rightarrow> scheduler \<Rightarrow> bool" where
  "delivered_ok tasks s \<longleftrightarrow>
     (\<forall>(tx, rid) \<in> set (sch_delivered s). \<exists>t. tasks rid = Some t \<and> tk_phase t = Ph_queued \<and> tk_tx t = tx)"

definition queues_ok :: "(string \<Rightarrow> task option) \<Rightarrow> nat set \<Rightarrow> scheduler \<Rightarrow> bool" where
  "queues_ok tasks gone_tx s \<longleftrightarrow>
     (\<forall>c. distinct (map w_request_id (fq_waiters (queue_of c s))) \<and>
        (\<forall>wt \<in> set (fq_waiters (queue_of c s)). waiter_ok tasks gone_tx (sch_delivered s) c wt))"

definition tx_inj :: "(string \<Rightarrow> task option) \<Rightarrow> bool" where
  "tx_inj tasks \<longleftrightarrow> (\<forall>r r' t t'. tasks r = Some t \<longrightarrow> tasks r' = Some t' \<longrightarrow> tk_tx t = tk_tx t' \<longrightarrow> r = r')"

definition sched_ok :: "prio_class option \<Rightarrow> (string \<Rightarrow> task option) \<Rightarrow> nat set \<Rightarrow> scheduler \<Rightarrow> bool" where
  "sched_ok extra tasks gone_tx s \<longleftrightarrow>
     slots_match extra s \<and> registry_ok tasks s \<and> delivered_ok tasks s \<and> queues_ok tasks gone_tx s \<and> tx_inj tasks"


section \<open>Counting\<close>

lemma try_acquire_inflight:
  assumes "try_acquire c pool = (pool', True)"
  shows "unat (inflight d pool') = unat (inflight d pool) + (if d = c then 1 else 0)"
proof -
  obtain new where "acquire_pass c (sp_inflight_packed pool) (sp_capacity pool) (snapshot_reserved pool) = Some new"
      "pool' = pool\<lparr>sp_inflight_packed := new\<rparr>"
    using assms by (auto simp: try_acquire_def split: option.splits)
  then show ?thesis using acquire_pass_SomeD(2) [of c _ _ _ new d] by (simp add: inflight_def)
qed

lemma try_acquire_ignoring_inflight:
  assumes "try_acquire_ignoring_reservations c pool = (pool', True)"
  shows "unat (inflight d pool') = unat (inflight d pool) + (if d = c then 1 else 0)"
proof -
  obtain new where "acquire_ignoring_pass c (sp_inflight_packed pool) (sp_capacity pool) = Some new"
      "pool' = pool\<lparr>sp_inflight_packed := new\<rparr>"
    using assms by (auto simp: try_acquire_ignoring_reservations_def split: option.splits)
  then show ?thesis using acquire_ignoring_pass_SomeD(2) [of c _ _ new d] by (simp add: inflight_def)
qed

lemma release_slot_count:
  assumes "0 < unat (inflight c pool)"
  shows "unat (inflight d (release c pool)) + (if d = c then 1 else 0) = unat (inflight d pool)"
proof -
  obtain new where new: "release_pass c (sp_inflight_packed pool) = Some new"
    using assms by (cases "release_pass c (sp_inflight_packed pool)") (auto simp: release_pass_None inflight_def)
  then show ?thesis using release_pass_SomeD(1) [OF new, of d] by (simp add: release_def inflight_def)
qed

lemma count_class_update_new:
  "rid \<notin> fst ` set reg \<Longrightarrow>
   count_class c (AList.update rid h reg) = count_class c reg + (if ih_class h = c then 1 else 0)"
  by (induction reg) (auto simp: count_class_def)

lemma count_class_update_same:
  "map_of reg rid = Some h \<Longrightarrow> ih_class h' = ih_class h \<Longrightarrow> count_class c (AList.update rid h' reg) = count_class c reg"
  by (induction reg) (auto simp: count_class_def split: if_splits)

lemma delete_absent: "k \<notin> fst ` set al \<Longrightarrow> AList.delete k al = al"
  by (induction al) (auto simp: AList.delete_eq)

lemma count_class_delete:
  "distinct (map fst reg) \<Longrightarrow> map_of reg rid = Some h \<Longrightarrow>
   count_class c (AList.delete rid reg) + (if ih_class h = c then 1 else 0) = count_class c reg"
proof (induction reg)
  case (Cons x reg)
  show ?case
  proof (cases "fst x = rid")
    case True
    then have "rid \<notin> fst ` set reg" using Cons.prems(1) by auto
    then have "AList.delete rid reg = reg" by (rule delete_absent)
    with True Cons.prems(2) show ?thesis
      by (auto simp: count_class_def AList.delete_eq)
  next
    case False
    with Cons show ?thesis by (auto simp: count_class_def AList.delete_eq)
  qed
qed simp

lemma update_append_new: "k \<notin> fst ` set al \<Longrightarrow> AList.update k v al = al @ [(k, v)]"
  by (induction al) auto

lemma slots_match_acquire:
  "slots_match None s \<Longrightarrow> try_acquire c (sch_slot_pool s) = (pool, True) \<Longrightarrow> slots_match (Some c) (s\<lparr>sch_slot_pool := pool\<rparr>)"
  "slots_match None s \<Longrightarrow> try_acquire_ignoring_reservations c (sch_slot_pool s) = (pool, True) \<Longrightarrow>
   slots_match (Some c) (s\<lparr>sch_slot_pool := pool\<rparr>)"
  by (auto simp: slots_match_def try_acquire_inflight try_acquire_ignoring_inflight)

lemma slots_match_release: "slots_match (Some c) s \<Longrightarrow> slots_match None (release_slot c s)"
  unfolding slots_match_def
proof (intro allI)
  fix d
  assume a: "\<forall>e. unat (inflight e (sch_slot_pool s)) = count_class e (sch_inflight_registry s) + (if Some c = Some e then 1 else 0)"
  then have "0 < unat (inflight c (sch_slot_pool s))" by simp
  from release_slot_count [OF this, of d] a [rule_format, of d]
  show "unat (inflight d (sch_slot_pool (release_slot c s))) =
      count_class d (sch_inflight_registry (release_slot c s)) + (if None = Some d then 1 else 0)"
    by (auto simp: release_slot_def split: if_splits)
qed

lemma slots_match_register:
  "slots_match (Some c) s \<Longrightarrow> rid \<notin> fst ` set (sch_inflight_registry s) \<Longrightarrow>
   slots_match None (register_inflight now c rid s)"
  by (auto simp: slots_match_def register_inflight_def count_class_update_new handle_new_def)

lemma slots_match_release_inflight:
  assumes "slots_match None s" "distinct (map fst (sch_inflight_registry s))"
    and "map_of (sch_inflight_registry s) rid = Some h"
  shows "slots_match None (release_inflight rid s)"
proof -
  let ?t = "s\<lparr>sch_inflight_registry := AList.delete rid (sch_inflight_registry s)\<rparr>"
  have "slots_match (Some (ih_class h)) ?t"
    unfolding slots_match_def
  proof (intro allI)
    fix c
    show "unat (inflight c (sch_slot_pool ?t)) =
        count_class c (sch_inflight_registry ?t) + (if Some (ih_class h) = Some c then 1 else 0)"
      using count_class_delete [OF assms(2,3), of c] assms(1) by (simp add: slots_match_def)
  qed
  from slots_match_release [OF this] show ?thesis
    using assms(3) by (simp add: release_inflight_def notify_one_def slots_match_def)
qed

lemmas world_parts = registry_ok_def delivered_ok_def queues_ok_def

lemma sched_ok_pool [simp]:
  "registry_ok tasks (s\<lparr>sch_slot_pool := pool\<rparr>) = registry_ok tasks s"
  "delivered_ok tasks (s\<lparr>sch_slot_pool := pool\<rparr>) = delivered_ok tasks s"
  "queues_ok tasks D (s\<lparr>sch_slot_pool := pool\<rparr>) = queues_ok tasks D s"
  "registry_ok tasks (notify_one s) = registry_ok tasks s"
  "delivered_ok tasks (notify_one s) = delivered_ok tasks s"
  "queues_ok tasks D (notify_one s) = queues_ok tasks D s"
  "slots_match e (notify_one s) = slots_match e s"
  "registry_ok tasks (set_queue c q s) = registry_ok tasks s"
  "delivered_ok tasks (set_queue c q s) = delivered_ok tasks s"
  "slots_match e (set_queue c q s) = slots_match e s"
  by (simp_all add: world_parts slots_match_def notify_one_def set_queue_def queue_of_def)

lemma sched_ok_notify [simp]: "sched_ok e tasks D (notify_one s) = sched_ok e tasks D s"
  by (simp add: sched_ok_def)

lemma sched_ok_acquire:
  "sched_ok None tasks D s \<Longrightarrow> try_acquire c (sch_slot_pool s) = (pool, True) \<Longrightarrow> sched_ok (Some c) tasks D (s\<lparr>sch_slot_pool := pool\<rparr>)"
  "sched_ok None tasks D s \<Longrightarrow> try_acquire_ignoring_reservations c (sch_slot_pool s) = (pool, True) \<Longrightarrow>
   sched_ok (Some c) tasks D (s\<lparr>sch_slot_pool := pool\<rparr>)"
  by (simp_all add: sched_ok_def slots_match_acquire)

lemma sched_ok_release_slot: "sched_ok (Some c) tasks D s \<Longrightarrow> sched_ok None tasks D (release_slot c s)"
  using slots_match_release [of c s] by (auto simp: sched_ok_def release_slot_def)

lemma sched_ok_shorter_queue:
  assumes "sched_ok e tasks D s" "suffix (fq_waiters q) (fq_waiters (queue_of c s))"
  shows "sched_ok e tasks D (set_queue c q s)"
proof -
  obtain zs where zs: "fq_waiters (queue_of c s) = zs @ fq_waiters q" using assms(2) by (auto simp: suffix_def)
  have "queues_ok tasks D (set_queue c q s)"
    unfolding queues_ok_def
  proof (intro allI)
    fix d
    have "distinct (map w_request_id (fq_waiters (queue_of d s))) \<and>
        (\<forall>wt \<in> set (fq_waiters (queue_of d s)). waiter_ok tasks D (sch_delivered s) d wt)"
      using assms(1) by (simp add: sched_ok_def queues_ok_def)
    then show "distinct (map w_request_id (fq_waiters (queue_of d (set_queue c q s)))) \<and>
        (\<forall>wt \<in> set (fq_waiters (queue_of d (set_queue c q s))). waiter_ok tasks D (sch_delivered (set_queue c q s)) d wt)"
      using zs by (cases "c = d") (simp_all, simp_all add: set_queue_def)
  qed
  with assms(1) show ?thesis by (simp add: sched_ok_def)
qed

lemma sched_ok_reap: "sched_ok e tasks D s \<Longrightarrow> sched_ok e tasks D (reap_head fired c s)"
  unfolding reap_head_def by (rule sched_ok_shorter_queue) (simp_all add: drop_cancelled_head_def suffix_dropWhile)


section \<open>Handing out keeps the accounts\<close>

lemma waiter_rid_free:
  assumes "sched_ok e tasks D s" "waiter_ok tasks D (sch_delivered s) c wt" "w_permit_tx wt \<notin> D"
  shows "\<exists>t. tasks (w_request_id wt) = Some t \<and> tk_tx t = w_permit_tx wt \<and> tk_class t = c \<and> tk_phase t = Ph_queued"
    and "map_of (sch_delivered s) (w_permit_tx wt) = None"
    and "w_request_id wt \<notin> fst ` set (sch_inflight_registry s)"
proof -
  show "\<exists>t. tasks (w_request_id wt) = Some t \<and> tk_tx t = w_permit_tx wt \<and> tk_class t = c \<and> tk_phase t = Ph_queued"
    and "map_of (sch_delivered s) (w_permit_tx wt) = None"
    using assms(2,3) by (auto simp: waiter_ok_def)
  then have "\<not> owns_permit tasks (sch_delivered s) (w_request_id wt)"
    by (auto simp: owns_permit_def)
  then show "w_request_id wt \<notin> fst ` set (sch_inflight_registry s)"
    using assms(1) by (simp add: sched_ok_def registry_ok_def)
qed

lemma owns_permit_deliver:
  assumes "tx_inj tasks" "tasks rid = Some t" "tk_tx t = tx" "tk_phase t = Ph_queued"
  shows "owns_permit tasks ((tx, rid) # dl) r \<longleftrightarrow> r = rid \<or> owns_permit tasks dl r"
proof (cases "r = rid")
  case True
  then show ?thesis using assms by (simp add: owns_permit_def)
next
  case False
  have "tk_tx u \<noteq> tx" if "tasks r = Some u" for u
    using assms(1-3) that False unfolding tx_inj_def by blast
  then show ?thesis using False by (auto simp: owns_permit_def)
qed

lemma sched_ok_deliver:
  assumes ok: "sched_ok (Some c) tasks D s"
    and wt: "waiter_ok tasks D (sch_delivered s) c wt" "w_permit_tx wt \<notin> D"
    and left: "w_request_id wt \<notin> w_request_id ` set (fq_waiters (queue_of c s))"
  shows "sched_ok None tasks D ((register_inflight now c (w_request_id wt) s)
           \<lparr>sch_delivered := (w_permit_tx wt, w_request_id wt) # sch_delivered s\<rparr>)"
    (is "sched_ok None tasks D ?s")
proof -
  let ?rid = "w_request_id wt" and ?tx = "w_permit_tx wt"
  note free = waiter_rid_free [OF ok wt]
  obtain t where t: "tasks ?rid = Some t" "tk_tx t = ?tx" "tk_class t = c" "tk_phase t = Ph_queued"
    using free(1) by blast
  have inj: "tx_inj tasks" using ok by (simp add: sched_ok_def)
  have reg: "sch_inflight_registry ?s = AList.update ?rid (handle_new now c ?rid) (sch_inflight_registry s)"
    and dl: "sch_delivered ?s = (?tx, ?rid) # sch_delivered s"
    by (simp_all add: register_inflight_def)
  have upd: "AList.update ?rid h (sch_inflight_registry s) = sch_inflight_registry s @ [(?rid, h)]" for h
    using free(3) by (rule update_append_new)
  have "slots_match None ?s"
    using slots_match_register [OF _ free(3), of c now] ok by (simp add: sched_ok_def slots_match_def register_inflight_def)
  moreover have "registry_ok tasks ?s"
    using ok t free(3) unfolding registry_ok_def reg dl upd owns_permit_deliver [OF inj t(1,2,4)] sched_ok_def
    by (auto simp: handle_new_def)
  moreover have "delivered_ok tasks ?s"
    using ok t by (auto simp: sched_ok_def delivered_ok_def dl)
  moreover have "queues_ok tasks D ?s"
    unfolding queues_ok_def
  proof (intro allI)
    fix d
    have q: "queue_of d ?s = queue_of d s" by simp
    have old: "distinct (map w_request_id (fq_waiters (queue_of d s)))"
      "\<And>wt'. wt' \<in> set (fq_waiters (queue_of d s)) \<Longrightarrow> waiter_ok tasks D (sch_delivered s) d wt'"
      using ok by (simp_all add: sched_ok_def queues_ok_def)
    have "waiter_ok tasks D (sch_delivered ?s) d wt'" if wt': "wt' \<in> set (fq_waiters (queue_of d s))" for wt'
    proof -
      obtain t' where t': "tasks (w_request_id wt') = Some t'" "tk_tx t' = w_permit_tx wt'" "tk_class t' = d"
        using old(2) [OF wt'] by (auto simp: waiter_ok_def)
      have "w_request_id wt' \<noteq> ?rid"
      proof
        assume eq: "w_request_id wt' = ?rid"
        then have "d = c" using t(1,3) t'(1,3) by simp
        then have "?rid \<in> w_request_id ` set (fq_waiters (queue_of c s))" using wt' eq by (metis imageI)
        with left show False by simp
      qed
      then have "tk_tx t' \<noteq> ?tx"
        using inj t(1,2) t'(1) unfolding tx_inj_def by metis
      then show ?thesis
        using old(2) [OF wt'] t'(1) by (auto simp: waiter_ok_def dl)
    qed
    then show "distinct (map w_request_id (fq_waiters (queue_of d ?s))) \<and>
        (\<forall>wt \<in> set (fq_waiters (queue_of d ?s)). waiter_ok tasks D (sch_delivered ?s) d wt)"
      unfolding q using old(1) by blast
  qed
  ultimately show ?thesis using inj by (simp add: sched_ok_def)
qed


lemma sched_ok_send_permit:
  assumes ok: "sched_ok (Some c) tasks D s"
    and wt: "waiter_ok tasks D (sch_delivered s) c wt" "w_permit_tx wt \<notin> D"
    and left: "w_request_id wt \<notin> w_request_id ` set (fq_waiters (queue_of c s))"
  shows "sched_ok None tasks D (send_permit gone wt (register_inflight now c (w_request_id wt) s))"
proof (cases "gone (w_permit_tx wt)")
  case False
  have "sch_delivered (register_inflight now c (w_request_id wt) s) = sch_delivered s"
    by (simp add: register_inflight_def)
  then show ?thesis
    using sched_ok_deliver [OF assms, of now] False by (simp add: send_permit_def)
next
  case True
  have free: "w_request_id wt \<notin> fst ` set (sch_inflight_registry s)"
    by (rule waiter_rid_free(3) [OF ok wt])
  then have "AList.delete (w_request_id wt) (AList.update (w_request_id wt) h (sch_inflight_registry s)) = sch_inflight_registry s" for h
    using delete_absent [OF free] by (simp add: update_append_new AList.delete_eq)
  then have "release_inflight (w_request_id wt) (register_inflight now c (w_request_id wt) s) = notify_one (release_slot c s)"
    by (simp add: release_inflight_def register_inflight_def handle_new_def release_slot_def)
  then show ?thesis
    using sched_ok_release_slot [OF ok] True by (simp add: send_permit_def sched_ok_def)
qed

lemma sched_ok_send_to_head:
  assumes "sched_ok (Some c) tasks D s" "send_to_head now (\<lambda>tx. tx \<in> D) gone c s = (s', sent)"
  shows "sched_ok (if sent then None else Some c) tasks D s'"
  using assms
proof (induction now "\<lambda>tx. tx \<in> D" gone c s rule: send_to_head.induct)
  case (1 now gone c s)
  show ?case
  proof (cases "fq_waiters (queue_of c s)")
    case Nil
    then show ?thesis using 1(2,3) by (auto simp: send_to_head.simps pop_eligible_def)
  next
    case (Cons wt ws)
    let ?q = "(queue_of c s)\<lparr>fq_waiters := ws\<rparr>"
    have pop: "pop_eligible (queue_of c s) = (?q, Some wt)"
      using Cons by (simp add: pop_eligible_def)
    have ok: "sched_ok (Some c) tasks D (set_queue c ?q s)"
      using 1(2) by (rule sched_ok_shorter_queue) (simp add: Cons suffix_ConsI)
    show ?thesis
    proof (cases "w_permit_tx wt \<in> D")
      case True
      have "send_to_head now (\<lambda>tx. tx \<in> D) gone c (set_queue c ?q s) = (s', sent)"
        using 1(3) True by (simp add: send_to_head.simps [of now _ gone c s] pop)
      from 1(1) [OF pop [symmetric] refl True ok this] show ?thesis .
    next
      case False
      have "distinct (map w_request_id (wt # ws))" "waiter_ok tasks D (sch_delivered s) c wt"
        using 1(2) Cons by (metis sched_ok_def queues_ok_def, metis sched_ok_def queues_ok_def list.set_intros(1))
      then have "sched_ok None tasks D (send_permit gone wt (register_inflight now c (w_request_id wt) (set_queue c ?q s)))"
        using False by (intro sched_ok_send_permit [OF ok]) (simp_all add: set_queue_def queue_of_def)
      then show ?thesis
        using 1(3) False by (auto simp: send_to_head.simps [of now _ gone c s] pop)
    qed
  qed
qed

lemma starvation_pass_ok:
  "sched_ok None tasks D s \<Longrightarrow> starvation_pass now fired (\<lambda>tx. tx \<in> D) gone cs s = (s', sent) \<Longrightarrow> sched_ok None tasks D s'"
proof (induction cs arbitrary: s)
  case (Cons c cs)
  let ?s = "reap_head fired c s"
  have ok: "sched_ok None tasks D ?s" by (rule sched_ok_reap [OF Cons.prems(1)])
  obtain pool won where acq: "try_acquire_ignoring_reservations c (sch_slot_pool ?s) = (pool, won)" by force
  obtain s2 ok2 where send: "send_to_head now (\<lambda>tx. tx \<in> D) gone c (?s\<lparr>sch_slot_pool := pool\<rparr>) = (s2, ok2)" by force
  have s2: "sched_ok (if ok2 then None else Some c) tasks D s2" if won
    using sched_ok_send_to_head [OF sched_ok_acquire(2) [OF ok] send] acq that by simp
  then have rel: "sched_ok None tasks D (release_slot c s2)" if won "\<not> ok2"
    using sched_ok_release_slot that by simp
  show ?case
    using Cons.prems(2) Cons.IH [OF ok] Cons.IH [OF rel] s2
    by (auto simp: Let_def acq send split: option.splits if_splits bool.splits)
qed simp

lemma priority_pass_ok:
  "sched_ok None tasks D s \<Longrightarrow> priority_pass now fired (\<lambda>tx. tx \<in> D) gone cs s = (s', sent) \<Longrightarrow> sched_ok None tasks D s'"
proof (induction cs arbitrary: s)
  case (Cons c cs)
  let ?s = "reap_head fired c s"
  have ok: "sched_ok None tasks D ?s" by (rule sched_ok_reap [OF Cons.prems(1)])
  obtain pool won where acq: "try_acquire c (sch_slot_pool ?s) = (pool, won)" by force
  obtain s2 ok2 where send: "send_to_head now (\<lambda>tx. tx \<in> D) gone c (?s\<lparr>sch_slot_pool := pool\<rparr>) = (s2, ok2)" by force
  have s2: "sched_ok (if ok2 then None else Some c) tasks D s2" if won
    using sched_ok_send_to_head [OF sched_ok_acquire(1) [OF ok] send] acq that by simp
  then have rel: "sched_ok None tasks D (release_slot c s2)" if won "\<not> ok2"
    using sched_ok_release_slot that by simp
  show ?case
    using Cons.prems(2) Cons.IH [OF ok] Cons.IH [OF rel] s2
    by (auto simp: Let_def acq send split: if_splits bool.splits)
qed simp

lemma wake_ok:
  assumes "sched_ok None tasks D s" "wake_next_waiter now fired (\<lambda>tx. tx \<in> D) gone s = (s', sent)"
  shows "sched_ok None tasks D s'"
proof -
  obtain s1 ok where st: "starvation_pass now fired (\<lambda>tx. tx \<in> D) gone [Bulk, Default, Interactive] s = (s1, ok)" by force
  have "sched_ok None tasks D s1" by (rule starvation_pass_ok [OF assms(1) st])
  then show ?thesis
    using assms(2) priority_pass_ok
    by (cases ok) (auto simp: wake_next_waiter_def st simp del: starvation_pass.simps priority_pass.simps)
qed

lemma drain_ok: "sched_ok None tasks D s \<Longrightarrow> sched_ok None tasks D (drain now fired (\<lambda>tx. tx \<in> D) gone s)"
proof (induction now fired "\<lambda>tx. tx \<in> D" gone s rule: drain.induct)
  case (1 now fired gone s)
  obtain s' sent where wake: "wake_next_waiter now fired (\<lambda>tx. tx \<in> D) gone s = (s', sent)" by force
  have "sched_ok None tasks D s'" by (rule wake_ok [OF 1(2) wake])
  then show ?case
    using 1(1) [OF wake [symmetric]] wake by (cases sent) (simp_all add: drain.simps [of now fired _ gone s])
qed

lemma apply_new_capacity_ok: "sched_ok None tasks D s \<Longrightarrow> sched_ok None tasks D (apply_new_capacity c s)"
proof -
  assume ok: "sched_ok None tasks D s"
  have "sp_inflight_packed (sch_slot_pool (apply_new_capacity c s)) = sp_inflight_packed (sch_slot_pool s)"
    "sch_inflight_registry (apply_new_capacity c s) = sch_inflight_registry s"
    "sch_delivered (apply_new_capacity c s) = sch_delivered s"
    "sch_class_queues (apply_new_capacity c s) = sch_class_queues s"
    by (simp_all add: apply_new_capacity_def Let_def set_all_reserved set_capacity_def notify_one_def)
  then show ?thesis using ok by (simp add: sched_ok_def slots_match_def inflight_def world_parts queue_of_def)
qed

lemma dispatcher_ok:
  assumes "sched_ok None tasks D s"
  shows "sched_ok None tasks D (dispatcher_step now fired (\<lambda>tx. tx \<in> D) gone event s)"
proof -
  have "sched_ok None tasks D (s\<lparr>sch_release_notify := False\<rparr>)"
    using assms by (simp add: sched_ok_def slots_match_def world_parts)
  then show ?thesis
    using assms by (cases event) (simp_all add: dispatcher_step_def drain_ok apply_new_capacity_ok)
qed


section \<open>Steps of a task keep the accounts\<close>

lemma waiting_ids_iff: "rid \<in> set (waiting_ids s) \<longleftrightarrow> (\<exists>c. \<exists>wt \<in> set (fq_waiters (queue_of c s)). w_request_id wt = rid)"
proof -
  have "c \<in> set ALL_classes" for c by (cases c) (simp_all add: ALL_classes_def)
  then show ?thesis by (auto simp: waiting_ids_def)
qed

lemma sched_ok_task:
  assumes ok: "sched_ok e tasks D s" and t: "tasks rid = Some t" "tk_tx t' = tk_tx t" "tk_class t' = tk_class t"
    and slots: "slots_match e' s'" and dist: "distinct (map fst (sch_inflight_registry s'))"
    and reg: "\<forall>(r, h) \<in> set (sch_inflight_registry s'). ih_request_id h = r \<and> (\<exists>u. tasks r = Some u \<and> tk_class u = ih_class h)"
    and keys: "fst ` set (sch_inflight_registry s') =
      (if tk_phase t' = Ph_admitted then insert rid (fst ` set (sch_inflight_registry s))
       else fst ` set (sch_inflight_registry s) - {rid})"
    and dl: "sch_delivered s' = AList.delete (tk_tx t) (sch_delivered s)"
    and qs: "\<And>c. queue_of c s' = queue_of c s"
    and wait: "rid \<notin> set (waiting_ids s) \<or> tk_phase t' = Ph_over \<and> tk_tx t \<in> D'" and sub: "D \<subseteq> D'"
  shows "sched_ok e' (tasks(rid \<mapsto> t')) D' s'"
proof -
  let ?T = "tasks(rid \<mapsto> t')"
  have inj: "tx_inj tasks" using ok by (simp add: sched_ok_def)
  then have inj': "tx_inj ?T" unfolding tx_inj_def using t(1,2) by (metis fun_upd_apply option.inject)
  have other: "tk_tx u \<noteq> tk_tx t" if "tasks r = Some u" "r \<noteq> rid" for r u
    using inj t(1) that unfolding tx_inj_def by blast
  have mo: "map_of (sch_delivered s') x = (if x = tk_tx t then None else map_of (sch_delivered s) x)" for x
    by (simp add: dl)
  have owns: "owns_permit ?T (sch_delivered s') r \<longleftrightarrow>
      (if r = rid then tk_phase t' = Ph_admitted else owns_permit tasks (sch_delivered s) r)" for r
    using other [of r] t(2) by (auto simp: owns_permit_def mo)
  have old: "r \<in> fst ` set (sch_inflight_registry s) \<longleftrightarrow> owns_permit tasks (sch_delivered s) r" for r
    using ok by (simp add: sched_ok_def registry_ok_def)
  have "\<exists>u. ?T r = Some u \<and> tk_class u = k" if "\<exists>u. tasks r = Some u \<and> tk_class u = k" for r k
    using that t(1,3) by auto
  then have "\<forall>(r, h) \<in> set (sch_inflight_registry s'). ih_request_id h = r \<and> (\<exists>u. ?T r = Some u \<and> tk_class u = ih_class h)"
    using reg by fast
  moreover have "r \<in> fst ` set (sch_inflight_registry s') \<longleftrightarrow> owns_permit ?T (sch_delivered s') r" for r
    unfolding keys owns using old [of r] by auto
  ultimately have "registry_ok ?T s'" using dist by (simp add: registry_ok_def)
  moreover have "delivered_ok ?T s'"
  proof -
    have "\<exists>u. ?T r = Some u \<and> tk_phase u = Ph_queued \<and> tk_tx u = x" if "(x, r) \<in> set (sch_delivered s')" for x r
    proof -
      from that have "(x, r) \<in> set (sch_delivered s)" "x \<noteq> tk_tx t" by (auto simp: dl AList.delete_eq)
      moreover have "\<forall>(x, r) \<in> set (sch_delivered s). \<exists>u. tasks r = Some u \<and> tk_phase u = Ph_queued \<and> tk_tx u = x"
        using ok by (simp add: sched_ok_def delivered_ok_def)
      ultimately show ?thesis using t(1) by fastforce
    qed
    then show ?thesis by (auto simp: delivered_ok_def simp del: fun_upd_apply)
  qed
  moreover have "queues_ok ?T D' s'"
  proof -
    have "waiter_ok ?T D' (sch_delivered s') c wt" if wt: "wt \<in> set (fq_waiters (queue_of c s))" for c wt
    proof -
      have w: "waiter_ok tasks D (sch_delivered s) c wt" using ok wt by (simp add: sched_ok_def queues_ok_def)
      show ?thesis
      proof (cases "w_request_id wt = rid")
        case True
        then have "rid \<in> set (waiting_ids s)" using wt by (auto simp: waiting_ids_iff)
        then show ?thesis using wait w t True by (auto simp: waiter_ok_def)
      next
        case False
        then show ?thesis using w other [of "w_request_id wt"] sub by (auto simp: waiter_ok_def mo)
      qed
    qed
    then show ?thesis using ok by (simp add: sched_ok_def queues_ok_def qs)
  qed
  ultimately show ?thesis using slots inj' by (simp add: sched_ok_def)
qed

lemma delivered_of_task:
  assumes "sched_ok e tasks D s" "tasks rid = Some t" "map_of (sch_delivered s) (tk_tx t) = Some r"
  shows "r = rid \<and> tk_phase t = Ph_queued"
proof -
  obtain u where "tasks r = Some u" "tk_phase u = Ph_queued" "tk_tx u = tk_tx t"
    using assms(1) map_of_SomeD [OF assms(3)] by (auto simp: sched_ok_def delivered_ok_def)
  then show ?thesis using assms(1,2) unfolding sched_ok_def tx_inj_def by (metis option.inject)
qed

lemma delivered_none:
  assumes "sched_ok e tasks D s" "tasks rid = Some t" "tk_phase t \<noteq> Ph_queued"
  shows "AList.delete (tk_tx t) (sch_delivered s) = sch_delivered s"
proof -
  have "map_of (sch_delivered s) (tk_tx t) = None"
    using delivered_of_task [OF assms(1,2)] assms(3) by (cases "map_of (sch_delivered s) (tk_tx t)") auto
  then show ?thesis by (intro delete_absent) (simp add: map_of_eq_None_iff)
qed

lemma sched_ok_enqueue:
  assumes ok: "sched_ok e tasks D s" and t: "tasks rid = Some t" "tk_phase t = Ph_queued" "tk_class t = c"
    and "map_of (sch_delivered s) (tk_tx t) = None" "rid \<notin> set (waiting_ids s)"
    and "w_request_id wt = rid" "w_permit_tx wt = tk_tx t"
    and "fq_waiters q = fq_waiters (queue_of c s) @ [wt]"
  shows "sched_ok e tasks D (set_queue c q s)"
proof -
  have "sch_delivered (set_queue c q s) = sch_delivered s" by (simp add: set_queue_def)
  moreover have "waiter_ok tasks D (sch_delivered s) c wt"
    using t assms(5,7,8) by (simp add: waiter_ok_def)
  moreover have "rid \<notin> w_request_id ` set (fq_waiters (queue_of c s))"
    using assms(6) by (auto simp: waiting_ids_iff)
  ultimately have "queues_ok tasks D (set_queue c q s)"
    using ok assms(7,9) by (auto simp: sched_ok_def queues_ok_def)
  then show ?thesis using ok by (simp add: sched_ok_def)
qed

text \<open>A task outside the queue that owns nothing.\<close>

definition at_rest :: "(string \<Rightarrow> task option) \<Rightarrow> scheduler \<Rightarrow> string \<Rightarrow> task \<Rightarrow> bool" where
  "at_rest tasks s rid t \<longleftrightarrow> tasks rid = Some t \<and> tk_phase t \<noteq> Ph_queued \<and> tk_phase t \<noteq> Ph_admitted \<and> rid \<notin> set (waiting_ids s)"

lemma at_rest_free:
  "sched_ok e tasks D s \<Longrightarrow> at_rest tasks s rid t \<Longrightarrow> rid \<notin> fst ` set (sch_inflight_registry s)"
  by (auto simp: sched_ok_def registry_ok_def at_rest_def owns_permit_def)

lemma sched_ok_rest:
  assumes "sched_ok e tasks D s" "at_rest tasks s rid t" "ph \<noteq> Ph_admitted"
  shows "sched_ok e (tasks(rid \<mapsto> t\<lparr>tk_phase := ph\<rparr>)) D s"
proof (rule sched_ok_task [OF assms(1)])
  show "sch_delivered s = AList.delete (tk_tx t) (sch_delivered s)"
    using delivered_none [OF assms(1), of rid t] assms(2) by (simp add: at_rest_def)
  show "fst ` set (sch_inflight_registry s) =
      (if tk_phase (t\<lparr>tk_phase := ph\<rparr>) = Ph_admitted then insert rid (fst ` set (sch_inflight_registry s))
       else fst ` set (sch_inflight_registry s) - {rid})"
    using at_rest_free [OF assms(1,2)] assms(3) by simp
qed (use assms in \<open>auto simp: at_rest_def sched_ok_def registry_ok_def\<close>)

lemma acquire_inflight_ok:
  assumes "sched_ok None tasks D s" "at_rest tasks s rid t"
    and "acquire_inflight now (tk_class t) rid s = (s', True)"
  shows "sched_ok None (tasks(rid \<mapsto> t\<lparr>tk_phase := Ph_admitted\<rparr>)) D s'"
proof -
  obtain pool where acq: "try_acquire (tk_class t) (sch_slot_pool s) = (pool, True)"
    and s': "s' = register_inflight now (tk_class t) rid (s\<lparr>sch_slot_pool := pool\<rparr>)"
    using assms(3) by (auto simp: acquire_inflight_def split: prod.splits bool.splits)
  have free: "rid \<notin> fst ` set (sch_inflight_registry s)" by (rule at_rest_free [OF assms(1,2)])
  have reg: "sch_inflight_registry s' = sch_inflight_registry s @ [(rid, handle_new now (tk_class t) rid)]"
    using free by (simp add: s' register_inflight_def update_append_new)
  have qs: "queue_of c s' = queue_of c s" for c by (simp add: s')
  have "slots_match None s'"
    unfolding s' using free assms(1) acq
    by (intro slots_match_register slots_match_acquire(1)) (auto simp: sched_ok_def)
  moreover have "sched_ok None (tasks(rid \<mapsto> t\<lparr>tk_phase := Ph_admitted\<rparr>)) D s'" if "slots_match None s'"
  proof (rule sched_ok_task [OF assms(1) _ _ _ that])
    show "sch_delivered s' = AList.delete (tk_tx t) (sch_delivered s)"
      using delivered_none [OF assms(1), of rid t] assms(2) by (simp add: at_rest_def s' register_inflight_def)
  qed (use assms(1,2) free in \<open>auto simp: reg qs at_rest_def sched_ok_def registry_ok_def handle_new_def\<close>)
  ultimately show ?thesis by blast
qed


lemma admit_enqueue_ok:
  assumes "sched_ok None tasks D s" "at_rest tasks s rid t"
    and "admit_enqueue now (tk_class t) rid cancel (tk_tx t) s = (s', adm)"
  shows "sched_ok None (tasks(rid \<mapsto> t\<lparr>tk_phase := phase_of adm\<rparr>)) D s'"
proof -
  let ?wt = "waiter_new now (tk_class t) (child_token cancel) rid (tk_tx t)"
  obtain q r where enq: "try_enqueue ?wt (queue_of (tk_class t) s) = (q, r)" by force
  show ?thesis
  proof (cases r)
    case (Inl x)
    then show ?thesis
      using assms(3) sched_ok_rest [OF assms(1,2), of Ph_over] by (auto simp: admit_enqueue_def enq)
  next
    case (Inr x)
    let ?T = "tasks(rid \<mapsto> t\<lparr>tk_phase := Ph_queued\<rparr>)"
    have ok: "sched_ok None ?T D s" by (rule sched_ok_rest [OF assms(1,2)]) simp
    have "map_of (sch_delivered s) (tk_tx t) = None"
      using delivered_of_task [OF assms(1)] assms(2)
      by (cases "map_of (sch_delivered s) (tk_tx t)") (auto simp: at_rest_def)
    then have "sched_ok None ?T D (set_queue (tk_class t) q s)"
      using assms(2) enq Inr
      by (intro sched_ok_enqueue [OF ok, where rid = rid and t = "t\<lparr>tk_phase := Ph_queued\<rparr>" and wt = ?wt])
        (auto simp: at_rest_def waiter_new_def try_enqueue_def split: if_splits)
    then show ?thesis
      using assms(3) Inr by (auto simp: admit_enqueue_def enq sched_ok_def)
  qed
qed

lemma mark_registry_ok:
  assumes ok: "sched_ok e tasks D s" and h: "map_of (sch_inflight_registry s) rid = Some h"
    and h': "ih_class h' = ih_class h" "ih_request_id h' = ih_request_id h"
  shows "sched_ok e tasks D (s\<lparr>sch_inflight_registry := AList.update rid h' (sch_inflight_registry s)\<rparr>)"
    (is "sched_ok e tasks D ?s")
proof -
  let ?reg = "sch_inflight_registry s"
  have d: "distinct (map fst ?reg)" using ok by (simp add: sched_ok_def registry_ok_def)
  have "(rid, h) \<in> set ?reg" by (rule map_of_SomeD [OF h])
  then have keys: "fst ` set (AList.update rid h' ?reg) = fst ` set ?reg"
    using AList.dom_update [of rid h' ?reg] by force
  have d': "distinct (map fst (AList.update rid h' ?reg))" using d by (rule AList.distinct_update)
  have entry: "ih_request_id g = r \<and> (\<exists>t. tasks r = Some t \<and> tk_class t = ih_class g)" if "(r, g) \<in> set ?reg" for r g
    using ok that by (auto simp: sched_ok_def registry_ok_def)
  have "ih_request_id g = r \<and> (\<exists>t. tasks r = Some t \<and> tk_class t = ih_class g)"
    if g: "(r, g) \<in> set (AList.update rid h' ?reg)" for r g
  proof (cases "r = rid")
    case True
    then have "g = h'" using map_of_is_SomeI [OF d' g] by simp
    then show ?thesis using entry [OF \<open>(rid, h) \<in> set ?reg\<close>] h' True by simp
  next
    case False
    then have "map_of ?reg r = Some g" using map_of_is_SomeI [OF d' g] by simp
    then show ?thesis by (rule entry [OF map_of_SomeD])
  qed
  then have "registry_ok tasks ?s" using ok d' keys by (auto simp: sched_ok_def registry_ok_def)
  moreover have "slots_match e ?s"
    using ok count_class_update_same [OF h h'(1)] by (simp add: sched_ok_def slots_match_def)
  ultimately show ?thesis using ok by (simp add: sched_ok_def delivered_ok_def queues_ok_def)
qed

lemma victim_in_registry:
  assumes "sched_ok e tasks D s" "find_preemption_victim class s = Some v"
  shows "map_of (sch_inflight_registry s) (ih_request_id v) = Some v"
proof -
  have "v \<in> snd ` set (sch_inflight_registry s)"
    using max_by_key_in assms(2) unfolding find_preemption_victim_def by fastforce
  then obtain r where r: "(r, v) \<in> set (sch_inflight_registry s)" by auto
  then have "r = ih_request_id v" using assms(1) unfolding sched_ok_def registry_ok_def by auto
  then show ?thesis using assms(1) r by (auto simp: sched_ok_def registry_ok_def)
qed

lemma preempt_victim_ok:
  assumes "sched_ok None tasks D s" "at_rest tasks s rid t"
    and v: "find_preemption_victim class s = Some v" and m: "preempt v = (m, True)"
  shows "sched_ok None (tasks(rid \<mapsto> t\<lparr>tk_phase := Ph_polling deadline\<rparr>)) D
           (s\<lparr>sch_inflight_registry := AList.update (ih_request_id m) m (sch_inflight_registry s)\<rparr>)"
proof -
  have same: "ih_class m = ih_class v" "ih_request_id m = ih_request_id v"
    using m by (auto simp: preempt_def try_mark_preempted_def handle_cancel_def split: if_splits)
  let ?s = "s\<lparr>sch_inflight_registry := AList.update (ih_request_id m) m (sch_inflight_registry s)\<rparr>"
  have ok: "sched_ok None tasks D ?s"
    unfolding same(2) by (rule mark_registry_ok [OF assms(1) victim_in_registry [OF assms(1) v] same])
  have "at_rest tasks ?s rid t" using assms(2) by (simp add: at_rest_def waiting_ids_iff)
  from sched_ok_rest [OF ok this] show ?thesis by simp
qed

lemma admit_ok:
  assumes "sched_ok None tasks D s" "at_rest tasks s rid t"
    and "admit now fired (tk_class t) rid cancel (tk_tx t) s = (s', adm)"
  shows "sched_ok None (tasks(rid \<mapsto> t\<lparr>tk_phase := phase_of adm\<rparr>)) D s'"
proof -
  note enq = admit_enqueue_ok [OF assms(1,2)]
  obtain s1 won where acq: "acquire_inflight now (tk_class t) rid s = (s1, won)" by force
  show ?thesis
  proof (cases won)
    case True
    then show ?thesis using assms(3) acquire_inflight_ok [OF assms(1,2), of now s1] acq by (auto simp: admit_def)
  next
    case lost: False
    show ?thesis
    proof (cases "rt_can_preempt (lane (sch_class_config s) (tk_class t))")
      case False
      then show ?thesis using assms(3) lost enq [of now cancel s' adm] by (simp add: admit_def acq)
    next
      case can: True
      show ?thesis
      proof (cases "is_cancelled fired cancel")
        case True
        then show ?thesis
          using assms(3) lost can sched_ok_rest [OF assms(1,2), of Ph_over] by (auto simp: admit_def acq)
      next
        case live: False
        show ?thesis
        proof (cases "find_preemption_victim (tk_class t) s")
          case None
          then show ?thesis using assms(3) lost can live enq [of now cancel s' adm] by (simp add: admit_def acq)
        next
          case (Some v)
          obtain m marked where m: "preempt v = (m, marked)" by force
          show ?thesis
          proof (cases marked)
            case True
            then show ?thesis
              using assms(3) lost can live Some m preempt_victim_ok [OF assms(1,2) Some, of m]
              by (auto simp: admit_def acq)
          next
            case False
            then show ?thesis
              using assms(3) lost can live Some m enq [of now cancel s' adm] by (simp add: admit_def acq)
          qed
        qed
      qed
    qed
  qed
qed

lemma admit_poll_ok:
  assumes "sched_ok None tasks D s" "at_rest tasks s rid t"
    and "admit_poll now fired (tk_class t) rid cancel (tk_tx t) deadline s = (s', adm)"
  shows "sched_ok None (tasks(rid \<mapsto> t\<lparr>tk_phase := phase_of adm\<rparr>)) D s'"
proof -
  obtain s1 won where acq: "acquire_inflight now (tk_class t) rid s = (s1, won)" by force
  show ?thesis
    using assms(3) acquire_inflight_ok [OF assms(1,2)] admit_enqueue_ok [OF assms(1,2)] acq
      sched_ok_rest [OF assms(1,2), of Ph_over] sched_ok_rest [OF assms(1,2), of "Ph_polling deadline"]
    by (auto simp: admit_poll_def split: if_splits bool.splits)
qed


lemma set_delivered_same [simp]:
  "slots_match e (s\<lparr>sch_delivered := dl\<rparr>) = slots_match e s"
  "sch_inflight_registry (s\<lparr>sch_delivered := dl\<rparr>) = sch_inflight_registry s"
  by (simp_all add: slots_match_def)

text \<open>The owner of a permit gives it up.\<close>

lemma release_owner_ok:
  assumes ok: "sched_ok None tasks D s" and t: "tasks rid = Some t" and own: "owns_permit tasks (sch_delivered s) rid"
    and wait: "rid \<notin> set (waiting_ids s) \<or> tk_tx t \<in> D'" and sub: "D \<subseteq> D'"
  shows "sched_ok None (tasks(rid \<mapsto> t\<lparr>tk_phase := Ph_over\<rparr>)) D'
           (release_inflight rid (s\<lparr>sch_delivered := AList.delete (tk_tx t) (sch_delivered s)\<rparr>))"
    (is "sched_ok None _ D' ?s")
proof -
  have reg: "registry_ok tasks s" "slots_match None s" using ok by (simp_all add: sched_ok_def)
  then have "rid \<in> fst ` set (sch_inflight_registry s)" using own by (simp add: registry_ok_def)
  then obtain h where h: "map_of (sch_inflight_registry s) rid = Some h"
    by (cases "map_of (sch_inflight_registry s) rid") (auto simp: map_of_eq_None_iff)
  have s: "sch_inflight_registry ?s = AList.delete rid (sch_inflight_registry s)"
    "sch_delivered ?s = AList.delete (tk_tx t) (sch_delivered s)"
    using h by (simp_all add: release_inflight_def notify_one_def release_slot_def)
  have slots: "slots_match None ?s"
    using reg h by (intro slots_match_release_inflight [where h = h]) (simp_all add: registry_ok_def)
  have d: "distinct (map fst (AList.delete rid (sch_inflight_registry s)))"
    using reg(1) by (simp add: registry_ok_def AList.distinct_delete)
  have sub_reg: "set (AList.delete rid (sch_inflight_registry s)) \<subseteq> set (sch_inflight_registry s)"
    by (auto simp: AList.delete_eq)
  show ?thesis
  proof (rule sched_ok_task [OF ok t _ _ slots])
    show "fst ` set (sch_inflight_registry ?s) =
        (if tk_phase (t\<lparr>tk_phase := Ph_over\<rparr>) = Ph_admitted then insert rid (fst ` set (sch_inflight_registry s))
         else fst ` set (sch_inflight_registry s) - {rid})"
      unfolding s by (force simp: AList.delete_eq)
    show "\<forall>(r, h) \<in> set (sch_inflight_registry ?s). ih_request_id h = r \<and> (\<exists>u. tasks r = Some u \<and> tk_class u = ih_class h)"
      unfolding s using reg(1) sub_reg unfolding registry_ok_def by blast
  qed (use wait sub d in \<open>simp_all add: s\<close>)
qed

lemma not_waiting:
  assumes "sched_ok e tasks D s" "tasks rid = Some t"
    and "tk_phase t = Ph_admitted \<or> (\<exists>d. tk_phase t = Ph_polling d) \<or> tk_phase t = Ph_queued \<and> map_of (sch_delivered s) (tk_tx t) \<noteq> None"
  shows "rid \<notin> set (waiting_ids s)"
proof
  assume "rid \<in> set (waiting_ids s)"
  then obtain c wt where "waiter_ok tasks D (sch_delivered s) c wt" "w_request_id wt = rid"
    using assms(1) by (auto simp: waiting_ids_iff sched_ok_def queues_ok_def)
  then show False using assms(2,3) by (auto simp: waiter_ok_def)
qed

lemma take_permit_ok:
  assumes ok: "sched_ok None tasks D s" and t: "tasks rid = Some t" "map_of (sch_delivered s) (tk_tx t) = Some r"
    and sub: "D \<subseteq> D'"
  shows "sched_ok None (tasks(rid \<mapsto> t\<lparr>tk_phase := Ph_admitted\<rparr>)) D'
           (s\<lparr>sch_delivered := AList.delete (tk_tx t) (sch_delivered s)\<rparr>)"
proof -
  have q: "r = rid" "tk_phase t = Ph_queued" using delivered_of_task [OF ok t] by simp_all
  have reg: "registry_ok tasks s" "slots_match None s" using ok by (simp_all add: sched_ok_def)
  have "owns_permit tasks (sch_delivered s) rid" using t q by (simp add: owns_permit_def)
  then have own: "rid \<in> fst ` set (sch_inflight_registry s)" using reg(1) by (simp add: registry_ok_def)
  have wait: "rid \<notin> set (waiting_ids s)" using not_waiting [OF ok t(1)] q t(2) by simp
  show ?thesis
  proof (rule sched_ok_task [OF ok t(1)])
    show "\<forall>(r, h) \<in> set (sch_inflight_registry (s\<lparr>sch_delivered := AList.delete (tk_tx t) (sch_delivered s)\<rparr>)).
        ih_request_id h = r \<and> (\<exists>u. tasks r = Some u \<and> tk_class u = ih_class h)"
      using reg(1) by (simp add: registry_ok_def)
  qed (use wait sub reg own in \<open>auto simp: registry_ok_def\<close>)
qed

lemma leave_empty_ok:
  assumes ok: "sched_ok None tasks D s" and t: "tasks rid = Some t" "map_of (sch_delivered s) (tk_tx t) = None" "tk_phase t = Ph_queued"
    and sub: "D \<subseteq> D'" "tk_tx t \<in> D'"
  shows "sched_ok None (tasks(rid \<mapsto> t\<lparr>tk_phase := Ph_over\<rparr>)) D' s"
proof -
  have reg: "registry_ok tasks s" "slots_match None s" using ok by (simp_all add: sched_ok_def)
  have "\<not> owns_permit tasks (sch_delivered s) rid" using t by (simp add: owns_permit_def)
  then have own: "rid \<notin> fst ` set (sch_inflight_registry s)" using reg(1) by (simp add: registry_ok_def)
  have "AList.delete (tk_tx t) (sch_delivered s) = sch_delivered s"
    using t(2) by (intro delete_absent) (simp add: map_of_eq_None_iff)
  with own show ?thesis
    using reg sub by (intro sched_ok_task [OF ok t(1)]) (auto simp: registry_ok_def)
qed

lemma queued_exit_ok:
  assumes ok: "sched_ok None tasks D s" and t: "tasks rid = Some t" "tk_phase t = Ph_queued"
    and "arm_enabled arm rid (tk_tx t) s" and ex: "queued_exit arm (tk_tx t) s = (s', outcome)"
  shows "sched_ok None (tasks(rid \<mapsto> t\<lparr>tk_phase := phase_after outcome\<rparr>)) (insert (tk_tx t) D) s'"
proof -
  have drop: "sched_ok None (tasks(rid \<mapsto> t\<lparr>tk_phase := Ph_over\<rparr>)) (insert (tk_tx t) D) (notify_one (drop_receiver (tk_tx t) s))"
  proof (cases "map_of (sch_delivered s) (tk_tx t)")
    case None
    then show ?thesis
      using leave_empty_ok [OF ok t(1) None t(2) subset_insertI insertI1] by (simp add: drop_receiver_def)
  next
    case (Some r)
    then have "r = rid" using delivered_of_task [OF ok t(1)] by simp
    then have "owns_permit tasks (sch_delivered s) rid" using t Some by (simp add: owns_permit_def)
    from release_owner_ok [OF ok t(1) this _ subset_insertI, of "tk_tx t"] show ?thesis
      using Some \<open>r = rid\<close> by (simp add: drop_receiver_def)
  qed
  show ?thesis
  proof (cases arm)
    case Arm_permit
    then obtain r where r: "map_of (sch_delivered s) (tk_tx t) = Some r" using assms(4) by (auto simp: arm_enabled_def)
    from take_permit_ok [OF ok t(1) r subset_insertI] show ?thesis
      using ex Arm_permit r by auto
  next
    case Arm_sender_dropped
    then have "map_of (sch_delivered s) (tk_tx t) = None" using assms(4) by (simp add: arm_enabled_def)
    from leave_empty_ok [OF ok t(1) this t(2) subset_insertI insertI1] show ?thesis
      using ex Arm_sender_dropped by auto
  qed (use ex drop in auto)
qed

definition world_ok :: "world \<Rightarrow> bool" where
  "world_ok w \<longleftrightarrow> sched_ok None (wd_tasks w) (wd_dropped w) (wd_sched w)"

lemma sched_ok_new_task:
  assumes ok: "sched_ok e tasks D s" and new: "tasks rid = None" "\<forall>r u. tasks r = Some u \<longrightarrow> tk_tx u \<noteq> tk_tx t"
    and "tk_phase t = Ph_over"
  shows "sched_ok e (tasks(rid \<mapsto> t)) D s \<and> at_rest (tasks(rid \<mapsto> t)) s rid t"
proof -
  let ?T = "tasks(rid \<mapsto> t)"
  have wait: "rid \<notin> set (waiting_ids s)"
    using ok new(1) by (fastforce simp: waiting_ids_iff sched_ok_def queues_ok_def waiter_ok_def)
  have owns: "owns_permit ?T (sch_delivered s) r \<longleftrightarrow> owns_permit tasks (sch_delivered s) r" for r
    using new(1) assms(4) by (auto simp: owns_permit_def)
  have mono: "?T r = Some u" if "tasks r = Some u" for r u using that new(1) by auto
  have "registry_ok ?T s"
    using ok mono unfolding sched_ok_def registry_ok_def owns by fast
  moreover have "delivered_ok ?T s"
    using ok mono unfolding sched_ok_def delivered_ok_def by fast
  moreover have "waiter_ok ?T D (sch_delivered s) c wt" if "waiter_ok tasks D (sch_delivered s) c wt" for c wt
    using that mono unfolding waiter_ok_def by blast
  then have "queues_ok ?T D s"
    using ok unfolding sched_ok_def queues_ok_def by blast
  moreover have "tx_inj ?T"
    using ok new unfolding sched_ok_def tx_inj_def by (metis fun_upd_apply option.inject)
  ultimately show ?thesis
    using ok wait assms(4) by (simp add: sched_ok_def at_rest_def)
qed

lemma world_ok_step: "world_step w w' \<Longrightarrow> world_ok w \<Longrightarrow> world_ok w'"
proof (induction rule: world_step.induct)
  case (arrives w rid tx "class" cancel s adm)
  let ?t = "\<lparr>tk_class = class, tk_cancel = cancel, tk_tx = tx, tk_phase = Ph_over\<rparr>"
  have "sched_ok None ((wd_tasks w)(rid \<mapsto> ?t)) (wd_dropped w) (wd_sched w) \<and> at_rest ((wd_tasks w)(rid \<mapsto> ?t)) (wd_sched w) rid ?t"
    using arrives by (intro sched_ok_new_task) (simp_all add: world_ok_def)
  then show ?case
    using admit_ok [of _ "wd_dropped w" "wd_sched w" rid ?t] arrives(4) by (fastforce simp: world_ok_def set_task_def)
next
  case (polls w rid t deadline s adm)
  have "at_rest (wd_tasks w) (wd_sched w) rid t"
    using polls not_waiting [of None "wd_tasks w" "wd_dropped w" "wd_sched w" rid t] by (auto simp: at_rest_def world_ok_def)
  from admit_poll_ok [OF _ this polls(3)] show ?case
    using polls.prems by (simp add: world_ok_def set_task_def)
next
  case (leaves_queue w rid t arm s outcome)
  have "sched_ok None (wd_tasks w) (wd_dropped w) (wd_sched w)" using leaves_queue.prems by (simp add: world_ok_def)
  from queued_exit_ok [OF this leaves_queue.hyps] show ?case by (simp add: world_ok_def set_task_def)
next
  case (streams w rid t s won)
  show ?case
  proof (cases "map_of (sch_inflight_registry (wd_sched w)) rid")
    case None
    then show ?thesis using streams by (auto simp: first_data_frame_def)
  next
    case (Some h)
    obtain h' where h': "try_mark_first_byte (word_of_nat ((wd_clock w - ih_admitted_at h) div 1000000)) h = (h', won)"
      and s: "s = (wd_sched w)\<lparr>sch_inflight_registry := AList.update rid h' (sch_inflight_registry (wd_sched w))\<rparr>"
      using streams(3) Some by (auto simp: first_data_frame_def split: prod.splits)
    have "ih_class h' = ih_class h" "ih_request_id h' = ih_request_id h"
      using h' by (auto simp: try_mark_first_byte_def Let_def split: if_splits)
    from mark_registry_ok [OF _ Some this] show ?thesis
      using streams.prems by (simp add: world_ok_def s)
  qed
next
  case (finishes w rid t)
  have ok: "sched_ok None (wd_tasks w) (wd_dropped w) (wd_sched w)" using finishes by (simp add: world_ok_def)
  have own: "owns_permit (wd_tasks w) (sch_delivered (wd_sched w)) rid" using finishes by (simp add: owns_permit_def)
  have wait: "rid \<notin> set (waiting_ids (wd_sched w))" using not_waiting [OF ok] finishes by blast
  have "AList.delete (tk_tx t) (sch_delivered (wd_sched w)) = sch_delivered (wd_sched w)"
    using delivered_none [OF ok] finishes by simp
  with release_owner_ok [OF ok _ own, of t "wd_dropped w"] show ?case
    using finishes wait by (simp add: world_ok_def set_task_def)
next
  case (dispatches w gone event)
  then show ?case by (simp add: world_ok_def dispatcher_ok)
qed (simp_all add: world_ok_def)


section \<open>Properties\<close>

lemma world_ok_init:
  assumes "scheduler_new settings capacity = Inr s0"
  shows "world_ok (world_init s0)"
proof -
  have zero: "unpack 0 = Lanes 0 0 0 0" by (simp add: unpack_def)
  have "inflight c (slot_pool_new capacity reserved) = 0" for c reserved
    by (cases c) (simp_all add: inflight_def slot_pool_new_def zero)
  moreover have "fq_waiters (queue_of c s0) = []" for c
    using assms by (auto simp: scheduler_new_def Let_def queue_of_def queue_for_def fifo_new_def split: if_splits)
  ultimately show ?thesis
    using assms
    by (auto simp: scheduler_new_def Let_def world_ok_def world_init_def sched_ok_def slots_match_def registry_ok_def
        delivered_ok_def queues_ok_def tx_inj_def owns_permit_def count_class_def split: if_splits)
qed

text \<open>C20.
  No admission slot leaks.  However arrivals, preemptions, polls, queue exits, first bytes,
  completions, client departures, dispatcher passes and capacity changes interleave, the count
  of every class is the number of registered requests of that class, and the registered requests
  are exactly those that own a permit: the admitted ones and those whose permit waits in their
  channel.  Once every request is over, every slot is free.
\<close>

theorem no_slot_leak:
  assumes "scheduler_new settings capacity = Inr s0" and "world_step\<^sup>*\<^sup>* (world_init s0) w"
  shows "(\<forall>c. unat (inflight c (sch_slot_pool (wd_sched w))) = count_class c (sch_inflight_registry (wd_sched w))) \<and>
         distinct (map fst (sch_inflight_registry (wd_sched w))) \<and>
         (\<forall>rid. rid \<in> fst ` set (sch_inflight_registry (wd_sched w)) \<longleftrightarrow>
            owns_permit (wd_tasks w) (sch_delivered (wd_sched w)) rid) \<and>
         ((\<forall>rid t. wd_tasks w rid = Some t \<longrightarrow> tk_phase t = Ph_over) \<longrightarrow>
            (\<forall>c. inflight c (sch_slot_pool (wd_sched w)) = 0))"
proof -
  have ok: "world_ok w"
    using assms(2) by (induction rule: rtranclp_induct) (auto intro: world_ok_init [OF assms(1)] world_ok_step)
  have "sch_inflight_registry (wd_sched w) = []" if "\<forall>rid t. wd_tasks w rid = Some t \<longrightarrow> tk_phase t = Ph_over"
  proof -
    have "\<not> owns_permit (wd_tasks w) (sch_delivered (wd_sched w)) rid" for rid
      using that by (auto simp: owns_permit_def)
    then have "fst ` set (sch_inflight_registry (wd_sched w)) = {}"
      using ok by (auto simp: world_ok_def sched_ok_def registry_ok_def)
    then show ?thesis by simp
  qed
  then show ?thesis
    using ok by (auto simp: world_ok_def sched_ok_def slots_match_def registry_ok_def count_class_def unat_eq_zero [symmetric])
qed

theorem no_slot_leak_witness:
  "\<exists>s0 w. scheduler_new plain_settings 8 = Inr s0 \<and> world_step\<^sup>*\<^sup>* (world_init s0) w \<and>
     wd_tasks w ''r'' \<noteq> None \<and>
     (\<forall>c. unat (inflight c (sch_slot_pool (wd_sched w))) = count_class c (sch_inflight_registry (wd_sched w)))"
proof -
  obtain s0 where s0: "scheduler_new plain_settings 8 = Inr s0"
    using plain_desired [of 8] by (simp add: scheduler_new_def Let_def lanes_total_def)
  obtain s adm where adm: "admit 0 {} Bulk ''r'' 0 0 s0 = (s, adm)" by force
  let ?t = "\<lparr>tk_class = Bulk, tk_cancel = 0, tk_tx = 0, tk_phase = Ph_over\<rparr>"
  let ?w = "set_task ''r'' ?t (phase_of adm) ((world_init s0)\<lparr>wd_sched := s\<rparr>)"
  have "world_step (world_init s0) ?w"
    using adm by (intro world_step.arrives) (simp_all add: world_init_def)
  then have run: "world_step\<^sup>*\<^sup>* (world_init s0) ?w" by blast
  moreover have "wd_tasks ?w ''r'' \<noteq> None" by (simp add: set_task_def)
  ultimately show ?thesis
    using s0 no_slot_leak [OF s0 run] by blast
qed

end
