(* ===== verification/Circuit_Breaker.thy ===== *)
theory Circuit_Breaker
  imports Smg_Prelude
begin

text \<open>
  The circuit breaker of a worker (\<open>worker/circuit_breaker.rs\<close>).

  The first half translates every method as a function on the breaker; the clock
  (\<open>now_ms\<close>) is an argument.  The gauges and the transition counter the breaker publishes
  for its label are fields of the record, since the order of the writes to them is what the
  gauge lock is for.  The second half splits each method into its atomic accesses and
  interleaves any number of calls, with sequentially consistent atomics.
\<close>

section \<open>State\<close>

record circuit_breaker_config =
  cbc_failure_threshold :: u32
  cbc_success_threshold :: u32
  cbc_timeout_duration :: nat
  cbc_window_duration :: nat

text \<open>Durations are counted in nanoseconds.\<close>

definition cb_from_secs :: "nat \<Rightarrow> nat" where
  "cb_from_secs s = s * 1000000000"

definition cb_default_config :: circuit_breaker_config where
  "cb_default_config =
     \<lparr>cbc_failure_threshold = 5, cbc_success_threshold = 2,
      cbc_timeout_duration = cb_from_secs 30, cbc_window_duration = cb_from_secs 60\<rparr>"

definition STATE_CLOSED :: u8 where "STATE_CLOSED = 0"
definition STATE_OPEN :: u8 where "STATE_OPEN = 1"
definition STATE_HALF_OPEN :: u8 where "STATE_HALF_OPEN = 2"

datatype circuit_state = Closed | Open | HalfOpen

fun cb_display :: "circuit_state \<Rightarrow> string" where
  "cb_display Closed = ''Closed''"
| "cb_display Open = ''Open''"
| "cb_display HalfOpen = ''HalfOpen''"

fun cb_as_str :: "circuit_state \<Rightarrow> string" where
  "cb_as_str Closed = ''closed''"
| "cb_as_str Open = ''open''"
| "cb_as_str HalfOpen = ''half_open''"

fun as_int :: "circuit_state \<Rightarrow> u8" where
  "as_int Closed = STATE_CLOSED"
| "as_int Open = STATE_OPEN"
| "as_int HalfOpen = STATE_HALF_OPEN"

definition from_int :: "u8 \<Rightarrow> circuit_state" where
  "from_int v =
     (if v = STATE_CLOSED then Closed else if v = STATE_OPEN then Open
      else if v = STATE_HALF_OPEN then HalfOpen else Closed)"

record circuit_breaker =
  cb_state_cell :: u8
  cb_consecutive_failures :: u32
  cb_consecutive_successes :: u32
  cb_total_failures :: u64
  cb_total_successes :: u64
  cb_last_failure_time_ms :: u64
  cb_last_state_change_ms :: u64
  cb_config :: circuit_breaker_config
  cb_metric_label :: string
  cb_gauge_lock :: "nat option"
  cb_state_gauge :: u8
  cb_failures_gauge :: u32
  cb_successes_gauge :: u32
  cb_transition_count :: "(circuit_state \<times> circuit_state) list"
  cb_outcome_count :: "bool list"

text \<open>The transitions whose counters are created with the breaker.\<close>

definition cb_transitions :: "(circuit_state \<times> circuit_state) list" where
  "cb_transitions =
     [(Closed, Open), (Open, HalfOpen), (Open, Closed), (HalfOpen, Closed), (HalfOpen, Open)]"

definition with_config_and_label :: "u64 \<Rightarrow> circuit_breaker_config \<Rightarrow> string \<Rightarrow> circuit_breaker" where
  "with_config_and_label now cfg lbl =
     \<lparr>cb_state_cell = STATE_CLOSED, cb_consecutive_failures = 0, cb_consecutive_successes = 0,
      cb_total_failures = 0, cb_total_successes = 0, cb_last_failure_time_ms = 0,
      cb_last_state_change_ms = now, cb_config = cfg, cb_metric_label = lbl, cb_gauge_lock = None,
      cb_state_gauge = as_int Closed, cb_failures_gauge = 0, cb_successes_gauge = 0,
      cb_transition_count = [], cb_outcome_count = []\<rparr>"

definition cb_new :: "u64 \<Rightarrow> circuit_breaker" where
  "cb_new now = with_config_and_label now cb_default_config ''''"

section \<open>Methods\<close>

definition publish_state_gauge :: "circuit_breaker \<Rightarrow> circuit_breaker" where
  "publish_state_gauge cb = cb\<lparr>cb_state_gauge := as_int (from_int (cb_state_cell cb))\<rparr>"

definition publish_gauge_metrics :: "circuit_breaker \<Rightarrow> circuit_breaker" where
  "publish_gauge_metrics cb =
     cb\<lparr>cb_failures_gauge := cb_consecutive_failures cb,
        cb_successes_gauge := cb_consecutive_successes cb\<rparr>"

definition publish_metrics :: "circuit_breaker \<Rightarrow> circuit_breaker" where
  "publish_metrics cb = publish_gauge_metrics (publish_state_gauge cb)"

definition entered :: "u64 \<Rightarrow> circuit_state \<Rightarrow> circuit_state \<Rightarrow> circuit_breaker \<Rightarrow> circuit_breaker" where
  "entered now old new cb =
     (let cb = cb\<lparr>cb_last_state_change_ms := now\<rparr>;
          cb = (case new of
                  Open \<Rightarrow> cb\<lparr>cb_consecutive_successes := 0\<rparr>
                | _ \<Rightarrow> cb\<lparr>cb_consecutive_failures := 0, cb_consecutive_successes := 0\<rparr>);
          cb = cb\<lparr>cb_transition_count := cb_transition_count cb @ [(old, new)]\<rparr>
      in publish_gauge_metrics (publish_state_gauge cb))"

definition transition_to :: "u64 \<Rightarrow> circuit_state \<Rightarrow> circuit_breaker \<Rightarrow> circuit_breaker" where
  "transition_to now new cb =
     (let old = from_int (cb_state_cell cb); cb = cb\<lparr>cb_state_cell := as_int new\<rparr>
      in if old \<noteq> new then entered now old new cb else cb)"

definition cas_open_to_half_open :: "u64 \<Rightarrow> circuit_breaker \<Rightarrow> circuit_breaker \<times> bool" where
  "cas_open_to_half_open now cb =
     (if cb_state_cell cb \<noteq> STATE_OPEN then (cb, False)
      else (entered now Open HalfOpen (cb\<lparr>cb_state_cell := STATE_HALF_OPEN\<rparr>), True))"

definition timeout_ms :: "circuit_breaker \<Rightarrow> u64" where
  "timeout_ms cb = word_of_nat (cbc_timeout_duration (cb_config cb) div 1000000)"

definition check_and_update_state_returning :: "u64 \<Rightarrow> circuit_breaker \<Rightarrow> circuit_breaker \<times> circuit_state" where
  "check_and_update_state_returning now cb =
     (let current_state = from_int (cb_state_cell cb) in
      if current_state = Open
         \<and> timeout_ms cb \<le> saturating_sub now (cb_last_state_change_ms cb)
      then (case cas_open_to_half_open now cb of
              (cb', moved) \<Rightarrow> if moved then (cb', HalfOpen) else (cb', from_int (cb_state_cell cb')))
      else (cb, current_state))"

definition cb_state :: "u64 \<Rightarrow> circuit_breaker \<Rightarrow> circuit_breaker \<times> circuit_state" where
  "cb_state now cb = check_and_update_state_returning now cb"

definition peek_state :: "circuit_breaker \<Rightarrow> circuit_state" where
  "peek_state cb = from_int (cb_state_cell cb)"

definition can_execute :: "u64 \<Rightarrow> circuit_breaker \<Rightarrow> circuit_breaker \<times> bool" where
  "can_execute now cb =
     (case cb_state now cb of (cb', st) \<Rightarrow>
        (cb', case st of Closed \<Rightarrow> True | Open \<Rightarrow> False | HalfOpen \<Rightarrow> True))"

definition record_success :: "u64 \<Rightarrow> circuit_breaker \<Rightarrow> circuit_breaker" where
  "record_success now cb =
     (let cb = cb\<lparr>cb_total_successes := cb_total_successes cb + 1, cb_consecutive_failures := 0,
                  cb_consecutive_successes := cb_consecutive_successes cb + 1\<rparr>;
          successes = cb_consecutive_successes cb
      in case from_int (cb_state_cell cb) of
           HalfOpen \<Rightarrow>
             if cbc_success_threshold (cb_config cb) \<le> successes then transition_to now Closed cb else cb
         | Closed \<Rightarrow> cb
         | Open \<Rightarrow> cb)"

definition record_failure :: "u64 \<Rightarrow> circuit_breaker \<Rightarrow> circuit_breaker" where
  "record_failure now cb =
     (let cb = cb\<lparr>cb_total_failures := cb_total_failures cb + 1, cb_consecutive_successes := 0,
                  cb_consecutive_failures := cb_consecutive_failures cb + 1\<rparr>;
          failures = cb_consecutive_failures cb;
          cb = cb\<lparr>cb_last_failure_time_ms := now\<rparr>
      in case from_int (cb_state_cell cb) of
           Closed \<Rightarrow>
             if cbc_failure_threshold (cb_config cb) \<le> failures then transition_to now Open cb else cb
         | HalfOpen \<Rightarrow> transition_to now Open cb
         | Open \<Rightarrow> cb)"

definition record_outcome :: "u64 \<Rightarrow> bool \<Rightarrow> circuit_breaker \<Rightarrow> circuit_breaker" where
  "record_outcome now success cb =
     (let cb = (if success then record_success now cb else record_failure now cb);
          cb = cb\<lparr>cb_outcome_count := cb_outcome_count cb @ [success]\<rparr>
      in publish_gauge_metrics cb)"

definition cb_reset :: "u64 \<Rightarrow> circuit_breaker \<Rightarrow> circuit_breaker" where
  "cb_reset now cb =
     publish_gauge_metrics
       ((transition_to now Closed cb)\<lparr>cb_consecutive_failures := 0, cb_consecutive_successes := 0\<rparr>)"

definition try_half_open :: "u64 \<Rightarrow> circuit_breaker \<Rightarrow> circuit_breaker \<times> bool" where
  "try_half_open now cb = cas_open_to_half_open now cb"

definition clear_failure_streak :: "circuit_breaker \<Rightarrow> circuit_breaker" where
  "clear_failure_streak cb =
     (if from_int (cb_state_cell cb) \<noteq> Closed then cb
      else publish_gauge_metrics (cb\<lparr>cb_consecutive_failures := 0\<rparr>))"

definition force_open :: "u64 \<Rightarrow> circuit_breaker \<Rightarrow> circuit_breaker" where
  "force_open now cb = transition_to now Open cb"

definition time_since_last_failure :: "u64 \<Rightarrow> circuit_breaker \<Rightarrow> u64 option" where
  "time_since_last_failure now cb =
     (let last_ms = cb_last_failure_time_ms cb
      in if last_ms = 0 then None else Some (saturating_sub now last_ms))"

definition time_since_last_state_change :: "u64 \<Rightarrow> circuit_breaker \<Rightarrow> u64" where
  "time_since_last_state_change now cb = saturating_sub now (cb_last_state_change_ms cb)"

record circuit_breaker_stats =
  cbs_state :: circuit_state
  cbs_consecutive_failures :: u32
  cbs_consecutive_successes :: u32
  cbs_total_failures :: u64
  cbs_total_successes :: u64
  cbs_time_since_last_failure :: "u64 option"
  cbs_time_since_last_state_change :: u64

definition cb_stats :: "u64 \<Rightarrow> circuit_breaker \<Rightarrow> circuit_breaker \<times> circuit_breaker_stats" where
  "cb_stats now cb =
     (case cb_state now cb of (cb, st) \<Rightarrow>
        (cb, \<lparr>cbs_state = st, cbs_consecutive_failures = cb_consecutive_failures cb,
              cbs_consecutive_successes = cb_consecutive_successes cb,
              cbs_total_failures = cb_total_failures cb, cbs_total_successes = cb_total_successes cb,
              cbs_time_since_last_failure = time_since_last_failure now cb,
              cbs_time_since_last_state_change = time_since_last_state_change now cb\<rparr>))"

text \<open>A clone copies the cells and starts with a free gauge lock.\<close>

definition cb_clone :: "circuit_breaker \<Rightarrow> circuit_breaker" where
  "cb_clone cb = cb\<lparr>cb_gauge_lock := None\<rparr>"

section \<open>The breaker as a three-state machine\<close>

text \<open>
  The contract: a closed breaker counts consecutive failures and opens at the threshold (a
  threshold of zero acts as one); an open breaker remembers when it opened and ignores
  outcomes; a breaker on trial counts successes, closes at the success threshold and reopens
  on the first failure.
\<close>

datatype cb_spec = Spec_Closed nat | Spec_Open u64 | Spec_Trial nat

datatype cb_call =
    Can_Execute | Record_Outcome bool | Reset | Try_Half_Open | Clear_Failure_Streak | Force_Open
  | Publish_Metrics

fun spec_call :: "circuit_breaker_config \<Rightarrow> u64 \<Rightarrow> cb_call \<Rightarrow> cb_spec \<Rightarrow> cb_spec" where
  "spec_call cfg now Can_Execute (Spec_Open since) =
     (if unat (word_of_nat (cbc_timeout_duration cfg div 1000000) :: u64) \<le> unat now - unat since
      then Spec_Trial 0 else Spec_Open since)"
| "spec_call cfg now Can_Execute s = s"
| "spec_call cfg now (Record_Outcome True) (Spec_Closed k) = Spec_Closed 0"
| "spec_call cfg now (Record_Outcome False) (Spec_Closed k) =
     (if unat (cbc_failure_threshold cfg) \<le> Suc k then Spec_Open now else Spec_Closed (Suc k))"
| "spec_call cfg now (Record_Outcome ok) (Spec_Open since) = Spec_Open since"
| "spec_call cfg now (Record_Outcome True) (Spec_Trial k) =
     (if unat (cbc_success_threshold cfg) \<le> Suc k then Spec_Closed 0 else Spec_Trial (Suc k))"
| "spec_call cfg now (Record_Outcome False) (Spec_Trial k) = Spec_Open now"
| "spec_call cfg now Reset s = Spec_Closed 0"
| "spec_call cfg now Try_Half_Open (Spec_Open since) = Spec_Trial 0"
| "spec_call cfg now Try_Half_Open s = s"
| "spec_call cfg now Clear_Failure_Streak (Spec_Closed k) = Spec_Closed 0"
| "spec_call cfg now Clear_Failure_Streak s = s"
| "spec_call cfg now Force_Open (Spec_Open since) = Spec_Open since"
| "spec_call cfg now Force_Open s = Spec_Open now"
| "spec_call cfg now Publish_Metrics s = s"

fun cb_exec :: "u64 \<Rightarrow> cb_call \<Rightarrow> circuit_breaker \<Rightarrow> circuit_breaker" where
  "cb_exec now Can_Execute cb = fst (can_execute now cb)"
| "cb_exec now (Record_Outcome ok) cb = record_outcome now ok cb"
| "cb_exec now Reset cb = cb_reset now cb"
| "cb_exec now Try_Half_Open cb = fst (try_half_open now cb)"
| "cb_exec now Clear_Failure_Streak cb = clear_failure_streak cb"
| "cb_exec now Force_Open cb = force_open now cb"
| "cb_exec now Publish_Metrics cb = publish_metrics cb"

definition cb_run :: "(u64 \<times> cb_call) list \<Rightarrow> circuit_breaker \<Rightarrow> circuit_breaker" where
  "cb_run calls cb = foldl (\<lambda>cb (now, call). cb_exec now call cb) cb calls"

definition spec_run :: "circuit_breaker_config \<Rightarrow> (u64 \<times> cb_call) list \<Rightarrow> cb_spec" where
  "spec_run cfg calls = foldl (\<lambda>s (now, call). spec_call cfg now call s) (Spec_Closed 0) calls"

fun spec_admits :: "cb_spec \<Rightarrow> bool" where
  "spec_admits (Spec_Open since) \<longleftrightarrow> False"
| "spec_admits _ \<longleftrightarrow> True"

definition cb_abs :: "circuit_breaker \<Rightarrow> cb_spec" where
  "cb_abs cb =
     (case from_int (cb_state_cell cb) of
        Closed \<Rightarrow> Spec_Closed (unat (cb_consecutive_failures cb))
      | Open \<Rightarrow> Spec_Open (cb_last_state_change_ms cb)
      | HalfOpen \<Rightarrow> Spec_Trial (unat (cb_consecutive_successes cb)))"

text \<open>The streak that counts is below its threshold, so its 32-bit counter does not wrap.\<close>

definition cb_ok :: "circuit_breaker_config \<Rightarrow> circuit_breaker \<Rightarrow> bool" where
  "cb_ok cfg cb \<longleftrightarrow>
     cb_config cb = cfg \<and> as_int (from_int (cb_state_cell cb)) = cb_state_cell cb
     \<and> (from_int (cb_state_cell cb) = Closed \<longrightarrow>
          unat (cb_consecutive_failures cb) < max 1 (unat (cbc_failure_threshold cfg)))
     \<and> (from_int (cb_state_cell cb) = HalfOpen \<longrightarrow>
          unat (cb_consecutive_successes cb) < max 1 (unat (cbc_success_threshold cfg)))
     \<and> cb_state_gauge cb = cb_state_cell cb"

lemmas cb_state_simps =
  STATE_CLOSED_def STATE_OPEN_def STATE_HALF_OPEN_def from_int_def

lemma from_as_int [simp]: "from_int (as_int s) = s"
  by (cases s) (simp_all add: cb_state_simps)

lemma from_int_consts [simp]:
  "from_int STATE_CLOSED = Closed" "from_int STATE_OPEN = Open" "from_int STATE_HALF_OPEN = HalfOpen"
  by (simp_all add: cb_state_simps)

lemma as_int_eq_iff [simp]:
  "as_int s = STATE_OPEN \<longleftrightarrow> s = Open"
  by (cases s) (simp_all add: cb_state_simps)

lemma cell_open_iff:
  "cb_ok cfg cb \<Longrightarrow> cb_state_cell cb = STATE_OPEN \<longleftrightarrow> from_int (cb_state_cell cb) = Open"
  unfolding cb_ok_def by (metis from_int_consts(2) as_int.simps(2))

lemma unat_succ_below:
  fixes c :: u32
  assumes "unat c < max 1 (unat (t :: u32))"
  shows "unat (c + 1) = Suc (unat c)"
proof -
  have "Suc (unat c) < 2 ^ 32"
    using assms unsigned_less [of t, where ?'a = nat] by auto
  then show ?thesis
    by (simp add: unat_word_ariths)
qed

lemmas cb_method_defs =
  can_execute_def cb_state_def check_and_update_state_returning_def cas_open_to_half_open_def
  record_outcome_def record_success_def record_failure_def cb_reset_def try_half_open_def
  clear_failure_streak_def force_open_def publish_metrics_def transition_to_def entered_def
  publish_state_gauge_def publish_gauge_metrics_def Let_def timeout_ms_def


lemma cb_exec_refines:
  assumes "cb_ok cfg cb"
  shows "cb_ok cfg (cb_exec now call cb) \<and> cb_abs (cb_exec now call cb) = spec_call cfg now call (cb_abs cb)"
proof (cases "from_int (cb_state_cell cb)")
  case Closed
  then show ?thesis
    using assms cell_open_iff [OF assms] unat_succ_below [of "cb_consecutive_failures cb" "cbc_failure_threshold cfg"]
    by (cases call rule: cb_call.exhaust; cases "call = Record_Outcome True")
      (auto simp: cb_ok_def cb_abs_def cb_method_defs word_le_nat_alt not_le)
next
  case Open
  then show ?thesis
    using assms cell_open_iff [OF assms]
    by (cases call) (auto simp: cb_ok_def cb_abs_def cb_method_defs word_le_nat_alt unat_saturating_sub)
next
  case HalfOpen
  then show ?thesis
    using assms cell_open_iff [OF assms] unat_succ_below [of "cb_consecutive_successes cb" "cbc_success_threshold cfg"]
    by (cases call) (auto simp: cb_ok_def cb_abs_def cb_method_defs word_le_nat_alt not_le)
qed

lemma cb_new_ok: "cb_ok cfg (with_config_and_label now cfg lbl)"
  by (simp add: cb_ok_def with_config_and_label_def)

lemma cb_new_abs: "cb_abs (with_config_and_label now cfg lbl) = Spec_Closed 0"
  by (simp add: cb_abs_def with_config_and_label_def)

lemma cb_run_refines:
  assumes "cb_ok cfg cb"
  shows "cb_ok cfg (cb_run calls cb)
    \<and> cb_abs (cb_run calls cb) = foldl (\<lambda>s (now, call). spec_call cfg now call s) (cb_abs cb) calls"
  using assms
proof (induction calls arbitrary: cb)
  case (Cons c calls)
  obtain now call where c: "c = (now, call)" by (cases c)
  show ?case
    using Cons.IH [of "cb_exec now call cb"] cb_exec_refines [OF Cons.prems] unfolding cb_run_def c by simp
qed (simp add: cb_run_def)

lemma can_execute_spec:
  assumes "cb_ok cfg cb"
  shows "snd (can_execute now cb) \<longleftrightarrow> spec_admits (spec_call cfg now Can_Execute (cb_abs cb))"
  using assms cell_open_iff [OF assms]
  by (cases "from_int (cb_state_cell cb)")
    (auto simp: cb_ok_def cb_abs_def cb_method_defs word_le_nat_alt unat_saturating_sub)


lemma spec_trial_run:
  "foldl (\<lambda>s (now, call). spec_call cfg now call s) (Spec_Trial k) (map (\<lambda>t. (t, Record_Outcome True)) ts)
   = (if k + length ts < max (Suc k) (unat (cbc_success_threshold cfg)) then Spec_Trial (k + length ts)
      else Spec_Closed 0)" if "ts \<noteq> []"
proof -
  have closed: "foldl (\<lambda>s (now, call). spec_call cfg now call s) (Spec_Closed 0)
      (map (\<lambda>t. (t, Record_Outcome True)) us) = Spec_Closed 0" for us
    by (induction us) simp_all
  show ?thesis
    using that
  proof (induction ts arbitrary: k)
    case (Cons t ts)
    show ?case
      by (cases "ts = []"; cases "unat (cbc_success_threshold cfg) \<le> Suc k")
        (auto simp: closed Cons.IH)
  qed simp
qed

lemma peek_state_abs:
  "peek_state cb = (case cb_abs cb of Spec_Closed _ \<Rightarrow> Closed | Spec_Open _ \<Rightarrow> Open | Spec_Trial _ \<Rightarrow> HalfOpen)"
  by (simp add: peek_state_def cb_abs_def split: circuit_state.split)

text \<open>An open breaker recovers: whatever happened before, once the timeout has passed since
  it opened the next check lets the request through, the breaker stays on trial while fewer
  successes than the threshold have followed, and it is closed as soon as that many have.\<close>

theorem breaker_recovers:
  assumes "peek_state (cb_run calls (with_config_and_label t cfg lbl)) = Open"
    and "timeout_ms (cb_run calls (with_config_and_label t cfg lbl))
           \<le> saturating_sub now (cb_last_state_change_ms (cb_run calls (with_config_and_label t cfg lbl)))"
  shows "snd (can_execute now (cb_run calls (with_config_and_label t cfg lbl)))
    \<and> peek_state (cb_run ((now, Can_Execute) # map (\<lambda>t. (t, Record_Outcome True)) ts)
                    (cb_run calls (with_config_and_label t cfg lbl)))
      = (if length ts < max 1 (unat (cbc_success_threshold cfg)) then HalfOpen else Closed)"
proof -
  let ?cb = "cb_run calls (with_config_and_label t cfg lbl)"
  have ok: "cb_ok cfg ?cb"
    using cb_run_refines [OF cb_new_ok] by blast
  have abs: "cb_abs ?cb = Spec_Open (cb_last_state_change_ms ?cb)"
    using assms(1) by (simp add: peek_state_def cb_abs_def)
  have trial: "spec_call cfg now Can_Execute (cb_abs ?cb) = Spec_Trial 0"
    using assms(2) ok by (simp add: abs timeout_ms_def word_le_nat_alt unat_saturating_sub cb_ok_def)
  have "cb_abs (cb_run ((now, Can_Execute) # map (\<lambda>t. (t, Record_Outcome True)) ts) ?cb)
      = foldl (\<lambda>s (now, call). spec_call cfg now call s) (Spec_Trial 0) (map (\<lambda>t. (t, Record_Outcome True)) ts)"
    using cb_run_refines [OF ok] trial by simp
  then have "peek_state (cb_run ((now, Can_Execute) # map (\<lambda>t. (t, Record_Outcome True)) ts) ?cb)
      = (if length ts < max 1 (unat (cbc_success_threshold cfg)) then HalfOpen else Closed)"
    by (cases "ts = []") (auto simp: peek_state_abs spec_trial_run)
  then show ?thesis
    using can_execute_spec [OF ok] trial by simp
qed

definition demo_calls_open :: "(u64 \<times> cb_call) list" where
  "demo_calls_open = [(10, Record_Outcome False), (20, Record_Outcome False)]"

definition demo_cb_config :: circuit_breaker_config where
  "demo_cb_config =
     \<lparr>cbc_failure_threshold = 2, cbc_success_threshold = 2, cbc_timeout_duration = 5000000,
      cbc_window_duration = 0\<rparr>"

lemma demo_cb_threshold: "cbc_success_threshold demo_cb_config = 2"
  by (simp add: demo_cb_config_def)

lemma demo_breaker_open:
  "peek_state (cb_run demo_calls_open (with_config_and_label 0 demo_cb_config lbl)) = Open"
  "cb_last_state_change_ms (cb_run demo_calls_open (with_config_and_label 0 demo_cb_config lbl)) = 20"
  "timeout_ms (cb_run demo_calls_open (with_config_and_label 0 demo_cb_config lbl)) = 5"
proof -
  let ?cb = "cb_run demo_calls_open (with_config_and_label 0 demo_cb_config lbl)"
  have ok: "cb_ok demo_cb_config ?cb" "cb_abs ?cb = Spec_Open 20"
    using cb_run_refines [OF cb_new_ok, of demo_cb_config demo_calls_open 0 lbl]
    by (simp_all add: cb_new_abs demo_calls_open_def demo_cb_config_def)
  show "peek_state ?cb = Open"
    by (simp add: peek_state_abs ok)
  show "cb_last_state_change_ms ?cb = 20"
    using ok(2) by (simp add: cb_abs_def split: circuit_state.splits)
  show "timeout_ms ?cb = 5"
    using ok(1) by (simp add: timeout_ms_def cb_ok_def demo_cb_config_def)
qed

theorem breaker_recovers_witness:
  "peek_state (cb_run ((30, Can_Execute) # map (\<lambda>t. (t, Record_Outcome True)) [31, 32])
      (cb_run demo_calls_open (with_config_and_label 0 demo_cb_config ''w''))) = Closed"
  using breaker_recovers [of demo_calls_open 0 demo_cb_config "''w''" 30 "[31, 32]"]
  by (simp add: demo_breaker_open saturating_sub_def demo_cb_threshold del: list.map)

section \<open>Calls as atomic accesses\<close>

text \<open>
  A running call is the list of atomic accesses it still has to make.  An access that reads
  decides what follows it.  The state gauge is written in a critical section: the lock, the
  load, the store and the release are separate accesses.
\<close>

datatype cb_access =
    Add_Total bool
  | Clear_Failures
  | Clear_Successes
  | Bump_Failures
  | Bump_Successes
  | Stamp_Failure
  | Judge_Failure u32
  | Judge_Success u32
  | Swap circuit_state
  | Exchange_Open
  | Stamp_Change
  | Count_Transition circuit_state circuit_state
  | Gauge_Lock
  | Gauge_Load
  | Gauge_Store u8
  | Gauge_Unlock
  | Load_Failures
  | Set_Failures_Gauge u32
  | Load_Successes
  | Set_Successes_Gauge u32
  | Load_State
  | Load_Change
  | Require_Closed
  | Count_Outcome bool

definition publish_counters :: "cb_access list" where
  "publish_counters = [Load_Failures, Load_Successes]"

fun entered_accesses :: "circuit_state \<Rightarrow> circuit_state \<Rightarrow> cb_access list" where
  "entered_accesses old new =
     Stamp_Change
     # (case new of Open \<Rightarrow> [Clear_Successes] | _ \<Rightarrow> [Clear_Failures, Clear_Successes])
     @ [Count_Transition old new, Gauge_Lock] @ publish_counters"

fun cb_program :: "cb_call \<Rightarrow> cb_access list" where
  "cb_program Can_Execute = [Load_State]"
| "cb_program (Record_Outcome True) =
     [Add_Total True, Clear_Failures, Bump_Successes, Count_Outcome True] @ publish_counters"
| "cb_program (Record_Outcome False) =
     [Add_Total False, Clear_Successes, Bump_Failures, Count_Outcome False] @ publish_counters"
| "cb_program Reset = [Swap Closed, Clear_Failures, Clear_Successes] @ publish_counters"
| "cb_program Try_Half_Open = [Exchange_Open]"
| "cb_program Clear_Failure_Streak = [Require_Closed]"
| "cb_program Force_Open = [Swap Open]"
| "cb_program Publish_Metrics = Gauge_Lock # publish_counters"

text \<open>One access of thread \<open>t\<close>: the breaker after it and the accesses it puts in front, or
  \<open>None\<close> when the thread has to wait for the gauge lock.\<close>

fun cb_access_step ::
    "nat \<Rightarrow> u64 \<Rightarrow> cb_access \<Rightarrow> circuit_breaker \<Rightarrow> (circuit_breaker \<times> cb_access list) option" where
  "cb_access_step t now (Add_Total True) cb =
     Some (cb\<lparr>cb_total_successes := cb_total_successes cb + 1\<rparr>, [])"
| "cb_access_step t now (Add_Total False) cb =
     Some (cb\<lparr>cb_total_failures := cb_total_failures cb + 1\<rparr>, [])"
| "cb_access_step t now Clear_Failures cb = Some (cb\<lparr>cb_consecutive_failures := 0\<rparr>, [])"
| "cb_access_step t now Clear_Successes cb = Some (cb\<lparr>cb_consecutive_successes := 0\<rparr>, [])"
| "cb_access_step t now Bump_Failures cb =
     Some (cb\<lparr>cb_consecutive_failures := cb_consecutive_failures cb + 1\<rparr>,
           [Stamp_Failure, Judge_Failure (cb_consecutive_failures cb + 1)])"
| "cb_access_step t now Bump_Successes cb =
     Some (cb\<lparr>cb_consecutive_successes := cb_consecutive_successes cb + 1\<rparr>,
           [Judge_Success (cb_consecutive_successes cb + 1)])"
| "cb_access_step t now Stamp_Failure cb = Some (cb\<lparr>cb_last_failure_time_ms := now\<rparr>, [])"
| "cb_access_step t now (Judge_Failure failures) cb =
     Some (cb, case from_int (cb_state_cell cb) of
                 Closed \<Rightarrow> if cbc_failure_threshold (cb_config cb) \<le> failures then [Swap Open] else []
               | HalfOpen \<Rightarrow> [Swap Open]
               | Open \<Rightarrow> [])"
| "cb_access_step t now (Judge_Success successes) cb =
     Some (cb, case from_int (cb_state_cell cb) of
                 HalfOpen \<Rightarrow> if cbc_success_threshold (cb_config cb) \<le> successes then [Swap Closed] else []
               | _ \<Rightarrow> [])"
| "cb_access_step t now (Swap new) cb =
     Some (cb\<lparr>cb_state_cell := as_int new\<rparr>,
           let old = from_int (cb_state_cell cb) in if old \<noteq> new then entered_accesses old new else [])"
| "cb_access_step t now Exchange_Open cb =
     Some (if cb_state_cell cb \<noteq> STATE_OPEN then (cb, [])
           else (cb\<lparr>cb_state_cell := STATE_HALF_OPEN\<rparr>, entered_accesses Open HalfOpen))"
| "cb_access_step t now Stamp_Change cb = Some (cb\<lparr>cb_last_state_change_ms := now\<rparr>, [])"
| "cb_access_step t now (Count_Transition old new) cb =
     Some (cb\<lparr>cb_transition_count := cb_transition_count cb @ [(old, new)]\<rparr>, [])"
| "cb_access_step t now Gauge_Lock cb =
     (if cb_gauge_lock cb = None then Some (cb\<lparr>cb_gauge_lock := Some t\<rparr>, [Gauge_Load]) else None)"
| "cb_access_step t now Gauge_Load cb =
     Some (cb, [Gauge_Store (as_int (from_int (cb_state_cell cb)))])"
| "cb_access_step t now (Gauge_Store v) cb = Some (cb\<lparr>cb_state_gauge := v\<rparr>, [Gauge_Unlock])"
| "cb_access_step t now Gauge_Unlock cb = Some (cb\<lparr>cb_gauge_lock := None\<rparr>, [])"
| "cb_access_step t now Load_Failures cb = Some (cb, [Set_Failures_Gauge (cb_consecutive_failures cb)])"
| "cb_access_step t now (Set_Failures_Gauge v) cb = Some (cb\<lparr>cb_failures_gauge := v\<rparr>, [])"
| "cb_access_step t now Load_Successes cb = Some (cb, [Set_Successes_Gauge (cb_consecutive_successes cb)])"
| "cb_access_step t now (Set_Successes_Gauge v) cb = Some (cb\<lparr>cb_successes_gauge := v\<rparr>, [])"
| "cb_access_step t now Load_State cb =
     Some (cb, if from_int (cb_state_cell cb) = Open then [Load_Change] else [])"
| "cb_access_step t now Load_Change cb =
     Some (cb, if timeout_ms cb \<le> saturating_sub now (cb_last_state_change_ms cb) then [Exchange_Open] else [])"
| "cb_access_step t now Require_Closed cb =
     Some (cb, if from_int (cb_state_cell cb) \<noteq> Closed then [] else Clear_Failures # publish_counters)"
| "cb_access_step t now (Count_Outcome ok) cb =
     Some (cb\<lparr>cb_outcome_count := cb_outcome_count cb @ [ok]\<rparr>, [])"

text \<open>A call that runs alone makes its accesses one after the other.\<close>

inductive cb_alone :: "nat \<Rightarrow> u64 \<Rightarrow> circuit_breaker \<Rightarrow> cb_access list \<Rightarrow> circuit_breaker \<Rightarrow> bool"
  for t now where
  finished: "cb_alone t now cb [] cb"
| access: "cb_access_step t now a cb = Some (cb', as) \<Longrightarrow> cb_alone t now cb' (as @ rest) cb''
    \<Longrightarrow> cb_alone t now cb (a # rest) cb''"

inductive_simps cb_alone_simps: "cb_alone t now cb [] cb'" "cb_alone t now cb (a # rest) cb'"

lemma cb_alone_method:
  assumes "cb_gauge_lock cb = None"
  shows "cb_alone t now cb (cb_program call) (cb_exec now call cb)"
proof (cases call)
  case (Record_Outcome ok)
  then show ?thesis
    using assms
    by (cases ok; cases "from_int (cb_state_cell cb)")
      (simp_all add: cb_alone_simps cb_method_defs publish_counters_def)
qed (use assms in \<open>cases "from_int (cb_state_cell cb)"; simp add: cb_alone_simps cb_method_defs publish_counters_def\<close>)+

section \<open>Interleaved calls\<close>

record cb_race =
  cbr_breaker :: circuit_breaker
  cbr_threads :: "nat \<Rightarrow> cb_access list"

inductive cb_race_step :: "cb_race \<Rightarrow> cb_race \<Rightarrow> bool" where
  call: "cbr_threads r t = [] \<Longrightarrow>
     cb_race_step r (r\<lparr>cbr_threads := (cbr_threads r)(t := cb_program call)\<rparr>)"
| access: "cbr_threads r t = a # rest \<Longrightarrow> cb_access_step t now a (cbr_breaker r) = Some (cb', as) \<Longrightarrow>
     cb_race_step r (r\<lparr>cbr_breaker := cb', cbr_threads := (cbr_threads r)(t := as @ rest)\<rparr>)"

definition cb_race_init :: "u64 \<Rightarrow> circuit_breaker_config \<Rightarrow> string \<Rightarrow> cb_race" where
  "cb_race_init now cfg lbl =
     \<lparr>cbr_breaker = with_config_and_label now cfg lbl, cbr_threads = (\<lambda>_. [])\<rparr>"

text \<open>The head of a thread inside the critical section; nothing behind a head is inside it.\<close>

fun in_gauge :: "cb_access \<Rightarrow> bool" where
  "in_gauge Gauge_Load \<longleftrightarrow> True"
| "in_gauge (Gauge_Store v) \<longleftrightarrow> True"
| "in_gauge Gauge_Unlock \<longleftrightarrow> True"
| "in_gauge _ \<longleftrightarrow> False"

fun access_ok :: "cb_access \<Rightarrow> bool" where
  "access_ok (Swap s) \<longleftrightarrow> s \<noteq> HalfOpen"
| "access_ok (Count_Transition old new) \<longleftrightarrow> (old, new) \<in> set cb_transitions"
| "access_ok _ \<longleftrightarrow> True"

fun thread_ok :: "cb_access list \<Rightarrow> bool" where
  "thread_ok [] \<longleftrightarrow> True"
| "thread_ok (a # rest) \<longleftrightarrow> access_ok a \<and> (\<forall>b \<in> set rest. access_ok b \<and> \<not> in_gauge b)"

fun holds_gauge :: "cb_access list \<Rightarrow> bool" where
  "holds_gauge (a # rest) \<longleftrightarrow> in_gauge a"
| "holds_gauge [] \<longleftrightarrow> False"

fun will_load :: "cb_access list \<Rightarrow> bool" where
  "will_load (a # rest) \<longleftrightarrow> a = Gauge_Load \<or> a = Gauge_Lock \<or> Gauge_Lock \<in> set rest"
| "will_load [] \<longleftrightarrow> False"

text \<open>Either some thread is still to read the state for the gauge, or what the holder of the
  lock is about to write, or has written, is the state.\<close>

fun gauge_fits :: "circuit_breaker \<Rightarrow> cb_access list \<Rightarrow> bool" where
  "gauge_fits cb (Gauge_Store v # rest) \<longleftrightarrow> v = cb_state_cell cb"
| "gauge_fits cb _ \<longleftrightarrow> cb_state_gauge cb = cb_state_cell cb"

definition gauge_holder :: "cb_race \<Rightarrow> cb_access list" where
  "gauge_holder r = (case cb_gauge_lock (cbr_breaker r) of None \<Rightarrow> [] | Some t \<Rightarrow> cbr_threads r t)"

definition gauge_fresh :: "cb_race \<Rightarrow> bool" where
  "gauge_fresh r \<longleftrightarrow> (\<exists>t. will_load (cbr_threads r t)) \<or> gauge_fits (cbr_breaker r) (gauge_holder r)"

definition threads_ok :: "cb_race \<Rightarrow> bool" where
  "threads_ok r \<longleftrightarrow>
     (\<forall>t. thread_ok (cbr_threads r t)
        \<and> (holds_gauge (cbr_threads r t) \<longleftrightarrow> cb_gauge_lock (cbr_breaker r) = Some t))"

definition cells_ok :: "circuit_breaker \<Rightarrow> bool" where
  "cells_ok cb \<longleftrightarrow>
     as_int (from_int (cb_state_cell cb)) = cb_state_cell cb
     \<and> set (cb_transition_count cb) \<subseteq> set cb_transitions"

lemma program_ok: "thread_ok (cb_program call)" "\<not> holds_gauge (cb_program call)"
  by (cases call rule: cb_program.cases; simp add: publish_counters_def)+

lemma entered_ok:
  "old \<noteq> new \<Longrightarrow> new = HalfOpen \<longrightarrow> old = Open \<Longrightarrow> b \<in> set (entered_accesses old new)
   \<Longrightarrow> access_ok b \<and> \<not> in_gauge b"
  by (cases old; cases new) (auto simp: publish_counters_def cb_transitions_def)

lemma entered_locks: "Gauge_Lock \<in> set (entered_accesses old new)"
  by simp

declare entered_accesses.simps [simp del]

lemma holds_gauge_append: "\<forall>b \<in> set rest. \<not> in_gauge b \<Longrightarrow> holds_gauge (as @ rest) \<longleftrightarrow> holds_gauge as"
  by (cases as; cases rest) simp_all

lemma will_load_lock: "Gauge_Lock \<in> set as \<Longrightarrow> will_load (as @ rest)"
  by (cases as) auto

lemma will_load_rest: "Gauge_Lock \<in> set rest \<Longrightarrow> will_load (as @ rest)"
  by (cases as; cases rest) auto

text \<open>An access outside the critical section leaves lock and gauge alone; one that changes
  the state puts a gauge write in front.\<close>

lemma plain_access:
  assumes "cb_access_step t now a cb = Some (cb', as)" "\<not> in_gauge a" "a \<noteq> Gauge_Lock" "access_ok a"
    and "as_int (from_int (cb_state_cell cb)) = cb_state_cell cb"
  shows "cb_gauge_lock cb' = cb_gauge_lock cb" "cb_state_gauge cb' = cb_state_gauge cb"
    "cb_state_cell cb' = cb_state_cell cb \<or> Gauge_Lock \<in> set as"
    "\<forall>b \<in> set as. access_ok b \<and> \<not> in_gauge b"
    "as_int (from_int (cb_state_cell cb')) = cb_state_cell cb'"
    "set (cb_transition_count cb) \<subseteq> set cb_transitions \<Longrightarrow> set (cb_transition_count cb') \<subseteq> set cb_transitions"
proof -
  have swap: "cb_state_cell cb' = cb_state_cell cb \<or> Gauge_Lock \<in> set as"
    "\<forall>b \<in> set as. access_ok b \<and> \<not> in_gauge b" if "a = Swap new" for new
    using assms entered_ok [of "from_int (cb_state_cell cb)" new] entered_locks that
    by (auto simp: Let_def split: if_splits)
  have exchange: "cb_state_cell cb' = cb_state_cell cb \<or> Gauge_Lock \<in> set as"
    "\<forall>b \<in> set as. access_ok b \<and> \<not> in_gauge b" if "a = Exchange_Open"
    using assms entered_ok [of Open HalfOpen] entered_locks that by (auto split: if_splits)
  show "cb_gauge_lock cb' = cb_gauge_lock cb" "cb_state_gauge cb' = cb_state_gauge cb"
    "as_int (from_int (cb_state_cell cb')) = cb_state_cell cb'"
    "set (cb_transition_count cb) \<subseteq> set cb_transitions \<Longrightarrow> set (cb_transition_count cb') \<subseteq> set cb_transitions"
    using assms by (cases "(t, now, a, cb)" rule: cb_access_step.cases; auto split: if_splits)+
  show "cb_state_cell cb' = cb_state_cell cb \<or> Gauge_Lock \<in> set as"
    using assms swap exchange
    by (cases "(t, now, a, cb)" rule: cb_access_step.cases) auto
  show "\<forall>b \<in> set as. access_ok b \<and> \<not> in_gauge b"
    using assms swap exchange
    by (cases "(t, now, a, cb)" rule: cb_access_step.cases)
      (auto simp: publish_counters_def split: if_splits circuit_state.splits)
qed

lemma race_call_ok:
  assumes "threads_ok r" "cbr_threads r t = []"
  shows "threads_ok (r\<lparr>cbr_threads := (cbr_threads r)(t := cb_program call)\<rparr>)"
  unfolding threads_ok_def
proof
  fix u
  show "thread_ok (cbr_threads (r\<lparr>cbr_threads := (cbr_threads r)(t := cb_program call)\<rparr>) u)
    \<and> (holds_gauge (cbr_threads (r\<lparr>cbr_threads := (cbr_threads r)(t := cb_program call)\<rparr>) u)
       \<longleftrightarrow> cb_gauge_lock (cbr_breaker (r\<lparr>cbr_threads := (cbr_threads r)(t := cb_program call)\<rparr>)) = Some u)"
    using spec [OF assms(1) [unfolded threads_ok_def], of u] assms(2) program_ok [of call]
    by (cases "u = t") auto
qed

lemma gauge_freshI:
  "will_load (cbr_threads r t) \<Longrightarrow> gauge_fresh r"
  "gauge_fits (cbr_breaker r) (gauge_holder r) \<Longrightarrow> gauge_fresh r"
  by (auto simp: gauge_fresh_def)

lemma race_call_fresh:
  assumes "threads_ok r" "gauge_fresh r" "cbr_threads r t = []"
  shows "gauge_fresh (r\<lparr>cbr_threads := (cbr_threads r)(t := cb_program call)\<rparr>)"
proof -
  have "cb_gauge_lock (cbr_breaker r) \<noteq> Some t"
    using assms by (metis threads_ok_def holds_gauge.simps(2))
  then have holder: "gauge_holder (r\<lparr>cbr_threads := (cbr_threads r)(t := cb_program call)\<rparr>) = gauge_holder r"
    by (auto simp: gauge_holder_def split: option.split)
  consider v where "will_load (cbr_threads r v)" | "gauge_fits (cbr_breaker r) (gauge_holder r)"
    using assms(2) unfolding gauge_fresh_def by blast
  then show ?thesis
  proof cases
    case 1
    then have "v \<noteq> t" using assms(3) by auto
    then show ?thesis using 1 by (intro gauge_freshI(1) [of _ v]) simp
  next
    case 2
    then show ?thesis by (intro gauge_freshI(2)) (simp add: holder)
  qed
qed

text \<open>The facts about one access of thread \<open>t\<close> in a race.\<close>

lemma access_lock:
  assumes "cb_access_step t now a cb = Some (cb', as)" "access_ok a"
    and "as_int (from_int (cb_state_cell cb)) = cb_state_cell cb"
    and "in_gauge a \<longleftrightarrow> cb_gauge_lock cb = Some t"
  shows "holds_gauge as \<longleftrightarrow> cb_gauge_lock cb' = Some t"
    "u \<noteq> t \<Longrightarrow> cb_gauge_lock cb' = Some u \<longleftrightarrow> cb_gauge_lock cb = Some u"
    "thread_ok as"
    "as_int (from_int (cb_state_cell cb')) = cb_state_cell cb'"
    "set (cb_transition_count cb) \<subseteq> set cb_transitions \<Longrightarrow> set (cb_transition_count cb') \<subseteq> set cb_transitions"
proof -
  have holds: "holds_gauge as \<longleftrightarrow> (\<exists>b bs. as = b # bs \<and> in_gauge b)"
    by (cases as) simp_all
  consider "\<not> in_gauge a" "a \<noteq> Gauge_Lock" | "a = Gauge_Lock" | "a = Gauge_Load" | v where "a = Gauge_Store v" | "a = Gauge_Unlock"
    by (cases a) auto
  then have "(holds_gauge as \<longleftrightarrow> cb_gauge_lock cb' = Some t)
    \<and> (u \<noteq> t \<longrightarrow> (cb_gauge_lock cb' = Some u \<longleftrightarrow> cb_gauge_lock cb = Some u)) \<and> thread_ok as
    \<and> as_int (from_int (cb_state_cell cb')) = cb_state_cell cb'
    \<and> (set (cb_transition_count cb) \<subseteq> set cb_transitions \<longrightarrow> set (cb_transition_count cb') \<subseteq> set cb_transitions)"
  proof cases
    case 1
    note plain = plain_access [OF assms(1) 1 assms(2,3)]
    have "\<not> holds_gauge as" "thread_ok as"
      using plain(4) by (cases as; simp)+
    then show ?thesis
      using plain 1 assms(4) by simp
  qed (use assms in \<open>auto split: if_splits\<close>)
  then show "holds_gauge as \<longleftrightarrow> cb_gauge_lock cb' = Some t"
    "u \<noteq> t \<Longrightarrow> cb_gauge_lock cb' = Some u \<longleftrightarrow> cb_gauge_lock cb = Some u" "thread_ok as"
    "as_int (from_int (cb_state_cell cb')) = cb_state_cell cb'"
    "set (cb_transition_count cb) \<subseteq> set cb_transitions \<Longrightarrow> set (cb_transition_count cb') \<subseteq> set cb_transitions"
    by simp_all
qed

lemma thread_ok_append:
  "thread_ok as \<Longrightarrow> \<forall>b \<in> set rest. access_ok b \<and> \<not> in_gauge b \<Longrightarrow> thread_ok (as @ rest)"
  by (cases as; cases rest) auto

lemma race_access_ok:
  assumes "threads_ok r" "cells_ok (cbr_breaker r)" "cbr_threads r t = a # rest"
    and step: "cb_access_step t now a (cbr_breaker r) = Some (cb', as)"
  shows "threads_ok (r\<lparr>cbr_breaker := cb', cbr_threads := (cbr_threads r)(t := as @ rest)\<rparr>)"
    and "cells_ok cb'"
proof -
  have head: "access_ok a" "\<forall>b \<in> set rest. access_ok b \<and> \<not> in_gauge b"
    "in_gauge a \<longleftrightarrow> cb_gauge_lock (cbr_breaker r) = Some t"
    using spec [OF assms(1) [unfolded threads_ok_def], of t] assms(3) by auto
  note facts = access_lock [OF step head(1) _ head(3)]
  show "cells_ok cb'"
    using assms(2) facts(4,5) unfolding cells_ok_def by blast
  have cell: "as_int (from_int (cb_state_cell (cbr_breaker r))) = cb_state_cell (cbr_breaker r)"
    using assms(2) by (simp add: cells_ok_def)
  show "threads_ok (r\<lparr>cbr_breaker := cb', cbr_threads := (cbr_threads r)(t := as @ rest)\<rparr>)"
    unfolding threads_ok_def
  proof
    fix u
    show "thread_ok (cbr_threads (r\<lparr>cbr_breaker := cb', cbr_threads := (cbr_threads r)(t := as @ rest)\<rparr>) u)
      \<and> (holds_gauge (cbr_threads (r\<lparr>cbr_breaker := cb', cbr_threads := (cbr_threads r)(t := as @ rest)\<rparr>) u)
        \<longleftrightarrow> cb_gauge_lock (cbr_breaker (r\<lparr>cbr_breaker := cb', cbr_threads := (cbr_threads r)(t := as @ rest)\<rparr>)) = Some u)"
    proof (cases "u = t")
      case True
      then show ?thesis
        using facts(1) [OF cell] facts(3) [OF cell] head(2) by (simp add: holds_gauge_append thread_ok_append)
    next
      case False
      then show ?thesis
        using facts(2) [OF cell False] spec [OF assms(1) [unfolded threads_ok_def], of u] by simp
    qed
  qed
qed

lemma will_load_kept:
  assumes "will_load (th v)" "th t = a # rest" "a \<noteq> Gauge_Lock" "a \<noteq> Gauge_Load"
  shows "will_load ((th(t := as @ rest)) v)"
  using assms by (cases "v = t") (auto intro: will_load_rest)

lemma race_access_fresh:
  assumes "threads_ok r" "cells_ok (cbr_breaker r)" "gauge_fresh r" "cbr_threads r t = a # rest"
    and step: "cb_access_step t now a (cbr_breaker r) = Some (cb', as)"
  shows "gauge_fresh (r\<lparr>cbr_breaker := cb', cbr_threads := (cbr_threads r)(t := as @ rest)\<rparr>)"
proof -
  let ?r = "r\<lparr>cbr_breaker := cb', cbr_threads := (cbr_threads r)(t := as @ rest)\<rparr>"
  have head: "access_ok a" "in_gauge a \<longleftrightarrow> cb_gauge_lock (cbr_breaker r) = Some t"
    using spec [OF assms(1) [unfolded threads_ok_def], of t] assms(4) by auto
  have cell: "as_int (from_int (cb_state_cell (cbr_breaker r))) = cb_state_cell (cbr_breaker r)"
    using assms(2) by (simp add: cells_ok_def)
  have pending: "gauge_fresh ?r" if "will_load (cbr_threads r v)" "a \<noteq> Gauge_Lock" "a \<noteq> Gauge_Load" for v
    using will_load_kept [of "cbr_threads r" v t a rest as] that assms(4) by (intro gauge_freshI(1) [of _ v]) simp
  have fits: "\<exists>v. will_load (cbr_threads r v)" if "\<not> gauge_fits (cbr_breaker r) (gauge_holder r)"
    using assms(3) that by (simp add: gauge_fresh_def)
  consider "\<not> in_gauge a" "a \<noteq> Gauge_Lock" | "a = Gauge_Lock" | "a = Gauge_Load" | v where "a = Gauge_Store v" | "a = Gauge_Unlock"
    by (cases a) auto
  then show ?thesis
  proof cases
    case 1
    note plain = plain_access [OF step 1 head(1) cell]
    show ?thesis
    proof (cases "Gauge_Lock \<in> set as")
      case True
      then show ?thesis by (intro gauge_freshI(1) [of _ t]) (simp add: will_load_lock)
    next
      case False
      then have same: "cb_state_cell cb' = cb_state_cell (cbr_breaker r)" using plain(3) by blast
      have "gauge_holder ?r = gauge_holder r"
        using plain(1) head(2) 1 by (auto simp: gauge_holder_def split: option.split)
      then have "gauge_fits (cbr_breaker ?r) (gauge_holder ?r) \<longleftrightarrow> gauge_fits (cbr_breaker r) (gauge_holder r)"
        using plain(2) same
        by (cases "(cbr_breaker r, gauge_holder r)" rule: gauge_fits.cases) simp_all
      moreover have "a \<noteq> Gauge_Load" using 1 by auto
      ultimately show ?thesis
        using pending 1(2) fits gauge_freshI(2) [of ?r] by blast
    qed
  next
    case 2
    then have "will_load (as @ rest)" using step by (auto split: if_splits)
    then show ?thesis by (intro gauge_freshI(1) [of _ t]) simp
  next
    case 3
    then show ?thesis
      using step head(2) cell by (intro gauge_freshI(2)) (auto simp: gauge_holder_def)
  next
    case (4 v)
    then have "gauge_fits (cbr_breaker r) (gauge_holder r) \<longleftrightarrow> v = cb_state_cell (cbr_breaker r)"
      using head(2) assms(4) by (simp add: gauge_holder_def)
    moreover have "gauge_fresh ?r" if "v = cb_state_cell (cbr_breaker r)"
      using step 4 head(2) that by (intro gauge_freshI(2)) (auto simp: gauge_holder_def)
    ultimately show ?thesis
      using pending fits 4 by blast
  next
    case 5
    then have "gauge_fits (cbr_breaker r) (gauge_holder r)
        \<longleftrightarrow> cb_state_gauge (cbr_breaker r) = cb_state_cell (cbr_breaker r)"
      using head(2) assms(4) by (simp add: gauge_holder_def)
    moreover have "gauge_fresh ?r" if "cb_state_gauge (cbr_breaker r) = cb_state_cell (cbr_breaker r)"
      using step 5 that by (intro gauge_freshI(2)) (auto simp: gauge_holder_def)
    ultimately show ?thesis
      using pending fits 5 by blast
  qed
qed

lemma race_inv:
  assumes "cb_race_step\<^sup>*\<^sup>* (cb_race_init now cfg lbl) r"
  shows "threads_ok r \<and> cells_ok (cbr_breaker r) \<and> gauge_fresh r"
  using assms
proof (induction rule: rtranclp_induct)
  case base
  have "from_int STATE_CLOSED = Closed" by simp
  then show ?case
    by (simp add: cb_race_init_def with_config_and_label_def threads_ok_def cells_ok_def gauge_fresh_def
        gauge_holder_def del: from_int_consts)
next
  case (step r r')
  from step.hyps(2) show ?case
  proof cases
    case (call t c)
    then show ?thesis
      using step.IH race_call_ok [of r t c] race_call_fresh [of r t c] by simp
  next
    case (access t a rest clock cb' as)
    then show ?thesis
      using step.IH race_access_ok [of r t a rest clock cb' as] race_access_fresh [of r t a rest clock cb' as] by simp
  qed
qed

text \<open>C26. Whatever the interleaving of the atomic accesses of concurrent calls, the breaker only
  makes the transitions whose counters were created with it (in particular a closed breaker is
  never put on trial), its state cell holds one of the three codes, and when no call is running
  the gauge lock is free and the published state gauge shows the state.\<close>

theorem breaker_race_safe:
  assumes "cb_race_step\<^sup>*\<^sup>* (cb_race_init now cfg lbl) r"
  shows "set (cb_transition_count (cbr_breaker r)) \<subseteq> set cb_transitions
    \<and> cb_state_cell (cbr_breaker r) \<in> {STATE_CLOSED, STATE_OPEN, STATE_HALF_OPEN}
    \<and> ((\<forall>t. cbr_threads r t = []) \<longrightarrow>
         cb_gauge_lock (cbr_breaker r) = None
         \<and> cb_state_gauge (cbr_breaker r) = cb_state_cell (cbr_breaker r))"
proof -
  note inv = race_inv [OF assms]
  have cell: "cb_state_cell (cbr_breaker r) \<in> {STATE_CLOSED, STATE_OPEN, STATE_HALF_OPEN}"
    using inv unfolding cells_ok_def
    by (cases "from_int (cb_state_cell (cbr_breaker r))") (metis as_int.simps insertCI)+
  have "cb_gauge_lock (cbr_breaker r) = None
      \<and> cb_state_gauge (cbr_breaker r) = cb_state_cell (cbr_breaker r)" if "\<forall>t. cbr_threads r t = []"
  proof -
    have "cb_gauge_lock (cbr_breaker r) \<noteq> Some t" for t
      using inv that unfolding threads_ok_def by (metis holds_gauge.simps(2))
    then have lock: "cb_gauge_lock (cbr_breaker r) = None" by auto
    then show ?thesis
      using inv that unfolding gauge_fresh_def gauge_holder_def by simp
  qed
  then show ?thesis
    using inv cell unfolding cells_ok_def by blast
qed

text \<open>A call that runs alone in a race is the method.\<close>

lemma race_alone:
  assumes "cb_alone t now cb prog cb'" "cbr_breaker r = cb" "cbr_threads r t = prog"
  shows "cb_race_step\<^sup>*\<^sup>* r (r\<lparr>cbr_breaker := cb', cbr_threads := (cbr_threads r)(t := [])\<rparr>)"
  using assms
proof (induction arbitrary: r rule: cb_alone.induct)
  case (finished cb)
  then have "r\<lparr>cbr_breaker := cb, cbr_threads := (cbr_threads r)(t := [])\<rparr> = r"
    by (cases r) (auto simp: fun_upd_idem)
  then show ?case by (metis rtranclp.rtrancl_refl)
next
  case (access a cb cb' as rest cb'')
  let ?r = "r\<lparr>cbr_breaker := cb', cbr_threads := (cbr_threads r)(t := as @ rest)\<rparr>"
  have "cb_race_step r ?r"
    using access.hyps(1) access.prems by (intro cb_race_step.access) simp_all
  moreover have "cb_race_step\<^sup>*\<^sup>* ?r (?r\<lparr>cbr_breaker := cb'', cbr_threads := (cbr_threads ?r)(t := [])\<rparr>)"
    by (rule access.IH) simp_all
  moreover have "?r\<lparr>cbr_breaker := cb'', cbr_threads := (cbr_threads ?r)(t := [])\<rparr>
      = r\<lparr>cbr_breaker := cb'', cbr_threads := (cbr_threads r)(t := [])\<rparr>"
    by (cases r) auto
  ultimately show ?case
    by (metis converse_rtranclp_into_rtranclp)
qed

theorem breaker_race_safe_witness:
  "cb_state_gauge (force_open 7 (with_config_and_label 0 demo_cb_config ''w'')) = STATE_OPEN"
proof -
  let ?cb = "with_config_and_label 0 demo_cb_config ''w''"
  let ?r = "cb_race_init 0 demo_cb_config ''w''"
  let ?r1 = "?r\<lparr>cbr_threads := (cbr_threads ?r)(0 := cb_program Force_Open)\<rparr>"
  let ?r2 = "?r1\<lparr>cbr_breaker := cb_exec 7 Force_Open ?cb, cbr_threads := (cbr_threads ?r1)(0 := [])\<rparr>"
  have "cb_race_step ?r ?r1"
    by (rule cb_race_step.call) (simp add: cb_race_init_def)
  moreover have "cb_race_step\<^sup>*\<^sup>* ?r1 ?r2"
    by (rule race_alone [OF cb_alone_method]) (simp_all add: cb_race_init_def with_config_and_label_def)
  ultimately have "cb_race_step\<^sup>*\<^sup>* ?r ?r2"
    by (rule converse_rtranclp_into_rtranclp)
  from breaker_race_safe [OF this]
  have "cb_state_gauge (force_open 7 ?cb) = cb_state_cell (force_open 7 ?cb)"
    by (simp add: cb_race_init_def)
  also have "\<dots> = STATE_OPEN"
    by (simp add: cb_method_defs with_config_and_label_def)
  finally show ?thesis .
qed

end
