(* ===== verification/Token_Bucket.thy ===== *)
theory Token_Bucket
  imports Rust_Float
begin

text \<open>
  The token bucket of the admission middleware (\<open>middleware/token_bucket.rs\<close>).

  Every method runs under the bucket's mutex and is one function on the bucket; the clock is an
  argument, in nanoseconds.  \<open>acquire\<close> suspends, so it is two functions: the part before the
  first await and one turn of its loop; dropping the future is a third.  A \<open>Notify\<close> is the
  stored permit of the waiter with that id.  Waiter ids are numbers that do not wrap.
\<close>

section \<open>State and methods\<close>

record tb_waiter =
  tbw_id :: nat
  tbw_tokens :: f64

record token_bucket =
  tb_tokens :: f64
  tb_inflight :: f64
  tb_last_refill :: nat
  tb_next_waiter_id :: nat
  tb_waiters :: "tb_waiter list"
  tb_granted :: "nat set"
  tb_notified :: "nat set"
  tb_capacity :: f64
  tb_refill_rate :: f64

definition tb_new :: "nat \<Rightarrow> nat \<Rightarrow> nat \<Rightarrow> token_bucket" where
  "tb_new now capacity refill_rate =
     \<lparr>tb_tokens = f64_of_nat capacity, tb_inflight = F_fin 0, tb_last_refill = now,
      tb_next_waiter_id = 0, tb_waiters = [], tb_granted = {}, tb_notified = {},
      tb_capacity = f64_of_nat capacity, tb_refill_rate = f64_of_nat refill_rate\<rparr>"

definition refill_locked :: "nat \<Rightarrow> token_bucket \<Rightarrow> token_bucket" where
  "refill_locked now b =
     (if f64_le (tb_refill_rate b) (F_fin 0) then b
      else let elapsed = as_secs_f64 (now - tb_last_refill b)
           in b\<lparr>tb_tokens := f64_min (f64_add (tb_tokens b) (f64_mul elapsed (tb_refill_rate b))) (tb_capacity b),
                tb_last_refill := now\<rparr>)"

definition admits_locked :: "token_bucket \<Rightarrow> f64 \<Rightarrow> bool" where
  "admits_locked b tokens \<longleftrightarrow>
     f64_le tokens (tb_tokens b) \<and> f64_le (f64_add (tb_inflight b) tokens) (tb_capacity b)"

definition tb_take :: "f64 \<Rightarrow> token_bucket \<Rightarrow> token_bucket" where
  "tb_take tokens b =
     b\<lparr>tb_tokens := f64_sub (tb_tokens b) tokens, tb_inflight := f64_add (tb_inflight b) tokens\<rparr>"

definition tb_notify_one :: "nat \<Rightarrow> token_bucket \<Rightarrow> token_bucket" where
  "tb_notify_one i b = b\<lparr>tb_notified := insert i (tb_notified b)\<rparr>"

definition wake_front_locked :: "token_bucket \<Rightarrow> token_bucket" where
  "wake_front_locked b =
     (if f64_lt (F_fin 0) (tb_refill_rate b)
      then (case tb_waiters b of [] \<Rightarrow> b | front # _ \<Rightarrow> tb_notify_one (tbw_id front) b)
      else b)"

text \<open>The loop over the front of the queue: the waiters still queued are the first argument.\<close>

fun grant_loop :: "tb_waiter list \<Rightarrow> token_bucket \<Rightarrow> token_bucket" where
  "grant_loop [] b = b\<lparr>tb_waiters := []\<rparr>"
| "grant_loop (w # ws) b =
     (if admits_locked b (tbw_tokens w)
      then grant_loop ws
             (tb_notify_one (tbw_id w)
               ((tb_take (tbw_tokens w) b)\<lparr>tb_granted := insert (tbw_id w) (tb_granted b)\<rparr>))
      else b\<lparr>tb_waiters := w # ws\<rparr>)"

definition grant_waiters_locked :: "token_bucket \<Rightarrow> token_bucket" where
  "grant_waiters_locked b =
     (let b' = grant_loop (tb_waiters b) b; granted_any = length (tb_waiters b') < length (tb_waiters b)
      in if granted_any then wake_front_locked b' else b')"

definition tb_try_acquire_sync :: "nat \<Rightarrow> f64 \<Rightarrow> token_bucket \<Rightarrow> token_bucket \<times> bool" where
  "tb_try_acquire_sync now tokens b =
     (let b = grant_waiters_locked (refill_locked now b)
      in if tb_waiters b = [] \<and> admits_locked b tokens then (tb_take tokens b, True) else (b, False))"

definition tb_try_acquire :: "nat \<Rightarrow> f64 \<Rightarrow> token_bucket \<Rightarrow> token_bucket \<times> bool" where
  "tb_try_acquire now tokens b = tb_try_acquire_sync now tokens b"

definition tb_try_take :: "nat \<Rightarrow> f64 \<Rightarrow> token_bucket \<Rightarrow> token_bucket \<times> bool" where
  "tb_try_take now tokens b =
     (let b = grant_waiters_locked (refill_locked now b)
      in if tb_waiters b = [] \<and> f64_le tokens (tb_tokens b)
         then (b\<lparr>tb_tokens := f64_sub (tb_tokens b) tokens\<rparr>, True) else (b, False))"

text \<open>\<open>acquire\<close> up to its loop: an immediate grant, or the id of the queued waiter.\<close>

definition tb_acquire_start :: "nat \<Rightarrow> f64 \<Rightarrow> token_bucket \<Rightarrow> token_bucket \<times> nat option" where
  "tb_acquire_start now tokens b =
     (let b = refill_locked now b
      in if tb_waiters b = [] \<and> admits_locked b tokens then (tb_take tokens b, None)
         else (b\<lparr>tb_next_waiter_id := tb_next_waiter_id b + 1,
                 tb_waiters := tb_waiters b @ [\<lparr>tbw_id = tb_next_waiter_id b, tbw_tokens = tokens\<rparr>]\<rparr>,
               Some (tb_next_waiter_id b)))"

text \<open>One turn of the loop: done, or wait for the notification, perhaps only for some seconds.\<close>

datatype tb_poll = Acquired | Wait "f64 option"

definition tb_acquire_poll :: "nat \<Rightarrow> nat \<Rightarrow> token_bucket \<Rightarrow> token_bucket \<times> tb_poll" where
  "tb_acquire_poll now i b =
     (let b = b\<lparr>tb_notified := tb_notified b - {i}\<rparr>;
          b = (if f64_lt (F_fin 0) (tb_refill_rate b) then grant_waiters_locked (refill_locked now b) else b)
      in if i \<in> tb_granted b then (b\<lparr>tb_granted := tb_granted b - {i}\<rparr>, Acquired)
         else case tb_waiters b of
                [] \<Rightarrow> (b, Wait None)
              | front # _ \<Rightarrow>
                  if f64_lt (F_fin 0) (tb_refill_rate b) \<and> tbw_id front = i
                     \<and> f64_le (f64_add (tb_inflight b) (tbw_tokens front)) (tb_capacity b)
                  then let deficit = f64_max (f64_sub (tbw_tokens front) (tb_tokens b)) (F_fin 0)
                       in (b, Wait (Some (f64_div deficit (tb_refill_rate b))))
                  else (b, Wait None))"

text \<open>\<open>position\<close> of the first waiter with the id, then \<open>remove\<close>.\<close>

definition remove_waiter :: "nat \<Rightarrow> tb_waiter list \<Rightarrow> tb_waiter list" where
  "remove_waiter i ws = takeWhile (\<lambda>w. tbw_id w \<noteq> i) ws @ drop 1 (dropWhile (\<lambda>w. tbw_id w \<noteq> i) ws)"

text \<open>The guard of a dropped future, while it is armed.\<close>

definition tb_guard_drop :: "nat \<Rightarrow> f64 \<Rightarrow> token_bucket \<Rightarrow> token_bucket" where
  "tb_guard_drop i tokens b =
     (if i \<in> tb_granted b
      then wake_front_locked (grant_waiters_locked
             (b\<lparr>tb_granted := tb_granted b - {i},
                tb_inflight := f64_max (f64_sub (tb_inflight b) tokens) (F_fin 0),
                tb_tokens := f64_min (f64_add (tb_tokens b) tokens) (tb_capacity b)\<rparr>))
      else if \<exists>w \<in> set (tb_waiters b). tbw_id w = i
      then wake_front_locked (grant_waiters_locked
             (b\<lparr>tb_waiters := remove_waiter i (tb_waiters b)\<rparr>))
      else b)"

definition return_tokens_sync :: "f64 \<Rightarrow> token_bucket \<Rightarrow> token_bucket" where
  "return_tokens_sync tokens b =
     (let b = b\<lparr>tb_inflight := f64_max (f64_sub (tb_inflight b) tokens) (F_fin 0)\<rparr>;
          b = (if tb_refill_rate b = F_fin 0
               then b\<lparr>tb_tokens := f64_min (f64_add (tb_tokens b) tokens) (tb_capacity b)\<rparr> else b)
      in wake_front_locked (grant_waiters_locked b))"

definition available_tokens :: "nat \<Rightarrow> token_bucket \<Rightarrow> token_bucket \<times> f64" where
  "available_tokens now b = (let b = refill_locked now b in (b, tb_tokens b))"

section \<open>Callers\<close>

text \<open>
  The tasks that use a bucket: those suspended in \<open>acquire\<close>, with the tokens they asked for, and
  the permits that are out and the budget spent without one.  A step is one method call at some time; \<open>acquire_timeout\<close> is
  \<open>acquire\<close> whose future is dropped.
\<close>

record tb_world =
  tw_bucket :: token_bucket
  tw_waiting :: "(nat \<times> f64) list"
  tw_held :: "f64 list"
  tw_spent :: "f64 list"

definition amount_ok :: "f64 \<Rightarrow> bool" where
  "amount_ok t \<longleftrightarrow> is_finite t \<and> f64_le (F_fin 0) t"

inductive tb_step :: "(f64 \<Rightarrow> bool) \<Rightarrow> tb_world \<Rightarrow> tb_world \<Rightarrow> bool"
  for amount :: "f64 \<Rightarrow> bool" where
  try_acquire: "amount t \<Longrightarrow> tb_try_acquire now t (tw_bucket w) = (b, won) \<Longrightarrow>
     tb_step amount w (w\<lparr>tw_bucket := b, tw_held := (if won then t # tw_held w else tw_held w)\<rparr>)"
| try_take: "amount t \<Longrightarrow> tb_try_take now t (tw_bucket w) = (b, won) \<Longrightarrow>
     tb_step amount w (w\<lparr>tw_bucket := b, tw_spent := (if won then t # tw_spent w else tw_spent w)\<rparr>)"
| acquire_now: "amount t \<Longrightarrow> tb_acquire_start now t (tw_bucket w) = (b, None) \<Longrightarrow>
     tb_step amount w (w\<lparr>tw_bucket := b, tw_held := t # tw_held w\<rparr>)"
| acquire_queued: "amount t \<Longrightarrow> tb_acquire_start now t (tw_bucket w) = (b, Some i) \<Longrightarrow>
     tb_step amount w (w\<lparr>tw_bucket := b, tw_waiting := (i, t) # tw_waiting w\<rparr>)"
| acquired: "(i, t) \<in> set (tw_waiting w) \<Longrightarrow> tb_acquire_poll now i (tw_bucket w) = (b, Acquired) \<Longrightarrow>
     tb_step amount w (w\<lparr>tw_bucket := b, tw_waiting := remove1 (i, t) (tw_waiting w), tw_held := t # tw_held w\<rparr>)"
| still_waiting: "(i, t) \<in> set (tw_waiting w) \<Longrightarrow> tb_acquire_poll now i (tw_bucket w) = (b, Wait d) \<Longrightarrow>
     tb_step amount w (w\<lparr>tw_bucket := b\<rparr>)"
| dropped: "(i, t) \<in> set (tw_waiting w) \<Longrightarrow>
     tb_step amount w (w\<lparr>tw_bucket := tb_guard_drop i t (tw_bucket w), tw_waiting := remove1 (i, t) (tw_waiting w)\<rparr>)"
| returned: "t \<in> set (tw_held w) \<Longrightarrow>
     tb_step amount w (w\<lparr>tw_bucket := return_tokens_sync t (tw_bucket w), tw_held := remove1 t (tw_held w)\<rparr>)"

definition tb_world_new :: "nat \<Rightarrow> nat \<Rightarrow> nat \<Rightarrow> tb_world" where
  "tb_world_new now capacity refill_rate =
     \<lparr>tw_bucket = tb_new now capacity refill_rate, tw_waiting = [], tw_held = [], tw_spent = []\<rparr>"

section \<open>Budget and slots stay within the capacity\<close>

definition tb_sane :: "token_bucket \<Rightarrow> bool" where
  "tb_sane b \<longleftrightarrow>
     is_finite (tb_capacity b) \<and> f64_ok (tb_capacity b) \<and> f64_le (F_fin 0) (tb_capacity b)
     \<and> f64_le (F_fin 0) (tb_tokens b) \<and> f64_le (tb_tokens b) (tb_capacity b)
     \<and> f64_le (F_fin 0) (tb_inflight b) \<and> f64_le (tb_inflight b) (tb_capacity b)
     \<and> (\<forall>w \<in> set (tb_waiters b). amount_ok (tbw_tokens w))"

lemma tb_sane_finite:
  assumes "tb_sane b"
  shows "is_finite (tb_tokens b)" "is_finite (tb_inflight b)" "tb_capacity b \<noteq> F_nan"
  using assms f64_between_finite unfolding tb_sane_def by (blast, blast, cases "tb_capacity b", auto)

lemma tb_take_sane:
  assumes "tb_sane b" "admits_locked b t" "amount_ok t"
  shows "tb_sane (tb_take t b)"
  using assms tb_sane_finite [OF assms(1)]
    f64_sub_nonneg [of t "tb_tokens b"] f64_sub_le [of "tb_tokens b" "tb_capacity b" t]
    f64_add_nonneg [of "tb_inflight b" t]
  unfolding tb_sane_def admits_locked_def amount_ok_def by (simp add: tb_take_def)

lemma tb_give_back_sane:
  assumes "tb_sane b" "amount_ok t"
  shows "tb_sane (b\<lparr>tb_inflight := f64_max (f64_sub (tb_inflight b) t) (F_fin 0)\<rparr>)"
    "tb_sane (b\<lparr>tb_tokens := f64_min (f64_add (tb_tokens b) t) (tb_capacity b)\<rparr>)"
proof -
  have "f64_le (f64_sub (tb_inflight b) t) (tb_capacity b)"
    using assms tb_sane_finite [OF assms(1)] unfolding tb_sane_def amount_ok_def by (intro f64_sub_le) simp_all
  moreover from this have "f64_sub (tb_inflight b) t \<noteq> F_nan" by auto
  ultimately show "tb_sane (b\<lparr>tb_inflight := f64_max (f64_sub (tb_inflight b) t) (F_fin 0)\<rparr>)"
    using assms f64_max_0 [of "f64_sub (tb_inflight b) t" "tb_capacity b"] unfolding tb_sane_def by simp
  show "tb_sane (b\<lparr>tb_tokens := f64_min (f64_add (tb_tokens b) t) (tb_capacity b)\<rparr>)"
    using assms f64_add_nonneg [of "tb_tokens b" t] tb_sane_finite(3) [OF assms(1)]
      f64_min_nonneg [of "f64_add (tb_tokens b) t" "tb_capacity b"]
      f64_min_le [of "tb_capacity b" "f64_add (tb_tokens b) t"]
    unfolding tb_sane_def amount_ok_def by simp
qed

lemma refill_locked_sane:
  assumes "tb_sane b"
  shows "tb_sane (refill_locked now b)"
proof (cases "f64_le (tb_refill_rate b) (F_fin 0)")
  case False
  let ?x = "f64_mul (as_secs_f64 (now - tb_last_refill b)) (tb_refill_rate b)"
  have "tb_refill_rate b = F_nan \<or> f64_lt (F_fin 0) (tb_refill_rate b)"
    using False f64_not_le [of "tb_refill_rate b" "F_fin 0"] by blast
  then have x: "f64_le (F_fin 0) ?x \<or> ?x = F_nan"
    using f64_mul_nonneg [OF as_secs_f64_nonneg] by (auto simp: as_secs_f64_def)
  have "f64_le (F_fin 0) (f64_add (tb_tokens b) ?x) \<or> f64_add (tb_tokens b) ?x = F_nan"
    using x assms f64_add_nonneg unfolding tb_sane_def by (cases "tb_tokens b") auto
  then show ?thesis
    using assms False tb_sane_finite(3) [OF assms] f64_min_nonneg [of "f64_add (tb_tokens b) ?x" "tb_capacity b"]
      f64_min_le [of "tb_capacity b" "f64_add (tb_tokens b) ?x"]
    unfolding tb_sane_def by (simp add: refill_locked_def Let_def)
qed (simp add: refill_locked_def assms)

lemma tb_sane_frame [simp]:
  "tb_sane (b\<lparr>tb_granted := g\<rparr>) \<longleftrightarrow> tb_sane b"
  "tb_sane (b\<lparr>tb_notified := g\<rparr>) \<longleftrightarrow> tb_sane b"
  "tb_sane (b\<lparr>tb_next_waiter_id := i\<rparr>) \<longleftrightarrow> tb_sane b"
  "tb_sane (tb_notify_one i b) \<longleftrightarrow> tb_sane b"
  "tb_sane (wake_front_locked b) \<longleftrightarrow> tb_sane b"
  by (auto simp: tb_sane_def tb_notify_one_def wake_front_locked_def split: list.split)

lemma tb_sane_waiters:
  "tb_sane b \<Longrightarrow> \<forall>w \<in> set ws. amount_ok (tbw_tokens w) \<Longrightarrow> tb_sane (b\<lparr>tb_waiters := ws\<rparr>)"
  by (simp add: tb_sane_def)

lemma grant_loop_sane:
  "tb_sane b \<Longrightarrow> \<forall>w \<in> set ws. amount_ok (tbw_tokens w) \<Longrightarrow> tb_sane (grant_loop ws b)"
  by (induction ws b rule: grant_loop.induct) (simp_all add: tb_sane_waiters tb_take_sane)

lemma tb_sane_amounts: "tb_sane b \<Longrightarrow> \<forall>w \<in> set (tb_waiters b). amount_ok (tbw_tokens w)"
  by (simp add: tb_sane_def)

lemma grant_waiters_sane: "tb_sane b \<Longrightarrow> tb_sane (grant_waiters_locked b)"
  using grant_loop_sane [of b "tb_waiters b"] tb_sane_amounts [of b]
  by (simp add: grant_waiters_locked_def Let_def)

lemma try_acquire_sane:
  "tb_sane b \<Longrightarrow> amount_ok t \<Longrightarrow> tb_sane (fst (tb_try_acquire now t b))"
  by (simp add: tb_try_acquire_def tb_try_acquire_sync_def Let_def tb_take_sane refill_locked_sane grant_waiters_sane)

lemma try_take_sane:
  assumes "tb_sane b" "amount_ok t"
  shows "tb_sane (fst (tb_try_take now t b))"
proof -
  let ?b = "grant_waiters_locked (refill_locked now b)"
  have b: "tb_sane ?b" using assms by (simp add: refill_locked_sane grant_waiters_sane)
  have "tb_sane (?b\<lparr>tb_tokens := f64_sub (tb_tokens ?b) t\<rparr>)" if "f64_le t (tb_tokens ?b)"
    using b assms(2) that tb_sane_finite [OF b] f64_sub_nonneg [of t "tb_tokens ?b"]
      f64_sub_le [of "tb_tokens ?b" "tb_capacity ?b" t]
    by (simp add: tb_sane_def amount_ok_def)
  then show ?thesis
    using b by (simp add: tb_try_take_def Let_def)
qed

lemma acquire_start_sane:
  "tb_sane b \<Longrightarrow> amount_ok t \<Longrightarrow> tb_sane (fst (tb_acquire_start now t b))"
  using refill_locked_sane [of b now]
  by (auto simp: tb_acquire_start_def Let_def tb_take_sane intro!: tb_sane_waiters) (auto simp: tb_sane_def)

lemma acquire_poll_sane: "tb_sane b \<Longrightarrow> tb_sane (fst (tb_acquire_poll now i b))"
  by (auto simp: tb_acquire_poll_def Let_def refill_locked_sane grant_waiters_sane split: list.split)

lemma remove_waiter_subset: "set (remove_waiter i ws) \<subseteq> set ws"
  using set_takeWhileD set_dropWhileD unfolding remove_waiter_def
  by (metis (no_types, lifting) Un_subset_iff set_append set_drop_subset set_takeWhile_dropWhile subset_refl subset_trans sup_ge2)

lemma guard_drop_sane:
  assumes "tb_sane b" "amount_ok t"
  shows "tb_sane (tb_guard_drop i t b)"
proof -
  have "tb_sane (b\<lparr>tb_waiters := remove_waiter i (tb_waiters b)\<rparr>)"
    using assms(1) remove_waiter_subset [of i "tb_waiters b"] by (auto simp: tb_sane_def)
  moreover have "tb_sane (b\<lparr>tb_granted := tb_granted b - {i},
      tb_inflight := f64_max (f64_sub (tb_inflight b) t) (F_fin 0),
      tb_tokens := f64_min (f64_add (tb_tokens b) t) (tb_capacity b)\<rparr>)"
    using tb_give_back_sane [OF assms] unfolding tb_sane_def by simp
  ultimately show ?thesis
    using assms(1) by (simp add: tb_guard_drop_def grant_waiters_sane)
qed

lemma return_tokens_sane:
  assumes "tb_sane b" "amount_ok t"
  shows "tb_sane (return_tokens_sync t b)"
proof -
  let ?b = "b\<lparr>tb_inflight := f64_max (f64_sub (tb_inflight b) t) (F_fin 0)\<rparr>"
  have "tb_sane ?b" using tb_give_back_sane(1) [OF assms] .
  moreover from this have "tb_sane (?b\<lparr>tb_tokens := f64_min (f64_add (tb_tokens b) t) (tb_capacity b)\<rparr>)"
    using tb_give_back_sane(2) [of ?b t] assms(2) by simp
  ultimately show ?thesis
    by (simp add: return_tokens_sync_def Let_def grant_waiters_sane)
qed

section \<open>Waiters are served in the order of arrival\<close>

text \<open>A method keeps the queue in order when it hands out a prefix of it, perhaps after one
  waiter left, and new waiters join at the end.\<close>

definition tb_ids :: "token_bucket \<Rightarrow> nat list" where
  "tb_ids b = map tbw_id (tb_waiters b)"

definition tb_queue_ok :: "token_bucket \<Rightarrow> bool" where
  "tb_queue_ok b \<longleftrightarrow>
     sorted_wrt (<) (tb_ids b) \<and> (\<forall>i \<in> set (tb_ids b) \<union> tb_granted b. i < tb_next_waiter_id b)
     \<and> set (tb_ids b) \<inter> tb_granted b = {}"

definition serves_in_order :: "token_bucket \<Rightarrow> token_bucket \<Rightarrow> bool" where
  "serves_in_order b b' \<longleftrightarrow> (\<forall>i \<in> tb_granted b' - tb_granted b. \<forall>j \<in> set (tb_ids b'). i < j)"

lemma grant_loop_split:
  "\<exists>gs. ws = gs @ tb_waiters (grant_loop ws b)
    \<and> tb_granted (grant_loop ws b) = tb_granted b \<union> tbw_id ` set gs
    \<and> tb_next_waiter_id (grant_loop ws b) = tb_next_waiter_id b"
proof (induction ws b rule: grant_loop.induct)
  case (2 w ws b)
  show ?case
  proof (cases "admits_locked b (tbw_tokens w)")
    case True
    let ?b = "tb_notify_one (tbw_id w) ((tb_take (tbw_tokens w) b)\<lparr>tb_granted := insert (tbw_id w) (tb_granted b)\<rparr>)"
    obtain gs where "ws = gs @ tb_waiters (grant_loop ws ?b)"
      "tb_granted (grant_loop ws ?b) = tb_granted ?b \<union> tbw_id ` set gs"
      "tb_next_waiter_id (grant_loop ws ?b) = tb_next_waiter_id ?b"
      using "2.IH" [OF True] by blast
    then show ?thesis
      using True by (intro exI [of _ "w # gs"]) (simp add: tb_notify_one_def tb_take_def)
  qed simp
qed simp

lemma wake_front_frame [simp]:
  "tb_waiters (wake_front_locked b) = tb_waiters b" "tb_granted (wake_front_locked b) = tb_granted b"
  "tb_next_waiter_id (wake_front_locked b) = tb_next_waiter_id b"
  "tb_tokens (wake_front_locked b) = tb_tokens b" "tb_inflight (wake_front_locked b) = tb_inflight b"
  "tb_capacity (wake_front_locked b) = tb_capacity b" "tb_refill_rate (wake_front_locked b) = tb_refill_rate b"
  "tb_ids (wake_front_locked b) = tb_ids b"
  by (simp_all add: wake_front_locked_def tb_notify_one_def tb_ids_def split: list.split)

lemma refill_frame [simp]:
  "tb_waiters (refill_locked now b) = tb_waiters b" "tb_granted (refill_locked now b) = tb_granted b"
  "tb_next_waiter_id (refill_locked now b) = tb_next_waiter_id b"
  "tb_inflight (refill_locked now b) = tb_inflight b" "tb_capacity (refill_locked now b) = tb_capacity b"
  "tb_refill_rate (refill_locked now b) = tb_refill_rate b" "tb_ids (refill_locked now b) = tb_ids b"
  by (simp_all add: refill_locked_def Let_def tb_ids_def)

lemma grant_waiters_split:
  obtains gs where "tb_waiters b = gs @ tb_waiters (grant_waiters_locked b)"
    "tb_granted (grant_waiters_locked b) = tb_granted b \<union> tbw_id ` set gs"
    "tb_next_waiter_id (grant_waiters_locked b) = tb_next_waiter_id b"
proof -
  have "tb_waiters (grant_waiters_locked b) = tb_waiters (grant_loop (tb_waiters b) b)"
    "tb_granted (grant_waiters_locked b) = tb_granted (grant_loop (tb_waiters b) b)"
    "tb_next_waiter_id (grant_waiters_locked b) = tb_next_waiter_id (grant_loop (tb_waiters b) b)"
    by (simp_all add: grant_waiters_locked_def Let_def)
  then show ?thesis
    using grant_loop_split [of "tb_waiters b" b] that by metis
qed

lemma grant_waiters_order:
  assumes "tb_queue_ok b"
  shows "tb_queue_ok (grant_waiters_locked b) \<and> serves_in_order b (grant_waiters_locked b)"
proof -
  obtain gs where gs: "tb_waiters b = gs @ tb_waiters (grant_waiters_locked b)"
    "tb_granted (grant_waiters_locked b) = tb_granted b \<union> tbw_id ` set gs"
    "tb_next_waiter_id (grant_waiters_locked b) = tb_next_waiter_id b"
    by (rule grant_waiters_split)
  have ids: "tb_ids b = map tbw_id gs @ tb_ids (grant_waiters_locked b)"
    using gs(1) by (simp add: tb_ids_def)
  have "\<forall>i \<in> tbw_id ` set gs. \<forall>j \<in> set (tb_ids (grant_waiters_locked b)). i < j"
    "sorted_wrt (<) (tb_ids (grant_waiters_locked b))"
    using assms unfolding tb_queue_ok_def ids by (auto simp: sorted_wrt_append)
  then show ?thesis
    using assms gs(2,3) unfolding tb_queue_ok_def serves_in_order_def ids by fastforce
qed

lemma serves_in_order_refl [simp]: "tb_granted b' \<subseteq> tb_granted b \<Longrightarrow> serves_in_order b b'"
  by (auto simp: serves_in_order_def)

lemma serves_in_order_weaken:
  "serves_in_order b b' \<Longrightarrow> tb_granted b'' \<subseteq> tb_granted b' \<Longrightarrow> tb_ids b'' = tb_ids b' \<Longrightarrow> tb_granted b \<subseteq> tb_granted a
   \<Longrightarrow> serves_in_order a b''"
  by (auto simp: serves_in_order_def)

lemma tb_queue_frame:
  assumes "tb_queue_ok b" "tb_granted b' \<subseteq> tb_granted b" "tb_waiters b' = tb_waiters b"
    "tb_next_waiter_id b' = tb_next_waiter_id b"
  shows "tb_queue_ok b'"
  using assms by (auto simp: tb_queue_ok_def tb_ids_def)

text \<open>Every method that grants does so on a bucket whose queue is in order.\<close>

lemma grant_order:
  assumes "tb_queue_ok b" "tb_queue_ok b0" "tb_granted b0 \<subseteq> tb_granted b"
    "tb_granted b' \<subseteq> tb_granted (grant_waiters_locked b0)" "tb_waiters b' = tb_waiters (grant_waiters_locked b0)"
    "tb_next_waiter_id b' = tb_next_waiter_id (grant_waiters_locked b0)"
  shows "tb_queue_ok b' \<and> serves_in_order b b'"
proof -
  have g: "tb_queue_ok (grant_waiters_locked b0)" "serves_in_order b0 (grant_waiters_locked b0)"
    using grant_waiters_order [OF assms(2)] by simp_all
  have "tb_queue_ok b'"
    using g(1) assms(4-6) by (rule tb_queue_frame)
  moreover have "tb_ids b' = tb_ids (grant_waiters_locked b0)"
    using assms(5) by (simp add: tb_ids_def)
  ultimately show ?thesis
    using serves_in_order_weaken [OF g(2) assms(4) _ assms(3)] by simp
qed

lemma refill_queue_ok: "tb_queue_ok b \<Longrightarrow> tb_queue_ok (refill_locked now b)"
  by (rule tb_queue_frame) simp_all

lemma try_acquire_order:
  assumes "tb_queue_ok b"
  shows "tb_queue_ok (fst (tb_try_acquire now t b)) \<and> serves_in_order b (fst (tb_try_acquire now t b))"
  using assms refill_queue_ok [OF assms, of now]
  by (rule grant_order) (simp_all add: tb_try_acquire_def tb_try_acquire_sync_def Let_def tb_take_def)

lemma try_take_order:
  assumes "tb_queue_ok b"
  shows "tb_queue_ok (fst (tb_try_take now t b)) \<and> serves_in_order b (fst (tb_try_take now t b))"
  using assms refill_queue_ok [OF assms, of now]
  by (rule grant_order) (simp_all add: tb_try_take_def Let_def)

lemma acquire_start_order:
  assumes "tb_queue_ok b"
  shows "tb_queue_ok (fst (tb_acquire_start now t b)) \<and> serves_in_order b (fst (tb_acquire_start now t b))"
  using assms
  by (auto simp: tb_acquire_start_def Let_def tb_queue_ok_def tb_ids_def tb_take_def sorted_wrt_append
      less_Suc_eq)

lemma acquire_poll_order:
  assumes "tb_queue_ok b"
  shows "tb_queue_ok (fst (tb_acquire_poll now i b)) \<and> serves_in_order b (fst (tb_acquire_poll now i b))"
proof (cases "f64_lt (F_fin 0) (tb_refill_rate b)")
  case True
  let ?b = "refill_locked now (b\<lparr>tb_notified := tb_notified b - {i}\<rparr>)"
  have "tb_queue_ok ?b"
    using assms by (intro refill_queue_ok tb_queue_frame [OF assms]) simp_all
  with assms show ?thesis
    by (rule grant_order) (use True in \<open>auto simp: tb_acquire_poll_def Let_def split: list.split\<close>)
next
  case False
  let ?b = "fst (tb_acquire_poll now i b)"
  have "tb_granted ?b \<subseteq> tb_granted b" "tb_waiters ?b = tb_waiters b" "tb_next_waiter_id ?b = tb_next_waiter_id b"
    using False by (auto simp: tb_acquire_poll_def Let_def split: list.split)
  then show ?thesis
    using tb_queue_frame [OF assms, of ?b] by simp
qed

lemma remove_waiter_sorted:
  assumes "sorted_wrt R (map tbw_id ws)"
  shows "sorted_wrt R (map tbw_id (remove_waiter i ws))"
proof -
  define a d where "a = takeWhile (\<lambda>w. tbw_id w \<noteq> i) ws" and "d = dropWhile (\<lambda>w. tbw_id w \<noteq> i) ws"
  have "ws = a @ d" by (simp add: a_def d_def)
  then have "sorted_wrt R (map tbw_id (a @ d))" using assms by simp
  then have "sorted_wrt R (map tbw_id (a @ drop 1 d))"
    by (cases d) (auto simp: sorted_wrt_append)
  then show ?thesis by (simp add: remove_waiter_def a_def d_def)
qed

lemma guard_drop_order:
  assumes "tb_queue_ok b"
  shows "tb_queue_ok (tb_guard_drop i t b) \<and> serves_in_order b (tb_guard_drop i t b)"
proof -
  let ?g = "b\<lparr>tb_granted := tb_granted b - {i}, tb_inflight := f64_max (f64_sub (tb_inflight b) t) (F_fin 0),
    tb_tokens := f64_min (f64_add (tb_tokens b) t) (tb_capacity b)\<rparr>"
  let ?w = "b\<lparr>tb_waiters := remove_waiter i (tb_waiters b)\<rparr>"
  have g: "tb_queue_ok ?g"
    by (rule tb_queue_frame [OF assms]) auto
  have w: "tb_queue_ok ?w"
    using assms remove_waiter_subset [of i "tb_waiters b"] remove_waiter_sorted [of "(<)" "tb_waiters b" i]
    by (auto simp: tb_queue_ok_def tb_ids_def)
  have "tb_queue_ok (wake_front_locked (grant_waiters_locked ?g)) \<and> serves_in_order b (wake_front_locked (grant_waiters_locked ?g))"
    using assms g by (rule grant_order) auto
  moreover have "tb_queue_ok (wake_front_locked (grant_waiters_locked ?w)) \<and> serves_in_order b (wake_front_locked (grant_waiters_locked ?w))"
    using assms w by (rule grant_order) auto
  ultimately show ?thesis
    using assms by (simp add: tb_guard_drop_def)
qed

lemma return_tokens_order:
  assumes "tb_queue_ok b"
  shows "tb_queue_ok (return_tokens_sync t b) \<and> serves_in_order b (return_tokens_sync t b)"
proof -
  let ?b = "b\<lparr>tb_inflight := f64_max (f64_sub (tb_inflight b) t) (F_fin 0)\<rparr>"
  let ?c = "if tb_refill_rate ?b = F_fin 0
    then ?b\<lparr>tb_tokens := f64_min (f64_add (tb_tokens ?b) t) (tb_capacity ?b)\<rparr> else ?b"
  have "tb_queue_ok ?c"
    by (rule tb_queue_frame [OF assms]) auto
  with assms show ?thesis
    by (rule grant_order) (auto simp: return_tokens_sync_def Let_def)
qed

section \<open>Every schedule\<close>

definition tw_ok :: "tb_world \<Rightarrow> bool" where
  "tw_ok w \<longleftrightarrow>
     tb_sane (tw_bucket w) \<and> tb_queue_ok (tw_bucket w)
     \<and> (\<forall>(i, t) \<in> set (tw_waiting w). amount_ok t) \<and> (\<forall>t \<in> set (tw_held w). amount_ok t)"

lemma tb_step_ok:
  assumes "tb_step amount_ok w w'" "tw_ok w"
  shows "tw_ok w' \<and> serves_in_order (tw_bucket w) (tw_bucket w')"
  using assms(1)
proof cases
  case (try_acquire t now b won)
  then show ?thesis
    using assms(2) try_acquire_sane [of "tw_bucket w" t now] try_acquire_order [of "tw_bucket w" now t]
    by (auto simp: tw_ok_def)
next
  case (try_take t now b won)
  then show ?thesis
    using assms(2) try_take_sane [of "tw_bucket w" t now] try_take_order [of "tw_bucket w" now t]
    by (auto simp: tw_ok_def)
next
  case (acquire_now t now b)
  then show ?thesis
    using assms(2) acquire_start_sane [of "tw_bucket w" t now] acquire_start_order [of "tw_bucket w" now t]
    by (auto simp: tw_ok_def)
next
  case (acquire_queued t now b i)
  then show ?thesis
    using assms(2) acquire_start_sane [of "tw_bucket w" t now] acquire_start_order [of "tw_bucket w" now t]
    by (auto simp: tw_ok_def)
next
  case (acquired i t now b)
  then show ?thesis
    using assms(2) acquire_poll_sane [of "tw_bucket w" now i] acquire_poll_order [of "tw_bucket w" now i]
      set_remove1_subset [of "(i, t)" "tw_waiting w"]
    by (auto simp: tw_ok_def)
next
  case (still_waiting i t now b d)
  then show ?thesis
    using assms(2) acquire_poll_sane [of "tw_bucket w" now i] acquire_poll_order [of "tw_bucket w" now i]
    by (auto simp: tw_ok_def)
next
  case (dropped i t)
  then show ?thesis
    using assms(2) guard_drop_sane [of "tw_bucket w" t i] guard_drop_order [of "tw_bucket w" i t]
      set_remove1_subset [of "(i, t)" "tw_waiting w"]
    by (auto simp: tw_ok_def)
next
  case (returned t)
  then show ?thesis
    using assms(2) return_tokens_sane [of "tw_bucket w" t] return_tokens_order [of "tw_bucket w" t]
      set_remove1_subset [of t "tw_held w"]
    by (auto simp: tw_ok_def)
qed

lemma tw_new_ok: "capacity < 2 ^ 64 \<Longrightarrow> tw_ok (tb_world_new now capacity rate)"
  using f64_of_nat_finite [of capacity] f64_of_nat_nonneg [of capacity] f64_of_nat_ok [of capacity]
  by (auto simp: tw_ok_def tb_world_new_def tb_new_def tb_sane_def tb_queue_ok_def tb_ids_def)

lemma tw_reachable_ok:
  assumes "(tb_step amount_ok)\<^sup>*\<^sup>* (tb_world_new now capacity rate) w" "capacity < 2 ^ 64"
  shows "tw_ok w"
  using assms by (induction rule: rtranclp_induct) (use tw_new_ok tb_step_ok in blast)+

lemma tb_conf_frame [simp]:
  "tb_capacity (tb_take t b) = tb_capacity b" "tb_refill_rate (tb_take t b) = tb_refill_rate b"
  "tb_capacity (tb_notify_one i b) = tb_capacity b" "tb_refill_rate (tb_notify_one i b) = tb_refill_rate b"
  by (simp_all add: tb_take_def tb_notify_one_def)

lemma grant_conf [simp]:
  "tb_capacity (grant_loop ws b) = tb_capacity b" "tb_refill_rate (grant_loop ws b) = tb_refill_rate b"
  "tb_capacity (grant_waiters_locked b) = tb_capacity b"
  "tb_refill_rate (grant_waiters_locked b) = tb_refill_rate b"
proof -
  show *: "tb_capacity (grant_loop ws b) = tb_capacity b" "tb_refill_rate (grant_loop ws b) = tb_refill_rate b" for ws b
    by (induction ws b rule: grant_loop.induct) simp_all
  show "tb_capacity (grant_waiters_locked b) = tb_capacity b"
    "tb_refill_rate (grant_waiters_locked b) = tb_refill_rate b"
    by (simp_all add: grant_waiters_locked_def Let_def *)
qed

lemma methods_conf:
  "tb_capacity (fst (tb_try_acquire now t b)) = tb_capacity b"
  "tb_capacity (fst (tb_try_take now t b)) = tb_capacity b"
  "tb_capacity (fst (tb_acquire_start now t b)) = tb_capacity b"
  "tb_capacity (fst (tb_acquire_poll now i b)) = tb_capacity b"
  "tb_capacity (tb_guard_drop i t b) = tb_capacity b"
  "tb_capacity (return_tokens_sync t b) = tb_capacity b"
  by (simp_all add: tb_try_acquire_def tb_try_acquire_sync_def tb_try_take_def tb_acquire_start_def
      tb_acquire_poll_def tb_guard_drop_def return_tokens_sync_def Let_def split: list.split)

lemma tb_step_capacity: "tb_step P w w' \<Longrightarrow> tb_capacity (tw_bucket w') = tb_capacity (tw_bucket w)"
  by (cases rule: tb_step.cases, assumption)
    (simp_all add: methods_conf, (metis methods_conf(1-4) fst_conv)+)

text \<open>C29. In every schedule of callers, with any refill rate and any token amounts, the budget
  and the tokens in flight stay between zero and the capacity, although every update is rounded
  to a double; the queue is in the order of arrival, and whatever is called next, the waiters it
  serves all arrived before every waiter it leaves queued.\<close>

theorem token_bucket_bounded_and_fair:
  assumes "(tb_step amount_ok)\<^sup>*\<^sup>* (tb_world_new now capacity refill_rate) w"
    and "capacity < 2 ^ 64"
  shows "f64_le (F_fin 0) (tb_tokens (tw_bucket w)) \<and> f64_le (tb_tokens (tw_bucket w)) (f64_of_nat capacity)
    \<and> f64_le (F_fin 0) (tb_inflight (tw_bucket w)) \<and> f64_le (tb_inflight (tw_bucket w)) (f64_of_nat capacity)
    \<and> sorted_wrt (<) (map tbw_id (tb_waiters (tw_bucket w)))
    \<and> (\<forall>w'. tb_step amount_ok w w' \<longrightarrow>
         (\<forall>i \<in> tb_granted (tw_bucket w') - tb_granted (tw_bucket w).
            \<forall>x \<in> set (tb_waiters (tw_bucket w')). i < tbw_id x))"
proof -
  have ok: "tw_ok w" using assms by (rule tw_reachable_ok)
  have "tb_capacity (tw_bucket w) = f64_of_nat capacity"
    using assms(1)
    by (induction rule: rtranclp_induct) (simp_all add: tb_step_capacity tb_world_new_def tb_new_def)
  then show ?thesis
    using ok tb_step_ok [OF _ ok]
    by (auto simp: tw_ok_def tb_sane_def tb_queue_ok_def tb_ids_def serves_in_order_def)
qed

definition demo_bucket :: tb_world where
  "demo_bucket = tb_world_new 0 1 0"

lemma demo_one: "amount_ok (F_fin 1)" "f64_of_nat (Suc 0) = F_fin 1" "f64_of_nat 0 = F_fin 0"
  "f64_round 1 = F_fin 1" "f64_round 2 = F_fin 2"
  using f64_of_nat_exact [of "Suc 0"] f64_of_nat_exact [of 0] f64_round_int [of 1] f64_round_int [of 2]
  by (simp_all add: amount_ok_def)

lemma demo_bucket_steps:
  "tb_try_acquire 1 (F_fin 1) (tw_bucket demo_bucket)
   = (tb_take (F_fin 1) (tw_bucket demo_bucket), True)"
  by (simp add: demo_bucket_def tb_world_new_def tb_new_def tb_try_acquire_def tb_try_acquire_sync_def
      grant_waiters_locked_def refill_locked_def admits_locked_def Let_def demo_one)

theorem token_bucket_bounded_and_fair_witness:
  "f64_le (tb_inflight (tb_take (F_fin 1) (tw_bucket demo_bucket))) (f64_of_nat 1)"
proof -
  have "(tb_step amount_ok)\<^sup>*\<^sup>* (tb_world_new 0 1 0)
      (demo_bucket\<lparr>tw_bucket := tb_take (F_fin 1) (tw_bucket demo_bucket),
        tw_held := (if True then F_fin 1 # tw_held demo_bucket else tw_held demo_bucket)\<rparr>)"
    using tb_step.try_acquire [of amount_ok, OF demo_one(1) demo_bucket_steps] unfolding demo_bucket_def
    by (rule r_into_rtranclp)
  from token_bucket_bounded_and_fair [OF this] show ?thesis by simp
qed

section \<open>Without refill: a counting semaphore\<close>

text \<open>Amounts that are whole numbers are added exactly, so the accounting has no rounding.\<close>

fun units :: "f64 \<Rightarrow> nat" where
  "units (F_fin x) = nat \<lfloor>x\<rfloor>"
| "units _ = 0"

definition whole :: "f64 \<Rightarrow> bool" where
  "whole t \<longleftrightarrow> t = F_fin (of_nat (units t)) \<and> units t < 2 ^ 52"

lemma whole_cases: "whole t \<Longrightarrow> (\<And>n. t = F_fin (of_nat n) \<Longrightarrow> n < 2 ^ 52 \<Longrightarrow> P) \<Longrightarrow> P"
  unfolding whole_def by blast

lemma units_whole [simp]: "units (F_fin (of_nat n)) = n"
  by simp

lemma whole_add: "a + b < 2 ^ 53 \<Longrightarrow> f64_add (F_fin (of_nat a)) (F_fin (of_nat b)) = F_fin (of_nat (a + b))"
  using f64_of_nat_exact [of "a + b"] by (simp add: f64_of_nat_def)

lemma whole_sub: "b \<le> a \<Longrightarrow> a < 2 ^ 53 \<Longrightarrow> f64_sub (F_fin (of_nat a)) (F_fin (of_nat b)) = F_fin (of_nat (a - b))"
  using f64_of_nat_exact [of "a - b"] by (simp add: f64_sub_def f64_of_nat_def of_nat_diff)

definition need :: "tb_waiter list \<Rightarrow> nat" where
  "need ws = sum_list (map (\<lambda>w. units (tbw_tokens w)) ws)"

text \<open>\<open>n\<close> tokens are in flight and \<open>s\<close> were spent, out of \<open>cap\<close>.\<close>

definition sem :: "nat \<Rightarrow> nat \<Rightarrow> nat \<Rightarrow> token_bucket \<Rightarrow> bool" where
  "sem cap n s b \<longleftrightarrow>
     cap < 2 ^ 52 \<and> n + s \<le> cap \<and> tb_refill_rate b = F_fin 0 \<and> tb_capacity b = F_fin (of_nat cap)
     \<and> tb_inflight b = F_fin (of_nat n) \<and> tb_tokens b = F_fin (of_nat (cap - n - s))
     \<and> (\<forall>w \<in> set (tb_waiters b). whole (tbw_tokens w))"

definition front_blocked :: "token_bucket \<Rightarrow> bool" where
  "front_blocked b \<longleftrightarrow> (case tb_waiters b of [] \<Rightarrow> True | w # _ \<Rightarrow> \<not> admits_locked b (tbw_tokens w))"

lemma sem_admits:
  assumes "sem cap n s b" "whole t"
  shows "admits_locked b t \<longleftrightarrow> units t \<le> cap - n - s"
proof -
  obtain k where k: "t = F_fin (of_nat k)" "k < 2 ^ 52" using assms(2) by (rule whole_cases)
  have "f64_add (F_fin (of_nat n)) (F_fin (of_nat k)) = F_fin (of_nat (n + k))"
    using assms(1) k by (intro whole_add) (simp add: sem_def)
  then show ?thesis
    using assms(1) unfolding admits_locked_def sem_def k(1) by auto
qed

lemma sem_take:
  assumes "sem cap n s b" "whole t" "admits_locked b t"
  shows "sem cap (n + units t) s (tb_take t b)"
proof -
  obtain k where k: "t = F_fin (of_nat k)" "k < 2 ^ 52" using assms(2) by (rule whole_cases)
  have le: "k \<le> cap - n - s" using sem_admits [OF assms(1,2)] assms(3) k by simp
  have cap: "cap < 2 ^ 52" "n + s \<le> cap" using assms(1) by (simp_all add: sem_def)
  have "f64_add (F_fin (of_nat n)) (F_fin (of_nat k)) = F_fin (of_nat (n + k))"
    using cap k by (intro whole_add) simp
  moreover have "f64_sub (F_fin (of_nat (cap - n - s))) (F_fin (of_nat k)) = F_fin (of_nat (cap - n - s - k))"
    using le by (rule whole_sub) (use cap in simp)
  moreover have "cap - n - s - k = cap - (n + k) - s" by simp
  moreover have "n + k + s \<le> cap" using le cap by linarith
  ultimately show ?thesis
    using assms(1) unfolding sem_def k(1) units_whole by (simp add: tb_take_def del: of_nat_add)
qed

lemma sem_frame [simp]:
  "sem cap n s (b\<lparr>tb_granted := g\<rparr>) \<longleftrightarrow> sem cap n s b"
  "sem cap n s (b\<lparr>tb_notified := g\<rparr>) \<longleftrightarrow> sem cap n s b"
  "sem cap n s (b\<lparr>tb_next_waiter_id := i\<rparr>) \<longleftrightarrow> sem cap n s b"
  "sem cap n s (tb_notify_one j b) \<longleftrightarrow> sem cap n s b"
  "sem cap n s (wake_front_locked b) \<longleftrightarrow> sem cap n s b"
  by (simp_all add: sem_def tb_notify_one_def wake_front_locked_def split: list.split)

lemma sem_waiters: "sem cap n s b \<Longrightarrow> \<forall>w \<in> set ws. whole (tbw_tokens w) \<Longrightarrow> sem cap n s (b\<lparr>tb_waiters := ws\<rparr>)"
  by (simp add: sem_def)

lemma sem_refill: "sem cap n s b \<Longrightarrow> refill_locked now b = b"
  by (simp add: refill_locked_def sem_def)

lemma admits_frame [simp]:
  "admits_locked (b\<lparr>tb_waiters := ws\<rparr>) t = admits_locked b t"
  "admits_locked (wake_front_locked b) t = admits_locked b t"
  by (simp_all add: admits_locked_def)

lemma front_blocked_wake [simp]: "front_blocked (wake_front_locked b) = front_blocked b"
  by (simp add: front_blocked_def split: list.split)

lemma grant_loop_sem:
  assumes "sem cap n s b" "\<forall>w \<in> set ws. whole (tbw_tokens w)"
  shows "\<exists>gs. ws = gs @ tb_waiters (grant_loop ws b)
    \<and> tb_granted (grant_loop ws b) = tb_granted b \<union> tbw_id ` set gs
    \<and> sem cap (n + need gs) s (grant_loop ws b)
    \<and> front_blocked (grant_loop ws b)"
  using assms
proof (induction ws b arbitrary: n rule: grant_loop.induct)
  case (1 b)
  then show ?case by (simp add: sem_waiters front_blocked_def need_def)
next
  case (2 w ws b)
  show ?case
  proof (cases "admits_locked b (tbw_tokens w)")
    case True
    let ?b = "tb_notify_one (tbw_id w) ((tb_take (tbw_tokens w) b)\<lparr>tb_granted := insert (tbw_id w) (tb_granted b)\<rparr>)"
    have "sem cap (n + units (tbw_tokens w)) s ?b"
      using sem_take [OF "2.prems"(1) _ True] "2.prems"(2) by simp
    then obtain gs where "ws = gs @ tb_waiters (grant_loop ws ?b)"
      "tb_granted (grant_loop ws ?b) = tb_granted ?b \<union> tbw_id ` set gs"
      "sem cap (n + units (tbw_tokens w) + need gs) s (grant_loop ws ?b)"
      "front_blocked (grant_loop ws ?b)"
      using "2.IH" [OF True] "2.prems"(2) by (metis list.set_intros(2))
    then show ?thesis
      using True by (intro exI [of _ "w # gs"]) (simp add: tb_notify_one_def tb_take_def add.assoc need_def)
  next
    case False
    then show ?thesis
      using "2.prems" sem_waiters [OF "2.prems"(1), of "w # ws"]
      by (intro exI [of _ "[]"]) (simp add: front_blocked_def need_def)
  qed
qed

lemma grant_waiters_sem:
  assumes "sem cap n s b"
  obtains gs where "tb_waiters b = gs @ tb_waiters (grant_waiters_locked b)"
    "tb_granted (grant_waiters_locked b) = tb_granted b \<union> tbw_id ` set gs"
    "sem cap (n + need gs) s (grant_waiters_locked b)"
    "front_blocked (grant_waiters_locked b)"
proof -
  let ?b = "grant_loop (tb_waiters b) b"
  have "\<forall>w \<in> set (tb_waiters b). whole (tbw_tokens w)"
    using assms by (simp add: sem_def)
  then obtain gs where gs: "tb_waiters b = gs @ tb_waiters ?b" "tb_granted ?b = tb_granted b \<union> tbw_id ` set gs"
    "sem cap (n + need gs) s ?b" "front_blocked ?b"
    using grant_loop_sem [OF assms] by blast
  have "grant_waiters_locked b = ?b \<or> grant_waiters_locked b = wake_front_locked ?b"
    by (simp add: grant_waiters_locked_def Let_def)
  then have "tb_waiters (grant_waiters_locked b) = tb_waiters ?b"
    "tb_granted (grant_waiters_locked b) = tb_granted ?b"
    "sem cap (n + need gs) s (grant_waiters_locked b)"
    "front_blocked (grant_waiters_locked b)"
    using gs(3,4) by (elim disjE; simp)+
  then show ?thesis
    using gs(1,2) that by metis
qed

lemma grant_blocked:
  assumes "front_blocked b"
  shows "grant_waiters_locked b = b"
  using assms by (cases "tb_waiters b") (simp_all add: grant_waiters_locked_def front_blocked_def)

text \<open>The tasks behind the numbers: a suspended task is queued or granted, with the tokens it
  asked for.\<close>

definition granted_units :: "nat set \<Rightarrow> (nat \<times> f64) list \<Rightarrow> nat" where
  "granted_units g waiting = sum_list (map (\<lambda>(i, t). if i \<in> g then units t else 0) waiting)"

definition outstanding :: "tb_world \<Rightarrow> nat" where
  "outstanding w = sum_list (map units (tw_held w)) + granted_units (tb_granted (tw_bucket w)) (tw_waiting w)"

definition spent :: "tb_world \<Rightarrow> nat" where
  "spent w = sum_list (map units (tw_spent w))"

definition tasks_ok :: "token_bucket \<Rightarrow> (nat \<times> f64) list \<Rightarrow> bool" where
  "tasks_ok b waiting \<longleftrightarrow>
     distinct (map fst waiting) \<and> distinct (tb_ids b) \<and> tb_granted b \<subseteq> fst ` set waiting
     \<and> (\<forall>x \<in> set (tb_waiters b). (tbw_id x, tbw_tokens x) \<in> set waiting \<and> tbw_id x \<notin> tb_granted b)
     \<and> (\<forall>(i, t) \<in> set waiting. whole t \<and> (i \<in> tb_granted b \<or> i \<in> set (tb_ids b)) \<and> i < tb_next_waiter_id b)"

lemma granted_units_insert:
  assumes "distinct (map fst waiting)" "(i, t) \<in> set waiting" "i \<notin> g"
  shows "granted_units (insert i g) waiting = granted_units g waiting + units t"
  using assms
proof (induction waiting)
  case (Cons x waiting)
  show ?case
  proof (cases "x = (i, t)")
    case True
    then have "\<forall>(j, u) \<in> set waiting. j \<noteq> i" using Cons.prems(1) by force
    then have "granted_units (insert i g) waiting = granted_units g waiting"
      unfolding granted_units_def by (intro arg_cong [of _ _ sum_list] map_cong) auto
    then show ?thesis using True Cons.prems(3) by (simp add: granted_units_def)
  next
    case False
    then have "(i, t) \<in> set waiting" using Cons.prems(2) by simp
    moreover have "fst x \<noteq> i"
      using calculation Cons.prems(1) by (metis distinct.simps(2) fst_conv image_eqI list.simps(9) set_map)
    ultimately show ?thesis
      using Cons.IH Cons.prems by (cases x) (simp add: granted_units_def)
  qed
qed simp

lemma granted_units_grant:
  assumes "distinct (map fst waiting)" "distinct (map tbw_id gs)"
    "\<forall>x \<in> set gs. (tbw_id x, tbw_tokens x) \<in> set waiting \<and> tbw_id x \<notin> g"
  shows "granted_units (g \<union> tbw_id ` set gs) waiting = granted_units g waiting + need gs"
  using assms
proof (induction gs)
  case (Cons x gs)
  have "granted_units (insert (tbw_id x) (g \<union> tbw_id ` set gs)) waiting
      = granted_units (g \<union> tbw_id ` set gs) waiting + units (tbw_tokens x)"
    using Cons.prems by (intro granted_units_insert) auto
  then show ?case
    using Cons by (simp add: need_def)
qed (simp add: need_def)

lemma granted_units_remove:
  assumes "distinct (map fst waiting)" "(i, t) \<in> set waiting"
  shows "granted_units g waiting = (if i \<in> g then units t else 0) + granted_units g (remove1 (i, t) waiting)"
    and "granted_units (g - {i}) (remove1 (i, t) waiting) = granted_units g (remove1 (i, t) waiting)"
proof -
  show "granted_units g waiting = (if i \<in> g then units t else 0) + granted_units g (remove1 (i, t) waiting)"
    using assms(2) unfolding granted_units_def by (subst sum_list_map_remove1) auto
  have "i \<notin> fst ` set (remove1 (i, t) waiting)"
    using assms by (auto simp: distinct_map set_remove1_eq dest: eq_key_imp_eq_value [OF assms(1)])
  then show "granted_units (g - {i}) (remove1 (i, t) waiting) = granted_units g (remove1 (i, t) waiting)"
    unfolding granted_units_def by (intro arg_cong [of _ _ sum_list] map_cong) force+
qed

definition sem_tasks :: "nat \<Rightarrow> nat \<Rightarrow> nat \<Rightarrow> (nat \<times> f64) list \<Rightarrow> token_bucket \<Rightarrow> bool" where
  "sem_tasks cap held s waiting b \<longleftrightarrow>
     sem cap (held + granted_units (tb_granted b) waiting) s b \<and> tasks_ok b waiting"

lemma grant_tasks:
  assumes "sem_tasks cap h s waiting b"
  shows "sem_tasks cap h s waiting (grant_waiters_locked b) \<and> front_blocked (grant_waiters_locked b)"
proof -
  have sem: "sem cap (h + granted_units (tb_granted b) waiting) s b" and ok: "tasks_ok b waiting"
    using assms by (simp_all add: sem_tasks_def)
  let ?b = "grant_waiters_locked b"
  obtain gs where gs: "tb_waiters b = gs @ tb_waiters ?b" "tb_granted ?b = tb_granted b \<union> tbw_id ` set gs"
    "sem cap (h + granted_units (tb_granted b) waiting + need gs) s ?b" "front_blocked ?b"
    using sem by (rule grant_waiters_sem)
  have nid: "tb_next_waiter_id ?b = tb_next_waiter_id b"
    by (rule grant_waiters_split)
  have ids: "tb_ids b = map tbw_id gs @ tb_ids ?b"
    using gs(1) by (simp add: tb_ids_def)
  have units: "granted_units (tb_granted ?b) waiting = granted_units (tb_granted b) waiting + need gs"
    unfolding gs(2)
  proof (rule granted_units_grant)
    show "distinct (map fst waiting)" "distinct (map tbw_id gs)"
      using ok ids by (simp_all add: tasks_ok_def)
    show "\<forall>x \<in> set gs. (tbw_id x, tbw_tokens x) \<in> set waiting \<and> tbw_id x \<notin> tb_granted b"
      using ok unfolding tasks_ok_def gs(1) by simp
  qed
  have "tasks_ok ?b waiting"
    unfolding tasks_ok_def
  proof (intro conjI)
    show "distinct (map fst waiting)" "distinct (tb_ids ?b)"
      using ok ids by (simp_all add: tasks_ok_def)
    have "tbw_id x \<in> fst ` set waiting" if "x \<in> set gs" for x
      using ok that gs(1) unfolding tasks_ok_def by (metis Un_iff fst_conv image_eqI set_append)
    then show "tb_granted ?b \<subseteq> fst ` set waiting"
      using ok unfolding tasks_ok_def gs(2) by blast
    show "\<forall>x \<in> set (tb_waiters ?b). (tbw_id x, tbw_tokens x) \<in> set waiting \<and> tbw_id x \<notin> tb_granted ?b"
    proof
      fix x assume x: "x \<in> set (tb_waiters ?b)"
      have "tbw_id x \<notin> tbw_id ` set gs"
        using ok ids x unfolding tasks_ok_def by (auto simp: tb_ids_def)
      then show "(tbw_id x, tbw_tokens x) \<in> set waiting \<and> tbw_id x \<notin> tb_granted ?b"
        using ok gs(1,2) x unfolding tasks_ok_def by (metis Un_iff set_append)
    qed
    show "\<forall>(i, t) \<in> set waiting. whole t \<and> (i \<in> tb_granted ?b \<or> i \<in> set (tb_ids ?b)) \<and> i < tb_next_waiter_id ?b"
      using ok unfolding tasks_ok_def gs(2) ids nid by fastforce
  qed
  then show ?thesis
    using gs(3,4) units by (simp add: sem_tasks_def add.assoc)
qed

lemma sem_tasks_wake [simp]: "sem_tasks cap h s waiting (wake_front_locked b) \<longleftrightarrow> sem_tasks cap h s waiting b"
  by (simp add: sem_tasks_def tasks_ok_def)

lemma whole_max: "f64_max (F_fin (of_nat a)) (F_fin 0) = F_fin (of_nat a)"
  by (simp add: f64_max_def)

lemma whole_min: "a \<le> c \<Longrightarrow> f64_min (F_fin (of_nat a)) (F_fin (of_nat c)) = F_fin (of_nat a)"
  by (simp add: f64_min_def)

lemma sem_give_back:
  assumes "sem cap n s b" "whole t" "units t \<le> n"
  shows "sem cap (n - units t) s
    (b\<lparr>tb_inflight := f64_max (f64_sub (tb_inflight b) t) (F_fin 0),
       tb_tokens := f64_min (f64_add (tb_tokens b) t) (tb_capacity b)\<rparr>)"
proof -
  obtain k where k: "t = F_fin (of_nat k)" "k < 2 ^ 52" using assms(2) by (rule whole_cases)
  have cap: "cap < 2 ^ 52" "n + s \<le> cap" "k \<le> n" using assms k by (simp_all add: sem_def)
  have ut: "units t = k" using k(1) by simp
  have b: "tb_refill_rate b = F_fin 0" "tb_capacity b = F_fin (of_nat cap)" "tb_inflight b = F_fin (of_nat n)"
    "tb_tokens b = F_fin (of_nat (cap - n - s))" "\<forall>w \<in> set (tb_waiters b). whole (tbw_tokens w)"
    using assms(1) unfolding sem_def by blast+
  have eq: "cap - n - s + k = cap - (n - k) - s" and le: "cap - n - s + k \<le> cap" "n - k + s \<le> cap"
    using cap by linarith+
  have inflight: "f64_max (f64_sub (tb_inflight b) t) (F_fin 0) = F_fin (of_nat (n - k))"
    unfolding b(3) k(1) by (subst whole_sub) (use cap in \<open>simp_all only: whole_max\<close>, simp)
  have "f64_add (F_fin (of_nat (cap - n - s))) (F_fin (of_nat k)) = F_fin (of_nat (cap - n - s + k))"
    by (rule whole_add) (use cap in simp)
  then have tokens: "f64_min (f64_add (tb_tokens b) t) (tb_capacity b) = F_fin (of_nat (cap - (n - k) - s))"
    unfolding b(2,4) k(1) eq [symmetric] using whole_min [OF le(1)] by (simp only:)
  show ?thesis
    unfolding sem_def inflight tokens ut using cap(1) le(2) b by simp
qed

lemma sem_spend:
  assumes "sem cap n s b" "whole t" "f64_le t (tb_tokens b)"
  shows "sem cap n (s + units t) (b\<lparr>tb_tokens := f64_sub (tb_tokens b) t\<rparr>)"
proof -
  obtain k where k: "t = F_fin (of_nat k)" "k < 2 ^ 52" using assms(2) by (rule whole_cases)
  have cap: "cap < 2 ^ 52" "n + s \<le> cap" "k \<le> cap - n - s" using assms k by (auto simp: sem_def)
  have "f64_sub (F_fin (of_nat (cap - n - s))) (F_fin (of_nat k)) = F_fin (of_nat (cap - n - s - k))"
    using cap by (intro whole_sub) simp_all
  moreover have "cap - n - s - k = cap - n - (s + k)" "n + (s + k) \<le> cap"
    using cap by simp_all
  ultimately show ?thesis
    using assms(1) unfolding sem_def k(1) units_whole by (simp del: of_nat_diff)
qed

definition sem_world :: "nat \<Rightarrow> tb_world \<Rightarrow> bool" where
  "sem_world cap w \<longleftrightarrow>
     sem_tasks cap (sum_list (map units (tw_held w))) (spent w) (tw_waiting w) (tw_bucket w)
     \<and> front_blocked (tw_bucket w) \<and> (\<forall>t \<in> set (tw_held w). whole t)"

lemma tasks_ok_frame:
  "tb_waiters b' = tb_waiters b \<Longrightarrow> tb_granted b' = tb_granted b \<Longrightarrow> tb_next_waiter_id b' = tb_next_waiter_id b
   \<Longrightarrow> tasks_ok b' waiting \<longleftrightarrow> tasks_ok b waiting"
  by (simp add: tasks_ok_def tb_ids_def)

lemma sem_tasks_take:
  assumes "sem_tasks cap h s waiting b" "whole t" "admits_locked b t"
  shows "sem_tasks cap (units t + h) s waiting (tb_take t b)"
  using sem_take [of cap "h + granted_units (tb_granted b) waiting" s b t] assms
    tasks_ok_frame [of "tb_take t b" b waiting]
  by (simp add: sem_tasks_def tb_take_def ac_simps)

lemma sem_tasks_parts: "sem_tasks cap h s waiting b \<Longrightarrow> sem cap (h + granted_units (tb_granted b) waiting) s b"
  "sem_tasks cap h s waiting b \<Longrightarrow> tasks_ok b waiting"
  by (simp_all add: sem_tasks_def)

lemma sem_tasks_refill: "sem_tasks cap h s waiting b \<Longrightarrow> refill_locked now b = b"
  by (drule sem_tasks_parts(1)) (rule sem_refill)

lemma front_blocked_empty: "tb_waiters b = [] \<Longrightarrow> front_blocked b"
  by (simp add: front_blocked_def)

lemma try_acquire_sem:
  assumes "sem_world cap w" "whole t" "tb_try_acquire now t (tw_bucket w) = (b, won)"
  shows "sem_world cap (w\<lparr>tw_bucket := b, tw_held := (if won then t # tw_held w else tw_held w)\<rparr>)"
proof -
  have st: "sem_tasks cap (sum_list (map units (tw_held w))) (spent w) (tw_waiting w) (tw_bucket w)"
    and fb: "front_blocked (tw_bucket w)" using assms(1) by (simp_all add: sem_world_def)
  have "(b, won) = (if tb_waiters (tw_bucket w) = [] \<and> admits_locked (tw_bucket w) t
      then (tb_take t (tw_bucket w), True) else (tw_bucket w, False))"
    using assms(3) by (simp add: tb_try_acquire_def tb_try_acquire_sync_def Let_def sem_tasks_refill [OF st] grant_blocked [OF fb])
  then show ?thesis
    using assms(1,2) sem_tasks_take [OF st assms(2)] front_blocked_empty [of "tb_take t (tw_bucket w)"]
    by (auto simp: sem_world_def spent_def tb_take_def split: if_splits)
qed

lemma try_take_sem:
  assumes "sem_world cap w" "whole t" "tb_try_take now t (tw_bucket w) = (b, won)"
  shows "sem_world cap (w\<lparr>tw_bucket := b, tw_spent := (if won then t # tw_spent w else tw_spent w)\<rparr>)"
proof -
  have st: "sem_tasks cap (sum_list (map units (tw_held w))) (spent w) (tw_waiting w) (tw_bucket w)"
    and fb: "front_blocked (tw_bucket w)" using assms(1) by (simp_all add: sem_world_def)
  let ?b = "(tw_bucket w)\<lparr>tb_tokens := f64_sub (tb_tokens (tw_bucket w)) t\<rparr>"
  have eq: "(b, won) = (if tb_waiters (tw_bucket w) = [] \<and> f64_le t (tb_tokens (tw_bucket w))
      then (?b, True) else (tw_bucket w, False))"
    using assms(3) by (simp add: tb_try_take_def Let_def sem_tasks_refill [OF st] grant_blocked [OF fb])
  have "sem_tasks cap (sum_list (map units (tw_held w))) (units t + spent w) (tw_waiting w) ?b"
    if "f64_le t (tb_tokens (tw_bucket w))"
    using sem_spend [OF sem_tasks_parts(1) [OF st] assms(2) that] sem_tasks_parts(2) [OF st]
      tasks_ok_frame [of ?b "tw_bucket w" "tw_waiting w"]
    by (simp add: sem_tasks_def add.commute)
  then show ?thesis
    using assms(1) eq front_blocked_empty [of ?b]
    by (auto simp: sem_world_def spent_def split: if_splits)
qed

lemma acquire_now_sem:
  assumes "sem_world cap w" "whole t" "tb_acquire_start now t (tw_bucket w) = (b, None)"
  shows "sem_world cap (w\<lparr>tw_bucket := b, tw_held := t # tw_held w\<rparr>)"
proof -
  have st: "sem_tasks cap (sum_list (map units (tw_held w))) (spent w) (tw_waiting w) (tw_bucket w)"
    using assms(1) by (simp_all add: sem_world_def)
  have "b = tb_take t (tw_bucket w)" "tb_waiters (tw_bucket w) = []" "admits_locked (tw_bucket w) t"
    using assms(3) by (auto simp: tb_acquire_start_def Let_def sem_tasks_refill [OF st] split: if_splits)
  then show ?thesis
    using assms(1,2) sem_tasks_take [OF st assms(2)] front_blocked_empty [of "tb_take t (tw_bucket w)"]
    by (auto simp: sem_world_def spent_def tb_take_def)
qed

lemma acquire_queued_sem:
  assumes "sem_world cap w" "whole t" "tb_acquire_start now t (tw_bucket w) = (b, Some i)"
  shows "sem_world cap (w\<lparr>tw_bucket := b, tw_waiting := (i, t) # tw_waiting w\<rparr>)"
proof -
  let ?b = "tw_bucket w"
  have st: "sem_tasks cap (sum_list (map units (tw_held w))) (spent w) (tw_waiting w) ?b"
    and fb: "front_blocked ?b" using assms(1) by (simp_all add: sem_world_def)
  have ok: "tasks_ok ?b (tw_waiting w)" using st by (rule sem_tasks_parts)
  have b: "b = ?b\<lparr>tb_next_waiter_id := tb_next_waiter_id ?b + 1,
      tb_waiters := tb_waiters ?b @ [\<lparr>tbw_id = i, tbw_tokens = t\<rparr>]\<rparr>"
    and i: "i = tb_next_waiter_id ?b" and not: "\<not> (tb_waiters ?b = [] \<and> admits_locked ?b t)"
    using assms(3) by (auto simp: tb_acquire_start_def Let_def sem_tasks_refill [OF st] split: if_splits)
  have fresh: "i \<notin> fst ` set (tw_waiting w)"
    using ok i unfolding tasks_ok_def by fastforce
  then have granted: "i \<notin> tb_granted ?b" and ids: "i \<notin> set (tb_ids ?b)"
    using ok unfolding tasks_ok_def by (auto simp: tb_ids_def, force)
  have "sem cap n s b" if "sem cap n s ?b" for n s
    using that assms(2) by (simp add: b sem_def)
  moreover have "granted_units (tb_granted b) ((i, t) # tw_waiting w) = granted_units (tb_granted ?b) (tw_waiting w)"
    using granted by (simp add: granted_units_def b)
  moreover have "tasks_ok b ((i, t) # tw_waiting w)"
    using ok fresh granted ids assms(2) i unfolding tasks_ok_def b by (auto simp: tb_ids_def less_Suc_eq)
  moreover have "front_blocked b"
    using fb not by (cases "tb_waiters ?b") (simp_all add: front_blocked_def b admits_locked_def)
  ultimately show ?thesis
    using assms(1) st by (simp add: sem_world_def sem_tasks_def spent_def)
qed

lemma poll_no_refill:
  assumes "sem cap n s b"
  shows "fst (tb_acquire_poll now i b) = b\<lparr>tb_notified := tb_notified b - {i}, tb_granted := tb_granted b - {i}\<rparr>"
    and "snd (tb_acquire_poll now i b) = Acquired \<longleftrightarrow> i \<in> tb_granted b"
  using assms by (auto simp: tb_acquire_poll_def Let_def sem_def split: list.split)

lemma removed_tasks:
  assumes "tasks_ok b waiting" "(i, t) \<in> set waiting"
  shows "set (remove1 (i, t) waiting) = set waiting - {(i, t)}"
    "distinct (map fst (remove1 (i, t) waiting))"
    "fst ` set (remove1 (i, t) waiting) = fst ` set waiting - {i}"
    "(j, u) \<in> set (remove1 (i, t) waiting) \<longleftrightarrow> (j, u) \<in> set waiting \<and> j \<noteq> i"
proof -
  have d: "distinct (map fst waiting)" using assms(1) by (simp add: tasks_ok_def)
  show set: "set (remove1 (i, t) waiting) = set waiting - {(i, t)}"
    using d by (simp add: set_remove1_eq distinct_map)
  show "distinct (map fst (remove1 (i, t) waiting))"
    using d by (simp add: distinct_map inj_on_def set_remove1_eq) 
  show "(j, u) \<in> set (remove1 (i, t) waiting) \<longleftrightarrow> (j, u) \<in> set waiting \<and> j \<noteq> i" for j u
    using set eq_key_imp_eq_value [OF d, of i t u] assms(2) by auto
  then show "fst ` set (remove1 (i, t) waiting) = fst ` set waiting - {i}"
    using assms(2) by (auto simp: image_iff)
qed

lemma tasks_ok_remove:
  assumes "tasks_ok b waiting" "(i, t) \<in> set waiting"
    and "set (tb_waiters b') = {x \<in> set (tb_waiters b). tbw_id x \<noteq> i}" "distinct (tb_ids b')"
    and "tb_granted b' = tb_granted b - {i}" "tb_next_waiter_id b' = tb_next_waiter_id b"
  shows "tasks_ok b' (remove1 (i, t) waiting)"
proof -
  note rem = removed_tasks [OF assms(1,2)]
  have "tb_granted b' \<subseteq> fst ` set (remove1 (i, t) waiting)"
    using assms(1) unfolding rem(3) assms(5) tasks_ok_def by blast
  moreover have "(tbw_id x, tbw_tokens x) \<in> set (remove1 (i, t) waiting) \<and> tbw_id x \<notin> tb_granted b'"
    if "x \<in> set (tb_waiters b')" for x
    using assms(1) that unfolding rem(4) assms(3,5) tasks_ok_def by blast
  moreover have "whole u \<and> (j \<in> tb_granted b' \<or> j \<in> set (tb_ids b')) \<and> j < tb_next_waiter_id b'"
    if "(j, u) \<in> set (remove1 (i, t) waiting)" for j u
  proof -
    have "(j, u) \<in> set waiting" "j \<noteq> i" using that unfolding rem(4) by blast+
    moreover from this(1) have "whole u \<and> (j \<in> tb_granted b \<or> j \<in> set (tb_ids b)) \<and> j < tb_next_waiter_id b"
      using assms(1) unfolding tasks_ok_def by blast
    ultimately show ?thesis
      unfolding assms(5,6) by (auto simp: tb_ids_def assms(3))
  qed
  ultimately show ?thesis
    using rem(2) assms(4) unfolding tasks_ok_def by blast
qed

lemma front_blocked_frame:
  "tb_waiters b' = tb_waiters b \<Longrightarrow> tb_tokens b' = tb_tokens b \<Longrightarrow> tb_inflight b' = tb_inflight b
   \<Longrightarrow> tb_capacity b' = tb_capacity b \<Longrightarrow> front_blocked b' \<longleftrightarrow> front_blocked b"
  by (simp add: front_blocked_def admits_locked_def split: list.split)

text \<open>A granted task that leaves, with its permit or without.\<close>

lemma leave_granted:
  assumes "tasks_ok b waiting" "(i, t) \<in> set waiting" "i \<in> tb_granted b"
    and "tb_granted b' = tb_granted b - {i}" "tb_waiters b' = tb_waiters b" "tb_next_waiter_id b' = tb_next_waiter_id b"
  shows "tasks_ok b' (remove1 (i, t) waiting)"
    "granted_units (tb_granted b) waiting = units t + granted_units (tb_granted b') (remove1 (i, t) waiting)"
proof -
  have "tbw_id x \<noteq> i" if "x \<in> set (tb_waiters b)" for x
    using assms(1,3) that unfolding tasks_ok_def by blast
  then show "tasks_ok b' (remove1 (i, t) waiting)"
    using assms by (intro tasks_ok_remove [of b]) (auto simp: tb_ids_def tasks_ok_def)
  have d: "distinct (map fst waiting)" using assms(1) by (simp add: tasks_ok_def)
  show "granted_units (tb_granted b) waiting = units t + granted_units (tb_granted b') (remove1 (i, t) waiting)"
    using granted_units_remove [OF d assms(2), of "tb_granted b"] assms(3,4) by simp
qed

lemma acquired_sem:
  assumes "sem_world cap w" "(i, t) \<in> set (tw_waiting w)" "tb_acquire_poll now i (tw_bucket w) = (b, Acquired)"
  shows "sem_world cap (w\<lparr>tw_bucket := b, tw_waiting := remove1 (i, t) (tw_waiting w), tw_held := t # tw_held w\<rparr>)"
proof -
  have st: "sem_tasks cap (sum_list (map units (tw_held w))) (spent w) (tw_waiting w) (tw_bucket w)"
    and fb: "front_blocked (tw_bucket w)" using assms(1) by (simp_all add: sem_world_def)
  note sem = sem_tasks_parts(1) [OF st] and ok = sem_tasks_parts(2) [OF st]
  have b: "b = (tw_bucket w)\<lparr>tb_notified := tb_notified (tw_bucket w) - {i}, tb_granted := tb_granted (tw_bucket w) - {i}\<rparr>"
    and i: "i \<in> tb_granted (tw_bucket w)"
    using poll_no_refill [OF sem, of now i] assms(3) by simp_all
  have leave: "tasks_ok b (remove1 (i, t) (tw_waiting w))"
    "granted_units (tb_granted (tw_bucket w)) (tw_waiting w) = units t + granted_units (tb_granted b) (remove1 (i, t) (tw_waiting w))"
    using leave_granted [OF ok assms(2) i, of b] by (simp_all add: b)
  have t: "whole t" using ok assms(2) unfolding tasks_ok_def by blast
  have "sem cap (units t + sum_list (map units (tw_held w)) + granted_units (tb_granted b) (remove1 (i, t) (tw_waiting w))) (spent w) b"
    using sem unfolding leave(2) by (simp add: b ac_simps)
  moreover have "front_blocked b"
    using fb front_blocked_frame [of b "tw_bucket w"] by (simp add: b)
  ultimately show ?thesis
    using assms(1) leave(1) t by (simp add: sem_world_def sem_tasks_def spent_def)
qed

lemma still_waiting_sem:
  assumes "sem_world cap w" "(i, t) \<in> set (tw_waiting w)" "tb_acquire_poll now i (tw_bucket w) = (b, Wait d)"
  shows "sem_world cap (w\<lparr>tw_bucket := b\<rparr>)"
proof -
  have st: "sem_tasks cap (sum_list (map units (tw_held w))) (spent w) (tw_waiting w) (tw_bucket w)"
    and fb: "front_blocked (tw_bucket w)" using assms(1) by (simp_all add: sem_world_def)
  have "i \<notin> tb_granted (tw_bucket w)"
    using poll_no_refill(2) [OF sem_tasks_parts(1) [OF st], of now i] assms(3) by simp
  then have b: "b = (tw_bucket w)\<lparr>tb_notified := tb_notified (tw_bucket w) - {i}, tb_granted := tb_granted (tw_bucket w)\<rparr>"
    using poll_no_refill(1) [OF sem_tasks_parts(1) [OF st], of now i] assms(3) by simp
  have "tasks_ok b (tw_waiting w)"
    using sem_tasks_parts(2) [OF st] tasks_ok_frame [of b "tw_bucket w" "tw_waiting w"] by (simp add: b)
  moreover have "front_blocked b"
    using fb front_blocked_frame [of b "tw_bucket w"] by (simp add: b)
  ultimately show ?thesis
    using assms(1) st by (simp add: sem_world_def sem_tasks_def spent_def b)
qed

lemma granted_le: "(i, t) \<in> set waiting \<Longrightarrow> i \<in> g \<Longrightarrow> units t \<le> granted_units g waiting"
  unfolding granted_units_def by (induction waiting) auto

lemma dropped_granted_sem:
  assumes "sem_tasks cap h s waiting b" "(i, t) \<in> set waiting" "i \<in> tb_granted b"
  shows "sem_tasks cap h s (remove1 (i, t) waiting)
    (b\<lparr>tb_granted := tb_granted b - {i},
       tb_inflight := f64_max (f64_sub (tb_inflight b) t) (F_fin 0),
       tb_tokens := f64_min (f64_add (tb_tokens b) t) (tb_capacity b)\<rparr>)"
proof -
  let ?b = "b\<lparr>tb_granted := tb_granted b - {i}, tb_inflight := f64_max (f64_sub (tb_inflight b) t) (F_fin 0),
       tb_tokens := f64_min (f64_add (tb_tokens b) t) (tb_capacity b)\<rparr>"
  note sem = sem_tasks_parts(1) [OF assms(1)] and ok = sem_tasks_parts(2) [OF assms(1)]
  have t: "whole t" using ok assms(2) unfolding tasks_ok_def by blast
  have leave: "tasks_ok ?b (remove1 (i, t) waiting)"
    "granted_units (tb_granted b) waiting = units t + granted_units (tb_granted ?b) (remove1 (i, t) waiting)"
    using leave_granted [OF ok assms(2,3), of ?b] by simp_all
  have b: "?b = (b\<lparr>tb_inflight := f64_max (f64_sub (tb_inflight b) t) (F_fin 0),
       tb_tokens := f64_min (f64_add (tb_tokens b) t) (tb_capacity b)\<rparr>)\<lparr>tb_granted := tb_granted b - {i}\<rparr>"
    by simp
  have "sem cap (h + granted_units (tb_granted b) waiting - units t) s ?b"
    unfolding b sem_frame(1) using sem t by (rule sem_give_back) (use granted_le [OF assms(2,3)] in simp)
  then show ?thesis
    using leave(1) unfolding sem_tasks_def leave(2) by simp
qed

lemma remove_waiter_set:
  assumes "distinct (map tbw_id ws)"
  shows "set (remove_waiter i ws) = {x \<in> set ws. tbw_id x \<noteq> i}" "distinct (map tbw_id (remove_waiter i ws))"
proof -
  have "remove_waiter i ws = filter (\<lambda>x. tbw_id x \<noteq> i) ws"
    using assms
  proof (induction ws)
    case (Cons x ws)
    then show ?case
      by (auto simp: remove_waiter_def image_iff intro!: filter_True [symmetric])
  qed (simp add: remove_waiter_def)
  then show "set (remove_waiter i ws) = {x \<in> set ws. tbw_id x \<noteq> i}" "distinct (map tbw_id (remove_waiter i ws))"
    using assms by (simp_all add: distinct_map_filter)
qed

lemma dropped_queued_sem:
  assumes "sem_tasks cap h s waiting b" "(i, t) \<in> set waiting" "i \<notin> tb_granted b"
  shows "sem_tasks cap h s (remove1 (i, t) waiting) (b\<lparr>tb_waiters := remove_waiter i (tb_waiters b)\<rparr>)"
proof -
  let ?b = "b\<lparr>tb_waiters := remove_waiter i (tb_waiters b)\<rparr>"
  note sem = sem_tasks_parts(1) [OF assms(1)] and ok = sem_tasks_parts(2) [OF assms(1)]
  have d: "distinct (map tbw_id (tb_waiters b))" "distinct (map fst waiting)"
    using ok by (simp_all add: tasks_ok_def tb_ids_def)
  have "tasks_ok ?b (remove1 (i, t) waiting)"
    using ok assms(2,3) remove_waiter_set [OF d(1), of i] by (intro tasks_ok_remove [of b]) (auto simp: tb_ids_def)
  moreover have "granted_units (tb_granted b) (remove1 (i, t) waiting) = granted_units (tb_granted b) waiting"
    using granted_units_remove(1) [OF d(2) assms(2), of "tb_granted b"] assms(3) by simp
  moreover have "sem cap (h + granted_units (tb_granted b) waiting) s ?b"
    using sem remove_waiter_subset [of i "tb_waiters b"] by (auto simp: sem_def)
  ultimately show ?thesis
    by (simp add: sem_tasks_def)
qed

lemma dropped_sem:
  assumes "sem_world cap w" "(i, t) \<in> set (tw_waiting w)"
  shows "sem_world cap (w\<lparr>tw_bucket := tb_guard_drop i t (tw_bucket w), tw_waiting := remove1 (i, t) (tw_waiting w)\<rparr>)"
proof -
  let ?b = "tw_bucket w" and ?h = "sum_list (map units (tw_held w))"
  have st: "sem_tasks cap ?h (spent w) (tw_waiting w) ?b" using assms(1) by (simp add: sem_world_def)
  have "sem_tasks cap ?h (spent w) (remove1 (i, t) (tw_waiting w)) (tb_guard_drop i t ?b)
      \<and> front_blocked (tb_guard_drop i t ?b)"
  proof (cases "i \<in> tb_granted ?b")
    case True
    then show ?thesis
      using grant_tasks [OF dropped_granted_sem [OF st assms(2) True]] by (simp add: tb_guard_drop_def)
  next
    case False
    then have "\<exists>x \<in> set (tb_waiters ?b). tbw_id x = i"
      using sem_tasks_parts(2) [OF st] assms(2) unfolding tasks_ok_def tb_ids_def by fastforce
    then show ?thesis
      using grant_tasks [OF dropped_queued_sem [OF st assms(2) False]] False by (simp add: tb_guard_drop_def)
  qed
  then show ?thesis
    using assms(1) by (simp add: sem_world_def spent_def)
qed

lemma returned_sem:
  assumes "sem_world cap w" "t \<in> set (tw_held w)"
  shows "sem_world cap (w\<lparr>tw_bucket := return_tokens_sync t (tw_bucket w), tw_held := remove1 t (tw_held w)\<rparr>)"
proof -
  let ?b = "tw_bucket w" and ?h = "sum_list (map units (tw_held w))"
  let ?c = "?b\<lparr>tb_inflight := f64_max (f64_sub (tb_inflight ?b) t) (F_fin 0),
      tb_tokens := f64_min (f64_add (tb_tokens ?b) t) (tb_capacity ?b)\<rparr>"
  have st: "sem_tasks cap ?h (spent w) (tw_waiting w) ?b" and t: "whole t"
    using assms by (simp_all add: sem_world_def)
  note sem = sem_tasks_parts(1) [OF st]
  have h: "?h = units t + sum_list (map units (remove1 t (tw_held w)))"
    using assms(2) by (rule sum_list_map_remove1)
  have "sem cap (?h + granted_units (tb_granted ?b) (tw_waiting w) - units t) (spent w) ?c"
    using sem t by (rule sem_give_back) (simp add: h)
  moreover have "tasks_ok ?c (tw_waiting w)"
    using sem_tasks_parts(2) [OF st] tasks_ok_frame [of ?c ?b "tw_waiting w"] by simp
  ultimately have "sem_tasks cap (sum_list (map units (remove1 t (tw_held w)))) (spent w) (tw_waiting w) ?c"
    by (simp add: sem_tasks_def h)
  moreover have "return_tokens_sync t ?b = wake_front_locked (grant_waiters_locked ?c)"
    using sem by (simp add: return_tokens_sync_def Let_def sem_def)
  ultimately show ?thesis
    using assms(1) grant_tasks set_remove1_subset [of t "tw_held w"] by (auto simp: sem_world_def spent_def)
qed

lemma sem_reachable:
  assumes "(tb_step whole)\<^sup>*\<^sup>* (tb_world_new now capacity 0) w" "capacity < 2 ^ 52"
  shows "sem_world capacity w"
  using assms(1)
proof (induction rule: rtranclp_induct)
  case base
  have "f64_of_nat capacity = F_fin (of_nat capacity)" "f64_of_nat 0 = F_fin 0"
    using assms(2) f64_of_nat_exact [of capacity] f64_of_nat_exact [of 0] by simp_all
  then show ?case
    using assms(2)
    by (simp add: tb_world_new_def tb_new_def sem_world_def sem_tasks_def sem_def tasks_ok_def tb_ids_def
        front_blocked_def granted_units_def spent_def)
next
  case (step w w')
  from step.hyps(2) step.IH show ?case
    by cases (simp only: try_acquire_sem try_take_sem acquire_now_sem acquire_queued_sem acquired_sem
        still_waiting_sem dropped_sem returned_sem)+
qed

text \<open>C28. Without refill and with whole token amounts the bucket is an exact counting semaphore.
  In every schedule, cancellations included, the tokens in flight are those of the permits held
  and of the grants not yet collected, the budget is what is left of the capacity, and a waiter
  at the front of the queue asks for more than is left, so no wakeup is lost.\<close>

theorem token_bucket_is_semaphore:
  assumes "(tb_step whole)\<^sup>*\<^sup>* (tb_world_new now capacity 0) w" and "capacity < 2 ^ 52"
  shows "outstanding w + spent w \<le> capacity
    \<and> tb_inflight (tw_bucket w) = F_fin (of_nat (outstanding w))
    \<and> tb_tokens (tw_bucket w) = F_fin (of_nat (capacity - outstanding w - spent w))
    \<and> (case tb_waiters (tw_bucket w) of
         [] \<Rightarrow> True
       | front # _ \<Rightarrow> capacity - outstanding w - spent w < units (tbw_tokens front))"
proof -
  have w: "sem_world capacity w" using assms by (rule sem_reachable)
  then have sem: "sem capacity (outstanding w) (spent w) (tw_bucket w)"
    by (simp add: sem_world_def sem_tasks_def outstanding_def)
  have "capacity - outstanding w - spent w < units (tbw_tokens front)" if "tb_waiters (tw_bucket w) = front # rest" for front rest
  proof -
    have "\<not> admits_locked (tw_bucket w) (tbw_tokens front)" "whole (tbw_tokens front)"
      using w sem that by (simp_all add: sem_world_def front_blocked_def sem_def)
    then show ?thesis using sem_admits [OF sem] by simp
  qed
  then show ?thesis
    using sem by (auto simp: sem_def split: list.split)
qed

theorem token_bucket_is_semaphore_witness:
  "tb_tokens (tb_take (F_fin 1) (tw_bucket demo_bucket)) = F_fin 0"
proof -
  let ?w = "demo_bucket\<lparr>tw_bucket := tb_take (F_fin 1) (tw_bucket demo_bucket),
        tw_held := (if True then F_fin 1 # tw_held demo_bucket else tw_held demo_bucket)\<rparr>"
  have "whole (F_fin 1)" by (simp add: whole_def)
  then have "(tb_step whole)\<^sup>*\<^sup>* (tb_world_new 0 1 0) ?w"
    using tb_step.try_acquire [of whole, OF _ demo_bucket_steps] unfolding demo_bucket_def
    by (intro r_into_rtranclp) blast
  from token_bucket_is_semaphore [OF this] show ?thesis
    by (simp add: outstanding_def spent_def demo_bucket_def tb_world_new_def tb_new_def granted_units_def)
qed

end
