(* ===== verification/Tenant_Identity.thy ===== *)
theory Tenant_Identity
  imports Rust_Text
begin

text \<open>
  Who a request is charged to: the tenant keys of \<open>tenant/mod.rs\<close> and
  \<open>crates/external_router/src/tenant.rs\<close>, and their resolution in
  \<open>middleware/tenant_resolution.rs\<close>.

  A key is its text.  Parameters: the pieces in which an address is displayed
  (\<open>ip_pieces\<close>) and the parser of addresses (\<open>ip_parse\<close>), the decoding of a header value
  (\<open>to_str\<close>) and the lookup in the header map, which is a function of the header name.
\<close>

section \<open>Tenant keys\<close>

definition DEFAULT_TENANT_HEADER_NAME :: string where
  "DEFAULT_TENANT_HEADER_NAME = ''x-smg-tenant-tid''"

definition MAX_TENANT_ID_LEN :: nat where
  "MAX_TENANT_ID_LEN = 200"

definition HEX_DIGITS :: string where
  "HEX_DIGITS = ''0123456789abcdef''"

type_synonym tenant_key = string

datatype 'ip tenant_identity =
    Authenticated string
  | Header string
  | IpAddress 'ip
  | Anonymous
  | Explicit string

text \<open>The stack buffer: a write past the capacity fails and leaves the text as it was.\<close>

definition write_str :: "nat \<Rightarrow> string \<Rightarrow> string \<Rightarrow> string option" where
  "write_str capacity s text = (if length text + length s \<le> capacity then Some (text @ s) else None)"

fun write_all :: "nat \<Rightarrow> string list \<Rightarrow> string \<Rightarrow> string option" where
  "write_all capacity [] text = Some text"
| "write_all capacity (s # rest) text =
     (case write_str capacity s text of None \<Rightarrow> None | Some text' \<Rightarrow> write_all capacity rest text')"

definition prefixed_key :: "string \<Rightarrow> string list \<Rightarrow> tenant_key" where
  "prefixed_key prefix pieces =
     (case write_all 256 (prefix # pieces) [] of
        Some text \<Rightarrow> text
      | None \<Rightarrow> prefix @ concat pieces)"

fun into_key :: "('ip \<Rightarrow> string list) \<Rightarrow> 'ip tenant_identity \<Rightarrow> tenant_key" where
  "into_key ip_pieces (Authenticated tid) = prefixed_key ''auth:'' [tid]"
| "into_key ip_pieces (Header tid) = prefixed_key ''header:'' [tid]"
| "into_key ip_pieces (IpAddress addr) = prefixed_key ''ip:'' (ip_pieces addr)"
| "into_key ip_pieces Anonymous = ''anonymous''"
| "into_key ip_pieces (Explicit key) = key"

definition canonical_tenant_key :: "('ip \<Rightarrow> string list) \<Rightarrow> 'ip tenant_identity \<Rightarrow> tenant_key" where
  "canonical_tenant_key ip_pieces i = into_key ip_pieces i"

definition header_char :: "char \<Rightarrow> bool" where
  "header_char c \<longleftrightarrow> c = CHR 0x09 \<or> (0x20 \<le> (of_char c :: nat) \<and> (of_char c :: nat) \<le> 0x7e)"

definition is_canonical_serving_tenant_key ::
    "('ip \<Rightarrow> string list) \<Rightarrow> (string \<Rightarrow> 'ip option) \<Rightarrow> string \<Rightarrow> bool" where
  "is_canonical_serving_tenant_key ip_pieces ip_parse key =
     (if key = ''anonymous'' then True
      else case strip_prefix ''auth:'' key of
        Some tid \<Rightarrow> tid \<noteq> []
      | None \<Rightarrow>
          (case strip_prefix ''header:'' key of
             Some tid \<Rightarrow> tid \<noteq> [] \<and> trim tid = tid \<and> list_all header_char tid
           | None \<Rightarrow>
               (case strip_prefix ''ip:'' key of
                  Some addr \<Rightarrow>
                    (case ip_parse addr of None \<Rightarrow> False | Some parsed \<Rightarrow> concat (ip_pieces parsed) = addr)
                | None \<Rightarrow> False)))"

definition authenticated_tenant_key_from_sha256 :: "bytes \<Rightarrow> tenant_key" where
  "authenticated_tenant_key_from_sha256 hash =
     ''auth:'' @ concat (map (\<lambda>byte. [HEX_DIGITS ! unat (drop_bit 4 byte), HEX_DIGITS ! unat (byte mod 16)]) hash)"

datatype tenant_resolution_error = MissingTargetTenant

definition resolve_admin_target_tenant_key :: "string \<Rightarrow> tenant_resolution_error + tenant_key" where
  "resolve_admin_target_tenant_key key =
     (let key = trim key in if key = [] then Inl MissingTargetTenant else Inr key)"

section \<open>Request meta\<close>

record accepted_at =
  aa_at :: nat
  aa_spent :: bool

definition accepted_at_at :: "nat \<Rightarrow> accepted_at" where
  "accepted_at_at at = \<lparr>aa_at = at, aa_spent = False\<rparr>"

text \<open>The flag is shared by all copies of the stamp.\<close>

definition take_for_selection :: "accepted_at \<Rightarrow> accepted_at \<times> nat option" where
  "take_for_selection a = (a\<lparr>aa_spent := True\<rparr>, if aa_spent a then None else Some (aa_at a))"

text \<open>The two extensions a meta carries are fields.\<close>

record route_request_meta =
  rm_tenant_key :: tenant_key
  rm_request_charge_id :: u128
  rm_accepted_at :: "accepted_at option"
  rm_request_id :: "string option"

definition route_request_meta_new :: "u128 \<Rightarrow> tenant_key \<Rightarrow> route_request_meta" where
  "route_request_meta_new charge_id key =
     \<lparr>rm_tenant_key = key, rm_request_charge_id = charge_id, rm_accepted_at = None, rm_request_id = None\<rparr>"

definition storage_tenant :: "route_request_meta \<Rightarrow> string option" where
  "storage_tenant meta =
     (let key = rm_tenant_key meta
      in if starts_with ''auth:'' key \<or> starts_with ''header:'' key then Some key else None)"

definition meta_eq :: "route_request_meta \<Rightarrow> route_request_meta \<Rightarrow> bool" where
  "meta_eq a b \<longleftrightarrow> rm_tenant_key a = rm_tenant_key b \<and> rm_request_charge_id a = rm_request_charge_id b"

definition restamp_accepted_at :: "nat \<Rightarrow> route_request_meta option \<Rightarrow> route_request_meta option \<times> bool" where
  "restamp_accepted_at now ext =
     (case ext of
        Some meta \<Rightarrow> (Some (meta\<lparr>rm_accepted_at := Some (accepted_at_at now)\<rparr>), True)
      | None \<Rightarrow> (None, False))"

section \<open>Resolution\<close>

record tenant_resolution_state =
  trs_trust_tenant_header :: bool
  trs_trusted_tenant_header_name :: string

record 'ip tenant_request =
  tq_caller :: "tenant_key option"
  tq_headers :: "string \<Rightarrow> string option"
  tq_connect_info :: "'ip option"
  tq_request_id :: "string option"

definition extract_trusted_tenant_id ::
    "(string \<Rightarrow> string option) \<Rightarrow> tenant_resolution_state \<Rightarrow> (string \<Rightarrow> string option) \<Rightarrow> string option" where
  "extract_trusted_tenant_id to_str state headers =
     (case Option.bind (headers (trs_trusted_tenant_header_name state)) to_str of
        None \<Rightarrow> None
      | Some value \<Rightarrow> if trim value = [] then None else Some (trim value))"

datatype tenant_response = InvalidTenantHeader

definition resolve_raw_tenant_key ::
    "('ip \<Rightarrow> string list) \<Rightarrow> (string \<Rightarrow> string option) \<Rightarrow> tenant_resolution_state \<Rightarrow> 'ip tenant_request
     \<Rightarrow> tenant_response + tenant_key" where
  "resolve_raw_tenant_key ip_pieces to_str state request =
     (case tq_caller request of
        Some key \<Rightarrow> Inr key
      | None \<Rightarrow>
          (case (if trs_trust_tenant_header state
                 then extract_trusted_tenant_id to_str state (tq_headers request) else None) of
             Some tenant_id \<Rightarrow>
               if MAX_TENANT_ID_LEN < length tenant_id then Inl InvalidTenantHeader
               else Inr (canonical_tenant_key ip_pieces (Header tenant_id))
           | None \<Rightarrow>
               (case tq_connect_info request of
                  Some addr \<Rightarrow> Inr (canonical_tenant_key ip_pieces (IpAddress addr))
                | None \<Rightarrow> Inr (canonical_tenant_key ip_pieces Anonymous))))"

definition resolve_route_request_meta ::
    "('ip \<Rightarrow> string list) \<Rightarrow> (string \<Rightarrow> string option) \<Rightarrow> nat \<Rightarrow> u128 \<Rightarrow> tenant_resolution_state
     \<Rightarrow> 'ip tenant_request \<Rightarrow> tenant_response + route_request_meta" where
  "resolve_route_request_meta ip_pieces to_str now charge_id state request =
     (case resolve_raw_tenant_key ip_pieces to_str state request of
        Inl response \<Rightarrow> Inl response
      | Inr key \<Rightarrow>
          let meta = (route_request_meta_new charge_id key)\<lparr>rm_accepted_at := Some (accepted_at_at now)\<rparr>
          in Inr (case tq_request_id request of
                    Some request_id \<Rightarrow> meta\<lparr>rm_request_id := Some request_id\<rparr>
                  | None \<Rightarrow> meta))"

section \<open>Keys of serving requests\<close>

lemma write_all_Some: "write_all capacity ss text = Some t \<Longrightarrow> t = text @ concat ss"
  by (induction ss arbitrary: "text") (fastforce simp: write_str_def split: if_splits)+

lemma prefixed_key_text [simp]: "prefixed_key prefix pieces = prefix @ concat pieces"
  using write_all_Some [of 256 "prefix # pieces" "[]"]
  by (auto simp del: write_all.simps simp: prefixed_key_def split: option.split)

text \<open>The identities a serving request can have.\<close>

fun serving_identity :: "'ip tenant_identity \<Rightarrow> bool" where
  "serving_identity (Authenticated tid) \<longleftrightarrow> tid \<noteq> []"
| "serving_identity (Header tid) \<longleftrightarrow> tid \<noteq> [] \<and> trim tid = tid \<and> list_all header_char tid"
| "serving_identity (IpAddress addr) \<longleftrightarrow> True"
| "serving_identity Anonymous \<longleftrightarrow> True"
| "serving_identity (Explicit key) \<longleftrightarrow> False"

lemma key_prefixes:
  "is_canonical_serving_tenant_key ip_pieces ip_parse (''auth:'' @ tid) \<longleftrightarrow> tid \<noteq> []"
  "is_canonical_serving_tenant_key ip_pieces ip_parse (''header:'' @ tid)
     \<longleftrightarrow> tid \<noteq> [] \<and> trim tid = tid \<and> list_all header_char tid"
  "is_canonical_serving_tenant_key ip_pieces ip_parse (''ip:'' @ tid)
     \<longleftrightarrow> (case ip_parse tid of None \<Rightarrow> False | Some parsed \<Rightarrow> concat (ip_pieces parsed) = tid)"
  "is_canonical_serving_tenant_key ip_pieces ip_parse ''anonymous''"
  by (simp_all add: is_canonical_serving_tenant_key_def strip_prefix_def starts_with_def)

lemma canonical_iff:
  assumes "\<And>addr. ip_parse (concat (ip_pieces addr)) = Some addr"
  shows "is_canonical_serving_tenant_key ip_pieces ip_parse key
    \<longleftrightarrow> (\<exists>i. serving_identity i \<and> into_key ip_pieces i = key)"
proof
  assume canonical: "is_canonical_serving_tenant_key ip_pieces ip_parse key"
  show "\<exists>i. serving_identity i \<and> into_key ip_pieces i = key"
  proof (cases "key = ''anonymous''")
    case True
    then show ?thesis by (intro exI [of _ Anonymous]) simp
  next
    case False
    then consider tid where "key = ''auth:'' @ tid" "tid \<noteq> []"
      | tid where "key = ''header:'' @ tid" "tid \<noteq> []" "trim tid = tid" "list_all header_char tid"
      | addr where "key = ''ip:'' @ concat (ip_pieces addr)"
      using canonical unfolding is_canonical_serving_tenant_key_def
      by (auto simp: strip_prefix_None split: option.splits)
    then show ?thesis
    proof cases
      case (1 tid)
      then show ?thesis by (intro exI [of _ "Authenticated tid"]) simp
    next
      case (2 tid)
      then show ?thesis by (intro exI [of _ "Header tid"]) simp
    next
      case (3 addr)
      then show ?thesis by (intro exI [of _ "IpAddress addr"]) simp
    qed
  qed
next
  assume "\<exists>i. serving_identity i \<and> into_key ip_pieces i = key"
  then obtain i where "serving_identity i" "into_key ip_pieces i = key" by blast
  then show "is_canonical_serving_tenant_key ip_pieces ip_parse key"
    by (cases i; hypsubst; simp add: key_prefixes assms del: append_Cons append_Nil)
qed

text \<open>A resolved key is canonical when the keys of authenticated callers are.\<close>

lemma resolved_key_canonical:
  assumes "\<And>addr. ip_parse (concat (ip_pieces addr)) = Some addr"
    and "\<And>v t. to_str v = Some t \<Longrightarrow> list_all header_char t"
    and "\<And>k. tq_caller request = Some k \<Longrightarrow> is_canonical_serving_tenant_key ip_pieces ip_parse k"
    and res: "resolve_raw_tenant_key ip_pieces to_str state request = Inr key"
  shows "is_canonical_serving_tenant_key ip_pieces ip_parse key"
proof (cases "tq_caller request")
  case None
  have header: "serving_identity (Header tid :: 'a tenant_identity)"
    if "extract_trusted_tenant_id to_str state (tq_headers request) = Some tid" for tid
    using that assms(2) trim_set
    by (fastforce simp: extract_trusted_tenant_id_def list_all_iff Option.bind_eq_Some_conv split: option.splits if_splits)
  have "\<exists>i. serving_identity i \<and> into_key ip_pieces i = key"
  proof (cases "if trs_trust_tenant_header state
               then extract_trusted_tenant_id to_str state (tq_headers request) else None")
    case (Some tid)
    then have "serving_identity (Header tid :: 'a tenant_identity)" "into_key ip_pieces (Header tid) = key"
      using res None header [of tid]
      by (auto simp: resolve_raw_tenant_key_def canonical_tenant_key_def split: if_splits)
    then show ?thesis by blast
  next
    case none: None
    then have "(\<exists>addr. into_key ip_pieces (IpAddress addr) = key) \<or> into_key ip_pieces Anonymous = key"
      using res None by (auto simp: resolve_raw_tenant_key_def canonical_tenant_key_def split: option.splits)
    then show ?thesis by (metis serving_identity.simps(3,4))
  qed
  then show ?thesis by (simp add: canonical_iff assms(1))
qed (use res assms(3) in \<open>simp add: resolve_raw_tenant_key_def\<close>)

text \<open>Addresses of one text, for concrete requests.\<close>

definition demo_ip_parse :: "string \<Rightarrow> unit option" where
  "demo_ip_parse s = (if s = ''::1'' then Some () else None)"

definition demo_to_str :: "string \<Rightarrow> string option" where
  "demo_to_str v = (if list_all header_char v then Some v else None)"

text \<open>A key the test lets through although no request resolves to it: an id over the length limit
  in a header is refused.\<close>

lemma overlong_header_key:
  assumes "trs_trust_tenant_header state" "tq_caller request = None"
    and "tq_headers request (trs_trusted_tenant_header_name state) = Some v" "to_str v = Some t"
    and "200 < length (trim t)"
  shows "resolve_raw_tenant_key ip_pieces to_str state request = Inl InvalidTenantHeader"
    and "list_all header_char t \<Longrightarrow>
      is_canonical_serving_tenant_key ip_pieces ip_parse (into_key ip_pieces (Header (trim t)))"
proof -
  have "trim t \<noteq> []" using assms(5) by auto
  then show "resolve_raw_tenant_key ip_pieces to_str state request = Inl InvalidTenantHeader"
    using assms by (simp add: resolve_raw_tenant_key_def extract_trusted_tenant_id_def MAX_TENANT_ID_LEN_def)
  show "is_canonical_serving_tenant_key ip_pieces ip_parse (into_key ip_pieces (Header (trim t)))"
    if "list_all header_char t"
    using that \<open>trim t \<noteq> []\<close> trim_set [of t] by (auto simp: key_prefixes list_all_iff simp del: append_Cons append_Nil)
qed

text \<open>The acceptance stamp bounds one selection only.\<close>

lemma stamp_taken_once:
  "snd (take_for_selection (fst (take_for_selection a))) = None"
  by (simp add: take_for_selection_def)

lemma storage_tenant_vouched:
  assumes "storage_tenant meta = Some key" "into_key ip_pieces i = rm_tenant_key meta" "serving_identity i"
  shows "key = rm_tenant_key meta \<and> ((\<exists>tid. i = Authenticated tid) \<or> (\<exists>tid. i = Header tid))"
  using assms by (cases i) (auto simp: storage_tenant_def Let_def starts_with_def split: if_splits)

end
