(* ===== verification/Tenant_Policy.thy ===== *)
theory Tenant_Policy
  imports Tenant_Identity
begin

text \<open>
  The tenant rate-limit policies: \<open>rate_limit/config.rs\<close> (the file's shape and its
  validation) and \<open>rate_limit/policy.rs\<close> (compilation and lookup).  The YAML parser is not
  modelled: a policy file is its parsed value.  The tables the validation builds are
  association lists; the test for canonical tenant keys is a parameter, instantiated by
  \<open>is_canonical_serving_tenant_key\<close>.
\<close>

section \<open>Policy files\<close>

datatype model_matcher_spec = Exact string | Prefix string

record model_rule_spec =
  mrs_rule_id :: string
  mrs_matcher :: model_matcher_spec
  mrs_tokens_per_minute :: u32
  mrs_requests_per_minute :: u32

record tenant_policy_spec =
  tps_tenant_key :: "string option"
  tps_tokens_per_minute :: u32
  tps_requests_per_minute :: u32
  tps_model_rules :: "model_rule_spec list"

record rate_limit_yaml =
  ry_default_policy :: tenant_policy_spec
  ry_tenants :: "tenant_policy_spec list"

datatype rate_limit_config_error =
    DefaultPolicyHasTenantKey
  | MissingTenantKey nat
  | DuplicateTenantKey string
  | PaddedTenantKey string
  | NonCanonicalTenantKey string
  | ZeroTokensPerMinute string
  | ZeroRequestsPerMinute string
  | InvalidRuleId string string
  | DuplicateRuleId string string
  | ZeroRuleTokensPerMinute string string
  | ZeroRuleRequestsPerMinute string string
  | EmptyMatcherValue string string
  | PaddedMatcherValue string string string
  | DuplicateMatcher string string string

definition is_ascii_alphanumeric :: "char \<Rightarrow> bool" where
  "is_ascii_alphanumeric c \<longleftrightarrow>
     CHR ''A'' \<le> c \<and> c \<le> CHR ''Z'' \<or> CHR ''a'' \<le> c \<and> c \<le> CHR ''z'' \<or> CHR ''0'' \<le> c \<and> c \<le> CHR ''9''"

definition is_valid_rule_id :: "string \<Rightarrow> bool" where
  "is_valid_rule_id s \<longleftrightarrow>
     s \<noteq> [] \<and> list_all (\<lambda>c. is_ascii_alphanumeric c \<or> c = CHR ''.'' \<or> c = CHR ''_'' \<or> c = CHR ''-'') s"

fun matcher_value :: "model_matcher_spec \<Rightarrow> string" where
  "matcher_value (Exact v) = v"
| "matcher_value (Prefix v) = v"

text \<open>The loop over the rules; \<open>exact\<close> and \<open>prefix\<close> map a matcher value to the rule that has it.\<close>

fun validate_rules ::
    "string \<Rightarrow> string list \<Rightarrow> (string \<times> string) list \<Rightarrow> (string \<times> string) list \<Rightarrow> model_rule_spec list
     \<Rightarrow> rate_limit_config_error + unit" where
  "validate_rules label ids exact prefix [] = Inr ()"
| "validate_rules label ids exact prefix (rule # rules) =
     (let rule_id = mrs_rule_id rule; value = matcher_value (mrs_matcher rule)
      in if \<not> is_valid_rule_id rule_id then Inl (InvalidRuleId label rule_id)
         else if rule_id \<in> set ids then Inl (DuplicateRuleId label rule_id)
         else if mrs_tokens_per_minute rule = 0 then Inl (ZeroRuleTokensPerMinute label rule_id)
         else if mrs_requests_per_minute rule = 0 then Inl (ZeroRuleRequestsPerMinute label rule_id)
         else if trim value = [] then Inl (EmptyMatcherValue label rule_id)
         else if trim value \<noteq> value then Inl (PaddedMatcherValue label rule_id value)
         else case map_of (case mrs_matcher rule of Exact _ \<Rightarrow> exact | Prefix _ \<Rightarrow> prefix) value of
                Some other_rule_id \<Rightarrow> Inl (DuplicateMatcher label rule_id other_rule_id)
              | None \<Rightarrow>
                  (case mrs_matcher rule of
                     Exact _ \<Rightarrow>
                       validate_rules label (rule_id # ids) (AList.update value rule_id exact) prefix rules
                   | Prefix _ \<Rightarrow>
                       validate_rules label (rule_id # ids) exact (AList.update value rule_id prefix) rules))"

definition validate_policy :: "string \<Rightarrow> tenant_policy_spec \<Rightarrow> rate_limit_config_error + unit" where
  "validate_policy label spec =
     (if tps_tokens_per_minute spec = 0 then Inl (ZeroTokensPerMinute label)
      else if tps_requests_per_minute spec = 0 then Inl (ZeroRequestsPerMinute label)
      else validate_rules label [] [] [] (tps_model_rules spec))"

fun validate_tenants ::
    "(string \<Rightarrow> bool) \<Rightarrow> nat \<Rightarrow> string list \<Rightarrow> tenant_policy_spec list \<Rightarrow> rate_limit_config_error + unit" where
  "validate_tenants canonical index seen [] = Inr ()"
| "validate_tenants canonical index seen (spec # specs) =
     (case tps_tenant_key spec of
        None \<Rightarrow> Inl (MissingTenantKey index)
      | Some tenant_key \<Rightarrow>
          if trim tenant_key = [] then Inl (MissingTenantKey index)
          else if trim tenant_key \<noteq> tenant_key then Inl (PaddedTenantKey tenant_key)
          else if \<not> canonical tenant_key then Inl (NonCanonicalTenantKey tenant_key)
          else if tenant_key \<in> set seen then Inl (DuplicateTenantKey tenant_key)
          else case validate_policy tenant_key spec of
                 Inl e \<Rightarrow> Inl e
               | Inr _ \<Rightarrow> validate_tenants canonical (Suc index) (tenant_key # seen) specs)"

definition yaml_validate :: "(string \<Rightarrow> bool) \<Rightarrow> rate_limit_yaml \<Rightarrow> rate_limit_config_error + unit" where
  "yaml_validate canonical yaml =
     (if tps_tenant_key (ry_default_policy yaml) \<noteq> None then Inl DefaultPolicyHasTenantKey
      else case validate_policy ''default'' (ry_default_policy yaml) of
             Inl e \<Rightarrow> Inl e
           | Inr _ \<Rightarrow> validate_tenants canonical 0 [] (ry_tenants yaml))"

section \<open>Compiled policies\<close>

record scope_limits =
  sl_tokens_per_minute :: u32
  sl_requests_per_minute :: u32

record compiled_model_rule =
  cmr_rule_id :: string
  cmr_limits :: scope_limits

record compiled_prefix_rule =
  cpr_prefix :: string
  cpr_rule :: compiled_model_rule

record compiled_tenant_policy =
  ctp_limits :: scope_limits
  ctp_exact_model_rules :: "(string \<times> compiled_model_rule) list"
  ctp_prefix_model_rules :: "compiled_prefix_rule list"

definition matching_rule :: "compiled_tenant_policy \<Rightarrow> string \<Rightarrow> compiled_model_rule option" where
  "matching_rule p model_id =
     (case map_of (ctp_exact_model_rules p) model_id of
        Some exact \<Rightarrow> Some exact
      | None \<Rightarrow>
          map_option cpr_rule (find (\<lambda>r. starts_with (cpr_prefix r) model_id) (ctp_prefix_model_rules p)))"

definition compile_rule :: "model_rule_spec \<Rightarrow> compiled_model_rule" where
  "compile_rule r =
     \<lparr>cmr_rule_id = mrs_rule_id r,
      cmr_limits = \<lparr>sl_tokens_per_minute = mrs_tokens_per_minute r,
                    sl_requests_per_minute = mrs_requests_per_minute r\<rparr>\<rparr>"

fun compile_rules ::
    "model_rule_spec list \<Rightarrow> (string \<times> compiled_model_rule) list \<Rightarrow> compiled_prefix_rule list
     \<Rightarrow> (string \<times> compiled_model_rule) list \<times> compiled_prefix_rule list" where
  "compile_rules [] exact prefix = (exact, prefix)"
| "compile_rules (r # rs) exact prefix =
     (case mrs_matcher r of
        Exact value \<Rightarrow> compile_rules rs (AList.update value (compile_rule r) exact) prefix
      | Prefix value \<Rightarrow>
          compile_rules rs exact (prefix @ [\<lparr>cpr_prefix = value, cpr_rule = compile_rule r\<rparr>]))"

definition compile_policy :: "tenant_policy_spec \<Rightarrow> compiled_tenant_policy" where
  "compile_policy spec =
     (case compile_rules (tps_model_rules spec) [] [] of (exact, prefix) \<Rightarrow>
        \<lparr>ctp_limits = \<lparr>sl_tokens_per_minute = tps_tokens_per_minute spec,
                       sl_requests_per_minute = tps_requests_per_minute spec\<rparr>,
         ctp_exact_model_rules = exact,
         ctp_prefix_model_rules = sort_key (\<lambda>r. - int (length (cpr_prefix r))) prefix\<rparr>)"

record compiled_policy_set =
  cps_default :: compiled_tenant_policy
  cps_tenants :: "(tenant_key \<times> compiled_tenant_policy) list"

fun compile_tenants :: "tenant_policy_spec list \<Rightarrow> (tenant_key \<times> compiled_tenant_policy) list
    \<Rightarrow> (tenant_key \<times> compiled_tenant_policy) list" where
  "compile_tenants [] acc = acc"
| "compile_tenants (spec # specs) acc =
     (case tps_tenant_key spec of
        None \<Rightarrow> compile_tenants specs acc
      | Some k \<Rightarrow> compile_tenants specs (AList.update k (compile_policy spec) acc))"

definition compile_policies ::
    "(string \<Rightarrow> bool) \<Rightarrow> rate_limit_yaml \<Rightarrow> rate_limit_config_error + compiled_policy_set" where
  "compile_policies canonical yaml =
     (case yaml_validate canonical yaml of
        Inl e \<Rightarrow> Inl e
      | Inr _ \<Rightarrow> Inr \<lparr>cps_default = compile_policy (ry_default_policy yaml),
                       cps_tenants = compile_tenants (ry_tenants yaml) []\<rparr>)"

definition policy_for :: "compiled_policy_set \<Rightarrow> tenant_key \<Rightarrow> compiled_tenant_policy" where
  "policy_for ps tenant = (case map_of (cps_tenants ps) tenant of Some p \<Rightarrow> p | None \<Rightarrow> cps_default ps)"

section \<open>What validation accepts\<close>

definition rule_ok :: "model_rule_spec \<Rightarrow> bool" where
  "rule_ok r \<longleftrightarrow>
     is_valid_rule_id (mrs_rule_id r) \<and> mrs_tokens_per_minute r \<noteq> 0 \<and> mrs_requests_per_minute r \<noteq> 0
     \<and> matcher_value (mrs_matcher r) \<noteq> [] \<and> trim (matcher_value (mrs_matcher r)) = matcher_value (mrs_matcher r)"

definition rules_ok :: "model_rule_spec list \<Rightarrow> bool" where
  "rules_ok rules \<longleftrightarrow>
     list_all rule_ok rules \<and> distinct (map mrs_rule_id rules) \<and> distinct (map mrs_matcher rules)"

definition policy_ok :: "tenant_policy_spec \<Rightarrow> bool" where
  "policy_ok spec \<longleftrightarrow>
     tps_tokens_per_minute spec \<noteq> 0 \<and> tps_requests_per_minute spec \<noteq> 0 \<and> rules_ok (tps_model_rules spec)"

definition yaml_ok :: "(string \<Rightarrow> bool) \<Rightarrow> rate_limit_yaml \<Rightarrow> bool" where
  "yaml_ok canonical yaml \<longleftrightarrow>
     tps_tenant_key (ry_default_policy yaml) = None \<and> policy_ok (ry_default_policy yaml)
     \<and> distinct (map tps_tenant_key (ry_tenants yaml))
     \<and> list_all (\<lambda>spec. policy_ok spec
          \<and> (case tps_tenant_key spec of None \<Rightarrow> False | Some k \<Rightarrow> k \<noteq> [] \<and> trim k = k \<and> canonical k))
         (ry_tenants yaml)"

fun matcher_seen :: "(string \<times> string) list \<Rightarrow> (string \<times> string) list \<Rightarrow> model_matcher_spec \<Rightarrow> bool" where
  "matcher_seen exact prefix (Exact v) \<longleftrightarrow> v \<in> fst ` set exact"
| "matcher_seen exact prefix (Prefix v) \<longleftrightarrow> v \<in> fst ` set prefix"

lemma validate_rules_iff:
  "validate_rules label ids exact prefix rules = Inr () \<longleftrightarrow>
     rules_ok rules \<and> set ids \<inter> mrs_rule_id ` set rules = {}
     \<and> (\<forall>r \<in> set rules. \<not> matcher_seen exact prefix (mrs_matcher r))"
proof (induction rules arbitrary: ids exact prefix)
  case Nil
  show ?case by (simp add: rules_ok_def)
next
  case (Cons r rules)
  show ?case
  proof (cases "mrs_matcher r")
    case (Exact v)
    have seen: "matcher_seen (AList.update v i exact) prefix m \<longleftrightarrow> m = Exact v \<or> matcher_seen exact prefix m" for i m
      by (cases m) (auto simp: dom_update_keys)
    have "v \<in> fst ` set exact \<longleftrightarrow> map_of exact v \<noteq> None"
      by (simp add: map_of_eq_None_iff)
    then show ?thesis
      by (auto simp: Exact Cons.IH seen rules_ok_def rule_ok_def Let_def image_iff split: option.split)
  next
    case (Prefix v)
    have seen: "matcher_seen exact (AList.update v i prefix) m \<longleftrightarrow> m = Prefix v \<or> matcher_seen exact prefix m" for i m
      by (cases m) (auto simp: dom_update_keys)
    have "v \<in> fst ` set prefix \<longleftrightarrow> map_of prefix v \<noteq> None"
      by (simp add: map_of_eq_None_iff)
    then show ?thesis
      by (auto simp: Prefix Cons.IH seen rules_ok_def rule_ok_def Let_def image_iff split: option.split)
  qed
qed

lemma matcher_seen_empty [simp]: "\<not> matcher_seen [] [] m"
  by (cases m) simp_all

lemma validate_policy_iff: "validate_policy label spec = Inr () \<longleftrightarrow> policy_ok spec"
  by (simp add: validate_policy_def policy_ok_def validate_rules_iff)

lemma validate_tenants_iff:
  "validate_tenants canonical index seen specs = Inr () \<longleftrightarrow>
     distinct (map tps_tenant_key specs) \<and> Some ` set seen \<inter> tps_tenant_key ` set specs = {}
     \<and> list_all (\<lambda>spec. policy_ok spec
          \<and> (case tps_tenant_key spec of None \<Rightarrow> False | Some k \<Rightarrow> k \<noteq> [] \<and> trim k = k \<and> canonical k)) specs"
proof (induction specs arbitrary: index seen)
  case (Cons spec specs)
  show ?case
  proof (cases "tps_tenant_key spec")
    case (Some k)
    have "validate_policy k spec = Inr u \<longleftrightarrow> policy_ok spec" for u
      using validate_policy_iff [of k spec] by simp
    then show ?thesis
      by (cases "validate_policy k spec") (auto simp: Some Cons.IH image_iff)
  qed simp
qed simp

lemma yaml_validate_iff: "yaml_validate canonical yaml = Inr () \<longleftrightarrow> yaml_ok canonical yaml"
proof -
  have "validate_policy ''default'' (ry_default_policy yaml) = Inr u \<longleftrightarrow> policy_ok (ry_default_policy yaml)" for u
    using validate_policy_iff [of "''default''" "ry_default_policy yaml"] by simp
  then show ?thesis
    by (cases "validate_policy ''default'' (ry_default_policy yaml)")
      (auto simp: yaml_validate_def yaml_ok_def validate_tenants_iff)
qed


section \<open>Which rule applies\<close>

text \<open>An exact rule for the model, else the rule of the longest prefix that starts it.\<close>

definition best_rule :: "model_rule_spec set \<Rightarrow> string \<Rightarrow> model_rule_spec \<Rightarrow> bool" where
  "best_rule rules model r \<longleftrightarrow>
     r \<in> rules
     \<and> (mrs_matcher r = Exact model
        \<or> (\<exists>p. mrs_matcher r = Prefix p \<and> starts_with p model
             \<and> (\<forall>q \<in> rules. mrs_matcher q \<noteq> Exact model)
             \<and> (\<forall>q \<in> rules. \<forall>p'. mrs_matcher q = Prefix p' \<longrightarrow> starts_with p' model \<longrightarrow> q \<noteq> r
                  \<longrightarrow> length p' < length p)))"

lemma compile_rules_exact:
  assumes "distinct (map mrs_matcher rules)"
    and "\<And>v. v \<in> fst ` set exact \<Longrightarrow> Exact v \<notin> mrs_matcher ` set rules"
  shows "map_of (fst (compile_rules rules exact prefix)) m = Some c \<longleftrightarrow>
     map_of exact m = Some c \<or> (\<exists>r \<in> set rules. mrs_matcher r = Exact m \<and> c = compile_rule r)"
  using assms
proof (induction rules arbitrary: exact prefix)
  case (Cons r rules)
  show ?case
  proof (cases "mrs_matcher r")
    case (Exact v)
    have "map_of (fst (compile_rules rules (AList.update v (compile_rule r) exact) prefix)) m = Some c \<longleftrightarrow>
        map_of (AList.update v (compile_rule r) exact) m = Some c
        \<or> (\<exists>q \<in> set rules. mrs_matcher q = Exact m \<and> c = compile_rule q)"
      using Cons.prems Exact by (intro Cons.IH) (auto simp: dom_update_keys)
    moreover have "map_of exact v = None"
      using Cons.prems(2) [of v] Exact by (auto simp: map_of_eq_None_iff)
    ultimately show ?thesis
      using Cons.prems(1) Exact by (auto simp: image_iff)
  next
    case (Prefix v)
    have "map_of (fst (compile_rules rules exact (prefix @ [\<lparr>cpr_prefix = v, cpr_rule = compile_rule r\<rparr>]))) m = Some c \<longleftrightarrow>
        map_of exact m = Some c \<or> (\<exists>q \<in> set rules. mrs_matcher q = Exact m \<and> c = compile_rule q)"
      using Cons.prems by (intro Cons.IH) auto
    then show ?thesis
      using Prefix by simp
  qed
qed simp

lemma compile_rules_prefix:
  "set (snd (compile_rules rules exact prefix))
   = set prefix \<union> {\<lparr>cpr_prefix = p, cpr_rule = compile_rule r\<rparr> | r p. r \<in> set rules \<and> mrs_matcher r = Prefix p}"
  by (induction rules arbitrary: exact prefix) (auto split: model_matcher_spec.splits)

lemma find_sorted:
  assumes "sorted (map f xs)" "find P xs = Some x"
  shows "x \<in> set xs \<and> P x \<and> (\<forall>y \<in> set xs. P y \<longrightarrow> f x \<le> f y)"
  using assms by (induction xs) (auto split: if_splits)

lemma starts_with_same_length: "starts_with p m \<Longrightarrow> starts_with q m \<Longrightarrow> length p = length q \<Longrightarrow> p = q"
  by (metis starts_with_def)

lemma matcher_inj:
  "distinct (map mrs_matcher rules) \<Longrightarrow> r \<in> set rules \<Longrightarrow> q \<in> set rules \<Longrightarrow> mrs_matcher r = mrs_matcher q \<Longrightarrow> r = q"
  by (metis distinct_map inj_onD)

lemma best_rule_unique:
  assumes "distinct (map mrs_matcher rules)" "best_rule (set rules) m r" "best_rule (set rules) m q"
  shows "r = q"
proof (rule ccontr)
  assume ne: "r \<noteq> q"
  have in_rules: "r \<in> set rules" "q \<in> set rules"
    using assms(2,3) by (simp_all add: best_rule_def)
  have "mrs_matcher r \<noteq> mrs_matcher q"
    using ne in_rules matcher_inj [OF assms(1)] by blast
  then obtain p p' where "mrs_matcher r = Prefix p" "mrs_matcher q = Prefix p'"
    "length p' < length p" "length p < length p'"
    using assms(2,3) in_rules ne unfolding best_rule_def by metis
  then show False by simp
qed

lemma matching_rule_iff:
  assumes "distinct (map mrs_matcher (tps_model_rules spec))"
  shows "matching_rule (compile_policy spec) m = Some c
    \<longleftrightarrow> (\<exists>r. best_rule (set (tps_model_rules spec)) m r \<and> c = compile_rule r)"
proof -
  let ?rules = "tps_model_rules spec"
  define exact prefix where "exact = fst (compile_rules ?rules [] [])"
    and "prefix = sort_key (\<lambda>r. - int (length (cpr_prefix r))) (snd (compile_rules ?rules [] []))"
  have policy: "ctp_exact_model_rules (compile_policy spec) = exact"
    "ctp_prefix_model_rules (compile_policy spec) = prefix"
    by (simp_all add: compile_policy_def exact_def prefix_def split: prod.split)
  have exact: "map_of exact m = Some c \<longleftrightarrow> (\<exists>r \<in> set ?rules. mrs_matcher r = Exact m \<and> c = compile_rule r)" for c
    unfolding exact_def by (subst compile_rules_exact) (use assms in auto)
  have prefix: "set prefix = {\<lparr>cpr_prefix = p, cpr_rule = compile_rule r\<rparr> | r p. r \<in> set ?rules \<and> mrs_matcher r = Prefix p}"
    by (simp add: prefix_def compile_rules_prefix)
  show ?thesis
  proof (cases "\<exists>r \<in> set ?rules. mrs_matcher r = Exact m")
    case True
    then obtain r where r: "r \<in> set ?rules" "mrs_matcher r = Exact m" by blast
    then have "map_of exact m = Some (compile_rule r)" using exact by blast
    moreover have "best_rule (set ?rules) m q \<longleftrightarrow> q = r" for q
      using r best_rule_unique [OF assms, of m r q] unfolding best_rule_def by auto
    ultimately show ?thesis
      by (auto simp: matching_rule_def policy)
  next
    case no: False
    then have none: "map_of exact m = None" using exact by (metis not_Some_eq)
    show ?thesis
    proof (cases "find (\<lambda>r. starts_with (cpr_prefix r) m) prefix")
      case None
      then have "\<not> best_rule (set ?rules) m r" for r
        using no prefix unfolding best_rule_def find_None_iff by force
      then show ?thesis
        using None none by (simp add: matching_rule_def policy)
    next
      case (Some x)
      have "sorted (map (\<lambda>r. - int (length (cpr_prefix r))) prefix)"
        by (simp add: prefix_def)
      from find_sorted [OF this Some] obtain r p where
        r: "r \<in> set ?rules" "mrs_matcher r = Prefix p" "x = \<lparr>cpr_prefix = p, cpr_rule = compile_rule r\<rparr>" "starts_with p m"
        and longest: "\<forall>y \<in> set prefix. starts_with (cpr_prefix y) m \<longrightarrow> length (cpr_prefix y) \<le> length p"
        using prefix by auto
      have "length p' < length p" if "q \<in> set ?rules" "mrs_matcher q = Prefix p'" "starts_with p' m" "q \<noteq> r" for q p'
      proof -
        have "length p' \<le> length p" using longest that prefix by force
        moreover have "p' \<noteq> p" using matcher_inj [OF assms that(1) r(1)] that r(2) by metis
        ultimately show ?thesis using starts_with_same_length [OF that(3) r(4)] by linarith
      qed
      then have best: "best_rule (set ?rules) m r"
        using r no unfolding best_rule_def by blast
      have "matching_rule (compile_policy spec) m = Some (compile_rule r)"
        using Some none r(3) by (simp add: matching_rule_def policy)
      moreover have "best_rule (set ?rules) m q \<longleftrightarrow> q = r" for q
        using best best_rule_unique [OF assms, of m q r] by blast
      ultimately show ?thesis by auto
    qed
  qed
qed

lemma option_eqI: "(\<And>c. x = Some c \<longleftrightarrow> y = Some c) \<Longrightarrow> x = y"
  by (cases x; cases y) auto

text \<open>C33. For a valid policy the compiled lookup finds the one rule that applies to a model, an
  exact rule before any prefix and among prefixes the longest, and finds none when no rule
  applies; the order of the rules in the file does not matter.\<close>

theorem rule_choice:
  assumes "validate_policy label spec = Inr ()"
  shows "(matching_rule (compile_policy spec) model = Some c
           \<longleftrightarrow> (\<exists>r. best_rule (set (tps_model_rules spec)) model r \<and> c = compile_rule r))
    \<and> (mset rules = mset (tps_model_rules spec)
       \<longrightarrow> matching_rule (compile_policy (spec\<lparr>tps_model_rules := rules\<rparr>)) model
           = matching_rule (compile_policy spec) model)"
proof -
  have d: "distinct (map mrs_matcher (tps_model_rules spec))"
    using assms by (simp add: validate_policy_iff policy_ok_def rules_ok_def)
  have "matching_rule (compile_policy (spec\<lparr>tps_model_rules := rules\<rparr>)) model = matching_rule (compile_policy spec) model"
    if m: "mset rules = mset (tps_model_rules spec)"
  proof -
    have "mset (map mrs_matcher rules) = mset (map mrs_matcher (tps_model_rules spec))"
      using m by simp
    then have "distinct (map mrs_matcher rules)"
      using d mset_eq_imp_distinct_iff by blast
    moreover have "set rules = set (tps_model_rules spec)"
      using m by (rule mset_eq_setD)
    ultimately have "matching_rule (compile_policy (spec\<lparr>tps_model_rules := rules\<rparr>)) model = Some c
        \<longleftrightarrow> matching_rule (compile_policy spec) model = Some c" for c
      using matching_rule_iff [OF d] matching_rule_iff [of "spec\<lparr>tps_model_rules := rules\<rparr>"] by simp
    then show ?thesis by (rule option_eqI)
  qed
  then show ?thesis
    using matching_rule_iff [OF d] by blast
qed

definition demo_rule :: "string \<Rightarrow> model_matcher_spec \<Rightarrow> model_rule_spec" where
  "demo_rule i m = \<lparr>mrs_rule_id = i, mrs_matcher = m, mrs_tokens_per_minute = 10, mrs_requests_per_minute = 2\<rparr>"

definition demo_policy :: tenant_policy_spec where
  "demo_policy =
     \<lparr>tps_tenant_key = None, tps_tokens_per_minute = 100, tps_requests_per_minute = 5,
      tps_model_rules = [demo_rule ''a'' (Prefix ''gpt''), demo_rule ''b'' (Prefix ''gpt-4'')]\<rparr>"

theorem rule_choice_witness:
  "\<exists>c. matching_rule (compile_policy demo_policy) ''gpt-4o'' = Some c \<and> cmr_rule_id c = ''b''"
proof -
  have "validate_policy ''t'' demo_policy = Inr ()"
    by (simp add: demo_policy_def demo_rule_def validate_policy_def is_valid_rule_id_def
        is_ascii_alphanumeric_def trim_def is_space_def less_eq_char_def)
  moreover have "best_rule (set (tps_model_rules demo_policy)) ''gpt-4o'' (demo_rule ''b'' (Prefix ''gpt-4''))"
    by (simp add: best_rule_def demo_policy_def demo_rule_def starts_with_def)
  ultimately have "matching_rule (compile_policy demo_policy) ''gpt-4o''
      = Some (compile_rule (demo_rule ''b'' (Prefix ''gpt-4'')))"
    using rule_choice [of "''t''" demo_policy "''gpt-4o''" "compile_rule (demo_rule ''b'' (Prefix ''gpt-4''))"] by blast
  then show ?thesis
    by (simp add: compile_rule_def demo_rule_def)
qed

end
