(* ===== verification/Tenant_Limits.thy ===== *)
theory Tenant_Limits
  imports Tenant_Policy Rust_Float
begin

text \<open>
  The tenant rate limiter: \<open>rate_limit/bucket.rs\<close>, \<open>local_backend.rs\<close>, \<open>reservation.rs\<close>,
  \<open>manager.rs\<close> and \<open>rejection.rs\<close>.

  A bucket shared by the backend's map and by reservations (\<open>Arc\<close>) is an address into a store,
  and the strong count of an \<open>Arc\<close> is counted over the map and the reservations.  A call is one
  atomic step that reads one time, in nanoseconds.  The task that repeats the sweep is not
  modelled; what it runs is.
\<close>

section \<open>Scope buckets\<close>

record scope_dry_run =
  sdr_allowed :: bool
  sdr_retry_after_secs :: u64

record scope_bucket =
  sb_available_tokens :: f64
  sb_available_requests :: f64
  sb_last_refill :: nat
  sb_token_capacity :: f64
  sb_token_refill_per_sec :: f64
  sb_request_capacity :: f64
  sb_request_refill_per_sec :: f64
  sb_created_at :: nat
  sb_last_touched_ns :: u64

definition scope_bucket_new :: "nat \<Rightarrow> scope_limits \<Rightarrow> scope_bucket" where
  "scope_bucket_new now limits =
     (let token_capacity = f64_of_nat (unat (sl_tokens_per_minute limits));
          request_capacity = f64_of_nat (unat (sl_requests_per_minute limits))
      in \<lparr>sb_available_tokens = token_capacity, sb_available_requests = request_capacity,
          sb_last_refill = now, sb_token_capacity = token_capacity,
          sb_token_refill_per_sec = f64_div token_capacity (F_fin 60),
          sb_request_capacity = request_capacity,
          sb_request_refill_per_sec = f64_div request_capacity (F_fin 60),
          sb_created_at = now, sb_last_touched_ns = 0\<rparr>)"

definition touch_at :: "nat \<Rightarrow> scope_bucket \<Rightarrow> scope_bucket" where
  "touch_at now b =
     b\<lparr>sb_last_touched_ns :=
         (let ns = now - sb_created_at b in if ns < 2 ^ 64 then word_of_nat ns else u64_max)\<rparr>"

definition refill_at :: "nat \<Rightarrow> scope_bucket \<Rightarrow> scope_bucket" where
  "refill_at now b =
     (if now < sb_last_refill b then b
      else let elapsed = as_secs_f64 (now - sb_last_refill b)
           in b\<lparr>sb_available_tokens :=
                  f64_min (f64_add (sb_available_tokens b) (f64_mul elapsed (sb_token_refill_per_sec b)))
                    (sb_token_capacity b),
                sb_available_requests :=
                  f64_min (f64_add (sb_available_requests b) (f64_mul elapsed (sb_request_refill_per_sec b)))
                    (sb_request_capacity b),
                sb_last_refill := now\<rparr>)"

definition lock_and_refill :: "nat \<Rightarrow> scope_bucket \<Rightarrow> scope_bucket" where
  "lock_and_refill now b = refill_at now (touch_at now b)"

definition idle_at :: "nat \<Rightarrow> scope_bucket \<Rightarrow> nat" where
  "idle_at now b = (now - sb_created_at b) - unat (sb_last_touched_ns b)"

definition is_full :: "nat \<Rightarrow> scope_bucket \<Rightarrow> scope_bucket \<times> bool" where
  "is_full now b =
     (let b = refill_at now b
      in (b, f64_le (sb_token_capacity b) (sb_available_tokens b)
             \<and> f64_le (sb_request_capacity b) (sb_available_requests b)))"

definition wait_secs :: "f64 \<Rightarrow> f64 \<Rightarrow> f64 \<Rightarrow> u64" where
  "wait_secs available needed refill_per_sec =
     (if f64_le needed available then 0
      else if f64_le refill_per_sec (F_fin 0) then u64_max
      else max (f64_as_u64 (f64_ceil (f64_div (f64_sub needed available) refill_per_sec))) 1)"

definition dry_run :: "scope_bucket \<Rightarrow> f64 \<Rightarrow> f64 \<Rightarrow> scope_dry_run" where
  "dry_run b tokens requests =
     (if f64_le tokens (sb_available_tokens b) \<and> f64_le requests (sb_available_requests b)
      then \<lparr>sdr_allowed = True, sdr_retry_after_secs = 0\<rparr>
      else if f64_lt (sb_token_capacity b) tokens \<or> f64_lt (sb_request_capacity b) requests
      then \<lparr>sdr_allowed = False, sdr_retry_after_secs = u64_max\<rparr>
      else \<lparr>sdr_allowed = False,
            sdr_retry_after_secs =
              max (wait_secs (sb_available_tokens b) tokens (sb_token_refill_per_sec b))
                  (wait_secs (sb_available_requests b) requests (sb_request_refill_per_sec b))\<rparr>)"

definition debit :: "f64 \<Rightarrow> f64 \<Rightarrow> scope_bucket \<Rightarrow> scope_bucket" where
  "debit tokens requests b =
     b\<lparr>sb_available_tokens := f64_sub (sb_available_tokens b) tokens,
       sb_available_requests := f64_sub (sb_available_requests b) requests\<rparr>"

definition settle_tokens :: "f64 \<Rightarrow> scope_bucket \<Rightarrow> scope_bucket" where
  "settle_tokens delta b =
     b\<lparr>sb_available_tokens := f64_min (f64_sub (sb_available_tokens b) delta) (sb_token_capacity b)\<rparr>"

section \<open>The local backend\<close>

definition IDLE_BUCKET_TTL :: nat where
  "IDLE_BUCKET_TTL = 5 * 60 * 1000000000"

datatype scope_key = TenantGlobal tenant_key | ModelRule tenant_key string

record reserve_request =
  rr_request_charge_id :: u128
  rr_tenant_key :: tenant_key
  rr_model_id :: "string option"
  rr_estimated_input_tokens :: u32

datatype reserve_outcome = Admitted | Denied u64

record usage_settlement =
  us_actual_input_tokens :: u32
  us_completion_tokens :: u32
  us_cached_input_tokens :: u32
  us_reasoning_tokens :: u32

type_synonym addr = nat

record active_reservation =
  ar_global :: addr
  ar_rule :: "addr option"
  ar_reserved_tokens :: u32

fun option_list :: "'a option \<Rightarrow> 'a list" where
  "option_list None = []"
| "option_list (Some x) = [x]"

definition reservation_buckets :: "active_reservation \<Rightarrow> addr list" where
  "reservation_buckets r = ar_global r # option_list (ar_rule r)"

record local_backend =
  lb_policy :: compiled_policy_set
  lb_buckets :: "(scope_key \<times> addr) list"
  lb_active :: "(u128 \<times> active_reservation) list"
  lb_store :: "addr \<Rightarrow> scope_bucket"
  lb_next :: addr

definition lb_new :: "compiled_policy_set \<Rightarrow> local_backend" where
  "lb_new policy =
     \<lparr>lb_policy = policy, lb_buckets = [], lb_active = [],
      lb_store = (\<lambda>_. scope_bucket_new 0 (ctp_limits (cps_default policy))), lb_next = 0\<rparr>"

definition set_bucket :: "addr \<Rightarrow> scope_bucket \<Rightarrow> local_backend \<Rightarrow> local_backend" where
  "set_bucket a b lb = lb\<lparr>lb_store := (lb_store lb)(a := b)\<rparr>"

definition bucket_for :: "nat \<Rightarrow> scope_key \<Rightarrow> scope_limits \<Rightarrow> local_backend \<Rightarrow> local_backend \<times> addr" where
  "bucket_for now key limits lb =
     (case map_of (lb_buckets lb) key of
        Some a \<Rightarrow> (lb, a)
      | None \<Rightarrow>
          let a = lb_next lb
          in (set_bucket a (scope_bucket_new now limits)
                (lb\<lparr>lb_buckets := (key, a) # lb_buckets lb, lb_next := Suc a\<rparr>), a))"

definition strong_count :: "addr \<Rightarrow> local_backend \<Rightarrow> nat" where
  "strong_count a lb =
     count_list (map snd (lb_buckets lb)) a
     + count_list (concat (map (reservation_buckets \<circ> snd) (lb_active lb))) a"

text \<open>The closure of \<open>remove_if\<close>, with its refill, and the removal.\<close>

definition evictable :: "nat \<Rightarrow> nat \<Rightarrow> addr \<Rightarrow> local_backend \<Rightarrow> local_backend \<times> bool" where
  "evictable now idle_ttl a lb =
     (if strong_count a lb = 1 \<and> idle_ttl \<le> idle_at now (lb_store lb a)
      then case is_full now (lb_store lb a) of (b, full) \<Rightarrow> (set_bucket a b lb, full)
      else (lb, False))"

definition remove_if_idle :: "nat \<Rightarrow> nat \<Rightarrow> scope_key \<Rightarrow> local_backend \<Rightarrow> local_backend \<times> bool" where
  "remove_if_idle now idle_ttl key lb =
     (case map_of (lb_buckets lb) key of
        None \<Rightarrow> (lb, False)
      | Some a \<Rightarrow>
          (case evictable now idle_ttl a lb of (lb, evict) \<Rightarrow>
             (if evict then lb\<lparr>lb_buckets := AList.delete key (lb_buckets lb)\<rparr> else lb, evict)))"

definition sweep_candidates :: "nat \<Rightarrow> nat \<Rightarrow> local_backend \<Rightarrow> scope_key list" where
  "sweep_candidates now idle_ttl lb =
     map fst (filter (\<lambda>(key, a). strong_count a lb = 1 \<and> idle_ttl \<le> idle_at now (lb_store lb a)) (lb_buckets lb))"

fun sweep_keys :: "nat \<Rightarrow> nat \<Rightarrow> scope_key list \<Rightarrow> local_backend \<Rightarrow> local_backend \<times> nat" where
  "sweep_keys now idle_ttl [] lb = (lb, 0)"
| "sweep_keys now idle_ttl (key # keys) lb =
     (case remove_if_idle now idle_ttl key lb of (lb, evicted) \<Rightarrow>
        case sweep_keys now idle_ttl keys lb of (lb, n) \<Rightarrow> (lb, if evicted then Suc n else n))"

definition sweep_idle_buckets :: "nat \<Rightarrow> nat \<Rightarrow> local_backend \<Rightarrow> local_backend \<times> nat" where
  "sweep_idle_buckets now idle_ttl lb = sweep_keys now idle_ttl (sweep_candidates now idle_ttl lb) lb"

definition worst_retry :: "scope_dry_run list \<Rightarrow> u64 option" where
  "worst_retry dries =
     foldl (\<lambda>acc dry. if sdr_allowed dry then acc
                      else Some (max (case acc of None \<Rightarrow> 0 | Some r \<Rightarrow> r) (sdr_retry_after_secs dry))) None dries"

definition lock_bucket :: "nat \<Rightarrow> addr \<Rightarrow> local_backend \<Rightarrow> local_backend" where
  "lock_bucket now a lb = set_bucket a (lock_and_refill now (lb_store lb a)) lb"

definition debit_bucket :: "f64 \<Rightarrow> addr \<Rightarrow> local_backend \<Rightarrow> local_backend" where
  "debit_bucket tokens a lb = set_bucket a (debit tokens (F_fin 1) (lb_store lb a)) lb"

text \<open>The buckets a request is charged to: the tenant's, and the matching rule's.\<close>

definition reserve_scopes :: "nat \<Rightarrow> reserve_request \<Rightarrow> local_backend \<Rightarrow> local_backend \<times> addr list" where
  "reserve_scopes now request lb =
     (let tenant = rr_tenant_key request; tenant_policy = policy_for (lb_policy lb) tenant
      in case bucket_for now (TenantGlobal tenant) (ctp_limits tenant_policy) lb of (lb, global) \<Rightarrow>
           (case Option.bind (rr_model_id request) (matching_rule tenant_policy) of
              None \<Rightarrow> (lb, [global])
            | Some rule \<Rightarrow>
                (case bucket_for now (ModelRule tenant (cmr_rule_id rule)) (cmr_limits rule) lb of (lb, a) \<Rightarrow>
                   (lb, [global, a]))))"

definition reserve :: "nat \<Rightarrow> reserve_request \<Rightarrow> local_backend \<Rightarrow> local_backend \<times> reserve_outcome" where
  "reserve now request lb =
     (if map_of (lb_active lb) (rr_request_charge_id request) \<noteq> None then (lb, Admitted)
      else case reserve_scopes now request lb of (lb, scopes) \<Rightarrow>
        let lb = fold (lock_bucket now) scopes lb;
            tokens_needed = f64_of_nat (unat (rr_estimated_input_tokens request))
        in case worst_retry (map (\<lambda>a. dry_run (lb_store lb a) tokens_needed (F_fin 1)) scopes) of
             Some retry_after_secs \<Rightarrow> (lb, Denied retry_after_secs)
           | None \<Rightarrow>
               let lb = fold (debit_bucket tokens_needed) scopes lb
               in (lb\<lparr>lb_active :=
                        (rr_request_charge_id request,
                         \<lparr>ar_global = hd scopes, ar_rule = (case tl scopes of [] \<Rightarrow> None | a # _ \<Rightarrow> Some a),
                          ar_reserved_tokens = rr_estimated_input_tokens request\<rparr>) # lb_active lb\<rparr>, Admitted))"

definition settle_bucket :: "nat \<Rightarrow> f64 \<Rightarrow> addr \<Rightarrow> local_backend \<Rightarrow> local_backend" where
  "settle_bucket now delta a lb = set_bucket a (settle_tokens delta (lock_and_refill now (lb_store lb a))) lb"

definition settle_success :: "nat \<Rightarrow> u128 \<Rightarrow> usage_settlement \<Rightarrow> local_backend \<Rightarrow> local_backend" where
  "settle_success now charge_id usage lb =
     (case map_of (lb_active lb) charge_id of
        None \<Rightarrow> lb
      | Some reservation \<Rightarrow>
          let actual_total = int (unat (us_actual_input_tokens usage)) + int (unat (us_completion_tokens usage));
              delta = f64_of_int (actual_total - int (unat (ar_reserved_tokens reservation)))
          in fold (settle_bucket now delta) (reservation_buckets reservation)
               (lb\<lparr>lb_active := AList.delete charge_id (lb_active lb)\<rparr>))"

definition close_reserved_only :: "u128 \<Rightarrow> local_backend \<Rightarrow> local_backend" where
  "close_reserved_only charge_id lb = lb\<lparr>lb_active := AList.delete charge_id (lb_active lb)\<rparr>"

definition abandon :: "u128 \<Rightarrow> local_backend \<Rightarrow> local_backend" where
  "abandon charge_id lb = lb\<lparr>lb_active := AList.delete charge_id (lb_active lb)\<rparr>"


section \<open>Reservation handles\<close>

datatype reservation_state = ReservationOpen | Settled | ReservationClosed | Abandoned

record reservation_handle =
  rh_state :: reservation_state
  rh_request_charge_id :: u128

definition reservation_handle_new :: "u128 \<Rightarrow> reservation_handle" where
  "reservation_handle_new charge_id = \<lparr>rh_state = ReservationOpen, rh_request_charge_id = charge_id\<rparr>"

definition try_transition :: "reservation_state \<Rightarrow> reservation_handle \<Rightarrow> reservation_handle \<times> bool" where
  "try_transition target h =
     (if rh_state h = ReservationOpen then (h\<lparr>rh_state := target\<rparr>, True) else (h, False))"

definition handle_settle_success ::
    "nat \<Rightarrow> usage_settlement \<Rightarrow> reservation_handle \<times> local_backend \<Rightarrow> reservation_handle \<times> local_backend" where
  "handle_settle_success now usage =
     (\<lambda>(h, lb). case try_transition Settled h of (h, ok) \<Rightarrow>
        (h, if ok then settle_success now (rh_request_charge_id h) usage lb else lb))"

definition handle_close_reserved_only ::
    "reservation_handle \<times> local_backend \<Rightarrow> reservation_handle \<times> local_backend" where
  "handle_close_reserved_only =
     (\<lambda>(h, lb). case try_transition ReservationClosed h of (h, ok) \<Rightarrow>
        (h, if ok then close_reserved_only (rh_request_charge_id h) lb else lb))"

text \<open>The abandonment is spawned; here it runs at once.  A \<open>ReservationAttachment\<close> does this when it
  is dropped.\<close>

definition abandon_if_open ::
    "reservation_handle \<times> local_backend \<Rightarrow> reservation_handle \<times> local_backend" where
  "abandon_if_open =
     (\<lambda>(h, lb). case try_transition Abandoned h of (h, ok) \<Rightarrow>
        (h, if ok then abandon (rh_request_charge_id h) lb else lb))"

section \<open>The manager and its answers\<close>

datatype reservation = ReservationAdmitted reservation_handle | ReservationDenied u64

definition manager_reserve :: "nat \<Rightarrow> reserve_request \<Rightarrow> local_backend \<Rightarrow> local_backend \<times> reservation" where
  "manager_reserve now request lb =
     (case reserve now request lb of
        (lb, Admitted) \<Rightarrow> (lb, ReservationAdmitted (reservation_handle_new (rr_request_charge_id request)))
      | (lb, Denied retry_after_secs) \<Rightarrow> (lb, ReservationDenied retry_after_secs))"

datatype manager_error =
    NoConfigPath | LoadError string | UnreachableHeaderKey string
  | PolicyError rate_limit_config_error | NoRuntime

text \<open>Reading and parsing the file is the argument \<open>load\<close>; \<open>runtime\<close> says whether a Tokio runtime
  is there to run the sweep.\<close>

definition load_limits_yaml :: "(string \<Rightarrow> string + rate_limit_yaml) \<Rightarrow> string option \<Rightarrow> manager_error + rate_limit_yaml" where
  "load_limits_yaml load path =
     (case path of
        None \<Rightarrow> Inl NoConfigPath
      | Some p \<Rightarrow> (case load p of Inl e \<Rightarrow> Inl (LoadError e) | Inr yaml \<Rightarrow> Inr yaml))"

definition unreachable_key :: "rate_limit_yaml \<Rightarrow> string option" where
  "unreachable_key yaml =
     find (starts_with ''header:'') (List.map_filter tps_tenant_key (ry_tenants yaml))"

definition try_build ::
    "(string \<Rightarrow> string + rate_limit_yaml) \<Rightarrow> (string \<Rightarrow> bool) \<Rightarrow> bool \<Rightarrow> string option \<Rightarrow> bool
     \<Rightarrow> manager_error + local_backend" where
  "try_build load canonical runtime path trust_tenant_header =
     (case load_limits_yaml load path of
        Inl e \<Rightarrow> Inl e
      | Inr yaml \<Rightarrow>
          (case (if trust_tenant_header then None else unreachable_key yaml) of
             Some tenant_key \<Rightarrow> Inl (UnreachableHeaderKey tenant_key)
           | None \<Rightarrow>
               (case compile_policies canonical yaml of
                  Inl e \<Rightarrow> Inl (PolicyError e)
                | Inr compiled \<Rightarrow> if runtime then Inr (lb_new compiled) else Inl NoRuntime)))"

definition manager_from_config ::
    "(string \<Rightarrow> string + rate_limit_yaml) \<Rightarrow> (string \<Rightarrow> bool) \<Rightarrow> bool \<Rightarrow> bool \<Rightarrow> string option \<Rightarrow> bool
     \<Rightarrow> manager_error + local_backend option" where
  "manager_from_config load canonical runtime enabled path trust_tenant_header =
     (if \<not> enabled then Inr None
      else case try_build load canonical runtime path trust_tenant_header of
             Inl e \<Rightarrow> Inl e
           | Inr lb \<Rightarrow> Inr (Some lb))"

definition RATE_LIMIT_ERROR_CODE :: string where
  "RATE_LIMIT_ERROR_CODE = ''tenant_rate_limit_exceeded''"

record rejection =
  rej_code :: string
  rej_message :: string
  rej_retry_after :: "u64 option"

definition rejection_response :: "u64 \<Rightarrow> rejection" where
  "rejection_response retry_after_secs =
     \<lparr>rej_code = RATE_LIMIT_ERROR_CODE, rej_message = ''Tenant rate limit exceeded for this request'',
      rej_retry_after = (if 0 < retry_after_secs \<and> retry_after_secs \<noteq> u64_max then Some retry_after_secs else None)\<rparr>"

end
