(* ===== verification/Limiter_Refinement.thy ===== *)
theory Limiter_Refinement
  imports Tenant_Limits
begin

text \<open>
  The contract of the tenant limiter and that \<open>Tenant_Limits\<close> implements it: buckets that are
  created on first use, shared between the map and reservations and evicted when idle answer like
  buckets that are always there.  The proof is a simulation between the addresses of the backend
  and the keys of the contract.
\<close>

section \<open>Buckets that answer alike\<close>

definition sized :: "scope_limits \<Rightarrow> scope_bucket \<Rightarrow> bool" where
  "sized limits b \<longleftrightarrow>
     sb_token_capacity b = f64_of_nat (unat (sl_tokens_per_minute limits))
     \<and> sb_token_refill_per_sec b = f64_div (sb_token_capacity b) (F_fin 60)
     \<and> sb_request_capacity b = f64_of_nat (unat (sl_requests_per_minute limits))
     \<and> sb_request_refill_per_sec b = f64_div (sb_request_capacity b) (F_fin 60)"

definition at_capacity :: "scope_bucket \<Rightarrow> bool" where
  "at_capacity b \<longleftrightarrow> sb_available_tokens b = sb_token_capacity b \<and> sb_available_requests b = sb_request_capacity b"

text \<open>The time of the last touch.\<close>

definition touched :: "scope_bucket \<Rightarrow> nat" where
  "touched b = sb_created_at b + unat (sb_last_touched_ns b)"

definition same :: "scope_bucket \<Rightarrow> scope_bucket \<Rightarrow> bool" where
  "same b c \<longleftrightarrow> sb_available_tokens b = sb_available_tokens c \<and> sb_available_requests b = sb_available_requests c
     \<and> sb_last_refill b = sb_last_refill c \<and> touched b = touched c"

definition known :: "scope_limits \<Rightarrow> nat \<Rightarrow> scope_bucket \<Rightarrow> bool" where
  "known limits now b \<longleftrightarrow> sized limits b \<and> sb_last_refill b \<le> now \<and> sb_created_at b \<le> now"

definition agree :: "scope_limits \<Rightarrow> nat \<Rightarrow> scope_bucket \<Rightarrow> scope_bucket \<Rightarrow> bool" where
  "agree limits now b c \<longleftrightarrow>
     known limits now b \<and> known limits now c \<and> (same b c \<or> at_capacity b \<and> at_capacity c)"

lemma product_nonneg:
  "f64_le (F_fin 0) x \<Longrightarrow> f64_le (F_fin 0) y \<Longrightarrow> f64_le (F_fin 0) (f64_mul x y) \<or> f64_mul x y = F_nan"
  by (cases x; cases y) (auto simp: f64_round_nonneg)

text \<open>Refilling a full counter leaves it full.\<close>

lemma refill_full_counter:
  fixes w :: u32
  assumes "c = f64_of_nat (unat w)"
  shows "f64_min (f64_add c (f64_mul (as_secs_f64 n) (f64_div c (F_fin 60)))) c = c"
proof -
  have "unat w < 2 ^ 53" using unat_below [of w] by simp
  then have c: "c = F_fin (of_nat (unat w))" "f64_ok c"
    using f64_of_nat_exact [of "unat w"] f64_of_nat_ok [of "unat w"] by (simp_all only: assms)
  have "f64_le (F_fin 0) (f64_div c (F_fin 60))"
    unfolding c(1) by (rule f64_div_nonneg [OF of_nat_0_le_iff]) simp
  from product_nonneg [OF as_secs_f64_nonneg this, of n]
  consider x where "f64_mul (as_secs_f64 n) (f64_div c (F_fin 60)) = F_fin x" "0 \<le> x"
    | "f64_mul (as_secs_f64 n) (f64_div c (F_fin 60)) = F_inf False"
    | "f64_mul (as_secs_f64 n) (f64_div c (F_fin 60)) = F_nan"
    by (cases "f64_mul (as_secs_f64 n) (f64_div c (F_fin 60))") auto
  then show ?thesis
  proof cases
    case (1 x)
    have "f64_le c (f64_round (of_nat (unat w) + x))"
      using f64_round_ge_ok [of "of_nat (unat w)" "of_nat (unat w) + x"] c 1(2) by simp
    then show ?thesis
      unfolding 1(1) by (cases "f64_round (of_nat (unat w) + x)") (auto simp: c(1) f64_min_def)
  qed (simp_all add: c(1) f64_min_def)
qed

lemma touch_at_fields [simp]:
  "sb_available_tokens (touch_at t b) = sb_available_tokens b" "sb_available_requests (touch_at t b) = sb_available_requests b"
  "sb_last_refill (touch_at t b) = sb_last_refill b" "sb_created_at (touch_at t b) = sb_created_at b"
  "sized l (touch_at t b) = sized l b" "at_capacity (touch_at t b) = at_capacity b"
  by (simp_all add: touch_at_def sized_def at_capacity_def)

lemma refill_at_fields [simp]:
  "sb_created_at (refill_at t b) = sb_created_at b" "sb_last_touched_ns (refill_at t b) = sb_last_touched_ns b"
  "sb_last_refill (refill_at t b) = max t (sb_last_refill b)" "sized l (refill_at t b) = sized l b"
  "touched (refill_at t b) = touched b"
  by (auto simp: refill_at_def sized_def touched_def Let_def)

lemma refill_at_capacity: "sized l b \<Longrightarrow> at_capacity b \<Longrightarrow> at_capacity (refill_at t b)"
  unfolding at_capacity_def refill_at_def sized_def
  by (simp add: Let_def refill_full_counter [of _ "sl_tokens_per_minute l"] refill_full_counter [of _ "sl_requests_per_minute l"]
      del: f64_div.simps f64_mul.simps)

lemma refill_same:
  assumes "sized l b" "sized l c" "same b c"
  shows "same (refill_at t b) (refill_at t c)"
  using assms by (auto simp: same_def refill_at_def sized_def touched_def Let_def)

lemma touched_touch_at [simp]:
  assumes "sb_created_at b \<le> t" "t < 2 ^ 64"
  shows "touched (touch_at t b) = t"
proof -
  have "t - sb_created_at b < 2 ^ 64" using assms(2) by simp
  moreover have "unat (word_of_nat n :: u64) = n" if "n < 2 ^ 64" for n
    using that by (simp add: unsigned_of_nat take_bit_nat_eq_self)
  ultimately show ?thesis
    using assms(1) by (simp add: touched_def touch_at_def Let_def del: of_nat_diff)
qed

lemma idle_at_touched: "sb_created_at b \<le> t \<Longrightarrow> idle_at t b = t - touched b"
  by (simp add: idle_at_def touched_def)

text \<open>Locking makes buckets that agree the same.\<close>

lemma lock_agree:
  assumes "agree l now b c" "now \<le> t" "t < 2 ^ 64"
  shows "agree l t (lock_and_refill t b) (lock_and_refill t c)" "same (lock_and_refill t b) (lock_and_refill t c)"
proof -
  have k: "known l now b" "known l now c" using assms(1) by (simp_all add: agree_def)
  show s: "same (lock_and_refill t b) (lock_and_refill t c)"
  proof (cases "same b c")
    case True
    then have "same (touch_at t b) (touch_at t c)"
      using k assms(2,3) by (auto simp: same_def known_def)
    then show ?thesis
      unfolding lock_and_refill_def using k by (intro refill_same) (auto simp: known_def)
  next
    case False
    then have "at_capacity (lock_and_refill t b)" "at_capacity (lock_and_refill t c)"
      using assms(1) k refill_at_capacity [of l "touch_at t b" t] refill_at_capacity [of l "touch_at t c" t]
      by (auto simp: agree_def known_def lock_and_refill_def)
    moreover have "sized l (lock_and_refill t b)" "sized l (lock_and_refill t c)"
      using k by (simp_all add: known_def lock_and_refill_def)
    ultimately show ?thesis
      using k assms(2,3) by (auto simp: same_def at_capacity_def sized_def lock_and_refill_def known_def)
  qed
  show "agree l t (lock_and_refill t b) (lock_and_refill t c)"
    using s k assms(2) by (auto simp: agree_def known_def lock_and_refill_def)
qed

lemma sweep_agree:
  assumes "agree l now b c" "now \<le> t"
  shows "agree l t (refill_at t b) (refill_at t c)"
  using assms refill_same [of l b c t] refill_at_capacity [of l b t] refill_at_capacity [of l c t]
  by (auto simp: agree_def known_def)

lemma agree_mono: "agree l now b c \<Longrightarrow> now \<le> t \<Longrightarrow> agree l t b c"
  by (auto simp: agree_def known_def)

lemma same_dry_run: "sized l b \<Longrightarrow> sized l c \<Longrightarrow> same b c \<Longrightarrow> dry_run b n m = dry_run c n m"
  by (simp add: dry_run_def same_def sized_def)

lemma debit_agree:
  assumes "agree l now b c" "same b c"
  shows "agree l now (debit n m b) (debit n m c)" "same (debit n m b) (debit n m c)"
  using assms by (simp_all add: agree_def known_def sized_def same_def debit_def touched_def)

lemma settle_agree:
  assumes "agree l now b c" "same b c"
  shows "agree l now (settle_tokens d b) (settle_tokens d c)" "same (settle_tokens d b) (settle_tokens d c)"
  using assms by (simp_all add: agree_def known_def sized_def same_def settle_tokens_def touched_def)

lemma new_known: "known l now (scope_bucket_new now l)" "at_capacity (scope_bucket_new now l)"
  by (simp_all add: known_def sized_def scope_bucket_new_def Let_def at_capacity_def)

text \<open>A bucket that is dropped is at capacity.\<close>

lemma is_full_at_capacity:
  assumes "known l now b" "now \<le> t" "snd (is_full t b)"
  shows "at_capacity (refill_at t b)"
proof -
  have min_ge: "f64_min x c = c" if "f64_le c (f64_min x c)" for x c
    using that by (cases x; cases c) (auto simp: f64_min_def split: if_splits)
  have "\<not> t < sb_last_refill b"
    using assms(1,2) by (simp add: known_def)
  then show ?thesis
    using assms(3) min_ge by (auto simp: is_full_def at_capacity_def Let_def refill_at_def)
qed


section \<open>The contract: permanent buckets\<close>

text \<open>The limiter as its documentation describes it: every tenant and every model rule of a tenant
  has one bucket, full at the start, for ever.  There is no allocation, sharing or eviction; a
  sweep refills the buckets it looks at.\<close>

definition policy_rules :: "compiled_tenant_policy \<Rightarrow> compiled_model_rule list" where
  "policy_rules p = map snd (ctp_exact_model_rules p) @ map cpr_rule (ctp_prefix_model_rules p)"

fun limits_of :: "compiled_policy_set \<Rightarrow> scope_key \<Rightarrow> scope_limits" where
  "limits_of policy (TenantGlobal tenant) = ctp_limits (policy_for policy tenant)"
| "limits_of policy (ModelRule tenant rule_id) =
     (case find (\<lambda>r. cmr_rule_id r = rule_id) (policy_rules (policy_for policy tenant)) of
        Some r \<Rightarrow> cmr_limits r
      | None \<Rightarrow> ctp_limits (policy_for policy tenant))"

record limiter_spec =
  sp_bucket :: "scope_key \<Rightarrow> scope_bucket"
  sp_active :: "(u128 \<times> scope_key list \<times> u32) list"

definition sp_new :: "compiled_policy_set \<Rightarrow> limiter_spec" where
  "sp_new policy = \<lparr>sp_bucket = (\<lambda>key. scope_bucket_new 0 (limits_of policy key)), sp_active = []\<rparr>"

definition sp_update :: "(scope_bucket \<Rightarrow> scope_bucket) \<Rightarrow> scope_key \<Rightarrow> limiter_spec \<Rightarrow> limiter_spec" where
  "sp_update f key s = s\<lparr>sp_bucket := (sp_bucket s)(key := f (sp_bucket s key))\<rparr>"

definition scope_keys :: "compiled_policy_set \<Rightarrow> reserve_request \<Rightarrow> scope_key list" where
  "scope_keys policy request =
     (let tenant = rr_tenant_key request
      in TenantGlobal tenant #
         map (\<lambda>rule. ModelRule tenant (cmr_rule_id rule))
           (option_list (Option.bind (rr_model_id request) (matching_rule (policy_for policy tenant)))))"

definition sp_reserve ::
    "compiled_policy_set \<Rightarrow> nat \<Rightarrow> reserve_request \<Rightarrow> limiter_spec \<Rightarrow> limiter_spec \<times> reserve_outcome" where
  "sp_reserve policy now request s =
     (if map_of (sp_active s) (rr_request_charge_id request) \<noteq> None then (s, Admitted)
      else
        let keys = scope_keys policy request;
            tokens_needed = f64_of_nat (unat (rr_estimated_input_tokens request));
            s = fold (sp_update (lock_and_refill now)) keys s
        in case worst_retry (map (\<lambda>k. dry_run (sp_bucket s k) tokens_needed (F_fin 1)) keys) of
             Some retry_after_secs \<Rightarrow> (s, Denied retry_after_secs)
           | None \<Rightarrow>
               let s = fold (sp_update (debit tokens_needed (F_fin 1))) keys s
               in (s\<lparr>sp_active := (rr_request_charge_id request, keys, rr_estimated_input_tokens request) # sp_active s\<rparr>,
                   Admitted))"

definition sp_settle :: "nat \<Rightarrow> u128 \<Rightarrow> usage_settlement \<Rightarrow> limiter_spec \<Rightarrow> limiter_spec" where
  "sp_settle now charge_id usage s =
     (case map_of (sp_active s) charge_id of
        None \<Rightarrow> s
      | Some (keys, reserved) \<Rightarrow>
          let used = int (unat (us_actual_input_tokens usage)) + int (unat (us_completion_tokens usage));
              delta = f64_of_int (used - int (unat reserved))
          in fold (sp_update (settle_tokens delta \<circ> lock_and_refill now)) keys
               (s\<lparr>sp_active := AList.delete charge_id (sp_active s)\<rparr>))"

definition sp_drop :: "u128 \<Rightarrow> limiter_spec \<Rightarrow> limiter_spec" where
  "sp_drop charge_id s = s\<lparr>sp_active := AList.delete charge_id (sp_active s)\<rparr>"

definition sp_held :: "scope_key \<Rightarrow> limiter_spec \<Rightarrow> bool" where
  "sp_held key s \<longleftrightarrow> (\<exists>(i, keys, n) \<in> set (sp_active s). key \<in> set keys)"

definition sp_sweep :: "nat \<Rightarrow> nat \<Rightarrow> scope_key \<Rightarrow> limiter_spec \<Rightarrow> limiter_spec" where
  "sp_sweep now idle_ttl key s =
     (if \<not> sp_held key s \<and> idle_ttl \<le> idle_at now (sp_bucket s key) then sp_update (refill_at now) key s else s)"

text \<open>Calls and sweeps, each at its time.\<close>

datatype limiter_event =
    Reserve reserve_request | Settle u128 usage_settlement | Close u128 | Abandon u128 | Sweep nat scope_key

fun lb_step :: "nat \<Rightarrow> limiter_event \<Rightarrow> local_backend \<Rightarrow> local_backend \<times> reserve_outcome list" where
  "lb_step now (Reserve request) lb = (case reserve now request lb of (lb, r) \<Rightarrow> (lb, [r]))"
| "lb_step now (Settle charge_id usage) lb = (settle_success now charge_id usage lb, [])"
| "lb_step now (Close charge_id) lb = (close_reserved_only charge_id lb, [])"
| "lb_step now (Abandon charge_id) lb = (abandon charge_id lb, [])"
| "lb_step now (Sweep idle_ttl key) lb = (fst (remove_if_idle now idle_ttl key lb), [])"

fun sp_step :: "compiled_policy_set \<Rightarrow> nat \<Rightarrow> limiter_event \<Rightarrow> limiter_spec \<Rightarrow> limiter_spec \<times> reserve_outcome list" where
  "sp_step policy now (Reserve request) s = (case sp_reserve policy now request s of (s, r) \<Rightarrow> (s, [r]))"
| "sp_step policy now (Settle charge_id usage) s = (sp_settle now charge_id usage s, [])"
| "sp_step policy now (Close charge_id) s = (sp_drop charge_id s, [])"
| "sp_step policy now (Abandon charge_id) s = (sp_drop charge_id s, [])"
| "sp_step policy now (Sweep idle_ttl key) s = (sp_sweep now idle_ttl key s, [])"

text \<open>The answers to the events in \<open>P\<close>, in a run of all events.\<close>

fun run_events :: "('e \<Rightarrow> bool) \<Rightarrow> (nat \<Rightarrow> 'e \<Rightarrow> 's \<Rightarrow> 's \<times> 'o list) \<Rightarrow> (nat \<times> 'e) list \<Rightarrow> 's \<Rightarrow> 'o list" where
  "run_events P step [] s = []"
| "run_events P step ((now, e) # es) s =
     (case step now e s of (s, out) \<Rightarrow> (if P e then out else []) @ run_events P step es s)"

section \<open>The backend implements it\<close>

text \<open>The buckets in \<open>K\<close> have been locked, so the two sides hold the same numbers.\<close>

definition held_alike :: "(scope_key \<times> addr) list \<Rightarrow> u128 \<times> active_reservation \<Rightarrow> u128 \<times> scope_key list \<times> u32 \<Rightarrow> bool" where
  "held_alike buckets x y \<longleftrightarrow> fst x = fst y \<and> snd (snd y) = ar_reserved_tokens (snd x)
     \<and> list_all2 (\<lambda>a k. map_of buckets k = Some a) (reservation_buckets (snd x)) (fst (snd y))"

definition implements :: "compiled_policy_set \<Rightarrow> nat \<Rightarrow> scope_key set \<Rightarrow> local_backend \<Rightarrow> limiter_spec \<Rightarrow> bool" where
  "implements policy now K lb s \<longleftrightarrow>
     lb_policy lb = policy
     \<and> distinct (map fst (lb_buckets lb)) \<and> distinct (map snd (lb_buckets lb))
     \<and> (\<forall>a \<in> snd ` set (lb_buckets lb). a < lb_next lb)
     \<and> (\<forall>k a. map_of (lb_buckets lb) k = Some a \<longrightarrow> agree (limits_of policy k) now (lb_store lb a) (sp_bucket s k)
          \<and> (k \<in> K \<longrightarrow> same (lb_store lb a) (sp_bucket s k)))
     \<and> (\<forall>k. map_of (lb_buckets lb) k = None \<longrightarrow> known (limits_of policy k) now (sp_bucket s k) \<and> at_capacity (sp_bucket s k))
     \<and> list_all2 (held_alike (lb_buckets lb)) (lb_active lb) (sp_active s)"

lemma implementsD:
  assumes "implements policy now K lb s"
  shows "lb_policy lb = policy" "distinct (map fst (lb_buckets lb))" "distinct (map snd (lb_buckets lb))"
    "\<And>k a. (k, a) \<in> set (lb_buckets lb) \<Longrightarrow> a < lb_next lb"
    "\<And>k a. map_of (lb_buckets lb) k = Some a \<Longrightarrow> agree (limits_of policy k) now (lb_store lb a) (sp_bucket s k)"
    "\<And>k a. map_of (lb_buckets lb) k = Some a \<Longrightarrow> k \<in> K \<Longrightarrow> same (lb_store lb a) (sp_bucket s k)"
    "\<And>k. map_of (lb_buckets lb) k = None \<Longrightarrow> known (limits_of policy k) now (sp_bucket s k) \<and> at_capacity (sp_bucket s k)"
    "list_all2 (held_alike (lb_buckets lb)) (lb_active lb) (sp_active s)"
  using assms unfolding implements_def by force+

lemma implements_mono: "implements policy now K lb s \<Longrightarrow> now \<le> t \<Longrightarrow> J \<subseteq> K \<Longrightarrow> implements policy t J lb s"
  unfolding implements_def known_def using agree_mono by (meson order_trans subsetD)

lemma address_inj:
  assumes "distinct (map snd xs)" "map_of xs k = Some a" "map_of xs k' = Some a"
  shows "k = k'"
proof -
  have "inj_on snd (set xs)" using assms(1) by (simp add: distinct_map)
  then show ?thesis
    using inj_onD [of snd "set xs" "(k, a)" "(k', a)"] assms(2,3) [THEN map_of_SomeD] by simp
qed

text \<open>One bucket changes on both sides.\<close>

lemma set_bucket_fields [simp]:
  "lb_policy (set_bucket a b lb) = lb_policy lb" "lb_buckets (set_bucket a b lb) = lb_buckets lb"
  "lb_active (set_bucket a b lb) = lb_active lb" "lb_next (set_bucket a b lb) = lb_next lb"
  "lb_store (set_bucket a b lb) = (lb_store lb)(a := b)"
  by (simp_all add: set_bucket_def)

lemma sp_update_fields [simp]:
  "sp_active (sp_update f k s) = sp_active s" "sp_bucket (sp_update f k s) = (sp_bucket s)(k := f (sp_bucket s k))"
  by (simp_all add: sp_update_def)

lemma implements_update:
  assumes "implements policy now K lb s" "map_of (lb_buckets lb) k = Some a"
    and "agree (limits_of policy k) now b (f (sp_bucket s k))" "k \<in> J \<Longrightarrow> same b (f (sp_bucket s k))" "J \<subseteq> insert k K"
  shows "implements policy now J (set_bucket a b lb) (sp_update f k s)"
  unfolding implements_def
proof (intro conjI allI impI)
  note D = implementsD [OF assms(1)]
  fix k' a' assume m: "map_of (lb_buckets (set_bucket a b lb)) k' = Some a'"
  have "a' = a \<longleftrightarrow> k' = k"
    using m assms(2) address_inj [OF D(3), of k a k'] by auto
  then show "agree (limits_of policy k') now (lb_store (set_bucket a b lb) a') (sp_bucket (sp_update f k s) k')"
    "k' \<in> J \<Longrightarrow> same (lb_store (set_bucket a b lb) a') (sp_bucket (sp_update f k s) k')"
    using m assms(3-5) D(5,6) by auto
qed (use implementsD [OF assms(1)] assms(2) in auto)

lemma bucket_for_implements:
  assumes "implements policy now K lb s" "bucket_for now k (limits_of policy k) lb = (lb', a)"
  shows "implements policy now {} lb' s \<and> map_of (lb_buckets lb') k = Some a \<and> lb_active lb' = lb_active lb
    \<and> map_of (lb_buckets lb) \<subseteq>\<^sub>m map_of (lb_buckets lb') \<and> lb_policy lb' = lb_policy lb"
proof (cases "map_of (lb_buckets lb) k")
  case (Some a')
  then show ?thesis using assms implements_mono [OF assms(1), of now "{}"] by (simp add: bucket_for_def)
next
  case None
  note D = implementsD [OF assms(1)]
  have lb': "lb' = set_bucket (lb_next lb) (scope_bucket_new now (limits_of policy k))
      (lb\<lparr>lb_buckets := (k, lb_next lb) # lb_buckets lb, lb_next := Suc (lb_next lb)\<rparr>)" and a: "a = lb_next lb"
    using assms(2) None by (auto simp: bucket_for_def Let_def)
  have old: "a' < lb_next lb" if "map_of (lb_buckets lb) k' = Some a'" for k' a'
    using that D(4) map_of_SomeD by fastforce
  have "list_all2 (held_alike ((k, lb_next lb) # lb_buckets lb)) (lb_active lb) (sp_active s)"
    by (rule list_all2_mono [OF D(8)])
      (auto simp: held_alike_def None elim!: list_all2_mono)
  moreover have "k \<notin> fst ` set (lb_buckets lb)"
    using None by (simp add: map_of_eq_None_iff)
  moreover have "agree (limits_of policy k) now (scope_bucket_new now (limits_of policy k)) (sp_bucket s k)"
    using D(7) [OF None] by (simp add: agree_def new_known)
  moreover have "agree (limits_of policy k') now (lb_store lb' a') (sp_bucket s k')" if "map_of (lb_buckets lb') k' = Some a'" for k' a'
    using that old [of k' a'] D(5) [of k' a'] calculation(3) by (cases "k' = k") (auto simp: lb')
  moreover have "map_of (lb_buckets lb') k' = None \<Longrightarrow> map_of (lb_buckets lb) k' = None" for k'
    by (simp add: lb' split: if_splits)
  moreover have "\<forall>a \<in> snd ` set (lb_buckets lb'). a < lb_next lb'" "lb_next lb \<notin> snd ` set (lb_buckets lb)"
    using D(4) by (fastforce simp: lb' less_Suc_eq)+
  ultimately have "implements policy now {} lb' s"
    using D(1-3,7) unfolding implements_def by (simp add: lb')
  then show ?thesis
    using None by (auto simp: lb' a map_le_def)
qed


text \<open>The folds over the one or two scopes of a request.\<close>

definition on_bucket :: "(scope_bucket \<Rightarrow> scope_bucket) \<Rightarrow> addr \<Rightarrow> local_backend \<Rightarrow> local_backend" where
  "on_bucket f a lb = set_bucket a (f (lb_store lb a)) lb"

lemma on_bucket_fields [simp]:
  "lb_buckets (on_bucket f a lb) = lb_buckets lb" "lb_active (on_bucket f a lb) = lb_active lb"
  by (simp_all add: on_bucket_def)

lemma on_bucket_folds:
  "lock_bucket now = on_bucket (lock_and_refill now)" "debit_bucket n = on_bucket (debit n (F_fin 1))"
  "settle_bucket now d = on_bucket (settle_tokens d \<circ> lock_and_refill now)"
  by (simp_all add: on_bucket_def lock_bucket_def debit_bucket_def settle_bucket_def fun_eq_iff)

lemma fold_implements:
  assumes "list_all2 (\<lambda>a k. map_of (lb_buckets lb) k = Some a) scopes keys" "implements policy now K lb s"
    and "\<And>k b c. k \<in> set keys \<Longrightarrow> agree (limits_of policy k) now b c \<Longrightarrow> (k \<in> K \<longrightarrow> same b c)
      \<Longrightarrow> agree (limits_of policy k) now (f b) (f c) \<and> same (f b) (f c)"
  shows "implements policy now (K \<union> set keys) (fold (on_bucket f) scopes lb) (fold (sp_update f) keys s)
    \<and> lb_buckets (fold (on_bucket f) scopes lb) = lb_buckets lb
    \<and> lb_active (fold (on_bucket f) scopes lb) = lb_active lb"
  using assms
proof (induction scopes arbitrary: keys lb s K)
  case (Cons a scopes)
  then obtain k ks where keys: "keys = k # ks" and m: "map_of (lb_buckets lb) k = Some a"
    and rest: "list_all2 (\<lambda>a k. map_of (lb_buckets lb) k = Some a) scopes ks"
    by (auto simp: list_all2_Cons1)
  note D = implementsD [OF Cons.prems(2)]
  have "agree (limits_of policy k) now (f (lb_store lb a)) (f (sp_bucket s k)) \<and> same (f (lb_store lb a)) (f (sp_bucket s k))"
    using Cons.prems(3) [of k "lb_store lb a" "sp_bucket s k"] D(5) [OF m] D(6) [OF m] keys by simp
  then have "implements policy now (insert k K) (on_bucket f a lb) (sp_update f k s)"
    unfolding on_bucket_def by (intro implements_update [OF Cons.prems(2) m]) auto
  then have "implements policy now (insert k K \<union> set ks) (fold (on_bucket f) scopes (on_bucket f a lb)) (fold (sp_update f) ks (sp_update f k s))
    \<and> lb_buckets (fold (on_bucket f) scopes (on_bucket f a lb)) = lb_buckets (on_bucket f a lb)
    \<and> lb_active (fold (on_bucket f) scopes (on_bucket f a lb)) = lb_active (on_bucket f a lb)"
    using rest keys by (intro Cons.IH) (auto intro: Cons.prems(3) [THEN conjunct1] Cons.prems(3) [THEN conjunct2])
  then show ?case
    by (simp add: keys)
qed simp

definition rule_limits_known :: "compiled_policy_set \<Rightarrow> bool" where
  "rule_limits_known policy \<longleftrightarrow>
     (\<forall>tenant model rule. matching_rule (policy_for policy tenant) model = Some rule
        \<longrightarrow> limits_of policy (ModelRule tenant (cmr_rule_id rule)) = cmr_limits rule)"

lemma reserve_scopes_implements:
  assumes "implements policy now K lb s" "rule_limits_known policy" "reserve_scopes now request lb = (lb', scopes)"
  shows "implements policy now {} lb' s \<and> lb_active lb' = lb_active lb
    \<and> list_all2 (\<lambda>a k. map_of (lb_buckets lb') k = Some a) scopes (scope_keys policy request)"
proof -
  let ?t = "rr_tenant_key request"
  obtain lb1 global where b1: "bucket_for now (TenantGlobal ?t) (limits_of policy (TenantGlobal ?t)) lb = (lb1, global)"
    by (meson surj_pair)
  note i1 = bucket_for_implements [OF assms(1) b1]
  have pol: "lb_policy lb = policy" using implementsD(1) [OF assms(1)] .
  show ?thesis
  proof (cases "Option.bind (rr_model_id request) (matching_rule (policy_for policy ?t))")
    case None
    then show ?thesis
      using assms(3) b1 i1 by (auto simp: reserve_scopes_def Let_def pol scope_keys_def)
  next
    case (Some rule)
    let ?k = "ModelRule ?t (cmr_rule_id rule)"
    have "limits_of policy ?k = cmr_limits rule"
      using Some assms(2) unfolding rule_limits_known_def by (auto simp: Option.bind_eq_Some_conv)
    moreover obtain lb2 a where b2: "bucket_for now ?k (limits_of policy ?k) lb1 = (lb2, a)"
      by (meson surj_pair)
    ultimately have "lb' = lb2" "scopes = [global, a]"
      using assms(3) b1 Some by (auto simp: reserve_scopes_def Let_def pol simp del: limits_of.simps(2))
    moreover note i2 = bucket_for_implements [OF conjunct1 [OF i1] b2]
    moreover have "map_of (lb_buckets lb2) (TenantGlobal ?t) = Some global"
      using i1 i2 by (auto simp: map_le_def dom_def)
    ultimately show ?thesis
      using i1 Some by (simp add: scope_keys_def Let_def)
  qed
qed

lemma active_alike:
  assumes "list_all2 (held_alike buckets) xs ys"
  shows "case map_of xs i of
      None \<Rightarrow> map_of ys i = None
    | Some r \<Rightarrow> (\<exists>keys. map_of ys i = Some (keys, ar_reserved_tokens r)
        \<and> list_all2 (\<lambda>a k. map_of buckets k = Some a) (reservation_buckets r) keys)"
  using assms by (induction rule: list_all2_induct) (auto simp: held_alike_def split: option.splits)

lemma delete_alike:
  "list_all2 (held_alike buckets) xs ys \<Longrightarrow> list_all2 (held_alike buckets) (AList.delete i xs) (AList.delete i ys)"
  by (induction rule: list_all2_induct) (auto simp: held_alike_def AList.delete_eq)

lemma implements_active:
  assumes "implements policy now K lb s" "list_all2 (held_alike (lb_buckets lb)) xs ys"
  shows "implements policy now K (lb\<lparr>lb_active := xs\<rparr>) (s\<lparr>sp_active := ys\<rparr>)"
  using assms unfolding implements_def by simp

lemma scope_keys_cases:
  obtains k where "scope_keys policy request = [k]" | k k' where "scope_keys policy request = [k, k']"
  unfolding scope_keys_def Let_def
  by (cases "Option.bind (rr_model_id request) (matching_rule (policy_for policy (rr_tenant_key request)))") auto

lemma list_all2_map_eq:
  "list_all2 P xs ys \<Longrightarrow> (\<And>x y. P x y \<Longrightarrow> y \<in> set ys \<Longrightarrow> f x = g y) \<Longrightarrow> map f xs = map g ys"
  by (induction rule: list_all2_induct) auto

lemma dry_runs_alike:
  assumes "implements policy t K lb s" "list_all2 (\<lambda>a k. map_of (lb_buckets lb) k = Some a) scopes keys" "set keys \<subseteq> K"
  shows "map (\<lambda>a. dry_run (lb_store lb a) n m) scopes = map (\<lambda>k. dry_run (sp_bucket s k) n m) keys"
proof (rule list_all2_map_eq [OF assms(2)])
  fix a k assume "map_of (lb_buckets lb) k = Some a" "k \<in> set keys"
  then show "dry_run (lb_store lb a) n m = dry_run (sp_bucket s k) n m"
    using implementsD(5,6) [OF assms(1), of k a] assms(3) same_dry_run [of "limits_of policy k"] by (auto simp: agree_def known_def)
qed

lemma reserve_implements:
  assumes "implements policy now K lb s" "now \<le> t" "t < 2 ^ 64" "rule_limits_known policy"
  shows "implements policy t {} (fst (reserve t request lb)) (fst (sp_reserve policy t request s))
    \<and> snd (reserve t request lb) = snd (sp_reserve policy t request s)"
proof (cases "map_of (lb_active lb) (rr_request_charge_id request)")
  case (Some r)
  then show ?thesis
    using active_alike [OF implementsD(8) [OF assms(1)], of "rr_request_charge_id request"] implements_mono [OF assms(1,2), of "{}"]
    by (auto simp: reserve_def sp_reserve_def)
next
  case None
  let ?id = "rr_request_charge_id request" and ?n = "f64_of_nat (unat (rr_estimated_input_tokens request))"
  let ?keys = "scope_keys policy request"
  have none: "map_of (sp_active s) ?id = None"
    using active_alike [OF implementsD(8) [OF assms(1)], of ?id] None by simp
  obtain lb0 scopes where r0: "reserve_scopes t request lb = (lb0, scopes)" by (meson surj_pair)
  note i0 = reserve_scopes_implements [OF implements_mono [OF assms(1,2) subset_refl] assms(4) r0]
  define lb1 where "lb1 = fold (lock_bucket t) scopes lb0"
  define s1 where "s1 = fold (sp_update (lock_and_refill t)) ?keys s"
  have i1: "implements policy t ({} \<union> set ?keys) lb1 s1 \<and> lb_buckets lb1 = lb_buckets lb0 \<and> lb_active lb1 = lb_active lb0"
    unfolding lb1_def s1_def on_bucket_folds using i0 lock_agree [OF _ order_refl assms(3)]
    by (intro fold_implements) auto
  have l1: "list_all2 (\<lambda>a k. map_of (lb_buckets lb1) k = Some a) scopes ?keys"
    using i0 i1 by simp
  note dry = dry_runs_alike [OF conjunct1 [OF i1] l1 Un_upper2, of ?n "F_fin 1"]
  show ?thesis
  proof (cases "worst_retry (map (\<lambda>k. dry_run (sp_bucket s1 k) ?n (F_fin 1)) ?keys)")
    case (Some retry)
    then show ?thesis
      using None none r0 dry i1 implements_mono [of policy t "{} \<union> set ?keys" lb1 s1 t "{}"]
      by (simp add: reserve_def sp_reserve_def Let_def flip: lb1_def s1_def)
  next
    case admitted: None
    define lb2 where "lb2 = fold (debit_bucket ?n) scopes lb1"
    define s2 where "s2 = fold (sp_update (debit ?n (F_fin 1))) ?keys s1"
    have i2: "implements policy t ({} \<union> set ?keys \<union> set ?keys) lb2 s2 \<and> lb_buckets lb2 = lb_buckets lb1 \<and> lb_active lb2 = lb_active lb1"
      unfolding lb2_def s2_def on_bucket_folds using i1 l1 debit_agree
      by (intro fold_implements) auto
    let ?r = "\<lparr>ar_global = hd scopes, ar_rule = (case tl scopes of [] \<Rightarrow> None | a # _ \<Rightarrow> Some a),
       ar_reserved_tokens = rr_estimated_input_tokens request\<rparr>"
    have "reservation_buckets ?r = scopes"
      using l1 by (cases rule: scope_keys_cases [of policy request]) (auto simp: list_all2_Cons2 reservation_buckets_def)
    then have "held_alike (lb_buckets lb2) (?id, ?r) (?id, ?keys, rr_estimated_input_tokens request)"
      using l1 i2 by (simp add: held_alike_def)
    then have "implements policy t ({} \<union> set ?keys \<union> set ?keys) (lb2\<lparr>lb_active := (?id, ?r) # lb_active lb2\<rparr>)
        (s2\<lparr>sp_active := (?id, ?keys, rr_estimated_input_tokens request) # sp_active s2\<rparr>)"
      using i2 implementsD(8) [OF conjunct1 [OF i2]] by (intro implements_active) simp_all
    then show ?thesis
      using None none r0 dry admitted implements_mono [of policy t "{} \<union> set ?keys \<union> set ?keys" _ _ t "{}"]
      by (simp add: reserve_def sp_reserve_def Let_def flip: lb1_def s1_def lb2_def s2_def)
  qed
qed


lemma settle_lock_agree:
  assumes "agree l t b c" "t < 2 ^ 64"
  shows "agree l t (settle_tokens d (lock_and_refill t b)) (settle_tokens d (lock_and_refill t c))
    \<and> same (settle_tokens d (lock_and_refill t b)) (settle_tokens d (lock_and_refill t c))"
  using settle_agree [OF lock_agree [OF assms(1) order_refl assms(2)], of d] by blast

lemma settle_implements:
  assumes "implements policy now K lb s" "now \<le> t" "t < 2 ^ 64"
  shows "implements policy t {} (settle_success t i usage lb) (sp_settle t i usage s)"
proof (cases "map_of (lb_active lb) i")
  case None
  then show ?thesis
    using active_alike [OF implementsD(8) [OF assms(1)], of i] implements_mono [OF assms(1,2), of "{}"]
    by (simp add: settle_success_def sp_settle_def)
next
  case (Some r)
  then obtain keys where keys: "map_of (sp_active s) i = Some (keys, ar_reserved_tokens r)"
      "list_all2 (\<lambda>a k. map_of (lb_buckets lb) k = Some a) (reservation_buckets r) keys"
    using active_alike [OF implementsD(8) [OF assms(1)], of i] by auto
  let ?lb = "lb\<lparr>lb_active := AList.delete i (lb_active lb)\<rparr>" and ?s = "s\<lparr>sp_active := AList.delete i (sp_active s)\<rparr>"
  define d where "d = f64_of_int (int (unat (us_actual_input_tokens usage)) + int (unat (us_completion_tokens usage))
    - int (unat (ar_reserved_tokens r)))"
  have "implements policy t {} ?lb ?s"
    using implementsD(8) [OF assms(1)] delete_alike implements_mono [OF assms(1,2), of "{}"] by (intro implements_active) auto
  then have "implements policy t ({} \<union> set keys) (fold (on_bucket (settle_tokens d \<circ> lock_and_refill t)) (reservation_buckets r) ?lb)
      (fold (sp_update (settle_tokens d \<circ> lock_and_refill t)) keys ?s)"
    using keys(2) settle_lock_agree [OF _ assms(3)] by (intro fold_implements [THEN conjunct1]) simp_all
  then have "implements policy t {} (fold (on_bucket (settle_tokens d \<circ> lock_and_refill t)) (reservation_buckets r) ?lb)
      (fold (sp_update (settle_tokens d \<circ> lock_and_refill t)) keys ?s)"
    by (rule implements_mono) simp_all
  then show ?thesis
    using Some keys(1) by (simp add: settle_success_def sp_settle_def Let_def on_bucket_folds d_def)
qed

lemma drop_implements:
  assumes "implements policy now K lb s" "now \<le> t"
  shows "implements policy t {} (lb\<lparr>lb_active := AList.delete i (lb_active lb)\<rparr>) (sp_drop i s)"
  unfolding sp_drop_def
  using implementsD(8) [OF assms(1)] delete_alike implements_mono [OF assms, of "{}"] by (intro implements_active) auto

text \<open>A bucket is held on one side when it is held on the other.\<close>

lemma bucket_held:
  assumes "list_all2 (\<lambda>a k. map_of buckets k = Some a) as ks" "distinct (map snd buckets)" "map_of buckets k = Some a"
  shows "a \<in> set as \<longleftrightarrow> k \<in> set ks"
  using assms(1) address_inj [OF assms(2)] assms(3) by (induction rule: list_all2_induct) auto

lemma held_iff:
  assumes "list_all2 (held_alike buckets) xs ys" "distinct (map snd buckets)" "map_of buckets k = Some a"
  shows "a \<in> set (concat (map (reservation_buckets \<circ> snd) xs)) \<longleftrightarrow> (\<exists>(i, ks, n) \<in> set ys. k \<in> set ks)"
  using assms(1)
proof (induction rule: list_all2_induct)
  case (Cons x xs y ys)
  then show ?case
    using bucket_held [OF _ assms(2,3), of "reservation_buckets (snd x)" "fst (snd y)"]
    by (auto simp: held_alike_def split_def)
qed simp

lemma count_list_distinct: "distinct xs \<Longrightarrow> count_list xs x = (if x \<in> set xs then 1 else 0)"
  by (induction xs) auto

lemma strong_count_held:
  assumes "implements policy now K lb s" "map_of (lb_buckets lb) k = Some a"
  shows "strong_count a lb = 1 \<longleftrightarrow> \<not> sp_held k s"
proof -
  note D = implementsD [OF assms(1)]
  have "a \<in> snd ` set (lb_buckets lb)"
    using map_of_SomeD [OF assms(2)] by force
  then have "count_list (map snd (lb_buckets lb)) a = 1"
    using D(3) by (simp add: count_list_distinct)
  then show ?thesis
    using held_iff [OF D(8,3) assms(2)] count_list_0_iff [of "concat (map (reservation_buckets \<circ> snd) (lb_active lb))" a]
    by (simp add: strong_count_def sp_held_def)
qed

lemma implements_delete:
  assumes "implements policy now K lb s" "map_of (lb_buckets lb) k = Some a" "\<not> sp_held k s" "at_capacity (sp_bucket s k)"
  shows "implements policy now {} (lb\<lparr>lb_buckets := AList.delete k (lb_buckets lb)\<rparr>) s"
  unfolding implements_def
proof (intro conjI allI impI)
  note D = implementsD [OF assms(1)]
  have del: "map_of (AList.delete k (lb_buckets lb)) k' = (if k' = k then None else map_of (lb_buckets lb) k')" for k'
    by (simp add: delete_conv')
  show "list_all2 (held_alike (lb_buckets (lb\<lparr>lb_buckets := AList.delete k (lb_buckets lb)\<rparr>)))
      (lb_active (lb\<lparr>lb_buckets := AList.delete k (lb_buckets lb)\<rparr>)) (sp_active s)"
  proof (simp, rule list.rel_mono_strong [OF D(8)])
    fix x y assume y: "y \<in> set (sp_active s)" and h: "held_alike (lb_buckets lb) x y"
    have "k \<notin> set (fst (snd y))" using y assms(3) by (auto simp: sp_held_def split_def)
    then have "list_all2 (\<lambda>a k'. map_of (AList.delete k (lb_buckets lb)) k' = Some a) (reservation_buckets (snd x)) (fst (snd y))"
      using h unfolding held_alike_def by (auto simp: del intro: list.rel_mono_strong)
    then show "held_alike (AList.delete k (lb_buckets lb)) x y"
      using h by (simp add: held_alike_def)
  qed
  fix k' assume "map_of (lb_buckets (lb\<lparr>lb_buckets := AList.delete k (lb_buckets lb)\<rparr>)) k' = None"
  then show "known (limits_of policy k') now (sp_bucket s k')" "at_capacity (sp_bucket s k')"
    using D(5) [OF assms(2)] D(7) assms(4) by (auto simp: del agree_def split: if_splits)
qed (use implementsD [OF assms(1)] in \<open>auto simp: delete_conv' distinct_delete AList.delete_eq distinct_map_filter split: if_splits\<close>)


lemma evictable_bucket:
  "fst (evictable t ttl a lb)
     = (if strong_count a lb = 1 \<and> ttl \<le> idle_at t (lb_store lb a) then set_bucket a (refill_at t (lb_store lb a)) lb else lb)"
  "snd (evictable t ttl a lb) \<longleftrightarrow>
     strong_count a lb = 1 \<and> ttl \<le> idle_at t (lb_store lb a) \<and> snd (is_full t (lb_store lb a))"
  by (auto simp: evictable_def is_full_def Let_def)

lemma same_idle: "agree l now b c \<Longrightarrow> now \<le> t \<Longrightarrow> same b c \<Longrightarrow> idle_at t b = idle_at t c"
  by (simp add: agree_def known_def same_def idle_at_touched)

lemma swept_agree:
  assumes "agree l now b c" "now \<le> t"
  shows "agree l t (if P \<and> ttl \<le> idle_at t b then refill_at t b else b) (if P \<and> ttl \<le> idle_at t c then refill_at t c else c)"
    (is "agree l t ?b ?c")
proof (cases "same b c")
  case True
  then show ?thesis
    using sweep_agree [OF assms] agree_mono [OF assms] same_idle [OF assms] by simp
next
  case False
  then have "at_capacity ?b" "at_capacity ?c" "known l t ?b" "known l t ?c"
    using assms refill_at_capacity [of l b t] refill_at_capacity [of l c t] by (auto simp: agree_def known_def)
  then show ?thesis by (simp add: agree_def)
qed

lemma agree_capacity:
  assumes "agree l now b c" "at_capacity b"
  shows "at_capacity c"
proof (cases "at_capacity c")
  case False
  then have "same b c" using assms(1) by (simp add: agree_def)
  moreover have "sized l b" "sized l c" using assms(1) by (simp_all add: agree_def known_def)
  ultimately show ?thesis using assms(2) by (simp add: sized_def same_def at_capacity_def)
qed

lemma sweep_implements:
  assumes "implements policy now K lb s" "now \<le> t"
  shows "implements policy t {} (fst (remove_if_idle t ttl k lb)) (sp_sweep t ttl k s)"
proof (cases "map_of (lb_buckets lb) k")
  case None
  note i = implements_mono [OF assms, of "{}"]
  have "known (limits_of policy k) t (refill_at t (sp_bucket s k)) \<and> at_capacity (refill_at t (sp_bucket s k))"
    using implementsD(7) [OF i [OF empty_subsetI] None] refill_at_capacity [of "limits_of policy k" "sp_bucket s k"] by (simp add: known_def)
  then have "implements policy t {} lb (sp_update (refill_at t) k s)"
    using i None unfolding implements_def by auto
  then show ?thesis
    using None i by (simp add: remove_if_idle_def sp_sweep_def)
next
  case (Some a)
  let ?b = "lb_store lb a" and ?c = "sp_bucket s k" and ?l = "limits_of policy k"
  note i = implements_mono [OF assms empty_subsetI]
  have ag: "agree ?l now ?b ?c" using implementsD(5) [OF assms(1) Some] .
  have held: "strong_count a lb = 1 \<longleftrightarrow> \<not> sp_held k s" by (rule strong_count_held [OF assms(1) Some])
  define f where "f = (\<lambda>b. if \<not> sp_held k s \<and> ttl \<le> idle_at t b then refill_at t b else b)"
  have fst_ev: "fst (evictable t ttl a lb) = set_bucket a (f ?b) lb"
    using held unfolding One_nat_def by (simp add: evictable_bucket f_def set_bucket_def)
  have sweep: "sp_sweep t ttl k s = sp_update f k s"
    by (simp add: sp_sweep_def f_def sp_update_def)
  have agree_f: "agree ?l t (f ?b) (f ?c)"
    unfolding f_def by (rule swept_agree [OF ag assms(2)])
  have upd: "implements policy t {} (set_bucket a (f ?b) lb) (sp_update f k s)"
    using agree_f by (intro implements_update [OF i Some]) simp_all
  show ?thesis
  proof (cases "snd (evictable t ttl a lb)")
    case False
    then show ?thesis
      using upd fst_ev Some sweep by (simp add: remove_if_idle_def split_def)
  next
    case True
    then have cond: "\<not> sp_held k s" "ttl \<le> idle_at t ?b" "snd (is_full t ?b)"
      using held unfolding evictable_bucket(2) by blast+
    moreover have "known ?l now ?b" using ag by (simp add: agree_def)
    ultimately have full: "at_capacity (f ?b)"
      using is_full_at_capacity [OF _ assms(2)] by (simp add: f_def)
    have "at_capacity (f ?c)"
      using agree_f full agree_capacity by blast
    then have "implements policy t {} ((set_bucket a (f ?b) lb)\<lparr>lb_buckets := AList.delete k (lb_buckets lb)\<rparr>) (sp_update f k s)"
      using implements_delete [OF upd, of k a] Some cond(1) by (simp add: sp_held_def)
    then show ?thesis
      using True fst_ev Some sweep by (simp add: remove_if_idle_def split_def)
  qed
qed

lemma step_implements:
  assumes "implements policy now {} lb s" "now \<le> t" "t < 2 ^ 64" "rule_limits_known policy"
  shows "implements policy t {} (fst (lb_step t e lb)) (fst (sp_step policy t e s)) \<and> snd (lb_step t e lb) = snd (sp_step policy t e s)"
  using reserve_implements [OF assms] settle_implements [OF assms(1-3)] drop_implements [OF assms(1,2)] sweep_implements [OF assms(1,2)]
  by (cases e) (simp_all add: split_def close_reserved_only_def abandon_def)

lemma run_implements:
  assumes "implements policy now {} lb s" "rule_limits_known policy"
    and "sorted (now # map fst es)" "\<forall>t\<in>set (map fst es). t < 2 ^ 64"
  shows "run_events P lb_step es lb = run_events P (sp_step policy) es s"
  using assms
proof (induction es arbitrary: now lb s)
  case (Cons x es)
  obtain t e where x: "x = (t, e)" by (meson surj_pair)
  have st: "implements policy t {} (fst (lb_step t e lb)) (fst (sp_step policy t e s))" "snd (lb_step t e lb) = snd (sp_step policy t e s)"
    using step_implements [OF Cons.prems(1) _ _ Cons.prems(2), of t e] Cons.prems(3,4) x by auto
  show ?case
    using Cons.IH [OF st(1) Cons.prems(2)] st(2) Cons.prems(3,4) x by (simp add: split_def)
qed simp

lemma start_implements: "implements policy 0 {} (lb_new policy) (sp_new policy)"
  by (simp add: implements_def lb_new_def sp_new_def new_known)

text \<open>In a validated policy a rule id has one limit.\<close>

lemma compiled_rules_sub:
  "snd ` set (fst (compile_rules rules exact prefix)) \<union> cpr_rule ` set (snd (compile_rules rules exact prefix))
   \<subseteq> snd ` set exact \<union> cpr_rule ` set prefix \<union> compile_rule ` set rules"
proof (induction rules arbitrary: exact prefix)
  case (Cons r rules)
  have "snd ` set (AList.update k v xs) \<subseteq> insert v (snd ` set xs)" for k v xs
    by (induction xs) auto
  note upd = this
  show ?case
  proof (cases "mrs_matcher r")
    case (Exact v)
    have "snd ` set (AList.update v (compile_rule r) exact) \<union> cpr_rule ` set prefix \<union> compile_rule ` set rules
        \<subseteq> snd ` set exact \<union> cpr_rule ` set prefix \<union> compile_rule ` set (r # rules)"
      using upd [of v "compile_rule r" exact] by (simp add: subset_iff) blast
    with Cons.IH [of "AList.update v (compile_rule r) exact" prefix] show ?thesis
      using Exact by (simp only: compile_rules.simps model_matcher_spec.simps)
  next
    case (Prefix v)
    then show ?thesis
      using Cons.IH [of exact "prefix @ [\<lparr>cpr_prefix = v, cpr_rule = compile_rule r\<rparr>]"] by simp
  qed
qed simp

lemma find_member: "find P xs = Some x \<Longrightarrow> x \<in> set xs"
  by (induction xs) (auto split: if_splits)

lemma find_unique:
  assumes "x \<in> set xs" "\<And>y. y \<in> set xs \<Longrightarrow> P y \<longleftrightarrow> y = x"
  shows "find P xs = Some x"
  using assms by (induction xs) auto

lemma policy_limits_known:
  assumes "policy_ok spec" "matching_rule (compile_policy spec) model = Some rule"
  shows "find (\<lambda>r. cmr_rule_id r = cmr_rule_id rule) (policy_rules (compile_policy spec)) = Some rule"
proof -
  let ?rules = "tps_model_rules spec"
  have sub: "set (policy_rules (compile_policy spec)) \<subseteq> compile_rule ` set ?rules"
    using compiled_rules_sub [of ?rules "[]" "[]"] by (simp add: policy_rules_def compile_policy_def split_def)
  have member: "rule \<in> set (policy_rules (compile_policy spec))"
  proof (cases "map_of (ctp_exact_model_rules (compile_policy spec)) model")
    case (Some r)
    then show ?thesis
      using assms(2) map_of_SomeD [OF Some] by (force simp: matching_rule_def policy_rules_def)
  next
    case None
    then obtain p where "p \<in> set (ctp_prefix_model_rules (compile_policy spec))" "rule = cpr_rule p"
      using assms(2) by (auto simp: matching_rule_def dest: find_member)
    then show ?thesis by (simp add: policy_rules_def)
  qed
  moreover have "r = rule" if r: "r \<in> set (policy_rules (compile_policy spec))" and same_id: "cmr_rule_id r = cmr_rule_id rule" for r
  proof -
    obtain q q' where "q \<in> set ?rules" "q' \<in> set ?rules" "r = compile_rule q" "rule = compile_rule q'"
      using subsetD [OF sub r] subsetD [OF sub member] by (elim imageE) blast
    moreover have "inj_on mrs_rule_id (set ?rules)"
      using assms(1) by (simp add: policy_ok_def rules_ok_def distinct_map)
    moreover have "mrs_rule_id q = mrs_rule_id q'"
      using same_id calculation(3,4) by (simp add: compile_rule_def)
    ultimately show ?thesis by (simp add: inj_on_eq_iff)
  qed
  ultimately show ?thesis by (intro find_unique) blast+
qed

lemma compile_tenants_ok:
  "(\<And>k p. (k, p) \<in> set acc \<Longrightarrow> \<exists>spec. policy_ok spec \<and> p = compile_policy spec) \<Longrightarrow> list_all policy_ok specs
   \<Longrightarrow> map_of (compile_tenants specs acc) tenant = Some p \<Longrightarrow> \<exists>spec. policy_ok spec \<and> p = compile_policy spec"
proof (induction specs arbitrary: acc)
  case Nil
  then show ?case by (auto dest: map_of_SomeD)
next
  case (Cons spec specs)
  have upd: "(k, p) \<in> set acc \<or> p = v" if "(k, p) \<in> set (AList.update k' v acc)" for k k' p v
    using that by (induction acc) (auto split: if_splits)
  show ?case
  proof (cases "tps_tenant_key spec")
    case None
    then show ?thesis using Cons.IH [of acc] Cons.prems by simp
  next
    case (Some k')
    have "\<exists>sp. policy_ok sp \<and> q = compile_policy sp" if "(k, q) \<in> set (AList.update k' (compile_policy spec) acc)" for k q
      using upd [OF that] Cons.prems(1,2) by auto
    then show ?thesis
      using Cons.IH [of "AList.update k' (compile_policy spec) acc"] Cons.prems(2,3) Some by simp
  qed
qed

lemma compiled_limits_known:
  assumes "compile_policies canonical yaml = Inr policy"
  shows "rule_limits_known policy"
  unfolding rule_limits_known_def
proof (intro allI impI)
  fix tenant model rule assume m: "matching_rule (policy_for policy tenant) model = Some rule"
  obtain u where "yaml_validate canonical yaml = Inr u"
    and policy: "policy = \<lparr>cps_default = compile_policy (ry_default_policy yaml), cps_tenants = compile_tenants (ry_tenants yaml) []\<rparr>"
    using assms by (auto simp: compile_policies_def split: sum.splits)
  then have ok: "yaml_ok canonical yaml" using yaml_validate_iff [of canonical yaml] by simp
  then have "list_all policy_ok (ry_tenants yaml)" by (auto simp: yaml_ok_def list_all_iff)
  then have "\<exists>spec. policy_ok spec \<and> policy_for policy tenant = compile_policy spec"
    using ok compile_tenants_ok [of "[]" "ry_tenants yaml" tenant]
    by (cases "map_of (compile_tenants (ry_tenants yaml) []) tenant") (auto simp: policy policy_for_def yaml_ok_def)
  then show "limits_of policy (ModelRule tenant (cmr_rule_id rule)) = cmr_limits rule"
    using policy_limits_known m by auto
qed


text \<open>C34. The backend answers every request as if each tenant and each model rule of a tenant had
  one permanent bucket, full at the start: creating buckets on first use, sharing them between the
  map and reservations, and evicting idle ones forgives and charges nothing, whatever the calls and
  sweeps, as long as the clock does not run backwards nor past 584 years.\<close>

theorem buckets_as_if_permanent:
  assumes "compile_policies canonical yaml = Inr policy"
    and "sorted (map fst es)" "\<forall>t\<in>set (map fst es). t < 2 ^ 64"
  shows "run_events (\<lambda>_. True) lb_step es (lb_new policy) = run_events (\<lambda>_. True) (sp_step policy) es (sp_new policy)"
  by (rule run_implements [OF start_implements compiled_limits_known [OF assms(1)]]) (use assms(2,3) in simp_all)

end
