(* ===== verification/Limiter_Properties.thy ===== *)
theory Limiter_Properties
  imports Limiter_Refinement
begin

text \<open>
  What the tenant limiter promises its users, derived from its contract: tenants do not affect
  each other's answers, and a burst is admitted up to the configured limits.
\<close>

section \<open>Tenants do not affect each other\<close>

fun tenant_of_key :: "scope_key \<Rightarrow> tenant_key" where
  "tenant_of_key (TenantGlobal tenant) = tenant"
| "tenant_of_key (ModelRule tenant rule_id) = tenant"

text \<open>\<open>owner\<close> says whose charge an id is.\<close>

fun event_tenant :: "(u128 \<Rightarrow> tenant_key) \<Rightarrow> limiter_event \<Rightarrow> tenant_key" where
  "event_tenant owner (Reserve request) = rr_tenant_key request"
| "event_tenant owner (Settle i usage) = owner i"
| "event_tenant owner (Close i) = owner i"
| "event_tenant owner (Abandon i) = owner i"
| "event_tenant owner (Sweep ttl key) = tenant_of_key key"

fun well_owned :: "(u128 \<Rightarrow> tenant_key) \<Rightarrow> limiter_event \<Rightarrow> bool" where
  "well_owned owner (Reserve request) \<longleftrightarrow> owner (rr_request_charge_id request) = rr_tenant_key request"
| "well_owned owner _ \<longleftrightarrow> True"

definition owned :: "(u128 \<Rightarrow> tenant_key) \<Rightarrow> limiter_spec \<Rightarrow> bool" where
  "owned owner s \<longleftrightarrow> (\<forall>(i, keys, n) \<in> set (sp_active s). \<forall>k\<in>set keys. tenant_of_key k = owner i)"

definition alike :: "(u128 \<Rightarrow> tenant_key) \<Rightarrow> tenant_key \<Rightarrow> limiter_spec \<Rightarrow> limiter_spec \<Rightarrow> bool" where
  "alike owner T s s' \<longleftrightarrow> (\<forall>k. tenant_of_key k = T \<longrightarrow> sp_bucket s k = sp_bucket s' k)
     \<and> filter (\<lambda>x. owner (fst x) = T) (sp_active s) = filter (\<lambda>x. owner (fst x) = T) (sp_active s')"

lemma fold_sp_update_active [simp]: "sp_active (fold (sp_update f) keys s) = sp_active s"
  by (induction keys arbitrary: s) simp_all

lemma fold_sp_update_other:
  "k \<notin> set keys \<Longrightarrow> sp_bucket (fold (sp_update f) keys s) k = sp_bucket s k"
  by (induction keys arbitrary: s) auto

lemma fold_sp_update_alike:
  assumes "alike owner T s s'" "\<forall>k\<in>set keys. tenant_of_key k = T"
  shows "alike owner T (fold (sp_update f) keys s) (fold (sp_update f) keys s')"
  using assms by (induction keys arbitrary: s s') (auto simp: alike_def)

lemma fold_sp_update_stranger:
  assumes "alike owner T s s'" "\<forall>k\<in>set keys. tenant_of_key k \<noteq> T"
  shows "alike owner T (fold (sp_update f) keys s) s'"
  using assms fold_sp_update_other [of _ keys f s] by (auto simp: alike_def)

lemma map_of_filter_own: "map_of (filter (\<lambda>x. owner (fst x) = T) xs) i = (if owner i = T then map_of xs i else None)"
  by (induction xs) auto

lemma alike_map_of: "alike owner T s s' \<Longrightarrow> owner i = T \<Longrightarrow> map_of (sp_active s) i = map_of (sp_active s') i"
  using map_of_filter_own [of owner T "sp_active s" i] map_of_filter_own [of owner T "sp_active s'" i] by (simp add: alike_def)

lemma scope_keys_tenant: "k \<in> set (scope_keys policy request) \<Longrightarrow> tenant_of_key k = rr_tenant_key request"
  by (auto simp: scope_keys_def Let_def)

lemma held_own:
  assumes "owned owner s"
  shows "sp_held k s \<longleftrightarrow> (\<exists>(i, keys, n) \<in> set (filter (\<lambda>x. owner (fst x) = tenant_of_key k) (sp_active s)). k \<in> set keys)"
  using assms unfolding sp_held_def owned_def by fastforce

lemma delete_filter_own:
  "filter (\<lambda>x. owner (fst x) = T) (AList.delete i xs) = AList.delete i (filter (\<lambda>x. owner (fst x) = T) xs)"
  by (simp add: AList.delete_eq) (metis (no_types, lifting))

lemma owned_step:
  assumes "owned owner s" "well_owned owner e"
  shows "owned owner (fst (sp_step policy t e s))"
proof -
  have del: "owned owner (sp_drop i s)" for i
    using assms(1) by (auto simp: owned_def sp_drop_def AList.delete_eq)
  show ?thesis
  proof (cases e)
    case (Reserve request)
    then show ?thesis
      using assms scope_keys_tenant [of _ policy request]
      by (auto simp: owned_def sp_reserve_def Let_def split: option.splits)
  next
    case (Settle i usage)
    then show ?thesis
      using assms(1) del [of i] by (auto simp: owned_def sp_settle_def sp_drop_def Let_def split: option.splits)
  qed (use assms(1) del in \<open>simp_all add: sp_sweep_def owned_def\<close>)
qed

text \<open>What a tenant sees changes in step with its own events only.\<close>

lemma own_step:
  assumes "alike owner T s s'" "owned owner s" "owned owner s'" "well_owned owner e" "event_tenant owner e = T"
  shows "alike owner T (fst (sp_step policy t e s)) (fst (sp_step policy t e s'))
    \<and> snd (sp_step policy t e s) = snd (sp_step policy t e s')"
proof -
  have del: "alike owner T (s\<lparr>sp_active := AList.delete i (sp_active s)\<rparr>) (s'\<lparr>sp_active := AList.delete i (sp_active s')\<rparr>)" for i
    using assms(1) by (simp add: alike_def delete_filter_own)
  show ?thesis
  proof (cases e)
    case (Reserve request)
    let ?keys = "scope_keys policy request"
    have own: "\<forall>k\<in>set ?keys. tenant_of_key k = T" "owner (rr_request_charge_id request) = T"
      using scope_keys_tenant assms(4,5) Reserve by auto
    define u u' where "u = fold (sp_update (lock_and_refill t)) ?keys s" and "u' = fold (sp_update (lock_and_refill t)) ?keys s'"
    have a: "alike owner T u u'" unfolding u_def u'_def by (rule fold_sp_update_alike [OF assms(1) own(1)])
    have dry: "map (\<lambda>k. dry_run (sp_bucket u k) n (F_fin 1)) ?keys = map (\<lambda>k. dry_run (sp_bucket u' k) n (F_fin 1)) ?keys" for n
      using a own(1) by (auto simp: alike_def)
    note d = fold_sp_update_alike [OF a own(1), of "debit (f64_of_nat (unat (rr_estimated_input_tokens request))) (F_fin 1)"]
    show ?thesis
      using alike_map_of [OF assms(1) own(2)] a d own(2) assms(1) unfolding Reserve sp_step.simps sp_reserve_def Let_def
      by (simp add: dry split: option.split flip: u_def u'_def) (auto simp: alike_def)
  next
    case (Settle i usage)
    then have i: "owner i = T" using assms(5) by simp
    have "\<forall>k\<in>set keys. tenant_of_key k = T" if "map_of (sp_active s) i = Some (keys, n)" for keys n
      using map_of_SomeD [OF that] assms(2) i by (auto simp: owned_def)
    then show ?thesis
      using alike_map_of [OF assms(1) i] fold_sp_update_alike [OF del] assms(1) unfolding Settle
      by (auto simp: sp_settle_def Let_def split: option.split)
  next
    case (Sweep ttl k)
    then have k: "tenant_of_key k = T" using assms(5) by simp
    have "sp_held k s = sp_held k s'"
      unfolding held_own [OF assms(2), of k] held_own [OF assms(3), of k] k using assms(1) by (simp only: alike_def)
    moreover have "sp_bucket s k = sp_bucket s' k" using k assms(1) by (simp add: alike_def)
    ultimately show ?thesis
      using assms(1) k unfolding Sweep by (auto simp: sp_sweep_def alike_def)
  qed (use del in \<open>simp_all add: sp_drop_def\<close>)
qed

lemma stranger_step:
  assumes "alike owner T s s'" "owned owner s" "well_owned owner e" "event_tenant owner e \<noteq> T"
  shows "alike owner T (fst (sp_step policy t e s)) s'"
proof -
  have del: "alike owner T (s\<lparr>sp_active := AList.delete i (sp_active s)\<rparr>) s'" if "owner i \<noteq> T" for i
  proof -
    have "AList.delete i (filter (\<lambda>x. owner (fst x) = T) (sp_active s)) = filter (\<lambda>x. owner (fst x) = T) (sp_active s)"
      using that by (intro delete_id) auto
    then show ?thesis using assms(1) by (simp add: alike_def delete_filter_own)
  qed
  show ?thesis
  proof (cases e)
    case (Reserve request)
    have own: "\<forall>k\<in>set (scope_keys policy request). tenant_of_key k \<noteq> T" "owner (rr_request_charge_id request) \<noteq> T"
      using scope_keys_tenant assms(3,4) Reserve by auto
    note a = fold_sp_update_stranger [OF assms(1) own(1), of "lock_and_refill t"]
    note d = fold_sp_update_stranger [OF a own(1), of "debit (f64_of_nat (unat (rr_estimated_input_tokens request))) (F_fin 1)"]
    show ?thesis
      using a d own(2) assms(1) unfolding Reserve sp_step.simps sp_reserve_def Let_def
      by (simp split: option.split) (auto simp: alike_def)
  next
    case (Settle i usage)
    then have i: "owner i \<noteq> T" using assms(4) by simp
    have "\<forall>k\<in>set keys. tenant_of_key k \<noteq> T" if "map_of (sp_active s) i = Some (keys, n)" for keys n
      using map_of_SomeD [OF that] assms(2) i by (auto simp: owned_def)
    then show ?thesis
      using fold_sp_update_stranger [OF del [OF i]] assms(1) unfolding Settle
      by (auto simp: sp_settle_def Let_def split: option.split)
  next
    case (Sweep ttl k)
    then show ?thesis
      using assms(1,4) by (auto simp: sp_sweep_def alike_def)
  qed (use del assms(4) in \<open>simp_all add: sp_drop_def\<close>)
qed

lemma run_alike:
  assumes "alike owner T s s'" "owned owner s" "owned owner s'" "\<forall>(t, e)\<in>set es. well_owned owner e"
  shows "run_events (\<lambda>e. event_tenant owner e = T) (sp_step policy) es s
    = run_events (\<lambda>_. True) (sp_step policy) (filter (\<lambda>(t, e). event_tenant owner e = T) es) s'"
  using assms
proof (induction es arbitrary: s s')
  case (Cons x es)
  obtain t e where x: "x = (t, e)" by (meson surj_pair)
  have w: "well_owned owner e" "\<forall>(t, e)\<in>set es. well_owned owner e" using Cons.prems(4) x by auto
  note o = owned_step [OF Cons.prems(2) w(1), of policy t] owned_step [OF Cons.prems(3) w(1), of policy t]
  show ?case
  proof (cases "event_tenant owner e = T")
    case True
    note st = own_step [OF Cons.prems(1-3) w(1) True, of policy t]
    show ?thesis
      using Cons.IH [OF conjunct1 [OF st] o w(2)] st True x by (simp add: split_def)
  next
    case False
    show ?thesis
      using Cons.IH [OF stranger_step [OF Cons.prems(1,2) w(1) False, of policy t] o(1) Cons.prems(3) w(2)] False x
      by (simp add: split_def)
  qed
qed simp

text \<open>C35. The answers a tenant gets are those it would get with the limiter to itself: no calls of
  other tenants, nor sweeps of their buckets, change them, when no two tenants share a charge
  id.\<close>

theorem tenant_isolation:
  assumes "compile_policies canonical yaml = Inr policy"
    and "sorted (map fst es)" "\<forall>t\<in>set (map fst es). t < 2 ^ 64"
    and "\<forall>(t, e)\<in>set es. well_owned owner e"
  shows "run_events (\<lambda>e. event_tenant owner e = T) lb_step es (lb_new policy)
    = run_events (\<lambda>_. True) lb_step (filter (\<lambda>(t, e). event_tenant owner e = T) es) (lb_new policy)"
proof -
  have imp: "run_events P lb_step xs (lb_new policy) = run_events P (sp_step policy) xs (sp_new policy)"
    if "sorted (map fst xs)" "\<forall>t\<in>set (map fst xs). t < 2 ^ 64" for P xs
    by (rule run_implements [OF start_implements compiled_limits_known [OF assms(1)]]) (use that in simp_all)
  have "sorted (map fst (filter (\<lambda>(t, e). event_tenant owner e = T) es))"
    using assms(2) by (rule sorted_filter)
  moreover have "\<forall>t\<in>set (map fst (filter (\<lambda>(t, e). event_tenant owner e = T) es)). t < 2 ^ 64"
    using assms(3) by auto
  moreover have "alike owner T (sp_new policy) (sp_new policy)" "owned owner (sp_new policy)"
    by (simp_all add: alike_def owned_def sp_new_def)
  ultimately show ?thesis
    using run_alike [of owner T "sp_new policy" "sp_new policy" es policy] assms(4) imp assms(2,3) by simp
qed


section \<open>Bursts stay within the limits\<close>

text \<open>At time \<open>now\<close> the bucket has \<open>x\<close> tokens and \<open>y\<close> requests left.\<close>

definition balance :: "scope_limits \<Rightarrow> nat \<Rightarrow> scope_bucket \<Rightarrow> nat \<Rightarrow> nat \<Rightarrow> bool" where
  "balance l now b x y \<longleftrightarrow> sized l b \<and> sb_last_refill b \<le> now
     \<and> sb_available_tokens (refill_at now b) = F_fin (of_nat x) \<and> x \<le> unat (sl_tokens_per_minute l)
     \<and> sb_available_requests (refill_at now b) = F_fin (of_nat y) \<and> y \<le> unat (sl_requests_per_minute l)"

lemma as_secs_f64_0: "as_secs_f64 0 = F_fin 0"
  by (simp add: as_secs_f64_def f64_of_nat_def f64_round_def)

lemma no_time_no_refill:
  fixes w :: u32
  assumes "x \<le> unat w"
  shows "f64_min (f64_add (F_fin (of_nat x)) (f64_mul (as_secs_f64 0) (f64_div (f64_of_nat (unat w)) (F_fin 60)))) (f64_of_nat (unat w))
    = F_fin (of_nat x)"
proof -
  have w: "unat w < 2 ^ 53" using unat_below [of w] by simp
  have cap: "f64_of_nat (unat w) = F_fin (of_nat (unat w))" using f64_of_nat_exact [OF w] .
  have ok: "f64_ok (F_fin (of_nat (unat w)))" using f64_of_nat_ok [of "unat w"] cap by simp
  have "f64_le (f64_round (of_nat (unat w) / 60)) (F_fin (of_nat (unat w)))"
    by (rule f64_round_le_ok [OF ok]) (simp add: field_simps del: of_nat_unat)
  moreover have "f64_le (F_fin 0) (f64_round (of_nat (unat w) / 60))"
    by (simp add: f64_round_nonneg del: of_nat_unat)
  ultimately obtain q where "f64_round (of_nat (unat w) / 60) = F_fin q"
    using f64_between_finite [of "f64_round (of_nat (unat w) / 60)" "F_fin (of_nat (unat w))"]
    by (cases "f64_round (of_nat (unat w) / 60)") auto
  moreover have "f64_round (of_nat x) = F_fin (of_nat x)"
    using f64_of_nat_exact [of x] w assms by (simp add: f64_of_nat_def)
  ultimately show ?thesis
    using assms by (simp add: cap as_secs_f64_0 f64_min_def f64_round_def [of 0] del: of_nat_unat)
qed

lemma refill_again:
  assumes "balance l now b x y"
  shows "refill_at now (refill_at now b) = refill_at now b"
proof -
  let ?r = "refill_at now b"
  have l: "sb_last_refill ?r = now" "sized l ?r"
    using assms by (simp_all add: balance_def)
  then have "sb_available_tokens (refill_at now ?r) = sb_available_tokens ?r" "sb_available_requests (refill_at now ?r) = sb_available_requests ?r"
    using assms no_time_no_refill [of x "sl_tokens_per_minute l"] no_time_no_refill [of y "sl_requests_per_minute l"]
    by (simp_all add: refill_at_def [of now ?r] balance_def sized_def Let_def del: of_nat_unat)
  then show ?thesis
    using l(1) by (simp add: refill_at_def [of now ?r] Let_def)
qed

lemma balance_fields:
  "sized l b = sized l c \<Longrightarrow> sb_last_refill b = sb_last_refill c \<Longrightarrow> refill_at now b = (refill_at now c)\<lparr>sb_last_touched_ns := ns\<rparr>
   \<Longrightarrow> balance l now b x y = balance l now c x y"
  by (simp add: balance_def)

lemma balance_lock:
  assumes "balance l now b x y"
  shows "balance l now (lock_and_refill now b) x y"
    "sb_available_tokens (lock_and_refill now b) = F_fin (of_nat x)" "sb_available_requests (lock_and_refill now b) = F_fin (of_nat y)"
proof -
  have r: "refill_at now (touch_at now b) = (refill_at now b)\<lparr>sb_last_touched_ns := sb_last_touched_ns (touch_at now b)\<rparr>"
    by (simp add: refill_at_def touch_at_def Let_def)
  then have t: "balance l now (touch_at now b) x y"
    using assms by (simp add: balance_def)
  then show "balance l now (lock_and_refill now b) x y"
    unfolding lock_and_refill_def using refill_again [OF t] by (simp add: balance_def)
  show "sb_available_tokens (lock_and_refill now b) = F_fin (of_nat x)" "sb_available_requests (lock_and_refill now b) = F_fin (of_nat y)"
    using t by (simp_all add: lock_and_refill_def balance_def)
qed

lemma balance_debit:
  assumes "balance l now b x y" "sb_last_refill b = now" "sb_available_tokens b = F_fin (of_nat x)" "sb_available_requests b = F_fin (of_nat y)"
    and "n \<le> x" "1 \<le> y"
  shows "balance l now (debit (f64_of_nat n) (F_fin 1) b) (x - n) (y - 1)"
proof -
  have small: "x < 2 ^ 53" "y < 2 ^ 53"
    using assms(1) unat_below [of "sl_tokens_per_minute l"] unat_below [of "sl_requests_per_minute l"] by (simp_all add: balance_def)
  have sub: "f64_sub (F_fin (of_nat u)) (F_fin (of_nat v)) = F_fin (of_nat (u - v))" if "v \<le> u" "u < 2 ^ 53" for u v
    using that f64_of_nat_exact [of "u - v"] by (simp add: f64_sub_def f64_of_nat_def of_nat_diff)
  let ?d = "debit (f64_of_nat n) (F_fin 1) b"
  have av: "sb_available_tokens ?d = F_fin (of_nat (x - n))" "sb_available_requests ?d = F_fin (of_nat (y - 1))"
    using assms(3-6) sub [of n x] sub [of 1 y] small f64_of_nat_exact [of n] by (simp_all add: debit_def)
  have le: "x - n \<le> unat (sl_tokens_per_minute l)" "y - 1 \<le> unat (sl_requests_per_minute l)"
    using assms(1) le_trans [OF diff_le_self] by (simp_all only: balance_def)
  have l: "sized l ?d" "sb_last_refill ?d = now"
    using assms(1,2) by (simp_all add: balance_def sized_def debit_def)
  then have "sb_available_tokens (refill_at now ?d) = F_fin (of_nat (x - n))" "sb_available_requests (refill_at now ?d) = F_fin (of_nat (y - 1))"
    using av no_time_no_refill [OF le(1)] no_time_no_refill [OF le(2)]
    by (simp_all add: refill_at_def [of now ?d] sized_def Let_def del: of_nat_unat)
  then show ?thesis
    using l le by (simp add: balance_def)
qed

lemma balance_new: "balance l now (scope_bucket_new 0 l) (unat (sl_tokens_per_minute l)) (unat (sl_requests_per_minute l))"
proof -
  have "at_capacity (refill_at now (scope_bucket_new 0 l))" "sized l (refill_at now (scope_bucket_new 0 l))"
    using new_known(1) [of l 0] new_known(2) [of 0 l] refill_at_capacity [of l "scope_bucket_new 0 l" now] by (auto simp: known_def)
  moreover have "unat w < 2 ^ 53" for w :: u32 using unat_below [of w] by simp
  ultimately show ?thesis
    by (simp add: balance_def at_capacity_def sized_def f64_of_nat_exact scope_bucket_new_def Let_def del: of_nat_unat)
qed

lemma worst_retry_None: "worst_retry dries = None \<longleftrightarrow> list_all sdr_allowed dries"
proof -
  have "foldl (\<lambda>acc dry. if sdr_allowed dry then acc
      else Some (max (case acc of None \<Rightarrow> 0 | Some r \<Rightarrow> r) (sdr_retry_after_secs dry))) acc dries = None
    \<longleftrightarrow> acc = None \<and> list_all sdr_allowed dries" for acc
    by (induction dries arbitrary: acc) auto
  then show ?thesis by (simp add: worst_retry_def)
qed

lemma fold_sp_update_once:
  "distinct keys \<Longrightarrow> k \<in> set keys \<Longrightarrow> sp_bucket (fold (sp_update f) keys s) k = f (sp_bucket s k)"
  by (induction keys arbitrary: s) (auto simp: fold_sp_update_other)

lemma scope_keys_distinct: "distinct (scope_keys policy request)"
  unfolding scope_keys_def Let_def
  by (cases "Option.bind (rr_model_id request) (matching_rule (policy_for policy (rr_tenant_key request)))") auto

text \<open>One request against the bucket of \<open>k\<close>.\<close>

lemma reserve_balance:
  assumes "balance (limits_of policy k) now (sp_bucket s k) x y" "map_of (sp_active s) (rr_request_charge_id request) = None"
  defines "out \<equiv> sp_reserve policy now request s" and "n \<equiv> unat (rr_estimated_input_tokens request)"
  shows "if snd out = Admitted \<and> k \<in> set (scope_keys policy request)
    then n \<le> x \<and> 1 \<le> y \<and> balance (limits_of policy k) now (sp_bucket (fst out) k) (x - n) (y - 1)
    else balance (limits_of policy k) now (sp_bucket (fst out) k) x y"
proof -
  let ?keys = "scope_keys policy request" and ?l = "limits_of policy k"
  define u where "u = fold (sp_update (lock_and_refill now)) ?keys s"
  define v where "v = fold (sp_update (debit (f64_of_nat n) (F_fin 1))) ?keys u"
  let ?w = "worst_retry (map (\<lambda>k. dry_run (sp_bucket u k) (f64_of_nat n) (F_fin 1)) ?keys)"
  have out: "snd out = Admitted \<longleftrightarrow> ?w = None" "sp_bucket (fst out) = (if ?w = None then sp_bucket v else sp_bucket u)"
    using assms(2) by (auto simp: out_def sp_reserve_def Let_def u_def v_def n_def split: option.splits)
  show ?thesis
  proof (cases "k \<in> set ?keys")
    case False
    then have "sp_bucket u k = sp_bucket s k" "sp_bucket v k = sp_bucket s k"
      by (simp_all add: u_def v_def fold_sp_update_other)
    then show ?thesis using assms(1) False by (simp add: out)
  next
    case True
    have u: "sp_bucket u k = lock_and_refill now (sp_bucket s k)"
      unfolding u_def by (rule fold_sp_update_once [OF scope_keys_distinct True])
    note b = balance_lock [OF assms(1)]
    have v: "sp_bucket v k = debit (f64_of_nat n) (F_fin 1) (sp_bucket u k)"
      unfolding v_def by (rule fold_sp_update_once [OF scope_keys_distinct True])
    show ?thesis
    proof (cases ?w)
      case None
      then have "sdr_allowed (dry_run (sp_bucket u k) (f64_of_nat n) (F_fin 1))"
        using True by (simp add: worst_retry_None list_all_iff)
      moreover have "n < 2 ^ 53" using unat_below [of "rr_estimated_input_tokens request"] by (simp add: n_def)
      ultimately have le: "n \<le> x" "1 \<le> y"
        using b(2,3) u f64_of_nat_exact [of n] by (auto simp: dry_run_def split: if_splits)
      moreover have "sb_last_refill (sp_bucket u k) = now"
        using assms(1) by (simp add: u lock_and_refill_def balance_def)
      ultimately show ?thesis
        using balance_debit [of ?l now "sp_bucket u k" x y n] b None True by (simp add: out u v)
    next
      case (Some retry)
      then show ?thesis using b(1) by (simp add: out u)
    qed
  qed
qed

definition reserves :: "nat \<Rightarrow> reserve_request list \<Rightarrow> (nat \<times> limiter_event) list" where
  "reserves now requests = map (\<lambda>r. (now, Reserve r)) requests"

text \<open>The requests charged to the bucket of \<open>k\<close> that were admitted.\<close>

definition charged :: "compiled_policy_set \<Rightarrow> scope_key \<Rightarrow> reserve_request list \<Rightarrow> reserve_outcome list \<Rightarrow> reserve_request list" where
  "charged policy k requests outs =
     map fst (filter (\<lambda>(r, out). out = Admitted \<and> k \<in> set (scope_keys policy r)) (zip requests outs))"

lemma spec_burst:
  assumes "balance (limits_of policy k) now (sp_bucket s k) x y" "distinct (map rr_request_charge_id requests)"
    and "\<forall>r\<in>set requests. map_of (sp_active s) (rr_request_charge_id r) = None"
  defines "adm \<equiv> charged policy k requests (run_events (\<lambda>_. True) (sp_step policy) (reserves now requests) s)"
  shows "length adm \<le> y \<and> (\<Sum>r\<leftarrow>adm. unat (rr_estimated_input_tokens r)) \<le> x"
  using assms(1-3) unfolding adm_def
proof (induction requests arbitrary: s x y)
  case (Cons r rs)
  define out where "out = sp_reserve policy now r s"
  let ?rest = "charged policy k rs (run_events (\<lambda>_. True) (sp_step policy) (reserves now rs) (fst out))"
  have whole: "charged policy k (r # rs) (run_events (\<lambda>_. True) (sp_step policy) (reserves now (r # rs)) s)
      = (if snd out = Admitted \<and> k \<in> set (scope_keys policy r) then r # ?rest else ?rest)"
    by (simp add: reserves_def charged_def out_def split_def)
  have none: "map_of (sp_active s) (rr_request_charge_id r) = None" using Cons.prems(3) by simp
  have keep: "map_of (sp_active (fst out)) i = None" if "map_of (sp_active s) i = None" "i \<noteq> rr_request_charge_id r" for i
    using that by (auto simp: out_def sp_reserve_def Let_def split: option.splits)
  have "rr_request_charge_id q \<noteq> rr_request_charge_id r" if "q \<in> set rs" for q
    using Cons.prems(2) that by (metis distinct.simps(2) image_eqI list.simps(9) set_map)
  then have fresh: "\<forall>q\<in>set rs. map_of (sp_active (fst out)) (rr_request_charge_id q) = None"
    using Cons.prems(3) by (intro ballI keep) simp_all
  note b = reserve_balance [OF Cons.prems(1) none, folded out_def]
  show ?case
  proof (cases "snd out = Admitted \<and> k \<in> set (scope_keys policy r)")
    case True
    then have "length ?rest \<le> y - 1 \<and> (\<Sum>q\<leftarrow>?rest. unat (rr_estimated_input_tokens q)) \<le> x - unat (rr_estimated_input_tokens r)"
      using b Cons.prems(2) fresh by (intro Cons.IH) simp_all
    moreover have "unat (rr_estimated_input_tokens r) \<le> x" "1 \<le> y"
      using b True by simp_all
    ultimately have "length (r # ?rest) \<le> y \<and> (\<Sum>q\<leftarrow>r # ?rest. unat (rr_estimated_input_tokens q)) \<le> x"
      unfolding list.map sum_list.Cons list.size by linarith
    then show ?thesis using whole True by simp
  next
    case False
    then have "length ?rest \<le> y \<and> (\<Sum>q\<leftarrow>?rest. unat (rr_estimated_input_tokens q)) \<le> x"
      using b Cons.prems(2) fresh by (intro Cons.IH) auto
    then show ?thesis unfolding whole if_not_P [OF False] .
  qed
qed (simp add: charged_def)


section \<open>Handles and sweeps\<close>

datatype handle_call = Settle_Call nat usage_settlement | Close_Call | Drop_Call

fun handle_step :: "handle_call \<Rightarrow> reservation_handle \<times> local_backend \<Rightarrow> reservation_handle \<times> local_backend" where
  "handle_step (Settle_Call now usage) x = handle_settle_success now usage x"
| "handle_step Close_Call x = handle_close_reserved_only x"
| "handle_step Drop_Call x = abandon_if_open x"

text \<open>Only the first call on a handle reaches the backend.\<close>

lemma handle_first_wins:
  "fold handle_step calls (handle_step c (reservation_handle_new i, lb)) = handle_step c (reservation_handle_new i, lb)"
proof -
  have closed: "fold handle_step calls (h, b) = (h, b)" if "rh_state h \<noteq> ReservationOpen" for h b
  proof (induction calls)
    case (Cons c calls)
    have "handle_step c (h, b) = (h, b)"
      using that by (cases c)
        (simp_all add: handle_settle_success_def handle_close_reserved_only_def abandon_if_open_def try_transition_def)
    then show ?case using Cons by simp
  qed simp
  have "rh_state (fst (handle_step c (reservation_handle_new i, lb))) \<noteq> ReservationOpen"
    by (cases c) (simp_all add: handle_settle_success_def handle_close_reserved_only_def abandon_if_open_def
        try_transition_def reservation_handle_new_def)
  from closed [OF this] show ?thesis by (metis prod.collapse)
qed

text \<open>A sweep is the removal of its candidates one by one, so a run may contain it.\<close>

lemma sweep_keys_steps:
  "fst (sweep_keys now ttl keys lb) = fold (\<lambda>k lb. fst (lb_step now (Sweep ttl k) lb)) keys lb"
  by (induction keys arbitrary: lb) (simp_all add: split_def)

lemma sweep_steps:
  "fst (sweep_idle_buckets now ttl lb) = fold (\<lambda>k lb. fst (lb_step now (Sweep ttl k) lb)) (sweep_candidates now ttl lb) lb"
  by (simp add: sweep_idle_buckets_def sweep_keys_steps)

text \<open>A rejection names a wait only when waiting helps.\<close>

lemma oversized_never_retried:
  assumes "f64_lt (sb_token_capacity b) tokens" "\<not> sdr_allowed (dry_run b tokens requests)"
  shows "rej_retry_after (rejection_response (sdr_retry_after_secs (dry_run b tokens requests))) = None"
  using assms by (auto simp: dry_run_def rejection_response_def)

section \<open>A concrete run\<close>

definition demo_limits_yaml :: rate_limit_yaml where
  "demo_limits_yaml =
     \<lparr>ry_default_policy = \<lparr>tps_tenant_key = None, tps_tokens_per_minute = 10, tps_requests_per_minute = 2,
                           tps_model_rules = []\<rparr>,
      ry_tenants = []\<rparr>"

definition demo_limits :: compiled_policy_set where
  "demo_limits =
     \<lparr>cps_default = \<lparr>ctp_limits = \<lparr>sl_tokens_per_minute = 10, sl_requests_per_minute = 2\<rparr>,
                     ctp_exact_model_rules = [], ctp_prefix_model_rules = []\<rparr>,
      cps_tenants = []\<rparr>"

lemma demo_compiled: "compile_policies (\<lambda>_. True) demo_limits_yaml = Inr demo_limits"
  by (simp add: compile_policies_def demo_limits_yaml_def demo_limits_def yaml_validate_def validate_policy_def compile_policy_def)

definition demo_reserve :: "u128 \<Rightarrow> tenant_key \<Rightarrow> reserve_request" where
  "demo_reserve i tenant =
     \<lparr>rr_request_charge_id = i, rr_tenant_key = tenant, rr_model_id = None, rr_estimated_input_tokens = 3\<rparr>"

definition demo_run :: "(nat \<times> limiter_event) list" where
  "demo_run =
     [(0, Reserve (demo_reserve 1 ''a'')), (0, Reserve (demo_reserve 2 ''b'')), (1, Close 1),
      (10 ^ 12, Sweep IDLE_BUCKET_TTL (TenantGlobal ''a'')), (2 * 10 ^ 12, Reserve (demo_reserve 3 ''a''))]"

lemma demo_run_times: "sorted (map fst demo_run)" "\<forall>t\<in>set (map fst demo_run). t < 2 ^ 64"
  by (simp_all add: demo_run_def)

theorem buckets_as_if_permanent_witness:
  "run_events (\<lambda>_. True) lb_step demo_run (lb_new demo_limits)
   = run_events (\<lambda>_. True) (sp_step demo_limits) demo_run (sp_new demo_limits)"
  by (rule buckets_as_if_permanent [OF demo_compiled demo_run_times])

theorem tenant_isolation_witness:
  "run_events (\<lambda>e. event_tenant (\<lambda>i. if i = 2 then ''b'' else ''a'') e = ''a'') lb_step demo_run (lb_new demo_limits)
   = run_events (\<lambda>_. True) lb_step
       (filter (\<lambda>(t, e). event_tenant (\<lambda>i. if i = 2 then ''b'' else ''a'') e = ''a'') demo_run) (lb_new demo_limits)"
proof (rule tenant_isolation [OF demo_compiled demo_run_times])
  show "\<forall>(t, e)\<in>set demo_run. well_owned (\<lambda>i. if i = 2 then ''b'' else ''a'') e"
    by (simp add: demo_run_def demo_reserve_def)
qed


end
