(* ===== verification/Data_Plane_Auth.thy ===== *)
theory Data_Plane_Auth
  imports Tenant_Identity
begin

text \<open>
  Authentication of the serving plane: \<open>middleware/auth.rs\<close>, \<open>bearer_token\<close> of
  \<open>crates/auth/src/middleware.rs\<close> and \<open>validate_tenant_api_keys\<close> of \<open>config/validation.rs\<close>.

  SHA-256 and \<open>HeaderValue::to_str\<close> are arguments.  Header names are lower case, as
  \<open>HeaderName\<close> keeps them; a header map is the list of its fields.  The fingerprint the access
  log records is not modelled.
\<close>

section \<open>Bearer tokens and configured keys\<close>

text \<open>\<open>str::split_once\<close> with a character.\<close>

definition split_once :: "char \<Rightarrow> string \<Rightarrow> (string \<times> string) option" where
  "split_once c s =
     (case dropWhile (\<lambda>d. d \<noteq> c) s of [] \<Rightarrow> None | _ # rest \<Rightarrow> Some (takeWhile (\<lambda>d. d \<noteq> c) s, rest))"

definition bearer_token :: "string \<Rightarrow> string option" where
  "bearer_token header_value =
     (case split_once CHR '' '' header_value of
        None \<Rightarrow> None
      | Some (scheme, rest) \<Rightarrow>
          if \<not> eq_ignore_ascii_case scheme ''bearer'' then None
          else let token = dropWhile (\<lambda>c. c = CHR '' '') rest
               in if token = [] then None else Some token)"

record tenant_api_key_entry =
  tak_tenant_id :: string
  tak_key :: string

datatype api_key_error =
    EmptyTenantId | PaddedTenantId string | LongTenantId string
  | EmptyKey string | PaddedKey string | DuplicateKey string "string option"

text \<open>The map of labels seen so far holds \<open>None\<close> for the shared key.\<close>

fun validate_entries ::
    "(string \<Rightarrow> bytes) \<Rightarrow> (bytes \<times> string option) list \<Rightarrow> tenant_api_key_entry list \<Rightarrow> api_key_error + unit" where
  "validate_entries sha256 seen [] = Inr ()"
| "validate_entries sha256 seen (entry # entries) =
     (let tid = tak_tenant_id entry; h = sha256 (tak_key entry)
      in if trim tid = [] then Inl EmptyTenantId
         else if trim tid \<noteq> tid then Inl (PaddedTenantId tid)
         else if MAX_TENANT_ID_LEN < length tid then Inl (LongTenantId tid)
         else if trim (tak_key entry) = [] then Inl (EmptyKey tid)
         else if trim (tak_key entry) \<noteq> tak_key entry then Inl (PaddedKey tid)
         else case map_of seen h of
           Some existing \<Rightarrow> Inl (DuplicateKey tid existing)
         | None \<Rightarrow> validate_entries sha256 (AList.update h (Some tid) seen) entries)"

definition validate_tenant_api_keys ::
    "(string \<Rightarrow> bytes) \<Rightarrow> string option \<Rightarrow> tenant_api_key_entry list \<Rightarrow> api_key_error + unit" where
  "validate_tenant_api_keys sha256 api_key entries =
     validate_entries sha256 (case api_key of Some key \<Rightarrow> [(sha256 key, None)] | None \<Rightarrow> []) entries"

type_synonym auth_config = "(bytes \<times> tenant_key) list"

definition with_tenant_keys ::
    "('ip \<Rightarrow> string list) \<Rightarrow> (string \<Rightarrow> bytes) \<Rightarrow> string option \<Rightarrow> tenant_api_key_entry list \<Rightarrow> auth_config" where
  "with_tenant_keys ip_pieces sha256 api_key entries =
     foldl (\<lambda>keys entry. AList.update (sha256 (tak_key entry))
              (into_key ip_pieces (Authenticated (tak_tenant_id entry))) keys)
       (case api_key of
          Some key \<Rightarrow> [(sha256 key, authenticated_tenant_key_from_sha256 (sha256 key))]
        | None \<Rightarrow> []) entries"

definition auth_config_new :: "('ip \<Rightarrow> string list) \<Rightarrow> (string \<Rightarrow> bytes) \<Rightarrow> string option \<Rightarrow> auth_config" where
  "auth_config_new ip_pieces sha256 api_key = with_tenant_keys ip_pieces sha256 api_key []"

definition auth_is_enabled :: "auth_config \<Rightarrow> bool" where
  "auth_is_enabled keys \<longleftrightarrow> keys \<noteq> []"

definition contains_token :: "(string \<Rightarrow> bytes) \<Rightarrow> auth_config \<Rightarrow> string \<Rightarrow> bool" where
  "contains_token sha256 keys token \<longleftrightarrow> map_of keys (sha256 token) \<noteq> None"

section \<open>The middleware\<close>

type_synonym header_map = "(string \<times> string) list"

definition header_get_all :: "string \<Rightarrow> header_map \<Rightarrow> string list" where
  "header_get_all name headers = map snd (filter (\<lambda>(n, _). n = name) headers)"

definition header_remove :: "string \<Rightarrow> header_map \<Rightarrow> header_map" where
  "header_remove name headers = filter (\<lambda>(n, _). n \<noteq> name) headers"

record 'ip http_request =
  hr_headers :: header_map
  hr_caller :: "tenant_key option"
  hr_connect_info :: "'ip option"
  hr_request_id :: "string option"

definition PROVIDER_KEY_HEADERS :: "string list" where
  "PROVIDER_KEY_HEADERS = [''x-api-key'', ''x-goog-api-key'']"

record unauthorized_response =
  ur_challenge :: string
  ur_message :: string

definition unauthorized :: "bool \<Rightarrow> unauthorized_response" where
  "unauthorized token_presented =
     (if token_presented
      then \<lparr>ur_challenge = ''Bearer realm=\"data-plane\", error=\"invalid_token\"'', ur_message = ''Invalid API key''\<rparr>
      else \<lparr>ur_challenge = ''Bearer realm=\"data-plane\"'',
            ur_message = ''Missing API key: send it as `Authorization: Bearer <key>`''\<rparr>)"

definition presented_token :: "(string \<Rightarrow> string option) \<Rightarrow> header_map \<Rightarrow> string option" where
  "presented_token to_str headers =
     Option.bind (Option.bind (map_of headers ''authorization'') to_str) bearer_token"

definition is_a_gateway_key ::
    "(string \<Rightarrow> bytes) \<Rightarrow> (string \<Rightarrow> string option) \<Rightarrow> auth_config \<Rightarrow> string \<Rightarrow> header_map \<Rightarrow> bool" where
  "is_a_gateway_key sha256 to_str keys name headers \<longleftrightarrow>
     list_ex (\<lambda>value. contains_token sha256 keys (trim value))
       (List.map_filter to_str (header_get_all name headers))"

definition strip_keys ::
    "(string \<Rightarrow> bytes) \<Rightarrow> (string \<Rightarrow> string option) \<Rightarrow> auth_config \<Rightarrow> header_map \<Rightarrow> header_map" where
  "strip_keys sha256 to_str keys headers =
     foldl (\<lambda>headers name. if is_a_gateway_key sha256 to_str keys name headers
                           then header_remove name headers else headers)
       (header_remove ''authorization'' headers) PROVIDER_KEY_HEADERS"

definition auth_middleware ::
    "(string \<Rightarrow> bytes) \<Rightarrow> (string \<Rightarrow> string option) \<Rightarrow> auth_config \<Rightarrow> 'ip http_request
     \<Rightarrow> unauthorized_response + 'ip http_request" where
  "auth_middleware sha256 to_str keys request =
     (if keys = [] then Inr request
      else let token_hash = map_option sha256 (presented_token to_str (hr_headers request))
           in case Option.bind token_hash (map_of keys) of
                None \<Rightarrow> Inl (unauthorized (token_hash \<noteq> None))
              | Some tenant_key \<Rightarrow>
                  Inr (request\<lparr>hr_caller := Some tenant_key,
                               hr_headers := strip_keys sha256 to_str keys (hr_headers request)\<rparr>))"

definition deny_all_middleware :: "(string \<Rightarrow> string option) \<Rightarrow> 'ip http_request \<Rightarrow> unauthorized_response" where
  "deny_all_middleware to_str request = unauthorized (presented_token to_str (hr_headers request) \<noteq> None)"

text \<open>What the resolution middleware reads of a request.\<close>

definition tenant_request_of :: "'ip http_request \<Rightarrow> 'ip tenant_request" where
  "tenant_request_of request =
     \<lparr>tq_caller = hr_caller request, tq_headers = map_of (hr_headers request),
      tq_connect_info = hr_connect_info request, tq_request_id = hr_request_id request\<rparr>"

definition serve :: "('ip \<Rightarrow> string list) \<Rightarrow> (string \<Rightarrow> bytes) \<Rightarrow> (string \<Rightarrow> string option) \<Rightarrow> auth_config
     \<Rightarrow> tenant_resolution_state \<Rightarrow> 'ip http_request
     \<Rightarrow> unauthorized_response + (header_map \<times> (tenant_response + tenant_key))" where
  "serve ip_pieces sha256 to_str keys state request =
     (case auth_middleware sha256 to_str keys request of
        Inl response \<Rightarrow> Inl response
      | Inr request \<Rightarrow>
          Inr (hr_headers request, resolve_raw_tenant_key ip_pieces to_str state (tenant_request_of request)))"

section \<open>Whose key it is\<close>

lemma config_lookup:
  "map_of (foldl (\<lambda>keys entry. AList.update (h entry) (v entry) keys) keys entries)
     = map_of keys ++ map_of (rev (map (\<lambda>e. (h e, v e)) entries))"
proof (induction entries arbitrary: keys)
  case (Cons e es)
  then show ?case
    by (simp add: map_add_upd_left fun_eq_iff update_conv' map_add_def split: option.split)
qed simp

definition entry_ok :: "tenant_api_key_entry \<Rightarrow> bool" where
  "entry_ok e \<longleftrightarrow> tak_tenant_id e \<noteq> [] \<and> trim (tak_tenant_id e) = tak_tenant_id e
     \<and> length (tak_tenant_id e) \<le> MAX_TENANT_ID_LEN \<and> tak_key e \<noteq> [] \<and> trim (tak_key e) = tak_key e"

lemma dom_update [simp]: "dom (map_of (AList.update k v xs)) = insert k (dom (map_of xs))"
  by (simp add: update_conv')

lemma validate_entries_iff:
  "validate_entries sha256 seen entries = Inr () \<longleftrightarrow>
     list_all entry_ok entries \<and> distinct (map (sha256 \<circ> tak_key) entries)
     \<and> (\<forall>e\<in>set entries. sha256 (tak_key e) \<notin> dom (map_of seen))"
proof (induction entries arbitrary: seen)
  case (Cons e es)
  show ?case
    by (cases "map_of seen (sha256 (tak_key e))") (auto simp: Let_def Cons.IH entry_ok_def image_iff domIff eq_commute [of "sha256 (tak_key e)"])
qed simp

lemma validated_lookup:
  assumes "validate_tenant_api_keys sha256 api_key entries = Inr ()"
    and "map_of (with_tenant_keys ip_pieces sha256 api_key entries) h = Some key"
  obtains (tenant) e where "e \<in> set entries" "entry_ok e" "sha256 (tak_key e) = h"
      "key = into_key ip_pieces (Authenticated (tak_tenant_id e))"
      "{e' \<in> set entries. sha256 (tak_key e') = h} = {e}" "\<And>k. api_key = Some k \<Longrightarrow> sha256 k \<noteq> h"
  | (shared) k where "api_key = Some k" "sha256 k = h" "key = authenticated_tenant_key_from_sha256 h"
      "\<And>e. e \<in> set entries \<Longrightarrow> sha256 (tak_key e) \<noteq> h"
proof -
  note valid = assms(1) [unfolded validate_tenant_api_keys_def validate_entries_iff]
  have d: "distinct (map fst (rev (map (\<lambda>e. (sha256 (tak_key e), into_key ip_pieces (Authenticated (tak_tenant_id e)))) entries)))"
    using valid by (simp add: comp_def rev_map [symmetric])
  have fresh: "sha256 k \<noteq> sha256 (tak_key e)" if "api_key = Some k" "e \<in> set entries" for k e
    using valid that by auto
  consider (entry) e where "e \<in> set entries" "sha256 (tak_key e) = h" | (none) "\<forall>e\<in>set entries. sha256 (tak_key e) \<noteq> h"
    by blast
  then show thesis
  proof cases
    case (entry e)
    have "map_of (rev (map (\<lambda>e. (sha256 (tak_key e), into_key ip_pieces (Authenticated (tak_tenant_id e)))) entries)) h
        = Some (into_key ip_pieces (Authenticated (tak_tenant_id e)))"
      using entry by (intro map_of_is_SomeI [OF d]) (simp only: set_rev set_map, intro rev_image_eqI [OF entry(1)], simp only: entry(2))
    then have "key = into_key ip_pieces (Authenticated (tak_tenant_id e))"
      using assms(2) by (simp add: with_tenant_keys_def config_lookup)
    moreover have "{e' \<in> set entries. sha256 (tak_key e') = h} = {e}"
      using valid entry by (fastforce simp: distinct_map inj_on_def)
    moreover have "entry_ok e"
      using valid entry(1) by (simp add: list_all_iff)
    ultimately show ?thesis
      using tenant [OF entry(1) _ entry(2)] entry fresh by metis
  next
    case none
    have "map_of (rev (map (\<lambda>e. (sha256 (tak_key e), into_key ip_pieces (Authenticated (tak_tenant_id e)))) entries)) h = None"
      using none by (auto simp: map_of_eq_None_iff)
    then show ?thesis
      using assms(2) none
      by (cases api_key) (auto simp: with_tenant_keys_def config_lookup map_add_def split: if_splits intro: shared)
  qed
qed

lemma auth_passes:
  assumes "auth_middleware sha256 to_str keys request = Inr request'" "keys \<noteq> []"
  obtains token key where "presented_token to_str (hr_headers request) = Some token"
    "map_of keys (sha256 token) = Some key" "hr_caller request' = Some key"
    "hr_headers request' = strip_keys sha256 to_str keys (hr_headers request)"
  using assms by (auto simp: auth_middleware_def Let_def Option.bind_eq_Some_conv split: option.splits)

section \<open>What the middleware promises\<close>

lemma authenticated_key_nonempty:
  "length hash = 32 \<Longrightarrow> \<exists>tid. tid \<noteq> [] \<and> authenticated_tenant_key_from_sha256 hash = into_key ip_pieces (Authenticated tid)"
proof -
  assume "length hash = 32"
  then have "hash \<noteq> []" by auto
  then have "concat (map (\<lambda>byte. [HEX_DIGITS ! unat (drop_bit 4 byte), HEX_DIGITS ! unat (byte mod 16)]) hash) \<noteq> []"
    by (cases hash) simp_all
  then show ?thesis
    unfolding authenticated_tenant_key_from_sha256_def into_key.simps prefixed_key_text concat.simps append_Nil2 by blast
qed

lemma caller_is_authenticated:
  assumes "validate_tenant_api_keys sha256 api_key entries = Inr ()" "\<And>s. length (sha256 s) = 32"
    and "map_of (with_tenant_keys ip_pieces sha256 api_key entries) h = Some key"
  shows "\<exists>tid. tid \<noteq> [] \<and> key = into_key ip_pieces (Authenticated tid)"
  using assms(1,3)
proof (cases rule: validated_lookup)
  case (tenant e)
  then show ?thesis unfolding entry_ok_def by blast
next
  case (shared k)
  then show ?thesis using authenticated_key_nonempty [of h ip_pieces] assms(2) by auto
qed



text \<open>The keys are gone from the headers, and nothing else is.\<close>

lemma strip_keys_filter:
  "\<exists>drop. set drop \<subseteq> set PROVIDER_KEY_HEADERS
     \<and> strip_keys sha256 to_str keys headers = filter (\<lambda>(n, _). n \<noteq> ''authorization'' \<and> n \<notin> set drop) headers
     \<and> (\<forall>name\<in>set PROVIDER_KEY_HEADERS. name \<in> set drop \<longleftrightarrow> is_a_gateway_key sha256 to_str keys name headers)"
proof -
  have keep: "is_a_gateway_key sha256 to_str keys name (header_remove other hs) = is_a_gateway_key sha256 to_str keys name hs"
    if "other \<noteq> name" for name other hs
    using that by (simp add: is_a_gateway_key_def header_get_all_def header_remove_def)
      (smt (verit) case_prod_conv filter_cong split_def)
  define drop where "drop = filter (\<lambda>name. is_a_gateway_key sha256 to_str keys name headers) PROVIDER_KEY_HEADERS"
  have "strip_keys sha256 to_str keys headers = filter (\<lambda>(n, _). n \<noteq> ''authorization'' \<and> n \<notin> set drop) headers"
    by (simp add: strip_keys_def PROVIDER_KEY_HEADERS_def keep drop_def)
      (auto simp: header_remove_def intro!: filter_cong)
  then show ?thesis
    by (intro exI [of _ drop]) (auto simp: drop_def)
qed

lemma header_get_all_filter:
  "header_get_all name (filter (\<lambda>(n, _). n \<noteq> ''authorization'' \<and> n \<notin> A) headers)
     = (if name = ''authorization'' \<or> name \<in> A then [] else header_get_all name headers)"
  unfolding header_get_all_def by (induction headers) auto

text \<open>C31. With keys configured and validated, a request that is served presented a configured key
  and is attributed to the tenant that key belongs to, the only entry with it, whatever the request
  puts in its tenant header; the routes behind see neither that bearer nor a gateway key under a
  provider's header, while the other headers are untouched; and a request is refused exactly when
  it presents no configured key.\<close>

theorem tenant_from_key_only:
  fixes ip_pieces :: "'ip \<Rightarrow> string list"
  assumes "validate_tenant_api_keys sha256 api_key entries = Inr ()"
    and "api_key \<noteq> None \<or> entries \<noteq> []"
  defines "keys \<equiv> with_tenant_keys ip_pieces sha256 api_key entries"
  shows "((\<exists>response. serve ip_pieces sha256 to_str keys state request = Inl response)
           \<longleftrightarrow> \<not> (\<exists>token. presented_token to_str (hr_headers request) = Some token \<and> contains_token sha256 keys token))
    \<and> (serve ip_pieces sha256 to_str keys state request = Inr (headers, resolved) \<longrightarrow>
      (\<exists>token. presented_token to_str (hr_headers request) = Some token \<and>
        ((\<exists>e. resolved = Inr (''auth:'' @ tak_tenant_id e) \<and>
              {e' \<in> set entries. sha256 (tak_key e') = sha256 token} = {e})
         \<or> (resolved = Inr (authenticated_tenant_key_from_sha256 (sha256 token)) \<and>
              map_option sha256 api_key = Some (sha256 token))))
      \<and> header_get_all ''authorization'' headers = []
      \<and> (\<forall>name\<in>set PROVIDER_KEY_HEADERS. \<not> is_a_gateway_key sha256 to_str keys name headers)
      \<and> (\<forall>name. name \<noteq> ''authorization'' \<and> name \<notin> set PROVIDER_KEY_HEADERS
            \<longrightarrow> header_get_all name headers = header_get_all name (hr_headers request)))"
proof (intro conjI impI)
  have enabled: "keys \<noteq> []"
  proof
    assume "keys = []"
    then have none: "map_of keys h = None" for h by simp
    obtain h where "(\<exists>k. api_key = Some k \<and> h = sha256 k) \<or> (\<exists>e\<in>set entries. h = sha256 (tak_key e))"
      using assms(2) by (cases entries) auto
    then have "h \<in> dom (map_of keys)"
      unfolding keys_def with_tenant_keys_def config_lookup by (auto simp: dom_map_of_conv_image_fst image_image)
    then show False using none by (simp add: domIff)
  qed
  show "(\<exists>response. serve ip_pieces sha256 to_str keys state request = Inl response)
           \<longleftrightarrow> \<not> (\<exists>token. presented_token to_str (hr_headers request) = Some token \<and> contains_token sha256 keys token)"
    using enabled
    by (auto simp: serve_def auth_middleware_def contains_token_def Let_def Option.bind_eq_Some_conv Option.bind_eq_None_conv
        split: option.splits sum.splits)
  assume served: "serve ip_pieces sha256 to_str keys state request = Inr (headers, resolved)"
  then obtain request' where auth: "auth_middleware sha256 to_str keys request = Inr request'"
    and hd: "headers = hr_headers request'"
    and res: "resolved = resolve_raw_tenant_key ip_pieces to_str state (tenant_request_of request')"
    by (auto simp: serve_def split: sum.splits)
  obtain token key where token: "presented_token to_str (hr_headers request) = Some token"
    and key: "map_of keys (sha256 token) = Some key" and caller: "hr_caller request' = Some key"
    and stripped: "headers = strip_keys sha256 to_str keys (hr_headers request)"
    using auth_passes [OF auth enabled] hd by metis
  have resolved: "resolved = Inr key"
    by (simp add: res resolve_raw_tenant_key_def tenant_request_of_def caller)
  show "\<exists>token. presented_token to_str (hr_headers request) = Some token \<and>
        ((\<exists>e. resolved = Inr (''auth:'' @ tak_tenant_id e) \<and>
              {e' \<in> set entries. sha256 (tak_key e') = sha256 token} = {e})
         \<or> (resolved = Inr (authenticated_tenant_key_from_sha256 (sha256 token)) \<and>
              map_option sha256 api_key = Some (sha256 token)))"
    using assms(1) key [unfolded keys_def]
  proof (cases rule: validated_lookup)
    case (tenant e)
    then show ?thesis
      using token resolved by (intro exI [of _ token] conjI disjI1 exI [of _ e]) simp_all
  next
    case (shared k)
    then show ?thesis
      using token resolved by (intro exI [of _ token] conjI disjI2) simp_all
  qed
  obtain drop where drop: "set drop \<subseteq> set PROVIDER_KEY_HEADERS"
    "headers = filter (\<lambda>(n, _). n \<noteq> ''authorization'' \<and> n \<notin> set drop) (hr_headers request)"
    "\<forall>name\<in>set PROVIDER_KEY_HEADERS. name \<in> set drop \<longleftrightarrow> is_a_gateway_key sha256 to_str keys name (hr_headers request)"
    using strip_keys_filter [of sha256 to_str keys "hr_headers request"] stripped by auto
  have get: "header_get_all name headers
      = (if name = ''authorization'' \<or> name \<in> set drop then [] else header_get_all name (hr_headers request))" for name
    unfolding drop(2) by (rule header_get_all_filter)
  show "header_get_all ''authorization'' headers = []"
    by (simp add: get)
  show "\<forall>name\<in>set PROVIDER_KEY_HEADERS. \<not> is_a_gateway_key sha256 to_str keys name headers"
    using drop(3) by (auto simp: is_a_gateway_key_def get map_filter_simps)
  show "\<forall>name. name \<noteq> ''authorization'' \<and> name \<notin> set PROVIDER_KEY_HEADERS
            \<longrightarrow> header_get_all name headers = header_get_all name (hr_headers request)"
    using drop(1) get by auto
qed


text \<open>A key and a digest for concrete requests.\<close>

definition demo_sha256 :: "string \<Rightarrow> bytes" where
  "demo_sha256 s = replicate 31 0 @ [of_nat (length s)]"

definition demo_entry :: tenant_api_key_entry where
  "demo_entry = \<lparr>tak_tenant_id = ''red'', tak_key = ''k1''\<rparr>"

definition demo_request :: "unit http_request" where
  "demo_request =
     \<lparr>hr_headers = [(''authorization'', ''Bearer k1''), (''x'', ''blue''), (''x-api-key'', ''k1'')], hr_caller = None,
      hr_connect_info = Some (), hr_request_id = None\<rparr>"

definition demo_state :: tenant_resolution_state where
  "demo_state = \<lparr>trs_trust_tenant_header = True, trs_trusted_tenant_header_name = ''x''\<rparr>"

lemma demo_valid: "validate_tenant_api_keys demo_sha256 None [demo_entry] = Inr ()"
  by code_simp

lemma demo_served:
  "serve (\<lambda>_. [''::1'']) demo_sha256 demo_to_str (with_tenant_keys (\<lambda>_. [''::1'']) demo_sha256 None [demo_entry])
     demo_state demo_request = Inr ([(''x'', ''blue'')], Inr ''auth:red'')"
  by code_simp


theorem tenant_from_key_only_witness:
  "\<exists>token. presented_token demo_to_str (hr_headers demo_request) = Some token \<and>
     ((\<exists>e. (Inr ''auth:red'' :: tenant_response + tenant_key) = Inr (''auth:'' @ tak_tenant_id e)
           \<and> {e' \<in> set [demo_entry]. demo_sha256 (tak_key e') = demo_sha256 token} = {e})
      \<or> ((Inr ''auth:red'' :: tenant_response + tenant_key) = Inr (authenticated_tenant_key_from_sha256 (demo_sha256 token))
           \<and> map_option demo_sha256 None = Some (demo_sha256 token)))"
  using tenant_from_key_only [OF demo_valid, where ip_pieces = "\<lambda>_. [''::1'']" and to_str = demo_to_str
      and state = demo_state and request = demo_request and headers = "[(''x'', ''blue'')]" and resolved = "Inr ''auth:red''"]
    demo_served by blast

end
