(* ===== verification/Hash_Ring.thy ===== *)
theory Hash_Ring
  imports Smg_Prelude
begin

unbundle bit_operations_syntax

text \<open>
  The consistent hash ring of \<open>worker/hash_ring.rs\<close>: construction, incremental update and lookup.

  The digest function \<open>blake3\<close> is an argument.  The results hold when no two virtual nodes have
  one position; then the order in which an unstable sort leaves equal positions does not matter
  and \<open>sort_key\<close> stands for it.  \<open>partition_point\<close> on a sorted slice is the number of leading
  entries that satisfy the predicate.
\<close>

section \<open>The ring\<close>

definition VIRTUAL_NODES_PER_WORKER :: nat where
  "VIRTUAL_NODES_PER_WORKER = 150"

record hash_ring =
  ring_entries :: "(u64 \<times> u32) list"
  ring_urls :: "string list"

fun decimal :: "nat \<Rightarrow> string" where
  "decimal n = (if n < 10 then [char_of (48 + n)] else decimal (n div 10) @ [char_of (48 + n mod 10)])"

declare decimal.simps [simp del]

definition hash_position :: "(string \<Rightarrow> bytes) \<Rightarrow> string \<Rightarrow> u64" where
  "hash_position blake3 s = u64_from_le_bytes (take 8 (blake3 s))"

definition vnode_position :: "(string \<Rightarrow> bytes) \<Rightarrow> string \<Rightarrow> nat \<Rightarrow> u64" where
  "vnode_position blake3 url vnode = hash_position blake3 (url @ ''#'' @ decimal vnode)"

definition vnodes_for :: "(string \<Rightarrow> bytes) \<Rightarrow> string \<Rightarrow> u32 \<Rightarrow> (u64 \<times> u32) list" where
  "vnodes_for blake3 url url_index =
     map (\<lambda>vnode. (vnode_position blake3 url vnode, url_index)) [0..<VIRTUAL_NODES_PER_WORKER]"

text \<open>The first occurrences of the urls.\<close>

fun first_urls :: "string list \<Rightarrow> string list \<Rightarrow> string list" where
  "first_urls seen [] = []"
| "first_urls seen (url # urls) =
     (if url \<in> set seen then first_urls seen urls else url # first_urls (url # seen) urls)"

definition ring_new :: "(string \<Rightarrow> bytes) \<Rightarrow> string list \<Rightarrow> hash_ring" where
  "ring_new blake3 urls =
     (let urls = first_urls [] urls;
          entries = concat (map (\<lambda>(index, url). vnodes_for blake3 url (word_of_nat index)) (enumerate 0 urls))
      in \<lparr>ring_entries = sort_key fst entries, ring_urls = urls\<rparr>)"

text \<open>The merge pass; \<open>remap\<close> gives the new index of an old one and \<open>u32::MAX\<close> marks removal.\<close>

fun merge_entries :: "u32 list \<Rightarrow> (u64 \<times> u32) list \<Rightarrow> (u64 \<times> u32) list \<Rightarrow> (u64 \<times> u32) list" where
  "merge_entries remap [] pending = pending"
| "merge_entries remap ((pos, index) # entries) pending =
     (let new_index = remap ! unat index
      in if new_index = - 1 then merge_entries remap entries pending
         else takeWhile (\<lambda>(added_pos, _). added_pos \<le> pos) pending
              @ (pos, new_index) # merge_entries remap entries (dropWhile (\<lambda>(added_pos, _). added_pos \<le> pos) pending))"

text \<open>The loop that keeps the retained urls, and the one that appends the added ones.\<close>

fun retain_urls :: "string list \<Rightarrow> string list \<Rightarrow> string list \<times> u32 list \<Rightarrow> string list \<times> u32 list" where
  "retain_urls desired [] acc = acc"
| "retain_urls desired (url # urls) (new_urls, remap) =
     (if url \<in> set desired then retain_urls desired urls (new_urls @ [url], remap @ [word_of_nat (length new_urls)])
      else retain_urls desired urls (new_urls, remap @ [- 1]))"

fun append_urls :: "(string \<Rightarrow> bytes) \<Rightarrow> string list \<Rightarrow> string list \<times> (u64 \<times> u32) list \<Rightarrow> string list \<times> (u64 \<times> u32) list" where
  "append_urls blake3 [] acc = acc"
| "append_urls blake3 (url # added) (new_urls, vnodes) =
     append_urls blake3 added
       (new_urls @ [url], vnodes @ vnodes_for blake3 url (word_of_nat (length new_urls)))"

definition ring_updated :: "(string \<Rightarrow> bytes) \<Rightarrow> string list \<Rightarrow> hash_ring \<Rightarrow> hash_ring" where
  "ring_updated blake3 urls ring =
     (let desired = first_urls [] urls;
          added = filter (\<lambda>url. url \<notin> set (ring_urls ring)) desired
      in if added = [] \<and> length desired = length (ring_urls ring) then ring
         else case retain_urls desired (ring_urls ring) ([], []) of (kept, remap) \<Rightarrow>
              case append_urls blake3 added (kept, []) of (new_urls, added_vnodes) \<Rightarrow>
                \<lparr>ring_entries = merge_entries remap (ring_entries ring) (sort_key fst added_vnodes),
                 ring_urls = new_urls\<rparr>)"

fun find_loop :: "string list \<Rightarrow> (string \<Rightarrow> bool) \<Rightarrow> string list \<Rightarrow> (u64 \<times> u32) list \<Rightarrow> string option" where
  "find_loop urls is_healthy checked [] = None"
| "find_loop urls is_healthy checked ((_, index) # rest) =
     (let url = urls ! unat index
      in if url \<in> set checked then find_loop urls is_healthy checked rest
         else if is_healthy url then Some url
         else find_loop urls is_healthy (url # checked) rest)"

definition find_healthy_url :: "(string \<Rightarrow> bytes) \<Rightarrow> hash_ring \<Rightarrow> string \<Rightarrow> (string \<Rightarrow> bool) \<Rightarrow> string option" where
  "find_healthy_url blake3 ring key is_healthy =
     (if ring_entries ring = [] then None
      else
        let key_pos = hash_position blake3 key;
            n = length (ring_entries ring);
            start = length (takeWhile (\<lambda>(pos, _). pos < key_pos) (ring_entries ring))
        in find_loop (ring_urls ring) is_healthy []
             (map (\<lambda>i. ring_entries ring ! ((start + i) mod n)) [0..<n]))"

definition ring_is_empty :: "hash_ring \<Rightarrow> bool" where
  "ring_is_empty ring \<longleftrightarrow> ring_entries ring = []"

definition ring_len :: "hash_ring \<Rightarrow> nat" where
  "ring_len ring = length (ring_entries ring)"

definition worker_count :: "hash_ring \<Rightarrow> nat" where
  "worker_count ring = length (ring_urls ring)"

section \<open>Lookup\<close>

text \<open>Rings are compared by the urls at their positions.\<close>

definition owned_by :: "hash_ring \<Rightarrow> u64 \<times> u32 \<Rightarrow> u64 \<times> string" where
  "owned_by ring e = (fst e, ring_urls ring ! unat (snd e))"

definition content :: "hash_ring \<Rightarrow> (u64 \<times> string) list" where
  "content ring = map (owned_by ring) (ring_entries ring)"

text \<open>The url of the healthy virtual node that is nearest clockwise; the distance is the wrapping
  difference of positions.\<close>

definition picks :: "(u64 \<times> string) set \<Rightarrow> u64 \<Rightarrow> (string \<Rightarrow> bool) \<Rightarrow> string \<Rightarrow> bool" where
  "picks nodes key_pos is_healthy url \<longleftrightarrow>
     (\<exists>pos. (pos, url) \<in> nodes \<and> is_healthy url
        \<and> (\<forall>(pos', url') \<in> nodes. is_healthy url' \<longrightarrow> pos - key_pos \<le> pos' - key_pos))"

lemma find_loop_first:
  "(\<forall>u\<in>set checked. \<not> is_healthy u) \<Longrightarrow>
   find_loop urls is_healthy checked es = find is_healthy (map (\<lambda>e. urls ! unat (snd e)) es)"
  by (induction es arbitrary: checked) (auto simp: Let_def)

lemma unat_distance: "unat (a - k) = (if k \<le> a then unat a - unat k else 2 ^ 64 + unat a - unat k)"
  for a k :: u64
proof (cases "k \<le> a")
  case True
  then show ?thesis by (simp add: unat_sub)
next
  case False
  then have lt: "uint a < uint k" by (simp add: word_le_def)
  have "uint k < 2 ^ 64" using uint_lt2p [of k] by simp
  moreover have "(uint a - uint k) mod 2 ^ 64 = (2 ^ 64 + uint a - uint k) mod 2 ^ 64"
    using mod_add_self1 [of "2 ^ 64" "uint a - uint k"] by (simp add: add_diff_eq)
  moreover have "(2 ^ 64 + uint a - uint k) mod 2 ^ 64 = 2 ^ 64 + uint a - uint k"
    using lt calculation(1) uint_ge_0 [of a] by (intro mod_pos_pos_trivial) linarith+
  ultimately have "uint (a - k) = 2 ^ 64 + uint a - uint k"
    by (simp add: uint_word_ariths)
  then have "int (unat (a - k) + unat k) = int (2 ^ 64 + unat a)"
    by simp
  then have "unat (a - k) + unat k = 2 ^ 64 + unat a"
    by (simp only: of_nat_eq_iff)
  then show ?thesis using False by simp
qed

lemma distance_mono_ge: "k \<le> a \<Longrightarrow> a \<le> b \<Longrightarrow> a - k \<le> b - k"
  for a b k :: u64
  by (simp add: word_le_nat_alt unat_distance)

lemma distance_mono_less: "b < k \<Longrightarrow> a \<le> b \<Longrightarrow> a - k \<le> b - k"
  for a b k :: u64
  unfolding word_le_nat_alt word_less_nat_alt unat_distance by auto

lemma distance_wraps: "k \<le> a \<Longrightarrow> b < k \<Longrightarrow> a - k \<le> b - k"
  for a b k :: u64
  using unat_below [of a] unfolding word_le_nat_alt word_less_nat_alt unat_distance by auto

lemma clockwise_order:
  fixes k :: u64
  assumes "sorted (map fst es)"
  defines "start \<equiv> length (takeWhile (\<lambda>e. fst e < k) es)"
  shows "sorted (map (\<lambda>e. fst e - k) (rotate start es))"
proof -
  let ?lo = "takeWhile (\<lambda>e. fst e < k) es" and ?hi = "dropWhile (\<lambda>e. fst e < k) es"
  have rot: "rotate start es = ?hi @ ?lo"
    unfolding start_def by (metis append_take_drop_id dropWhile_eq_drop rotate_append takeWhile_dropWhile_id)
  have "sorted (map fst (?lo @ ?hi))" using assms(1) by simp
  then have s: "sorted (map fst ?lo)" "sorted (map fst ?hi)" by (simp_all only: map_append sorted_append)
  have lo: "fst e < k" if "e \<in> set ?lo" for e using that set_takeWhileD by fastforce
  have hi: "k \<le> fst e" if e: "e \<in> set ?hi" for e
  proof -
    obtain x xs where x: "?hi = x # xs" using e by (cases ?hi) simp_all
    then have "k \<le> fst x" using hd_dropWhile [of "\<lambda>e. fst e < k" es] by auto
    moreover have "fst x \<le> fst e" using s(2) e x by auto
    ultimately show ?thesis by (rule order_trans)
  qed
  have "fst d - k \<le> fst e - k" if "d \<in> set ?hi" "e \<in> set ?lo" for d e
    using distance_wraps [OF hi [OF that(1)] lo [OF that(2)]] .
  moreover have "sorted (map (\<lambda>e. fst e - k) ?hi)"
    unfolding sorted_map by (rule sorted_wrt_mono_rel [OF _ s(2) [unfolded sorted_map]]) (simp add: hi distance_mono_ge)
  moreover have "sorted (map (\<lambda>e. fst e - k) ?lo)"
    unfolding sorted_map by (rule sorted_wrt_mono_rel [OF _ s(1) [unfolded sorted_map]]) (simp add: lo distance_mono_less)
  ultimately show ?thesis
    by (auto simp: rot sorted_append)
qed

lemma walk_rotate: "map (\<lambda>i. xs ! ((n + i) mod length xs)) [0..<length xs] = rotate n xs"
  by (rule nth_equalityI) (simp_all add: nth_rotate)

lemma find_healthy_url_walk:
  "find_healthy_url blake3 ring key is_healthy =
     find is_healthy (map snd (rotate (length (takeWhile (\<lambda>e. fst e < hash_position blake3 key) (content ring))) (content ring)))"
proof (cases "ring_entries ring = []")
  case False
  have "takeWhile (\<lambda>e. fst e < k) (content ring) = map (owned_by ring) (takeWhile (\<lambda>(pos, _). pos < k) (ring_entries ring))" for k
    unfolding content_def takeWhile_map by (simp add: comp_def split_def owned_by_def)
  then show ?thesis
    using False unfolding find_healthy_url_def Let_def walk_rotate
    by (simp add: find_loop_first content_def rotate_map comp_def owned_by_def)
qed (simp add: find_healthy_url_def content_def)

lemma find_sorted_min:
  assumes "sorted (map d xs)" "find is_healthy (map snd xs) = Some u"
  shows "\<exists>p. (p, u) \<in> set xs \<and> is_healthy u \<and> (\<forall>y\<in>set xs. is_healthy (snd y) \<longrightarrow> d (p, u) \<le> d y)"
  using assms by (induction xs) (auto split: if_splits)

lemma find_picks:
  assumes "sorted (map fst (ring_entries ring))"
  shows "(find_healthy_url blake3 ring key is_healthy = Some u \<longrightarrow> picks (set (content ring)) (hash_position blake3 key) is_healthy u)
    \<and> (find_healthy_url blake3 ring key is_healthy = None \<longleftrightarrow> (\<forall>(pos, url) \<in> set (content ring). \<not> is_healthy url))"
proof -
  let ?k = "hash_position blake3 key"
  let ?r = "rotate (length (takeWhile (\<lambda>e. fst e < ?k) (content ring))) (content ring)"
  have "sorted (map fst (content ring))" using assms by (simp add: content_def comp_def owned_by_def)
  then have "sorted (map (\<lambda>e. fst e - ?k) ?r)" by (rule clockwise_order)
  from find_sorted_min [OF this] show ?thesis
    unfolding find_healthy_url_walk picks_def find_None_iff by (fastforce simp: split_def)
qed

lemma picks_unique:
  assumes "inj_on fst nodes" "picks nodes k is_healthy u" "picks nodes k is_healthy v"
  shows "u = v"
proof -
  obtain p q where p: "(p, u) \<in> nodes" "(q, v) \<in> nodes" and "p - k \<le> q - k" "q - k \<le> p - k"
    using assms(2,3) unfolding picks_def by blast
  then have "p - k = q - k" by (simp add: order_antisym)
  then have "p = q" by simp
  then show ?thesis using inj_onD [OF assms(1), of "(p, u)" "(q, v)"] p by simp
qed

section \<open>What a ring holds\<close>

definition url_nodes :: "(string \<Rightarrow> bytes) \<Rightarrow> string set \<Rightarrow> (u64 \<times> string) set" where
  "url_nodes blake3 urls = (\<Union>url\<in>urls. (\<lambda>vnode. (vnode_position blake3 url vnode, url)) ` {..<VIRTUAL_NODES_PER_WORKER})"

definition collision_free :: "(string \<Rightarrow> bytes) \<Rightarrow> string set \<Rightarrow> bool" where
  "collision_free blake3 urls \<longleftrightarrow> inj_on (\<lambda>(url, vnode). vnode_position blake3 url vnode) (urls \<times> {..<VIRTUAL_NODES_PER_WORKER})"

definition ring_ok :: "(string \<Rightarrow> bytes) \<Rightarrow> hash_ring \<Rightarrow> bool" where
  "ring_ok blake3 ring \<longleftrightarrow> distinct (ring_urls ring) \<and> sorted (map fst (ring_entries ring))
     \<and> (\<forall>(pos, index) \<in> set (ring_entries ring). unat index < length (ring_urls ring))
     \<and> set (content ring) = url_nodes blake3 (set (ring_urls ring))"

lemma nodes_inj: "collision_free blake3 urls \<Longrightarrow> inj_on fst (url_nodes blake3 urls)"
  unfolding collision_free_def url_nodes_def by (fastforce simp: inj_on_def)

lemma nodes_of_url: "VIRTUAL_NODES_PER_WORKER \<noteq> 0 \<Longrightarrow> snd ` url_nodes blake3 urls = urls"
  unfolding url_nodes_def by force

lemma first_urls_set: "set (first_urls seen urls) = set urls - set seen \<and> distinct (first_urls seen urls) \<and> length (first_urls seen urls) \<le> length urls"
  by (induction urls arbitrary: seen) (auto simp: le_SucI)

lemma index_u32: "i < 2 ^ 32 - 1 \<Longrightarrow> unat (word_of_nat i :: u32) = i \<and> (word_of_nat i :: u32) \<noteq> - 1"
proof -
  assume i: "i < 2 ^ 32 - 1"
  then have u: "unat (word_of_nat i :: u32) = i" by (simp add: unsigned_of_nat take_bit_nat_eq_self)
  moreover have "unat (- 1 :: u32) = 2 ^ 32 - 1" by (simp add: unat_all_ones)
  ultimately show ?thesis using i by (metis less_irrefl)
qed

lemma set_vnodes_for:
  "set (vnodes_for blake3 url index) = (\<lambda>vnode. (vnode_position blake3 url vnode, index)) ` {..<VIRTUAL_NODES_PER_WORKER}"
  by (auto simp: vnodes_for_def)

lemma set_enumerate_nth: "set (enumerate 0 xs) = (\<lambda>i. (i, xs ! i)) ` {..<length xs}"
  by (auto simp: in_set_enumerate_eq)

lemma owned_vnodes:
  "ring_urls ring ! unat w = url \<Longrightarrow> owned_by ring ` set (vnodes_for blake3 url w)
     = (\<lambda>vnode. (vnode_position blake3 url vnode, url)) ` {..<VIRTUAL_NODES_PER_WORKER}"
  by (simp add: set_vnodes_for image_image owned_by_def)

lemma set_conv_nth_image: "set xs = (\<lambda>i. xs ! i) ` {..<length xs}"
  by (auto simp: in_set_conv_nth)

lemma ring_new_ok:
  assumes "length urls < 2 ^ 32 - 1"
  shows "ring_ok blake3 (ring_new blake3 urls) \<and> set (ring_urls (ring_new blake3 urls)) = set urls"
proof -
  let ?r = "ring_new blake3 urls" and ?us = "first_urls [] urls"
  have us: "ring_urls ?r = ?us" "set ?us = set urls" "distinct ?us" and len: "length ?us < 2 ^ 32 - 1"
    using first_urls_set [of "[]" urls] assms by (simp_all add: ring_new_def Let_def)
  have ent: "set (ring_entries ?r) = (\<Union>i<length ?us. set (vnodes_for blake3 (?us ! i) (word_of_nat i)))"
    by (simp add: ring_new_def Let_def set_enumerate_nth)
  have idx: "unat (word_of_nat i :: u32) = i" if "i < length ?us" for i
    using index_u32 [of i] that len by simp
  have "set (content ?r) = url_nodes blake3 (set ?us)"
    unfolding content_def set_map ent image_UN
    by (simp add: owned_vnodes us(1) idx url_nodes_def set_conv_nth_image [of "first_urls [] urls"])
  moreover have "unat (snd e) < length ?us" if "e \<in> set (ring_entries ?r)" for e
    using that idx unfolding ent by (auto simp: set_vnodes_for)
  moreover have "sorted (map fst (ring_entries ?r))"
    by (simp add: ring_new_def Let_def)
  ultimately show ?thesis
    using us unfolding ring_ok_def by auto
qed

lemma merge_entries_set:
  "set (merge_entries remap es ps) = set ps \<union> {(p, remap ! unat i) | p i. (p, i) \<in> set es \<and> remap ! unat i \<noteq> - 1}"
proof (induction es arbitrary: ps)
  case (Cons e es)
  obtain p i where e: "e = (p, i)" by (meson surj_pair)
  show ?case
    using set_takeWhile_dropWhile [of "\<lambda>(a, _). a \<le> p" ps]
    by (auto simp: e Cons Let_def)
qed simp

lemma merge_entries_sorted:
  assumes "sorted (map fst es)" "sorted (map fst ps)"
  shows "sorted (map fst (merge_entries remap es ps))"
  using assms
proof (induction es arbitrary: ps)
  case (Cons e es)
  obtain p i where e: "e = (p, i)" by (meson surj_pair)
  let ?lo = "takeWhile (\<lambda>(a, _). a \<le> p) ps" and ?hi = "dropWhile (\<lambda>(a, _). a \<le> p) ps"
  have "sorted (map fst (?lo @ ?hi))" using Cons.prems(2) by simp
  then have s: "sorted (map fst ?lo)" "sorted (map fst ?hi)" by (simp_all only: map_append sorted_append)
  have lo: "fst x \<le> p" if "x \<in> set ?lo" for x using that set_takeWhileD by fastforce
  have hi: "p \<le> fst x" if x: "x \<in> set ?hi" for x
  proof -
    obtain y ys where y: "?hi = y # ys" using x by (cases ?hi) simp_all
    then have "p \<le> fst y" using hd_dropWhile [of "\<lambda>(a, _). a \<le> p" ps] by (auto simp: split_def)
    moreover have "fst y \<le> fst x" using s(2) x y by auto
    ultimately show ?thesis by (rule order_trans)
  qed
  have rest: "p \<le> fst x" if "x \<in> set (merge_entries remap es ?hi)" for x
    using that hi [of x] Cons.prems(1) unfolding merge_entries_set by (auto simp: e)
  have "sorted (map fst (merge_entries remap es ps))" "sorted (map fst (merge_entries remap es ?hi))"
    using Cons.IH Cons.prems s(2) by simp_all
  moreover have "fst x \<le> fst y" if "x \<in> set ?lo" "y \<in> set (merge_entries remap es ?hi)" for x y
    using lo [OF that(1)] rest [OF that(2)] by (rule order_trans)
  ultimately show ?case
    using s(1) lo rest by (auto simp: e Let_def sorted_append)
qed simp

lemma retain_urls_spec:
  assumes "length nu + length urls < 2 ^ 32 - 1" "retain_urls desired urls (nu, rm) = (kept, remap)"
  shows "kept = nu @ filter (\<lambda>u. u \<in> set desired) urls \<and> length remap = length rm + length urls \<and> take (length rm) remap = rm
    \<and> (\<forall>i < length urls. if urls ! i \<in> set desired
         then remap ! (length rm + i) \<noteq> - 1 \<and> unat (remap ! (length rm + i)) < length kept \<and> kept ! unat (remap ! (length rm + i)) = urls ! i
         else remap ! (length rm + i) = - 1)"
  using assms
proof (induction urls arbitrary: nu rm)
  case (Cons u urls)
  define w where "w = (if u \<in> set desired then word_of_nat (length nu) else - 1 :: u32)"
  define nu' where "nu' = (if u \<in> set desired then nu @ [u] else nu)"
  have "retain_urls desired urls (nu', rm @ [w]) = (kept, remap)" "length nu' + length urls < 2 ^ 32 - 1"
    using Cons.prems by (simp_all add: w_def nu'_def split: if_splits)
  note IH = Cons.IH [OF this(2,1)]
  have w: "remap ! length rm = w"
    using IH by (metis (no_types, lifting) length_append_singleton lessI nth_append_length nth_take)
  show ?case
  proof (intro conjI allI impI)
    show "kept = nu @ filter (\<lambda>u. u \<in> set desired) (u # urls)" "length remap = length rm + length (u # urls)"
      using IH by (simp_all add: nu'_def)
    show "take (length rm) remap = rm"
      using IH by (metis append_eq_conv_conj length_append_singleton take_Suc_conv_app_nth take_take min.absorb1 le_SucI order_refl)
    fix i assume i: "i < length (u # urls)"
    show "if (u # urls) ! i \<in> set desired
         then remap ! (length rm + i) \<noteq> - 1 \<and> unat (remap ! (length rm + i)) < length kept \<and> kept ! unat (remap ! (length rm + i)) = (u # urls) ! i
         else remap ! (length rm + i) = - 1"
    proof (cases i)
      case 0
      then show ?thesis
        using w IH index_u32 [of "length nu"] Cons.prems(1) by (auto simp: w_def nu'_def nth_append)
    next
      case (Suc j)
      then have "j < length urls" using i by simp
      from IH [THEN conjunct2, THEN conjunct2, THEN conjunct2, rule_format, OF this] show ?thesis
        using Suc by (cases "urls ! j \<in> set desired") simp_all
    qed
  qed
qed simp

lemma append_urls_spec:
  assumes "length nu + length added < 2 ^ 32 - 1" "append_urls blake3 added (nu, vs) = (new_urls, vnodes)"
  shows "new_urls = nu @ added
    \<and> set vnodes = set vs \<union> (\<Union>j<length added. set (vnodes_for blake3 (added ! j) (word_of_nat (length nu + j))))"
  using assms
proof (induction added arbitrary: nu vs)
  case (Cons u added)
  have "append_urls blake3 added (nu @ [u], vs @ vnodes_for blake3 u (word_of_nat (length nu))) = (new_urls, vnodes)"
    using Cons.prems(2) by simp
  from Cons.IH [OF _ this] Cons.prems(1) show ?case
    by (simp add: lessThan_Suc_eq_insert_0 Un_assoc add.assoc add.left_commute)
qed simp

lemma retained_nodes:
  assumes "\<And>p i. (p, i) \<in> set (ring_entries ring) \<Longrightarrow> unat i < length (ring_urls ring)"
    and "\<And>i. i < length (ring_urls ring) \<Longrightarrow> ring_urls ring ! i \<in> D \<Longrightarrow> remap ! i \<noteq> - 1 \<and> unat (remap ! i) < n \<and> kept ! unat (remap ! i) = ring_urls ring ! i"
    and "\<And>i. i < length (ring_urls ring) \<Longrightarrow> ring_urls ring ! i \<notin> D \<Longrightarrow> remap ! i = - 1"
    and "\<And>i. i < n \<Longrightarrow> ring_urls new ! i = kept ! i"
  shows "owned_by new ` {(p, remap ! unat i) | p i. (p, i) \<in> set (ring_entries ring) \<and> remap ! unat i \<noteq> - 1}
    = {x \<in> set (content ring). snd x \<in> D}"
proof -
  have same: "owned_by new (p, remap ! unat i) = owned_by ring (p, i) \<and> ring_urls ring ! unat i \<in> D"
    if "(p, i) \<in> set (ring_entries ring)" "remap ! unat i \<noteq> - 1" for p i
    using assms(1) [OF that(1)] assms(2-4) that(2) by (metis fst_conv owned_by_def snd_conv)
  have kept: "remap ! unat i \<noteq> - 1" if "(p, i) \<in> set (ring_entries ring)" "ring_urls ring ! unat i \<in> D" for p i
    using assms(1) [OF that(1)] assms(2) that(2) by blast
  show ?thesis
  proof (intro equalityI subsetI)
    fix x assume "x \<in> owned_by new ` {(p, remap ! unat i) | p i. (p, i) \<in> set (ring_entries ring) \<and> remap ! unat i \<noteq> - 1}"
    then obtain p i where "(p, i) \<in> set (ring_entries ring)" "remap ! unat i \<noteq> - 1" "x = owned_by new (p, remap ! unat i)"
      by blast
    then show "x \<in> {x \<in> set (content ring). snd x \<in> D}"
      using same [of p i] by (simp add: content_def) (simp add: owned_by_def)
  next
    fix x assume "x \<in> {x \<in> set (content ring). snd x \<in> D}"
    then obtain p i where pi: "(p, i) \<in> set (ring_entries ring)" "x = owned_by ring (p, i)" "ring_urls ring ! unat i \<in> D"
      by (auto simp: content_def owned_by_def)
    then have "x = owned_by new (p, remap ! unat i)" "remap ! unat i \<noteq> - 1"
      using same [of p i] kept [of p i] by simp_all
    then show "x \<in> owned_by new ` {(p, remap ! unat i) | p i. (p, i) \<in> set (ring_entries ring) \<and> remap ! unat i \<noteq> - 1}"
      using pi(1) by blast
  qed
qed

lemma retained_indices:
  assumes "\<And>p i. (p, i) \<in> set (ring_entries ring) \<Longrightarrow> unat i < length (ring_urls ring)"
    and "\<And>i. i < length (ring_urls ring) \<Longrightarrow> ring_urls ring ! i \<in> D \<Longrightarrow> remap ! i \<noteq> - 1 \<and> unat (remap ! i) < n \<and> kept ! unat (remap ! i) = ring_urls ring ! i"
    and "\<And>i. i < length (ring_urls ring) \<Longrightarrow> ring_urls ring ! i \<notin> D \<Longrightarrow> remap ! i = - 1"
    and "(p, i) \<in> {(p, remap ! unat i) | p i. (p, i) \<in> set (ring_entries ring) \<and> remap ! unat i \<noteq> - 1}"
  shows "unat i < n"
proof -
  obtain i' where "(p, i') \<in> set (ring_entries ring)" "i = remap ! unat i'" "i \<noteq> - 1"
    using assms(4) by blast
  then show ?thesis using assms(2,3) [OF assms(1), of p i'] by blast
qed

lemma added_nodes:
  assumes "ring_urls nr = kept @ added" "length kept + length added < 2 ^ 32 - 1"
    and "set vnodes = (\<Union>j<length added. set (vnodes_for blake3 (added ! j) (word_of_nat (length kept + j))))"
  shows "owned_by nr ` set vnodes = url_nodes blake3 (set added)"
    and "(p, i) \<in> set vnodes \<Longrightarrow> unat i < length kept + length added"
proof -
  have idx: "unat (word_of_nat (length kept + j) :: u32) = length kept + j" if "j < length added" for j
    using index_u32 [of "length kept + j"] that assms(2) by simp
  have "owned_by nr ` set (vnodes_for blake3 (added ! j) (word_of_nat (length kept + j)))
      = (\<lambda>vnode. (vnode_position blake3 (added ! j) vnode, added ! j)) ` {..<VIRTUAL_NODES_PER_WORKER}" if "j < length added" for j
    by (rule owned_vnodes) (use that in \<open>simp only: idx assms(1) nth_append_length_plus\<close>)
  then show "owned_by nr ` set vnodes = url_nodes blake3 (set added)"
    unfolding assms(3) image_UN url_nodes_def set_conv_nth_image [of added] by (simp del: of_nat_add)
  assume "(p, i) \<in> set vnodes"
  then obtain j where "j < length added" "i = word_of_nat (length kept + j)"
    unfolding assms(3) by (auto simp: set_vnodes_for)
  then show "unat i < length kept + length added" using idx [of j] by (simp del: of_nat_add)
qed

lemma ring_updated_ok:
  assumes "ring_ok blake3 ring" "length (ring_urls ring) + length urls < 2 ^ 32 - 1"
  shows "ring_ok blake3 (ring_updated blake3 urls ring) \<and> set (ring_urls (ring_updated blake3 urls ring)) = set urls"
proof -
  let ?old = "ring_urls ring" and ?desired = "first_urls [] urls"
  define added where "added = filter (\<lambda>url. url \<notin> set ?old) ?desired"
  have des: "set ?desired = set urls" "distinct ?desired" "length ?desired \<le> length urls"
    using first_urls_set [of "[]" urls] by simp_all
  have ok: "distinct ?old" "sorted (map fst (ring_entries ring))"
      "\<And>p i. (p, i) \<in> set (ring_entries ring) \<Longrightarrow> unat i < length ?old" "set (content ring) = url_nodes blake3 (set ?old)"
    using assms(1) by (auto simp: ring_ok_def)
  show ?thesis
  proof (cases "added = [] \<and> length ?desired = length ?old")
    case True
    then have "set ?desired \<subseteq> set ?old" "card (set ?desired) = card (set ?old)"
      using des(2) ok(1) by (auto simp: added_def filter_empty_conv distinct_card)
    then have "set ?desired = set ?old" by (intro card_subset_eq) simp_all
    then show ?thesis using True assms(1) des(1) by (simp add: ring_updated_def Let_def flip: added_def)
  next
    case False
    obtain kept remap where ret: "retain_urls ?desired ?old ([], []) = (kept, remap)" by (meson surj_pair)
    obtain new_urls vnodes where app: "append_urls blake3 added (kept, []) = (new_urls, vnodes)" by (meson surj_pair)
    define nr where "nr = \<lparr>ring_entries = merge_entries remap (ring_entries ring) (sort_key fst vnodes), ring_urls = new_urls\<rparr>"
    have new: "ring_updated blake3 urls ring = nr"
      using False ret app by (auto simp: nr_def ring_updated_def Let_def simp flip: added_def)
    have R: "kept = filter (\<lambda>u. u \<in> set ?desired) ?old"
        "\<And>i. i < length ?old \<Longrightarrow> ?old ! i \<in> set ?desired \<Longrightarrow> remap ! i \<noteq> - 1 \<and> unat (remap ! i) < length kept \<and> kept ! unat (remap ! i) = ?old ! i"
        "\<And>i. i < length ?old \<Longrightarrow> ?old ! i \<notin> set ?desired \<Longrightarrow> remap ! i = - 1"
      using retain_urls_spec [OF _ ret] assms(2) by auto
    have "length kept \<le> length ?old" "length added \<le> length ?desired"
      by (simp_all add: R(1) added_def)
    then have small: "length kept + length added < 2 ^ 32 - 1"
      using assms(2) des(3) by linarith
    have A: "new_urls = kept @ added" "set vnodes = (\<Union>j<length added. set (vnodes_for blake3 (added ! j) (word_of_nat (length kept + j))))"
      using append_urls_spec [OF small app] by simp_all
    define E where "E = {(p, remap ! unat i) | p i. (p, i) \<in> set (ring_entries ring) \<and> remap ! unat i \<noteq> - 1}"
    have ent: "set (ring_entries nr) = set vnodes \<union> E"
      by (simp add: nr_def merge_entries_set E_def)
    have urls: "ring_urls nr = kept @ added" by (simp add: nr_def A(1))
    have "owned_by nr ` set vnodes = url_nodes blake3 (set added)"
      by (rule added_nodes(1) [OF urls small A(2)])
    moreover have "owned_by nr ` E = {x \<in> set (content ring). snd x \<in> set ?desired}"
      by (rule retained_nodes [OF ok(3) R(2,3), folded E_def]) (simp_all add: urls nth_append)
    moreover have "{x \<in> set (content ring). snd x \<in> set ?desired} = url_nodes blake3 (set kept)"
      by (auto simp: ok(4) url_nodes_def R(1))
    ultimately have "set (content nr) = url_nodes blake3 (set new_urls)"
      by (simp only: content_def set_map ent image_Un A(1) set_append) (simp add: url_nodes_def Un_commute)
    moreover have "sorted (map fst (ring_entries nr))"
      using merge_entries_sorted [OF ok(2)] by (simp add: nr_def)
    moreover have "unat i < length new_urls" if "(p, i) \<in> set (ring_entries nr)" for p i
      using that added_nodes(2) [OF urls small A(2)] retained_indices [OF ok(3) R(2,3), folded E_def]
      unfolding ent A(1) by (fastforce simp: trans_less_add1)
    moreover have "distinct new_urls" "set new_urls = set urls"
      using ok(1) des by (auto simp: A(1) R(1) added_def)
    ultimately show ?thesis
      unfolding new ring_ok_def by (auto simp: urls A(1))
  qed
qed

section \<open>Updates and stability\<close>

lemma updates_ok:
  assumes "\<forall>us\<in>set (us0 # uss). length us < 2 ^ 31"
  shows "ring_ok blake3 (fold (ring_updated blake3) uss (ring_new blake3 us0))
    \<and> set (ring_urls (fold (ring_updated blake3) uss (ring_new blake3 us0))) = set (last (us0 # uss))"
  using assms
proof (induction uss rule: rev_induct)
  case Nil
  then show ?case using ring_new_ok [of us0 blake3] by simp
next
  case (snoc us uss)
  let ?r = "fold (ring_updated blake3) uss (ring_new blake3 us0)"
  have IH: "ring_ok blake3 ?r" "set (ring_urls ?r) = set (last (us0 # uss))"
    using snoc by auto
  have "length (ring_urls ?r) = card (set (last (us0 # uss)))"
    using IH(1) unfolding IH(2) [symmetric] by (simp add: ring_ok_def distinct_card)
  also have "\<dots> \<le> length (last (us0 # uss))" by (rule card_length)
  also have "\<dots> < 2 ^ 31" using snoc.prems last_in_set [of "us0 # uss"] by auto
  finally have "length (ring_urls ?r) + length us < 2 ^ 32 - 1" using snoc.prems by simp
  from ring_updated_ok [OF IH(1) this] show ?case by simp
qed

lemma find_by_urls:
  assumes "ring_ok blake3 ring" "collision_free blake3 (set (ring_urls ring))"
  shows "find_healthy_url blake3 ring key is_healthy = Some u
      \<longleftrightarrow> picks (url_nodes blake3 (set (ring_urls ring))) (hash_position blake3 key) is_healthy u"
    and "find_healthy_url blake3 ring key is_healthy = None \<longleftrightarrow> (\<forall>url\<in>set (ring_urls ring). \<not> is_healthy url)"
proof -
  let ?nodes = "url_nodes blake3 (set (ring_urls ring))"
  have c: "set (content ring) = ?nodes" and s: "sorted (map fst (ring_entries ring))"
    using assms(1) by (simp_all add: ring_ok_def)
  note f = find_picks [OF s, of blake3 key is_healthy, unfolded c]
  have "snd ` ?nodes = set (ring_urls ring)"
    by (rule nodes_of_url) (simp add: VIRTUAL_NODES_PER_WORKER_def)
  then show none: "find_healthy_url blake3 ring key is_healthy = None \<longleftrightarrow> (\<forall>url\<in>set (ring_urls ring). \<not> is_healthy url)"
    using f by (metis (no_types, lifting) case_prodI2 case_prod_unfold image_iff)
  have "\<exists>v. find_healthy_url blake3 ring key is_healthy = Some v \<and> picks ?nodes (hash_position blake3 key) is_healthy v"
    if "picks ?nodes (hash_position blake3 key) is_healthy u" for u
    using that f unfolding picks_def by (cases "find_healthy_url blake3 ring key is_healthy") blast+
  then show "find_healthy_url blake3 ring key is_healthy = Some u \<longleftrightarrow> picks ?nodes (hash_position blake3 key) is_healthy u"
    using f picks_unique [OF nodes_inj [OF assms(2)]] by blast
qed

text \<open>C38. A ring that followed the fleet through any sequence of membership changes answers every
  lookup like a ring built from the current members at once, so the incremental update, which
  rehashes only the changed urls, loses and duplicates nothing.\<close>

theorem ring_updates_match_rebuild:
  assumes "\<forall>us\<in>set (us0 # uss). length us < 2 ^ 31" "collision_free blake3 (set (last (us0 # uss)))"
  shows "find_healthy_url blake3 (fold (ring_updated blake3) uss (ring_new blake3 us0)) key is_healthy
    = find_healthy_url blake3 (ring_new blake3 (last (us0 # uss))) key is_healthy"
proof -
  let ?r = "fold (ring_updated blake3) uss (ring_new blake3 us0)" and ?n = "ring_new blake3 (last (us0 # uss))"
  have "length (last (us0 # uss)) < 2 ^ 31" using assms(1) last_in_set [of "us0 # uss"] by blast
  then have n: "ring_ok blake3 ?n" "set (ring_urls ?n) = set (last (us0 # uss))"
    using ring_new_ok [of "last (us0 # uss)" blake3] by simp_all
  note r = updates_ok [OF assms(1), of blake3]
  have "find_healthy_url blake3 ?r key is_healthy = Some u \<longleftrightarrow> find_healthy_url blake3 ?n key is_healthy = Some u" for u
    using find_by_urls(1) [of blake3 ?r key is_healthy u] find_by_urls(1) [of blake3 ?n key is_healthy u] r n assms(2) by simp
  then show ?thesis by (metis option.exhaust_sel)
qed

text \<open>Lookups are stable: when members or their health change, a key moves only away from a url that
  left or became unhealthy, or to one that joined or became healthy.\<close>

lemma ring_minimal_disruption:
  assumes "ring_ok blake3 r" "ring_ok blake3 r'" "collision_free blake3 (set (ring_urls r) \<union> set (ring_urls r'))"
  shows "(find_healthy_url blake3 r key up = Some u \<longrightarrow> u \<in> set (ring_urls r) \<and> up u)
    \<and> (find_healthy_url blake3 r key up = Some u \<and> find_healthy_url blake3 r' key up' = Some u' \<and> u \<noteq> u'
       \<longrightarrow> \<not> (u \<in> set (ring_urls r') \<and> up' u) \<or> \<not> (u' \<in> set (ring_urls r) \<and> up u'))"
proof (intro impI conjI)
  let ?k = "hash_position blake3 key" and ?us = "set (ring_urls r)" and ?us' = "set (ring_urls r')"
  have cf: "collision_free blake3 ?us" "collision_free blake3 ?us'"
    using assms(3) by (auto simp: collision_free_def intro: inj_on_subset)
  note f = find_by_urls [OF assms(1) cf(1), of key up] and f' = find_by_urls [OF assms(2) cf(2), of key up']
  have mem: "u \<in> urls" if "(p, u) \<in> url_nodes blake3 urls" for p u urls
    using that by (auto simp: url_nodes_def)
  show "u \<in> ?us" "up u" if "find_healthy_url blake3 r key up = Some u"
    using that mem unfolding f(1) picks_def by blast+
  assume "find_healthy_url blake3 r key up = Some u \<and> find_healthy_url blake3 r' key up' = Some u' \<and> u \<noteq> u'"
  then obtain p p' where p: "(p, u) \<in> url_nodes blake3 ?us" "\<forall>(q, v)\<in>url_nodes blake3 ?us. up v \<longrightarrow> p - ?k \<le> q - ?k"
    and p': "(p', u') \<in> url_nodes blake3 ?us'" "\<forall>(q, v)\<in>url_nodes blake3 ?us'. up' v \<longrightarrow> p' - ?k \<le> q - ?k" and ne: "u \<noteq> u'"
    unfolding f(1) f'(1) picks_def by blast
  show "\<not> (u \<in> ?us' \<and> up' u) \<or> \<not> (u' \<in> ?us \<and> up u')"
  proof (rule ccontr)
    assume "\<not> (\<not> (u \<in> ?us' \<and> up' u) \<or> \<not> (u' \<in> ?us \<and> up u'))"
    then have "(p, u) \<in> url_nodes blake3 ?us'" "up' u" "(p', u') \<in> url_nodes blake3 ?us" "up u'"
      using p(1) p'(1) by (auto simp: url_nodes_def)
    then have "p - ?k \<le> p' - ?k" "p' - ?k \<le> p - ?k" using p(2) p'(2) by blast+
    then have "p = p'" by (metis add_diff_cancel order_antisym diff_add_cancel)
    moreover have "(p, u) \<in> url_nodes blake3 (?us \<union> ?us')" "(p', u') \<in> url_nodes blake3 (?us \<union> ?us')"
      using p(1) p'(1) by (auto simp: url_nodes_def)
    ultimately show False
      using inj_onD [OF nodes_inj [OF assms(3)], of "(p, u)" "(p', u')"] ne by simp
  qed
qed

section \<open>A concrete ring\<close>

text \<open>A digest without collisions on short names: the number after the name and its first letter.\<close>

definition digits_value :: "string \<Rightarrow> nat" where
  "digits_value s = foldl (\<lambda>acc c. let d = of_char c in if 48 \<le> d \<and> d \<le> 57 then 10 * acc + (d - 48) else 0) 0 s"

definition demo_blake3 :: "string \<Rightarrow> bytes" where
  "demo_blake3 s = [word_of_nat (digits_value s), word_of_nat (case s of [] \<Rightarrow> 0 | c # _ \<Rightarrow> of_char c)]"

lemma digits_value_decimal: "digits_value (''x#'' @ decimal n) = n \<and> digits_value (''y#'' @ decimal n) = n"
proof -
  have "foldl (\<lambda>acc c. let d = of_char c in if 48 \<le> d \<and> d \<le> 57 then 10 * acc + (d - 48) else 0) 0 (decimal n) = n"
    by (induction n rule: decimal.induct) (subst decimal.simps, auto simp: Let_def)
  then show ?thesis by (simp add: digits_value_def Let_def)
qed

lemma two_bytes:
  fixes x y :: u8
  shows "ucast (u64_from_le_bytes [x, y]) = x \<and> ucast (drop_bit 8 (u64_from_le_bytes [x, y])) = y"
proof -
  have "\<not> bit x (8 + n)" for n
    using bit_imp_le_length [of x "8 + n"] by auto
  then show ?thesis
    unfolding u64_from_le_bytes_def by (auto intro!: bit_word_eqI simp: bit_simps)
qed

lemma demo_collision_free: "collision_free demo_blake3 {''x'', ''y''}"
proof -
  have pos: "vnode_position demo_blake3 ''x'' v = u64_from_le_bytes [word_of_nat v, 120]"
      "vnode_position demo_blake3 ''y'' v = u64_from_le_bytes [word_of_nat v, 121]" for v
    using digits_value_decimal [of v] by (simp_all add: vnode_position_def hash_position_def demo_blake3_def)
  have "u64_from_le_bytes [word_of_nat v, c] = u64_from_le_bytes [word_of_nat w, d] \<longleftrightarrow> v = w \<and> c = d"
    if "v < 150" "w < 150" for v w :: nat and c d :: u8
  proof
    assume eq: "u64_from_le_bytes [word_of_nat v, c] = u64_from_le_bytes [word_of_nat w, d]"
    then have "(word_of_nat v :: u8) = word_of_nat w" "c = d"
      using two_bytes [of "word_of_nat v" c] two_bytes [of "word_of_nat w" d] by metis+
    moreover have "unat (word_of_nat v :: u8) = v" "unat (word_of_nat w :: u8) = w"
      using that by (simp_all add: unsigned_of_nat take_bit_nat_eq_self)
    ultimately show "v = w \<and> c = d" by metis
  qed simp
  then show ?thesis
    by (auto simp: collision_free_def inj_on_def pos VIRTUAL_NODES_PER_WORKER_def)
qed

theorem ring_updates_match_rebuild_witness:
  "find_healthy_url demo_blake3 (fold (ring_updated demo_blake3) [[''x'', ''z''], [''y'', ''x'', ''y'']] (ring_new demo_blake3 [''z''])) ''k'' (\<lambda>_. True)
   = find_healthy_url demo_blake3 (ring_new demo_blake3 [''y'', ''x'', ''y'']) ''k'' (\<lambda>_. True)"
  using ring_updates_match_rebuild [of "[''z'']" "[[''x'', ''z''], [''y'', ''x'', ''y'']]" demo_blake3 "''k''" "\<lambda>_. True"]
    demo_collision_free by (simp add: insert_commute)

end
