(* ===== verification/Routing_Policies.thy ===== *)
theory Routing_Policies
  imports Hash_Ring Rust_Text
begin

text \<open>
  Worker selection: the routing hints of \<open>external_router/src/header_utils.rs\<close>, the eligibility
  tests of \<open>worker/runtime.rs\<close> and \<open>worker/basic.rs\<close>, and the policies passthrough, random, round
  robin and consistent hashing of \<open>policies/\<close>.

  A worker is its url and the routing snapshot the policies read.  A random draw is a raw number
  reduced into the range, so a statement for every raw number covers every outcome of
  \<open>random_range\<close>.  A header value is its list of bytes; \<open>to_str\<close> of the \<open>http\<close> crate and the
  \<open>DefaultHasher\<close>, whose algorithm the standard library leaves open, are arguments.
\<close>

section \<open>Routing hints\<close>

type_synonym headers = "(string \<times> string) list option"

definition header_get :: "headers \<Rightarrow> string \<Rightarrow> string option" where
  "header_get hs header_name = Option.bind hs (\<lambda>h. map_of h header_name)"

text \<open>\<open>std::str::from_utf8\<close>: the well-formed byte sequences of Unicode.\<close>

definition byte_in :: "nat \<Rightarrow> nat \<Rightarrow> char \<Rightarrow> bool" where
  "byte_in lo hi c \<longleftrightarrow> lo \<le> of_char c \<and> of_char c \<le> hi"

fun utf8 :: "string \<Rightarrow> bool" where
  "utf8 [] = True"
| "utf8 (a # rest) =
     (if byte_in 0 127 a then utf8 rest
      else if byte_in 194 223 a then
        (case rest of b # r \<Rightarrow> byte_in 128 191 b \<and> utf8 r | _ \<Rightarrow> False)
      else if byte_in 224 239 a then
        (case rest of b # c # r \<Rightarrow>
           byte_in (if byte_in 224 224 a then 160 else 128) (if byte_in 237 237 a then 159 else 191) b
           \<and> byte_in 128 191 c \<and> utf8 r
         | _ \<Rightarrow> False)
      else if byte_in 240 244 a then
        (case rest of b # c # d # r \<Rightarrow>
           byte_in (if byte_in 240 240 a then 144 else 128) (if byte_in 244 244 a then 143 else 191) b
           \<and> byte_in 128 191 c \<and> byte_in 128 191 d \<and> utf8 r
         | _ \<Rightarrow> False)
      else False)"

definition from_utf8 :: "string \<Rightarrow> string option" where
  "from_utf8 s = (if utf8 s then Some s else None)"

definition is_digit :: "char \<Rightarrow> bool" where
  "is_digit c \<longleftrightarrow> byte_in 48 57 c"

definition digits_to_nat :: "string \<Rightarrow> nat" where
  "digits_to_nat s = foldl (\<lambda>acc c. 10 * acc + (of_char c - 48)) 0 s"

text \<open>\<open>str::parse\<close> for an unsigned integer of a given width.\<close>

definition parse_unsigned :: "nat \<Rightarrow> string \<Rightarrow> nat option" where
  "parse_unsigned width s =
     (let digits = (case s of c # r \<Rightarrow> if c = CHR ''+'' then r else s | [] \<Rightarrow> s)
      in if digits = [] \<or> \<not> list_all is_digit digits then None
         else if digits_to_nat digits < 2 ^ width then Some (digits_to_nat digits) else None)"

text \<open>\<open>str::split\<close> at a character.\<close>

fun split_at :: "char \<Rightarrow> string \<Rightarrow> string list" where
  "split_at sep [] = [[]]"
| "split_at sep (c # s) =
     (if c = sep then [] # split_at sep s
      else case split_at sep s of part # parts \<Rightarrow> (c # part) # parts | [] \<Rightarrow> [[c]])"

definition ROUTING_TOKENS_HINT_MAX_IDS :: nat where
  "ROUTING_TOKENS_HINT_MAX_IDS = 512"

definition ROUTING_TOKENS_HINT_MAX_BYTES :: nat where
  "ROUTING_TOKENS_HINT_MAX_BYTES = 4096"

definition ROUTING_KEY_HINT_MAX_BYTES :: nat where
  "ROUTING_KEY_HINT_MAX_BYTES = 128"

fun parse_ids :: "u32 list \<Rightarrow> string list \<Rightarrow> u32 list option" where
  "parse_ids ids [] = Some ids"
| "parse_ids ids (part # parts) =
     (if length ids = ROUTING_TOKENS_HINT_MAX_IDS then None
      else if part = [] \<or> \<not> list_all is_digit part then None
      else case parse_unsigned 32 part of
             None \<Rightarrow> None
           | Some n \<Rightarrow> parse_ids (ids @ [word_of_nat n]) parts)"

definition parse_routing_tokens_hint :: "headers \<Rightarrow> u32 list option" where
  "parse_routing_tokens_hint hs =
     (case header_get hs ''x-smg-routing-tokens'' of
        None \<Rightarrow> None
      | Some v \<Rightarrow>
          if v = [] \<or> length v > ROUTING_TOKENS_HINT_MAX_BYTES then None
          else case from_utf8 v of
                 None \<Rightarrow> None
               | Some t \<Rightarrow> parse_ids [] (split_at CHR '','' t))"

definition extract_routing_key_hint_named :: "headers \<Rightarrow> string \<Rightarrow> string option" where
  "extract_routing_key_hint_named hs header_name =
     (case header_get hs header_name of
        None \<Rightarrow> None
      | Some v \<Rightarrow>
          if v = [] \<or> length v > ROUTING_KEY_HINT_MAX_BYTES then None else from_utf8 v)"

definition extract_routing_key_hint :: "headers \<Rightarrow> string option" where
  "extract_routing_key_hint hs = extract_routing_key_hint_named hs ''x-smg-routing-key''"

definition extract_header_value :: "(string \<Rightarrow> string option) \<Rightarrow> headers \<Rightarrow> string \<Rightarrow> string option" where
  "extract_header_value to_str hs header_name =
     (case Option.bind (header_get hs header_name) to_str of
        None \<Rightarrow> None
      | Some s \<Rightarrow> if s = [] then None else Some s)"

definition extract_target_worker :: "(string \<Rightarrow> string option) \<Rightarrow> headers \<Rightarrow> string option" where
  "extract_target_worker to_str hs = extract_header_value to_str hs ''x-smg-target-worker''"

definition extract_routing_key :: "(string \<Rightarrow> string option) \<Rightarrow> headers \<Rightarrow> string option" where
  "extract_routing_key to_str hs = extract_header_value to_str hs ''x-smg-routing-key''"

section \<open>Eligibility\<close>

record routing_state =
  rs_healthy :: bool
  rs_can_execute :: bool
  rs_load :: nat
  rs_processed :: nat
  rs_overloaded :: bool
  rs_stalled :: bool

definition eligible_ignoring_overload :: "routing_state \<Rightarrow> bool" where
  "eligible_ignoring_overload st \<longleftrightarrow> rs_healthy st \<and> rs_can_execute st \<and> \<not> rs_stalled st"

definition eligible :: "routing_state \<Rightarrow> bool" where
  "eligible st \<longleftrightarrow> eligible_ignoring_overload st \<and> \<not> rs_overloaded st"

record pool_worker =
  wk_url :: string
  wk_state :: routing_state

definition is_healthy_and_eligible :: "pool_worker \<Rightarrow> bool" where
  "is_healthy_and_eligible w \<longleftrightarrow>
     rs_healthy (wk_state w) \<and> \<not> rs_overloaded (wk_state w) \<and> \<not> rs_stalled (wk_state w)"

definition is_available :: "pool_worker \<Rightarrow> bool" where
  "is_available w \<longleftrightarrow>
     rs_healthy (wk_state w) \<and> rs_can_execute (wk_state w) \<and> \<not> rs_overloaded (wk_state w) \<and> \<not> rs_stalled (wk_state w)"

text \<open>What the policies of this theory read of \<open>SelectWorkerInfo\<close>; the request text, tokens, cache
  partition and role are for other policies.\<close>

record select_worker_info =
  si_headers :: headers
  si_routing_key :: "string option"
  si_rid_key :: "string option"
  si_hash_ring :: "hash_ring option"
  si_overload_lifted :: bool

definition admits :: "select_worker_info \<Rightarrow> routing_state \<Rightarrow> bool" where
  "admits info st = (if si_overload_lifted info then eligible_ignoring_overload st else eligible st)"

definition indices_where :: "('a \<Rightarrow> bool) \<Rightarrow> 'a list \<Rightarrow> nat list" where
  "indices_where p xs = filter (\<lambda>i. p (xs ! i)) [0..<length xs]"

definition get_healthy_worker_indices :: "pool_worker list \<Rightarrow> select_worker_info \<Rightarrow> nat list" where
  "get_healthy_worker_indices workers info = indices_where (\<lambda>w. admits info (wk_state w)) workers"

definition ELIGIBLE_DRAWS :: nat where
  "ELIGIBLE_DRAWS = 16"

definition random_range :: "nat \<Rightarrow> nat \<Rightarrow> nat" where
  "random_range raw n = raw mod n"

fun find_map :: "('a \<Rightarrow> 'b option) \<Rightarrow> 'a list \<Rightarrow> 'b option" where
  "find_map f [] = None"
| "find_map f (x # xs) = (case f x of None \<Rightarrow> find_map f xs | Some y \<Rightarrow> Some y)"

definition draw_eligible :: "(nat \<Rightarrow> nat) \<Rightarrow> pool_worker list \<Rightarrow> select_worker_info \<Rightarrow> nat option \<Rightarrow> nat option" where
  "draw_eligible raw workers info taken =
     (if length workers \<le> (if taken = None then 0 else 1) then None
      else find_map (\<lambda>i. let idx = random_range (raw i) (length workers)
                         in if taken \<noteq> Some idx \<and> admits info (wk_state (workers ! idx)) then Some idx else None)
             [0..<ELIGIBLE_DRAWS])"

section \<open>Passthrough and random\<close>

text \<open>The state of passthrough is whether it has warned of a pool of several workers.\<close>

definition position :: "('a \<Rightarrow> bool) \<Rightarrow> 'a list \<Rightarrow> nat option" where
  "position p xs = find (\<lambda>i. p (xs ! i)) [0..<length xs]"

definition passthrough_select :: "bool \<Rightarrow> pool_worker list \<Rightarrow> select_worker_info \<Rightarrow> nat option \<times> bool" where
  "passthrough_select warned workers info =
     (position (\<lambda>w. admits info (wk_state w)) workers, warned \<or> length workers > 1)"

text \<open>The random policy keeps no state; the state passed along is the source of raw numbers, of which
  a selection takes at most seventeen.\<close>

definition random_select ::
  "(nat \<Rightarrow> nat) \<Rightarrow> pool_worker list \<Rightarrow> select_worker_info \<Rightarrow> nat option \<times> (nat \<Rightarrow> nat)" where
  "random_select raw workers info =
     ((case draw_eligible raw workers info None of
         Some idx \<Rightarrow> Some idx
       | None \<Rightarrow>
           let healthy = get_healthy_worker_indices workers info
           in if healthy = [] then None
              else Some (healthy ! random_range (raw ELIGIBLE_DRAWS) (length healthy))),
      \<lambda>i. raw (i + ELIGIBLE_DRAWS + 1))"

section \<open>Round robin\<close>

definition MAX_TRACKED_SETS :: nat where
  "MAX_TRACKED_SETS = 4096"

record rotation =
  rot_next :: u64
  rot_last_used :: u64

record round_robin_policy =
  rr_counters :: "(u64 \<times> rotation) list"
  rr_next_start :: u64
  rr_tick :: u64

definition round_robin_new :: round_robin_policy where
  "round_robin_new = \<lparr>rr_counters = [], rr_next_start = 0, rr_tick = 0\<rparr>"

definition set_key :: "(string list \<Rightarrow> u64) \<Rightarrow> pool_worker list \<Rightarrow> nat list \<Rightarrow> u64" where
  "set_key hash_urls workers healthy = hash_urls (map (\<lambda>i. wk_url (workers ! i)) healthy)"

definition advance :: "u64 \<Rightarrow> round_robin_policy \<Rightarrow> u64 \<times> round_robin_policy" where
  "advance key rr =
     (case map_of (rr_counters rr) key of
        Some r \<Rightarrow>
          (rot_next r,
           rr\<lparr>rr_counters := AList.update key
                \<lparr>rot_next = rot_next r + 1, rot_last_used = max (rot_last_used r) (rr_tick rr)\<rparr> (rr_counters rr)\<rparr>)
      | None \<Rightarrow>
          let now = rr_tick rr + 1;
              counters = (if MAX_TRACKED_SETS \<le> length (rr_counters rr)
                          then case min_by_key (\<lambda>e. rot_last_used (snd e)) (rr_counters rr) of
                                 Some stale \<Rightarrow> AList.delete (fst stale) (rr_counters rr)
                               | None \<Rightarrow> rr_counters rr
                          else rr_counters rr);
              start = rr_next_start rr
          in (start,
              \<lparr>rr_counters = AList.update key \<lparr>rot_next = start + 1, rot_last_used = now\<rparr> counters,
               rr_next_start = start + 1, rr_tick = now\<rparr>))"

definition round_robin_select ::
  "(string list \<Rightarrow> u64) \<Rightarrow> round_robin_policy \<Rightarrow> pool_worker list \<Rightarrow> select_worker_info
     \<Rightarrow> nat option \<times> round_robin_policy" where
  "round_robin_select hash_urls rr workers info =
     (let healthy = get_healthy_worker_indices workers info
      in if healthy = [] then (None, rr)
         else case advance (set_key hash_urls workers healthy) rr of
                (cnt, rr') \<Rightarrow> (Some (healthy ! (unat cnt mod length healthy)), rr'))"

definition round_robin_reset :: "round_robin_policy \<Rightarrow> round_robin_policy" where
  "round_robin_reset rr = rr\<lparr>rr_counters := [], rr_next_start := 0, rr_tick := 0\<rparr>"

section \<open>Consistent hashing\<close>

datatype branch = NoHealthyWorkers | TargetWorkerHit | TargetWorkerMiss | RoutingKeyHit | ImplicitKeyHit | RandomFallback

definition rposition :: "('a \<Rightarrow> bool) \<Rightarrow> 'a list \<Rightarrow> nat option" where
  "rposition p xs = find (\<lambda>i. p (xs ! i)) (rev [0..<length xs])"

definition hash_eligible :: "select_worker_info \<Rightarrow> pool_worker \<Rightarrow> bool" where
  "hash_eligible info w =
     (if si_overload_lifted info then eligible_ignoring_overload (wk_state w) else is_healthy_and_eligible w)"

definition eligible_at :: "pool_worker list \<Rightarrow> select_worker_info \<Rightarrow> string \<Rightarrow> nat option" where
  "eligible_at workers info url = rposition (\<lambda>w. wk_url w = url \<and> hash_eligible info w) workers"

text \<open>The cell the probe of the ring writes holds the answer for the url the lookup returns.\<close>

definition find_by_consistent_hash ::
  "(string \<Rightarrow> bytes) \<Rightarrow> pool_worker list \<Rightarrow> select_worker_info \<Rightarrow> string \<Rightarrow> nat option" where
  "find_by_consistent_hash blake3 workers info key =
     (case si_hash_ring info of
        Some ring \<Rightarrow>
          Option.bind (find_healthy_url blake3 ring key (\<lambda>url. eligible_at workers info url \<noteq> None))
            (eligible_at workers info)
      | None \<Rightarrow>
          let healthy = indices_where (hash_eligible info) workers
          in if healthy = [] then None
             else Some (healthy ! (unat (hash_position blake3 key) mod length healthy)))"

definition session_key :: "select_worker_info \<Rightarrow> string option" where
  "session_key info =
     (case si_routing_key info of
        Some key \<Rightarrow> Some key
      | None \<Rightarrow> (case extract_routing_key_hint (si_headers info) of
                  Some key \<Rightarrow> Some key
                | None \<Rightarrow> si_rid_key info))"

definition implicit_key :: "(string \<Rightarrow> string option) \<Rightarrow> headers \<Rightarrow> string option" where
  "implicit_key to_str hs =
     (case Option.bind (case header_get hs ''x-forwarded-for'' of
                          Some v \<Rightarrow> Some v
                        | None \<Rightarrow> header_get hs ''cookie'') to_str of
        None \<Rightarrow> None
      | Some s \<Rightarrow> if s = [] then None else Some s)"

definition keyed_result :: "branch \<Rightarrow> nat option \<Rightarrow> nat option \<times> branch" where
  "keyed_result hit found = (case found of Some idx \<Rightarrow> (Some idx, hit) | None \<Rightarrow> (None, NoHealthyWorkers))"

definition select_worker_impl ::
  "(string \<Rightarrow> bytes) \<Rightarrow> (string \<Rightarrow> string option) \<Rightarrow> nat \<Rightarrow> pool_worker list \<Rightarrow> select_worker_info
     \<Rightarrow> nat option \<times> branch" where
  "select_worker_impl blake3 to_str raw workers info =
     (if workers = [] then (None, NoHealthyWorkers)
      else case extract_target_worker to_str (si_headers info) of
        Some idx_str \<Rightarrow>
          (case parse_unsigned 64 idx_str of
             Some idx \<Rightarrow>
               if idx < length workers \<and> is_healthy_and_eligible (workers ! idx) then (Some idx, TargetWorkerHit)
               else (None, TargetWorkerMiss)
           | None \<Rightarrow> (None, TargetWorkerMiss))
      | None \<Rightarrow>
          (case session_key info of
             Some key \<Rightarrow> keyed_result RoutingKeyHit (find_by_consistent_hash blake3 workers info key)
           | None \<Rightarrow>
               (case implicit_key to_str (si_headers info) of
                  Some key \<Rightarrow> keyed_result ImplicitKeyHit (find_by_consistent_hash blake3 workers info key)
                | None \<Rightarrow>
                    let healthy = indices_where is_healthy_and_eligible workers
                    in if healthy = [] then (None, NoHealthyWorkers)
                       else (Some (healthy ! random_range raw (length healthy)), RandomFallback))))"

definition consistent_hashing_select ::
  "(string \<Rightarrow> bytes) \<Rightarrow> (string \<Rightarrow> string option) \<Rightarrow> nat \<Rightarrow> pool_worker list \<Rightarrow> select_worker_info \<Rightarrow> nat option" where
  "consistent_hashing_select blake3 to_str raw workers info = fst (select_worker_impl blake3 to_str raw workers info)"

definition routes_by_session_key :: "(string \<Rightarrow> string option) \<Rightarrow> select_worker_info \<Rightarrow> bool" where
  "routes_by_session_key to_str info \<longleftrightarrow>
     extract_target_worker to_str (si_headers info) = None \<and> session_key info \<noteq> None"

section \<open>The contract of a policy\<close>

text \<open>What routing relies on: a policy names a worker the selection admits, and names none only when
  there is none.  \<open>place_all\<close> is the placement of a sequence of requests, each with the pool as it
  is at that moment.\<close>

definition placement_ok :: "pool_worker list \<times> select_worker_info \<Rightarrow> nat option \<Rightarrow> bool" where
  "placement_ok request outcome =
     (case request of (workers, info) \<Rightarrow>
       (case outcome of
          Some i \<Rightarrow> i < length workers \<and> admits info (wk_state (workers ! i))
        | None \<Rightarrow> (\<forall>w\<in>set workers. \<not> admits info (wk_state w))))"

fun place_all ::
  "('s \<Rightarrow> pool_worker list \<Rightarrow> select_worker_info \<Rightarrow> nat option \<times> 's) \<Rightarrow> 's
     \<Rightarrow> (pool_worker list \<times> select_worker_info) list \<Rightarrow> nat option list" where
  "place_all select s [] = []"
| "place_all select s ((workers, info) # requests) =
     (case select s workers info of (outcome, s') \<Rightarrow> outcome # place_all select s' requests)"

locale balancing_policy =
  fixes select :: "'s \<Rightarrow> pool_worker list \<Rightarrow> select_worker_info \<Rightarrow> nat option \<times> 's"
  assumes selects: "placement_ok (workers, info) (fst (select s workers info))"
begin

lemma places: "list_all2 placement_ok requests (place_all select s requests)"
proof (induction requests arbitrary: s)
  case (Cons r requests)
  obtain workers info where r: "r = (workers, info)" by fastforce
  show ?case
    using selects [of workers info s] Cons
    by (cases "select s workers info") (auto simp: r)
qed simp

lemma never_ineligible:
  assumes "k < length requests" "place_all select s requests ! k = Some i" "requests ! k = (workers, info)"
  shows "i < length workers \<and> admits info (wk_state (workers ! i))"
  using list_all2_nthD [OF places [of requests s] assms(1)] assms(2,3) by (simp add: placement_ok_def)

end

lemma find_upt_None: "find p [0..<n] = None \<longleftrightarrow> (\<forall>i<n. \<not> p i)"
  by (auto simp: find_None_iff)

lemma find_in: "find p xs = Some x \<Longrightarrow> x \<in> set xs \<and> p x"
  by (induction xs) (auto split: if_splits)

lemma indices_where_mem: "i \<in> set (indices_where p xs) \<longleftrightarrow> i < length xs \<and> p (xs ! i)"
  by (auto simp: indices_where_def)

lemma indices_where_Nil: "indices_where p xs = [] \<longleftrightarrow> (\<forall>x\<in>set xs. \<not> p x)"
  by (auto simp: indices_where_def filter_empty_conv all_set_conv_all_nth)

lemma indices_where_nth: "n mod length (indices_where p xs) = k \<Longrightarrow> indices_where p xs \<noteq> [] \<Longrightarrow>
    indices_where p xs ! k < length xs \<and> p (xs ! (indices_where p xs ! k))"
  using indices_where_mem [of "indices_where p xs ! k" p xs] nth_mem [of k "indices_where p xs"] by fastforce

interpretation passthrough: balancing_policy passthrough_select
proof
  fix s workers info
  show "placement_ok (workers, info) (fst (passthrough_select s workers info))"
    unfolding placement_ok_def passthrough_select_def position_def
    by (auto split: option.split dest: find_in simp: find_upt_None all_set_conv_all_nth)
qed

lemma find_map_Some: "find_map f xs = Some y \<Longrightarrow> \<exists>x\<in>set xs. f x = Some y"
  by (induction xs) (auto split: option.splits)

lemma draw_eligible_Some:
  assumes "draw_eligible raw workers info taken = Some i"
  shows "i < length workers \<and> admits info (wk_state (workers ! i)) \<and> taken \<noteq> Some i"
proof -
  have "length workers \<noteq> 0" using assms by (auto simp: draw_eligible_def split: if_splits)
  then have "raw x mod length workers < length workers" for x by simp
  then show ?thesis
    using assms unfolding draw_eligible_def random_range_def Let_def
    by (auto split: if_splits dest!: find_map_Some)
qed

interpretation random: balancing_policy random_select
proof
  fix raw workers info
  show "placement_ok (workers, info) (fst (random_select raw workers info))"
    using indices_where_nth [OF refl, of "\<lambda>w. admits info (wk_state w)" workers]
    by (auto simp: placement_ok_def random_select_def Let_def get_healthy_worker_indices_def indices_where_Nil
        random_range_def dest: draw_eligible_Some split: option.split)
qed

interpretation round_robin: balancing_policy "round_robin_select hash_urls" for hash_urls
proof
  fix rr workers info
  show "placement_ok (workers, info) (fst (round_robin_select hash_urls rr workers info))"
    using indices_where_nth [OF refl, of "\<lambda>w. admits info (wk_state w)" workers]
    by (auto simp: placement_ok_def round_robin_select_def Let_def get_healthy_worker_indices_def indices_where_Nil
        split: option.split prod.split)
qed

text \<open>C40. Passthrough, random and round robin place any sequence of requests, over pools that change
  from one request to the next, on workers the selection admits: ready, breaker not open, not
  stalled, and not overloaded unless the overload veto is lifted.  A request is refused only when
  its pool has no such worker.\<close>

theorem policies_place_on_eligible_workers:
  "list_all2 placement_ok requests (place_all passthrough_select warned requests)
   \<and> list_all2 placement_ok requests (place_all random_select raw requests)
   \<and> list_all2 placement_ok requests (place_all (round_robin_select hash_urls) rr requests)"
  by (simp add: passthrough.places random.places round_robin.places)

section \<open>Round robin is fair\<close>

fun advance_all :: "u64 list \<Rightarrow> round_robin_policy \<Rightarrow> u64 list" where
  "advance_all [] rr = []"
| "advance_all (key # keys) rr = (case advance key rr of (n, rr') \<Rightarrow> n # advance_all keys rr')"

definition numbers_of :: "'k \<Rightarrow> 'k list \<Rightarrow> 'v list \<Rightarrow> 'v list" where
  "numbers_of key keys ns = map snd (filter (\<lambda>p. fst p = key) (zip keys ns))"

definition tracked :: "round_robin_policy \<Rightarrow> u64 set" where
  "tracked rr = fst ` set (rr_counters rr)"

definition rr_ok :: "round_robin_policy \<Rightarrow> bool" where
  "rr_ok rr \<longleftrightarrow> distinct (map fst (rr_counters rr)) \<and> length (rr_counters rr) \<le> MAX_TRACKED_SETS"

lemma length_update: "length (AList.update k v al) = (if k \<in> fst ` set al then length al else Suc (length al))"
  by (induction al) auto

lemma length_delete_mem: "distinct (map fst al) \<Longrightarrow> k \<in> fst ` set al \<Longrightarrow> Suc (length (AList.delete k al)) = length al"
proof (induction al)
  case (Cons a al)
  have "AList.delete k al = al" if "k \<notin> fst ` set al" using that by (simp add: delete_idem)
  with Cons show ?case by (cases "fst a = k") auto
qed simp

lemma advance_ok: "rr_ok rr \<Longrightarrow> rr_ok (snd (advance key rr))"
proof (cases "map_of (rr_counters rr) key")
  case (Some r)
  assume "rr_ok rr"
  moreover have "key \<in> fst ` set (rr_counters rr)" using Some by (metis map_of_eq_None_iff option.distinct(1))
  ultimately show ?thesis using Some by (simp add: advance_def rr_ok_def distinct_update length_update)
next
  case None
  assume ok: "rr_ok rr"
  show ?thesis
  proof (cases "MAX_TRACKED_SETS \<le> length (rr_counters rr)")
    case True
    then have "rr_counters rr \<noteq> []" by (auto simp: MAX_TRACKED_SETS_def)
    then obtain st where st: "min_by_key (\<lambda>e. rot_last_used (snd e)) (rr_counters rr) = Some st"
      using min_by_key_None by (metis option.exhaust)
    then have "fst st \<in> fst ` set (rr_counters rr)" using min_by_key_in by fastforce
    with ok have "Suc (length (AList.delete (fst st) (rr_counters rr))) \<le> MAX_TRACKED_SETS"
      by (simp add: rr_ok_def length_delete_mem)
    with ok show ?thesis
      using None True st by (auto simp: advance_def rr_ok_def Let_def distinct_update length_update distinct_delete)
  next
    case False
    with ok None show ?thesis by (auto simp: advance_def rr_ok_def Let_def distinct_update length_update)
  qed
qed

lemma advance_step:
  assumes "rr_ok rr" "card (insert key (tracked rr)) \<le> MAX_TRACKED_SETS"
  shows "\<exists>r. map_of (rr_counters (snd (advance key rr))) = (map_of (rr_counters rr))(key \<mapsto> r) \<and> rot_next r = fst (advance key rr) + 1"
    and "tracked (snd (advance key rr)) = insert key (tracked rr)"
    and "fst (advance key rr) = (case map_of (rr_counters rr) key of Some r \<Rightarrow> rot_next r | None \<Rightarrow> rr_next_start rr)"
    and "rr_next_start (snd (advance key rr)) = (if key \<in> tracked rr then rr_next_start rr else rr_next_start rr + 1)"
proof -
  have "\<not> MAX_TRACKED_SETS \<le> length (rr_counters rr)" if "map_of (rr_counters rr) key = None"
  proof -
    have "key \<notin> tracked rr" using that by (simp add: tracked_def map_of_eq_None_iff)
    then have "card (insert key (tracked rr)) = Suc (card (tracked rr))"
      by (simp add: tracked_def)
    moreover have "card (tracked rr) = length (rr_counters rr)"
      using assms(1) distinct_card [of "map fst (rr_counters rr)"] by (simp add: rr_ok_def tracked_def)
    ultimately show ?thesis using assms(2) by simp
  qed
  then have a: "advance key rr = (case map_of (rr_counters rr) key of
      Some r \<Rightarrow> (rot_next r, rr\<lparr>rr_counters := AList.update key
          \<lparr>rot_next = rot_next r + 1, rot_last_used = max (rot_last_used r) (rr_tick rr)\<rparr> (rr_counters rr)\<rparr>)
    | None \<Rightarrow> (rr_next_start rr, \<lparr>rr_counters = AList.update key \<lparr>rot_next = rr_next_start rr + 1, rot_last_used = rr_tick rr + 1\<rparr> (rr_counters rr),
               rr_next_start = rr_next_start rr + 1, rr_tick = rr_tick rr + 1\<rparr>))"
    by (simp add: advance_def Let_def split: option.split)
  have k: "key \<in> tracked rr \<longleftrightarrow> map_of (rr_counters rr) key \<noteq> None"
    by (simp add: tracked_def map_of_eq_None_iff)
  show "\<exists>r. map_of (rr_counters (snd (advance key rr))) = (map_of (rr_counters rr))(key \<mapsto> r) \<and> rot_next r = fst (advance key rr) + 1"
    unfolding a by (auto simp: update_conv' split: option.split)
  show "tracked (snd (advance key rr)) = insert key (tracked rr)"
    unfolding a tracked_def by (auto simp: dom_update simp flip: dom_map_of_conv_image_fst split: option.split)
  show "fst (advance key rr) = (case map_of (rr_counters rr) key of Some r \<Rightarrow> rot_next r | None \<Rightarrow> rr_next_start rr)"
    unfolding a by (simp split: option.split)
  show "rr_next_start (snd (advance key rr)) = (if key \<in> tracked rr then rr_next_start rr else rr_next_start rr + 1)"
    unfolding k a by (simp split: option.split)
qed

text \<open>Without evictions a set counts through consecutive numbers, whatever the other sets do in
  between.\<close>

lemma set_counts_on:
  assumes "rr_ok rr" "card (tracked rr \<union> set keys) \<le> MAX_TRACKED_SETS"
  shows "\<exists>c. numbers_of key keys (advance_all keys rr) = map (\<lambda>i. c + of_nat i) [0..<count_list keys key]
    \<and> (case map_of (rr_counters rr) key of Some r \<Rightarrow> c = rot_next r | None \<Rightarrow> \<exists>j\<le>length keys. c = rr_next_start rr + of_nat j)"
  using assms
proof (induction keys arbitrary: rr)
  case Nil
  then show ?case by (cases "map_of (rr_counters rr) key") (auto simp: numbers_of_def)
next
  case (Cons k keys)
  define rr' where "rr' = snd (advance k rr)"
  have "card (insert k (tracked rr)) \<le> card (tracked rr \<union> set (k # keys))"
    by (rule card_mono) (auto simp: tracked_def)
  with Cons.prems(2) have "card (insert k (tracked rr)) \<le> MAX_TRACKED_SETS" by simp
  note step = advance_step [OF Cons.prems(1) this, folded rr'_def]
  obtain r where r: "map_of (rr_counters rr') = (map_of (rr_counters rr))(k \<mapsto> r)" "rot_next r = fst (advance k rr) + 1"
    using step(1) by blast
  have "rr_ok rr'" unfolding rr'_def using Cons.prems(1) by (rule advance_ok)
  moreover have "card (tracked rr' \<union> set keys) \<le> MAX_TRACKED_SETS" using Cons.prems(2) step(2) by simp
  ultimately obtain c where c: "numbers_of key keys (advance_all keys rr') = map (\<lambda>i. c + of_nat i) [0..<count_list keys key]"
    "case map_of (rr_counters rr') key of Some r \<Rightarrow> c = rot_next r | None \<Rightarrow> \<exists>j\<le>length keys. c = rr_next_start rr' + of_nat j"
    using Cons.IH by blast
  have all: "advance_all (k # keys) rr = fst (advance k rr) # advance_all keys rr'"
    by (simp add: rr'_def split: prod.split)
  show ?case
  proof (cases "k = key")
    case True
    let ?n = "fst (advance k rr)"
    have "c = ?n + 1" using c(2) r True by simp
    then have "numbers_of key (k # keys) (advance_all (k # keys) rr) = map (\<lambda>i. ?n + of_nat i) [0..<count_list (k # keys) key]"
      using c(1) True unfolding all
      by (simp add: numbers_of_def upt_conv_Cons map_Suc_upt [symmetric] comp_def add.assoc del: upt_Suc)
    moreover have "case map_of (rr_counters rr) key of Some r \<Rightarrow> ?n = rot_next r | None \<Rightarrow> \<exists>j\<le>length (k # keys). ?n = rr_next_start rr + of_nat j"
      using step(3) True by (auto split: option.split intro: exI [of _ 0])
    ultimately show ?thesis by blast
  next
    case False
    have "\<exists>j\<le>length (k # keys). c = rr_next_start rr + of_nat j" if none: "map_of (rr_counters rr) key = None"
    proof -
      obtain j where "j \<le> length keys" "c = rr_next_start rr' + of_nat j" using c(2) r(1) False none by auto
      then show ?thesis
        using step(4) by (cases "k \<in> tracked rr") (auto intro: exI [of _ j] exI [of _ "Suc j"])
    qed
    with c r(1) False all show ?thesis
      by (intro exI [of _ c]) (auto simp: numbers_of_def split: option.splits)
  qed
qed

definition candidates :: "pool_worker list \<times> select_worker_info \<Rightarrow> string list" where
  "candidates request = (case request of (workers, info) \<Rightarrow>
     map (\<lambda>i. wk_url (workers ! i)) (get_healthy_worker_indices workers info))"

text \<open>The urls chosen for the requests with a given candidate set, in order.\<close>

definition picked ::
  "string list \<Rightarrow> (pool_worker list \<times> select_worker_info) list \<Rightarrow> nat option list \<Rightarrow> string list" where
  "picked urls requests outcomes =
     List.map_filter (\<lambda>(request, outcome). if candidates request = urls
       then map_option (\<lambda>i. wk_url (fst request ! i)) outcome else None) (zip requests outcomes)"

definition request_keys :: "(string list \<Rightarrow> u64) \<Rightarrow> (pool_worker list \<times> select_worker_info) list \<Rightarrow> u64 list" where
  "request_keys hash_urls requests = map hash_urls (filter (\<lambda>urls. urls \<noteq> []) (map candidates requests))"

lemma picked_numbers:
  assumes "urls \<noteq> []" "\<forall>r\<in>set requests. hash_urls (candidates r) = hash_urls urls \<longrightarrow> candidates r \<noteq> [] \<longrightarrow> candidates r = urls"
  shows "picked urls requests (place_all (round_robin_select hash_urls) rr requests)
    = map (\<lambda>n. urls ! (unat n mod length urls))
        (numbers_of (hash_urls urls) (request_keys hash_urls requests) (advance_all (request_keys hash_urls requests) rr))"
  using assms(2)
proof (induction requests arbitrary: rr)
  case Nil
  show ?case by (simp add: picked_def request_keys_def numbers_of_def)
next
  case (Cons r requests)
  obtain workers info where r: "r = (workers, info)" by fastforce
  let ?h = "get_healthy_worker_indices workers info"
  have cand: "candidates r = map (\<lambda>i. wk_url (workers ! i)) ?h" by (simp add: r candidates_def)
  note IH = Cons.IH [unfolded picked_def request_keys_def numbers_of_def]
  show ?case
  proof (cases "?h = []")
    case True
    then have "round_robin_select hash_urls rr workers info = (None, rr)" "candidates r = []"
      using cand by (simp_all add: round_robin_select_def)
    then show ?thesis
      using IH [of rr] Cons.prems assms(1)
      by (simp add: r picked_def request_keys_def numbers_of_def)
  next
    case False
    obtain n rr' where adv: "advance (hash_urls (candidates r)) rr = (n, rr')" by fastforce
    then have sel: "round_robin_select hash_urls rr workers info = (Some (?h ! (unat n mod length ?h)), rr')"
      using False by (simp add: round_robin_select_def Let_def set_key_def cand)
    have "candidates r ! (unat n mod length (candidates r)) = wk_url (workers ! (?h ! (unat n mod length ?h)))"
      using False by (simp add: cand)
    moreover have "candidates r = urls \<longleftrightarrow> hash_urls (candidates r) = hash_urls urls"
      using Cons.prems False cand by auto
    moreover have "candidates r \<noteq> []" using False cand by simp
    ultimately show ?thesis
      using IH [of rr'] Cons.prems sel adv
      by (auto simp: r picked_def request_keys_def numbers_of_def)
  qed
qed

lemma count_distinct: "distinct xs \<Longrightarrow> count_list xs a = (if a \<in> set xs then 1 else 0)"
  by (induction xs) auto

lemma cyclic_counts:
  assumes "distinct urls" "a \<in> set urls"
  shows "count_list (map (\<lambda>i. urls ! ((c + i) mod length urls)) [0..<m]) a \<in> {m div length urls, m div length urls + 1}"
proof (induction m arbitrary: c rule: less_induct)
  case (less m)
  let ?n = "length urls" and ?f = "\<lambda>c i. urls ! ((c + i) mod length urls)"
  have n: "?n > 0" using assms(2) by auto
  have round: "map (?f c) [0..<?n] = rotate c urls" for c
    by (rule walk_rotate)
  show ?case
  proof (cases "m < ?n")
    case True
    have "map (?f c) [0..<m] = take m (rotate c urls)"
      using True by (simp add: take_map flip: round)
    moreover have "distinct (take m (rotate c urls))" using assms(1) by simp
    ultimately show ?thesis using True by (simp add: count_distinct)
  next
    case False
    then have "[0..<m] = [0..<?n] @ map (\<lambda>i. i + ?n) [0..<m - ?n]"
      using upt_add_eq_append [of 0 ?n "m - ?n"] by (simp add: map_add_upt)
    then have "map (?f c) [0..<m] = map (?f c) [0..<?n] @ map (\<lambda>i. ?f c (i + ?n)) [0..<m - ?n]"
      by (simp add: comp_def)
    moreover have "(\<lambda>i. ?f c (i + ?n)) = ?f (c + ?n)" by (simp add: ac_simps)
    ultimately have "map (?f c) [0..<m] = rotate c urls @ map (?f (c + ?n)) [0..<m - ?n]"
      by (simp only: round)
    moreover have "count_list (rotate c urls) a = 1" using assms by (simp add: count_distinct)
    moreover have "m div ?n = Suc ((m - ?n) div ?n)" using False n by (simp add: le_div_geq)
    moreover have "m - ?n < m" using False n by linarith
    ultimately show ?thesis using less.IH [of "m - ?n" "c + ?n"] by auto
  qed
qed

lemma request_keys_count:
  assumes "urls \<noteq> []" "\<forall>r\<in>set requests. hash_urls (candidates r) = hash_urls urls \<longrightarrow> candidates r \<noteq> [] \<longrightarrow> candidates r = urls"
  shows "count_list (request_keys hash_urls requests) (hash_urls urls) = length (filter (\<lambda>r. candidates r = urls) requests)"
  using assms by (induction requests) (auto simp: request_keys_def)


section \<open>Session affinity\<close>

definition serves :: "pool_worker list \<Rightarrow> select_worker_info \<Rightarrow> string \<Rightarrow> bool" where
  "serves workers info url \<longleftrightarrow> (\<exists>w\<in>set workers. wk_url w = url \<and> hash_eligible info w)"

lemma eligible_at_None: "eligible_at workers info url = None \<longleftrightarrow> \<not> serves workers info url"
  unfolding eligible_at_def rposition_def serves_def find_None_iff set_rev set_upt
  by (metis atLeastLessThan_iff in_set_conv_nth zero_le)

lemma eligible_at_Some:
  "eligible_at workers info url = Some i \<Longrightarrow> i < length workers \<and> wk_url (workers ! i) = url \<and> hash_eligible info (workers ! i)"
  by (auto simp: eligible_at_def rposition_def dest: find_in)

lemma keyed_select:
  assumes "routes_by_session_key to_str info" "session_key info = Some key" "si_hash_ring info = Some ring"
  shows "consistent_hashing_select blake3 to_str raw workers info
    = Option.bind (find_healthy_url blake3 ring key (serves workers info)) (eligible_at workers info)"
proof -
  have up: "(\<lambda>url. eligible_at workers info url \<noteq> None) = serves workers info"
    by (auto simp: eligible_at_None fun_eq_iff)
  have "eligible_at [] info = (\<lambda>url. None)" by (simp add: fun_eq_iff eligible_at_def rposition_def)
  then have "workers = [] \<Longrightarrow> Option.bind (find_healthy_url blake3 ring key (serves workers info)) (eligible_at workers info) = None"
    by (cases "find_healthy_url blake3 ring key (serves [] info)") simp_all
  then show ?thesis
    using assms up
    by (auto simp: consistent_hashing_select_def select_worker_impl_def routes_by_session_key_def
        keyed_result_def find_by_consistent_hash_def split: option.split)
qed

lemma keyed_select_Some:
  assumes "Option.bind (find_healthy_url blake3 ring key (serves workers info)) (eligible_at workers info) = Some i"
  shows "find_healthy_url blake3 ring key (serves workers info) = Some (wk_url (workers ! i))
    \<and> i < length workers \<and> hash_eligible info (workers ! i)"
  using assms by (auto simp: bind_eq_Some_conv dest: eligible_at_Some)

text \<open>C37. Sessions stick to their workers.  A request with a session key and no target worker is
  placed by the ring, which has followed the fleet through any sequence of membership changes.  It
  is refused exactly when no worker of the pool is eligible, and otherwise goes to an eligible
  worker.  When after further changes the key goes to a different url, then the first url no longer
  has an eligible worker or the second had none before.\<close>

theorem session_affinity:
  assumes "\<forall>us\<in>set (us0 # uss @ uss'). length us < 2 ^ 31"
    and "collision_free blake3 (set (last (us0 # uss)) \<union> set (last (us0 # uss @ uss')))"
    and "session_key info = Some key" "session_key info' = Some key"
    and "routes_by_session_key to_str info" "routes_by_session_key to_str info'"
    and "si_hash_ring info = Some (fold (ring_updated blake3) uss (ring_new blake3 us0))"
    and "si_hash_ring info' = Some (fold (ring_updated blake3) (uss @ uss') (ring_new blake3 us0))"
    and "wk_url ` set workers \<subseteq> set (last (us0 # uss))" "wk_url ` set workers' \<subseteq> set (last (us0 # uss @ uss'))"
  shows "(consistent_hashing_select blake3 to_str raw workers info = None \<longleftrightarrow> (\<forall>w\<in>set workers. \<not> hash_eligible info w))
    \<and> (consistent_hashing_select blake3 to_str raw workers info = Some i \<longrightarrow> i < length workers \<and> hash_eligible info (workers ! i))
    \<and> (consistent_hashing_select blake3 to_str raw workers info = Some i
       \<and> consistent_hashing_select blake3 to_str raw' workers' info' = Some i' \<and> wk_url (workers ! i) \<noteq> wk_url (workers' ! i')
       \<longrightarrow> \<not> serves workers' info' (wk_url (workers ! i)) \<or> \<not> serves workers info (wk_url (workers' ! i')))"
proof -
  let ?r = "fold (ring_updated blake3) uss (ring_new blake3 us0)" and ?r' = "fold (ring_updated blake3) (uss @ uss') (ring_new blake3 us0)"
  let ?sel = "consistent_hashing_select blake3 to_str raw workers info" and ?sel' = "consistent_hashing_select blake3 to_str raw' workers' info'"
  have ok: "ring_ok blake3 ?r" "set (ring_urls ?r) = set (last (us0 # uss))"
    "ring_ok blake3 ?r'" "set (ring_urls ?r') = set (last (us0 # uss @ uss'))"
    using updates_ok [of us0 uss blake3] updates_ok [of us0 "uss @ uss'" blake3] assms(1) by simp_all
  note sel = keyed_select [OF assms(5,3,7), of blake3 raw workers] and sel' = keyed_select [OF assms(6,4,8), of blake3 raw' workers']
  have cf: "collision_free blake3 (set (ring_urls ?r) \<union> set (ring_urls ?r'))" "collision_free blake3 (set (ring_urls ?r))"
    using assms(2) ok by (auto simp: collision_free_def intro: inj_on_subset)
  note f = find_by_urls(2) [OF ok(1) cf(2), of key "serves workers info"]
  have "?sel = None \<longleftrightarrow> find_healthy_url blake3 ?r key (serves workers info) = None"
  proof (cases "find_healthy_url blake3 ?r key (serves workers info)")
    case (Some u)
    then have "serves workers info u"
      using ring_minimal_disruption [OF ok(1) ok(3) cf(1), of key "serves workers info" u] by blast
    then show ?thesis using Some unfolding sel by (simp add: eligible_at_None)
  qed (simp add: sel)
  then have "?sel = None \<longleftrightarrow> (\<forall>w\<in>set workers. \<not> hash_eligible info w)"
    using f assms(9) ok(2) by (auto simp: serves_def)
  moreover have "i < length workers \<and> hash_eligible info (workers ! i)" if "?sel = Some i"
    using that keyed_select_Some unfolding sel by blast
  moreover have "\<not> serves workers' info' (wk_url (workers ! i)) \<or> \<not> serves workers info (wk_url (workers' ! i'))"
    if s: "?sel = Some i" "?sel' = Some i'" "wk_url (workers ! i) \<noteq> wk_url (workers' ! i')"
  proof -
    have "find_healthy_url blake3 ?r key (serves workers info) = Some (wk_url (workers ! i))"
      "find_healthy_url blake3 ?r' key (serves workers' info') = Some (wk_url (workers' ! i'))"
      using s(1,2) keyed_select_Some unfolding sel sel' by blast+
    moreover have "url \<in> set (ring_urls ?r')" if "serves workers' info' url" for url
      using that assms(10) ok(4) by (auto simp: serves_def)
    moreover have "url \<in> set (ring_urls ?r)" if "serves workers info url" for url
      using that assms(9) ok(2) by (auto simp: serves_def)
    ultimately show ?thesis
      using ring_minimal_disruption [OF ok(1) ok(3) cf(1), of key "serves workers info" "wk_url (workers ! i)" "serves workers' info'" "wk_url (workers' ! i')"] s(3) by blast
  qed
  ultimately show ?thesis by blast
qed

text \<open>A hash policy does not look at the circuit breaker, unless the overload veto is lifted: then a
  worker whose breaker is open stops being eligible.\<close>

lemma lifted_veto_consults_breaker:
  "hash_eligible (info\<lparr>si_overload_lifted := False\<rparr>) w \<and> \<not> hash_eligible (info\<lparr>si_overload_lifted := True\<rparr>) w
     \<longleftrightarrow> is_healthy_and_eligible w \<and> \<not> rs_can_execute (wk_state w)"
  by (auto simp: hash_eligible_def is_healthy_and_eligible_def eligible_ignoring_overload_def)

section \<open>Token hints\<close>

text \<open>The value a client sends for a list of token ids.\<close>

fun join_ids :: "u32 list \<Rightarrow> string" where
  "join_ids [] = []"
| "join_ids [t] = decimal (unat t)"
| "join_ids (t # ts) = decimal (unat t) @ CHR '','' # join_ids ts"

lemma digits_to_nat_snoc: "digits_to_nat (s @ [c]) = 10 * digits_to_nat s + (of_char c - 48)"
  by (simp add: digits_to_nat_def)

lemma decimal_digits: "decimal n \<noteq> [] \<and> list_all is_digit (decimal n) \<and> digits_to_nat (decimal n) = n"
proof (induction n rule: decimal.induct)
  case (1 n)
  show ?case
  proof (cases "n < 10")
    case True
    then show ?thesis by (subst (1 2 3) decimal.simps) (simp add: is_digit_def byte_in_def digits_to_nat_def)
  next
    case False
    then have "decimal n = decimal (n div 10) @ [char_of (48 + n mod 10)]" by (subst decimal.simps) simp
    moreover have "of_char (char_of (48 + n mod 10) :: char) = 48 + n mod 10" by simp
    ultimately show ?thesis
      using 1 False by (simp add: is_digit_def byte_in_def digits_to_nat_snoc)
  qed
qed

lemma decimal_chars: "c \<in> set (decimal n) \<Longrightarrow> byte_in 48 57 c"
  using decimal_digits [of n] by (auto simp: list_all_iff is_digit_def)

lemma parse_decimal: "n < 2 ^ width \<Longrightarrow> parse_unsigned width (decimal n) = Some n"
proof -
  have "\<not> byte_in 48 57 CHR ''+''" by (simp add: byte_in_def)
  then have "decimal n \<noteq> CHR ''+'' # r" for r using decimal_chars [of "CHR ''+''" n] by auto
  then have "(case decimal n of c # r \<Rightarrow> if c = CHR ''+'' then r else decimal n | [] \<Rightarrow> decimal n) = decimal n"
    by (auto split: list.split)
  moreover assume "n < 2 ^ width"
  ultimately show ?thesis using decimal_digits [of n] by (simp add: parse_unsigned_def Let_def)
qed

lemma split_at_none: "sep \<notin> set s \<Longrightarrow> split_at sep s = [s]"
  by (induction s) auto

lemma split_at_append: "sep \<notin> set s \<Longrightarrow> split_at sep (s @ sep # t) = s # split_at sep t"
  by (induction s) auto

lemma split_join: "ids \<noteq> [] \<Longrightarrow> split_at CHR '','' (join_ids ids) = map (\<lambda>t. decimal (unat t)) ids"
proof (induction ids rule: join_ids.induct)
  case (2 t)
  then show ?case using decimal_chars [of "CHR '',''" "unat t"] by (auto simp: byte_in_def intro: split_at_none)
next
  case (3 t t' ts)
  have "CHR '','' \<notin> set (decimal (unat t))" using decimal_chars [of "CHR '',''" "unat t"] by (auto simp: byte_in_def)
  then show ?case using 3 by (simp add: split_at_append)
qed simp

lemma ascii_utf8: "list_all (byte_in 0 127) s \<Longrightarrow> utf8 s"
  by (induction s) simp_all

lemma join_ascii: "list_all (byte_in 0 127) (join_ids ids)"
  by (induction ids rule: join_ids.induct) (auto simp: list_all_iff byte_in_def dest!: decimal_chars)

lemma parse_ids_decimals:
  "length acc + length ids \<le> ROUTING_TOKENS_HINT_MAX_IDS \<Longrightarrow> parse_ids acc (map (\<lambda>t. decimal (unat t)) ids) = Some (acc @ ids)"
proof (induction ids arbitrary: acc)
  case (Cons t ids)
  have "parse_unsigned 32 (decimal (unat t)) = Some (unat t)"
    using unat_below [of t] by (intro parse_decimal) simp
  then show ?case using Cons decimal_digits [of "unat t"] by simp
qed simp

lemma parse_ids_bound: "parse_ids acc parts = Some ids \<Longrightarrow> length acc \<le> ROUTING_TOKENS_HINT_MAX_IDS \<Longrightarrow>
    length ids = length acc + length parts \<and> length ids \<le> ROUTING_TOKENS_HINT_MAX_IDS"
  by (induction acc parts rule: parse_ids.induct) (auto split: if_splits option.splits)

lemma split_at_nonempty: "split_at sep s \<noteq> []"
  by (induction s) (auto split: list.splits)

text \<open>Token hints.  A list of token ids within the caps, rendered as a header value, is read
  back unchanged, and every hint that is accepted has at least one id and at most the capped
  number of them.\<close>

theorem routing_tokens_roundtrip:
  "(ids \<noteq> [] \<and> length ids \<le> ROUTING_TOKENS_HINT_MAX_IDS \<and> length (join_ids ids) \<le> ROUTING_TOKENS_HINT_MAX_BYTES
      \<longrightarrow> parse_routing_tokens_hint (Some [(''x-smg-routing-tokens'', join_ids ids)]) = Some ids)
   \<and> (parse_routing_tokens_hint hs = Some ids' \<longrightarrow> ids' \<noteq> [] \<and> length ids' \<le> ROUTING_TOKENS_HINT_MAX_IDS)"
proof
  have "join_ids ids \<noteq> []" if "ids \<noteq> []"
    using that decimal_digits by (cases ids rule: join_ids.cases) auto
  then show "ids \<noteq> [] \<and> length ids \<le> ROUTING_TOKENS_HINT_MAX_IDS \<and> length (join_ids ids) \<le> ROUTING_TOKENS_HINT_MAX_BYTES
      \<longrightarrow> parse_routing_tokens_hint (Some [(''x-smg-routing-tokens'', join_ids ids)]) = Some ids"
    using parse_ids_decimals [of "[]" ids] ascii_utf8 [OF join_ascii, of ids]
    by (auto simp: parse_routing_tokens_hint_def header_get_def from_utf8_def split_join)
  show "parse_routing_tokens_hint hs = Some ids' \<longrightarrow> ids' \<noteq> [] \<and> length ids' \<le> ROUTING_TOKENS_HINT_MAX_IDS"
    using parse_ids_bound [of "[]" _ ids'] split_at_nonempty [of "CHR '',''"]
    by (fastforce simp: parse_routing_tokens_hint_def split: option.splits if_splits)
qed

section \<open>Concrete pools\<close>

definition ready_state :: routing_state where
  "ready_state = \<lparr>rs_healthy = True, rs_can_execute = True, rs_load = 0, rs_processed = 0, rs_overloaded = False, rs_stalled = False\<rparr>"

definition demo_info :: select_worker_info where
  "demo_info = \<lparr>si_headers = None, si_routing_key = Some ''k'', si_rid_key = None, si_hash_ring = None, si_overload_lifted = False\<rparr>"

definition demo_pool :: "pool_worker list" where
  "demo_pool = [\<lparr>wk_url = ''x'', wk_state = ready_state\<lparr>rs_stalled := True\<rparr>\<rparr>, \<lparr>wk_url = ''y'', wk_state = ready_state\<rparr>]"

definition full_pool :: "pool_worker list" where
  "full_pool = [\<lparr>wk_url = ''x'', wk_state = ready_state\<rparr>, \<lparr>wk_url = ''y'', wk_state = ready_state\<rparr>]"

lemmas demo_defs = ready_state_def demo_info_def demo_pool_def full_pool_def

theorem session_affinity_witness:
  "consistent_hashing_select demo_blake3 Some 7 demo_pool
     (demo_info\<lparr>si_hash_ring := Some (ring_new demo_blake3 [''x'', ''y''])\<rparr>) = Some 1"
proof -
  let ?i = "demo_info\<lparr>si_hash_ring := Some (ring_new demo_blake3 [''x'', ''y''])\<rparr>"
  let ?sel = "consistent_hashing_select demo_blake3 Some 7 demo_pool ?i"
  have e: "hash_eligible ?i (demo_pool ! j) \<longleftrightarrow> j = 1" if "j < 2" for j
    using that by (auto simp: demo_defs hash_eligible_def is_healthy_and_eligible_def less_2_cases_iff)
  have len: "length demo_pool = 2" by (simp add: demo_defs)
  have "collision_free demo_blake3 (set (last ([''x'', ''y''] # [])) \<union> set (last ([''x'', ''y''] # [] @ [])))"
    using demo_collision_free by simp
  note stick = session_affinity [of "[''x'', ''y'']" "[]" "[]" demo_blake3 ?i "''k''" ?i Some demo_pool demo_pool 7, OF _ this]
  have "?sel = None \<longleftrightarrow> (\<forall>w\<in>set demo_pool. \<not> hash_eligible ?i w)"
    and "?sel = Some j \<longrightarrow> j < length demo_pool \<and> hash_eligible ?i (demo_pool ! j)" for j
    using stick [of j] by (simp_all add: demo_defs session_key_def routes_by_session_key_def
        extract_target_worker_def extract_header_value_def header_get_def)
  then show ?thesis
    using e [of 1] e len nth_mem [of 1 demo_pool] by (cases ?sel) (simp_all, metis One_nat_def)
qed


theorem routing_tokens_roundtrip_witness:
  "parse_routing_tokens_hint (Some [(''x-smg-routing-tokens'', ''7,0,65535'')]) = Some [7, 0, 65535]"
proof -
  have "join_ids [7, 0, 65535] = ''7,0,65535''"
    by (simp add: decimal.simps char_of_def bit_0)
  then show ?thesis
    using routing_tokens_roundtrip [of "[7, 0, 65535]"]
    by (simp add: ROUTING_TOKENS_HINT_MAX_IDS_def ROUTING_TOKENS_HINT_MAX_BYTES_def)
qed

end
