(* ===== verification/Spec2Isabelle.thy ===== *)
theory Spec2Isabelle
  imports
    Lww_Network
    Rate_Limit_Properties
    Router_Properties
    Watermark
    Chunk_Transport
    Mesh_Kv
    Peer_Stream
    Sched_World
    Circuit_Breaker
    Token_Bucket
    Limiter_Properties
    Data_Plane_Auth
    Routing_Policies
begin

text \<open>
  Verification of the Shepherd Model Gateway's replicated state.

  \<^bold>\<open>The program.\<close>  The mesh crate (\<open>src/crates/mesh/src\<close>) replicates a key-value store between
  gateway nodes: every node applies local writes, keeps a log of operations, and gossips it.

  \<^bold>\<open>The theories.\<close>
  \<^item> \<open>Smg_Prelude\<close>: machine integers, iterator methods, association lists as hash maps.
  \<^item> \<open>Crdt_Operation\<close>: \<open>crdt_kv/replica.rs\<close>, \<open>operation.rs\<close>, \<open>kv_store.rs\<close>, \<open>engine/op_log.rs\<close>.
  \<^item> \<open>Crdt_Spec\<close>: the interfaces \<open>join_semilattice_on\<close> and \<open>namespace_engine\<close>.
  \<^item> \<open>Lww_Engine\<close>: \<open>crdt_kv/engine/lww.rs\<close>; \<open>Lww_Network\<close>: nodes that gossip their logs.
  \<^item> \<open>Epoch_Max_Wins\<close>: \<open>crdt_kv/epoch_max_wins.rs\<close>.
  \<^item> \<open>Rate_Limit_Engine\<close>: \<open>crdt_kv/engine/rate_limit.rs\<close>.
\<close>

end
